(* ===== verification/H3_Prelude.thy ===== *)
theory H3_Prelude
  imports Main "HOL-Library.Word"
begin

text \<open>
  Shared vocabulary of the H3OS development: the machine integers of
  \<^verbatim>\<open>sdk/include/h3os/types.h\<close>, the alignment macros, the byte-addressed memory with its
  little-endian accesses, wrap-around address ranges, and the generic lemmas on words,
  lists and options that the component theories use.

  A pointer is a 64-bit word and \<open>0\<close> is \<^verbatim>\<open>NULL\<close>. Pointer arithmetic is word arithmetic, so
  it wraps as it does on the machine.
\<close>

unbundle bit_operations_syntax

section \<open>Machine integers and macros of types.h\<close>

type_synonym u8 = "8 word"
type_synonym u16 = "16 word"
type_synonym u32 = "32 word"
type_synonym u64 = "64 word"

text \<open>
  A signed C integer has the same representation; the signed order is \<open><s\<close> and its value
  is \<^term>\<open>sint\<close>.
\<close>

type_synonym i32 = "32 word"
type_synonym i64 = "64 word"

type_synonym addr = u64

definition NULL :: addr where
  "NULL = 0"

definition PAGE_SIZE :: u64 where
  "PAGE_SIZE = 4096"

definition H3OS_ALIGN_UP :: "u64 \<Rightarrow> u64 \<Rightarrow> u64" where
  "H3OS_ALIGN_UP x a = (x + (a - 1)) AND NOT (a - 1)"

definition H3OS_ALIGN_DOWN :: "u64 \<Rightarrow> u64 \<Rightarrow> u64" where
  "H3OS_ALIGN_DOWN x a = x AND NOT (a - 1)"

section \<open>Byte-addressed memory\<close>

type_synonym mem = "addr \<Rightarrow> u8"

text \<open>The \<open>n\<close> bytes from an address on, and the memory with a list of bytes stored there.\<close>

definition peek :: "mem \<Rightarrow> addr \<Rightarrow> nat \<Rightarrow> u8 list" where
  "peek m a n = map (\<lambda>i. m (a + of_nat i)) [0..<n]"

primrec poke :: "mem \<Rightarrow> addr \<Rightarrow> u8 list \<Rightarrow> mem" where
  "poke m a [] = m"
| "poke m a (b # bs) = poke (m(a := b)) (a + 1) bs"

text \<open>Little-endian decoding and encoding.\<close>

primrec word_of_bytes :: "u8 list \<Rightarrow> 'a::len word" where
  "word_of_bytes [] = 0"
| "word_of_bytes (b # bs) = ucast b OR push_bit 8 (word_of_bytes bs)"

definition bytes_of_word :: "nat \<Rightarrow> 'a::len word \<Rightarrow> u8 list" where
  "bytes_of_word n w = map (\<lambda>i. ucast (drop_bit (8 * i) w)) [0..<n]"

definition load16 :: "mem \<Rightarrow> addr \<Rightarrow> u16" where
  "load16 m a = word_of_bytes (peek m a 2)"

definition load32 :: "mem \<Rightarrow> addr \<Rightarrow> u32" where
  "load32 m a = word_of_bytes (peek m a 4)"

definition load64 :: "mem \<Rightarrow> addr \<Rightarrow> u64" where
  "load64 m a = word_of_bytes (peek m a 8)"

definition store32 :: "mem \<Rightarrow> addr \<Rightarrow> u32 \<Rightarrow> mem" where
  "store32 m a v = poke m a (bytes_of_word 4 v)"

definition store64 :: "mem \<Rightarrow> addr \<Rightarrow> u64 \<Rightarrow> mem" where
  "store64 m a v = poke m a (bytes_of_word 8 v)"

text \<open>
  \<open>in_range a b n\<close>: the address \<open>a\<close> is one of the \<open>n\<close> addresses from \<open>b\<close> on. Written with
  a word subtraction, so a range may wrap past the top of the address space.
\<close>

definition in_range :: "addr \<Rightarrow> addr \<Rightarrow> nat \<Rightarrow> bool" where
  "in_range a b n \<longleftrightarrow> unat (a - b) < n"

definition disjoint_ranges :: "addr \<Rightarrow> nat \<Rightarrow> addr \<Rightarrow> nat \<Rightarrow> bool" where
  "disjoint_ranges a n b k \<longleftrightarrow> (\<forall>x. \<not> (in_range x a n \<and> in_range x b k))"

section \<open>Runs that may fail\<close>

text \<open>
  The result of code that may not return (\<open>None\<close>), may stop the kernel or leave defined behaviour
  (\<open>Inl\<close>), or returns a value (\<open>Inr\<close>), and the sequencing of such runs.
\<close>

datatype fault =
    Panic string
  | Overflow \<comment> \<open>an access past the end of an array\<close>

type_synonym 'a run = "(fault + 'a) option"

definition ret :: "'a \<Rightarrow> 'a run" where
  "ret x = Some (Inr x)"

definition fail :: "fault \<Rightarrow> 'a run" where
  "fail e = Some (Inl e)"

definition run_bind :: "'a run \<Rightarrow> ('a \<Rightarrow> 'b run) \<Rightarrow> 'b run" where
  "run_bind r f = (case r of None \<Rightarrow> None | Some (Inl e) \<Rightarrow> Some (Inl e) | Some (Inr x) \<Rightarrow> f x)"

text \<open>A loop that may not return, and a run of the heap, whose only failure is a panic.\<close>

definition run_of :: "'a option \<Rightarrow> 'a run" where
  "run_of r = map_option Inr r"

definition run_heap :: "(string + 'a) option \<Rightarrow> 'a run" where
  "run_heap r = map_option (\<lambda>x. case x of Inl e \<Rightarrow> Inl (Panic e) | Inr y \<Rightarrow> Inr y) r"

text \<open>A \<^verbatim>\<open>for\<close> loop whose body may fail: the body is run on the elements in order.\<close>

primrec run_fold :: "('a \<Rightarrow> 's \<Rightarrow> 's run) \<Rightarrow> 'a list \<Rightarrow> 's \<Rightarrow> 's run" where
  "run_fold f [] s = ret s"
| "run_fold f (x # xs) s = run_bind (f x s) (run_fold f xs)"

lemma run_simps [simp]:
  "run_bind (ret x) f = f x" "run_bind (fail e) f = fail e" "run_of (Some x) = ret x"
  "run_heap (Some (Inr x)) = ret x" "run_heap (Some (Inl p)) = fail (Panic p)"
  "(ret x = ret y) = (x = y)" "(fail e = ret y) = False"
  by (simp_all add: run_bind_def ret_def fail_def run_of_def run_heap_def)

lemma run_bind_assoc: "run_bind (run_bind r f) g = run_bind r (\<lambda>x. run_bind (f x) g)"
  by (simp add: run_bind_def ret_def split: option.splits sum.splits)

lemma run_fold_append: "run_fold f (xs @ ys) s = run_bind (run_fold f xs s) (run_fold f ys)"
proof (induction xs arbitrary: s)
  case (Cons x xs)
  then have "run_fold f (xs @ ys) = (\<lambda>s. run_bind (run_fold f xs s) (run_fold f ys))" by (rule ext)
  then show ?case by (simp add: run_bind_assoc)
qed simp

text \<open>A loop keeps what every run of its body keeps.\<close>

lemma run_fold_invariant:
  assumes "\<And>x s. x \<in> set xs \<Longrightarrow> P s \<Longrightarrow> \<exists>s'. f x s = ret s' \<and> P s'" and "P s"
  shows "\<exists>s'. run_fold f xs s = ret s' \<and> P s'"
  using assms
proof (induction xs arbitrary: s)
  case (Cons x xs)
  then obtain s1 where "f x s = ret s1" "P s1" by (metis list.set_intros(1))
  with Cons show ?case by simp
qed simp

lemma run_bind_ret:
  "run_bind r f = ret y \<longleftrightarrow> (\<exists>x. r = ret x \<and> f x = ret y)"
  by (auto simp: run_bind_def ret_def fail_def split: option.splits sum.splits)

lemma run_of_ret: "run_of r = ret x \<longleftrightarrow> r = Some x"
  by (auto simp: run_of_def ret_def)

lemma run_heap_ret: "run_heap r = ret x \<longleftrightarrow> r = Some (Inr x)"
  by (cases r) (auto simp: run_heap_def ret_def split: sum.splits)

section \<open>Collections and generic lemmas\<close>

named_theorems h3_unfold \<open>definitions a component's proofs unfold\<close>
named_theorems h3_mem \<open>reads after writes\<close>

lemmas word_size_simps = unat_word_ariths word_le_nat_alt word_less_nat_alt

lemma unat_u64_bound [simp]: "unat (x :: u64) < 18446744073709551616"
  using unsigned_less [of x, where ?'a = nat] by simp

lemma unat_u32_bound [simp]: "unat (x :: u32) < 4294967296"
  using unsigned_less [of x, where ?'a = nat] by simp

lemma unat_u8_bound [simp]: "unat (x :: u8) < 256"
  using unsigned_less [of x, where ?'a = nat] by simp

lemma unat_Suc_below:
  fixes p e :: "'a::len word"
  assumes "p < e"
  shows "unat (p + 1) = Suc (unat p)"
proof -
  have "Suc (unat p) \<le> unat e" using assms by (simp add: word_less_nat_alt)
  also have "unat e < 2 ^ LENGTH('a)" by (rule unsigned_less)
  finally show ?thesis by (simp add: unat_word_ariths)
qed

lemma word_le_step:
  fixes i n :: "'a::len word"
  assumes "i < n"
  shows "i \<le> j \<longleftrightarrow> j = i \<or> i + 1 \<le> j"
  using unat_Suc_below [OF assms] by (auto simp: word_le_nat_alt word_unat_eq_iff)

lemma unat_of_nat_u64: "n < 18446744073709551616 \<Longrightarrow> unat (of_nat n :: u64) = n"
  by (simp add: unat_of_nat)

lemma unat_ucast_up:
  "LENGTH('a) \<le> LENGTH('b) \<Longrightarrow> unat (ucast (x :: 'a::len word) :: 'b::len word) = unat x"
  by (simp add: unsigned_ucast_eq take_bit_nat_eq_self_iff
      less_le_trans [OF unsigned_less [where ?'a = nat]])

lemma unat_ucast_simps [simp]:
  "unat (ucast (x :: u32) :: u64) = unat x"
  "unat (ucast (y :: u16) :: u64) = unat y"
  "unat (ucast (z :: u8) :: u64) = unat z"
  "unat (ucast (z :: u8) :: u32) = unat z"
  by (simp_all add: unat_ucast_up)

lemma unat_add_u64:
  "unat (a :: u64) + unat b < 18446744073709551616 \<Longrightarrow> unat (a + b) = unat a + unat b"
  by (simp add: unat_word_ariths)

lemma unat_sub_u64: "b \<le> a \<Longrightarrow> unat ((a :: u64) - b) = unat a - unat b"
  by (simp add: unat_sub word_le_nat_alt)

lemma signed_take_bit_cases:
  assumes "0 \<le> k" and "k < 2 ^ Suc n"
  shows "signed_take_bit n (k :: int) = (if k < 2 ^ n then k else k - 2 ^ Suc n)"
proof (cases "k < 2 ^ n")
  case True
  then have "take_bit (Suc n) (k + 2 ^ n) = k + 2 ^ n"
    using assms by (intro take_bit_int_eq_self) simp_all
  then show ?thesis using True by (simp add: signed_take_bit_eq_take_bit_shift)
next
  case False
  have "take_bit (Suc n) (k + 2 ^ n) = take_bit (Suc n) (k + 2 ^ n - 2 ^ Suc n)"
    unfolding take_bit_eq_mod using mod_add_self2 [of "k + 2 ^ n - 2 ^ Suc n" "2 ^ Suc n"]
    by (simp add: add.commute)
  also have "\<dots> = k + 2 ^ n - 2 ^ Suc n"
    using False assms by (intro take_bit_int_eq_self) auto
  finally show ?thesis using False by (simp add: signed_take_bit_eq_take_bit_shift)
qed

lemma sint_cases:
  "sint (v :: 'a::len word) = (if uint v < 2 ^ (LENGTH('a) - 1) then uint v else uint v - 2 ^ LENGTH('a))"
  using signed_take_bit_cases [of "uint v" "LENGTH('a) - 1"] unsigned_less [of v, where ?'a = int]
  by (simp add: sint_uint)

lemma sint_i64:
  "sint (v :: i64) = (if unat v < 9223372036854775808 then int (unat v) else int (unat v) - 18446744073709551616)"
proof -
  have "(unat v < 9223372036854775808) = (uint v < 9223372036854775808)"
    by (simp only: unat_eq_nat_uint nat_less_iff [OF unsigned_greater_eq]) simp
  then show ?thesis by (simp add: sint_cases)
qed

lemma sint_i32:
  "sint (v :: i32) = (if unat v < 2147483648 then int (unat v) else int (unat v) - 4294967296)"
proof -
  have "(unat v < 2147483648) = (uint v < 2147483648)"
    by (simp only: unat_eq_nat_uint nat_less_iff [OF unsigned_greater_eq]) simp
  then show ?thesis by (simp add: sint_cases)
qed

lemma and_not_mask_div: "(x :: u64) AND NOT (mask n) = push_bit n (drop_bit n x)"
  by (rule bit_word_eqI) (auto simp: bit_simps)

lemma unat_and_not_mask: "unat ((x :: u64) AND NOT (mask n)) = unat x div 2 ^ n * 2 ^ n"
proof -
  have "unat x div 2 ^ n * 2 ^ n \<le> unat x" by simp
  also have "unat x < 2 ^ 64" using unsigned_less [of x, where ?'a = nat] by simp
  finally have less: "unat x div 2 ^ n * 2 ^ n < 2 ^ 64" .
  have "unat (push_bit n (drop_bit n x)) = take_bit 64 (push_bit n (unat (drop_bit n x)))"
    by (simp add: unsigned_push_bit_eq)
  also have "push_bit n (unat (drop_bit n x)) = unat x div 2 ^ n * 2 ^ n"
    by (simp only: unat_drop_bit_eq) (simp add: push_bit_eq_mult drop_bit_eq_div)
  also have "take_bit 64 (unat x div 2 ^ n * 2 ^ n) = unat x div 2 ^ n * 2 ^ n"
    using less by (rule take_bit_nat_eq_self)
  finally show ?thesis by (simp only: and_not_mask_div)
qed

lemma align_down_page: "unat (H3OS_ALIGN_DOWN x 4096) = unat x div 4096 * 4096"
  using unat_and_not_mask [of x 12] by (simp add: H3OS_ALIGN_DOWN_def mask_eq_exp_minus_1)

lemma align_down_16: "unat (H3OS_ALIGN_DOWN x 16) = unat x div 16 * 16"
  using unat_and_not_mask [of x 4] by (simp add: H3OS_ALIGN_DOWN_def mask_eq_exp_minus_1)

lemma align_up_down: "H3OS_ALIGN_UP x a = H3OS_ALIGN_DOWN (x + (a - 1)) a"
  by (simp add: H3OS_ALIGN_UP_def H3OS_ALIGN_DOWN_def)

lemma align_down_page_div: "unat (H3OS_ALIGN_DOWN x 4096 div 4096) = unat x div 4096"
  by (simp add: unat_div align_down_page)

lemma align_up_page_div:
  "unat x + 4095 < 18446744073709551616 \<Longrightarrow>
     unat (H3OS_ALIGN_UP x 4096 div 4096) = (unat x + 4095) div 4096"
  by (simp add: align_up_down align_down_page_div unat_add_u64)

section \<open>Little-endian encoding is a bijection\<close>

lemma bit_word_of_bytes:
  "bit (word_of_bytes bs :: 'a::len word) i \<longleftrightarrow>
     i < LENGTH('a) \<and> i div 8 < length bs \<and> bit (bs ! (i div 8)) (i mod 8)"
proof (induction bs arbitrary: i)
  case Nil
  then show ?case by simp
next
  case (Cons b bs)
  show ?case
  proof (cases "i < 8")
    case True
    then show ?thesis by (auto simp: bit_simps)
  next
    case False
    then have "i div 8 = Suc ((i - 8) div 8)" and "(i - 8) mod 8 = i mod 8"
      by (simp_all add: le_div_geq le_mod_geq)
    moreover have "\<not> bit b i"
      using False bit_imp_le_length [of b i] by auto
    ultimately show ?thesis
      using False Cons.IH [of "i - 8"] by (auto simp: bit_simps)
  qed
qed

lemma bit_bytes_of_word:
  "k < n \<Longrightarrow> bit (bytes_of_word n w ! k) i \<longleftrightarrow> i < 8 \<and> bit w (8 * k + i)"
  by (auto simp: bytes_of_word_def bit_simps)

lemma length_bytes_of_word [simp]: "length (bytes_of_word n w) = n"
  by (simp add: bytes_of_word_def)

lemma word_of_bytes_of_word:
  fixes w :: "'a::len word"
  assumes "LENGTH('a) = 8 * n"
  shows "word_of_bytes (bytes_of_word n w) = w"
proof (rule bit_word_eqI)
  fix i assume "i < LENGTH('a)"
  then have "i div 8 < n" using assms by (simp add: less_mult_imp_div_less ac_simps)
  moreover have "8 * (i div 8) + i mod 8 = i" by simp
  ultimately show "bit (word_of_bytes (bytes_of_word n w) :: 'a word) i = bit w i"
    using \<open>i < LENGTH('a)\<close> by (simp add: bit_word_of_bytes bit_bytes_of_word)
qed

lemma bytes_of_word_of_bytes:
  assumes "LENGTH('a) = 8 * length bs"
  shows "bytes_of_word (length bs) (word_of_bytes bs :: 'a::len word) = bs"
proof (rule nth_equalityI)
  fix k assume k: "k < length (bytes_of_word (length bs) (word_of_bytes bs :: 'a word))"
  show "bytes_of_word (length bs) (word_of_bytes bs :: 'a word) ! k = bs ! k"
  proof (rule bit_word_eqI)
    fix i assume "i < LENGTH(8)"
    then have "(8 * k + i) div 8 = k" and "(8 * k + i) mod 8 = i" and "8 * k + i < 8 * length bs"
      using k by auto
    then show "bit (bytes_of_word (length bs) (word_of_bytes bs :: 'a word) ! k) i = bit (bs ! k) i"
      using k assms \<open>i < LENGTH(8)\<close> by (simp add: bit_bytes_of_word bit_word_of_bytes)
  qed
qed simp

section \<open>Reading back what was stored\<close>

lemma in_range_self: "0 < n \<Longrightarrow> in_range a a n"
  by (simp add: in_range_def)

lemma in_range_0 [simp]: "\<not> in_range x a 0"
  by (simp add: in_range_def)

lemma in_range_offset: "i < n \<Longrightarrow> n \<le> 18446744073709551616 \<Longrightarrow> in_range (a + of_nat i) a n"
  by (simp add: in_range_def unat_of_nat_u64)

lemma in_range_Suc:
  assumes "Suc n < 18446744073709551616"
  shows "in_range x a (Suc n) \<longleftrightarrow> x = a \<or> in_range x (a + 1) n"
proof (cases "x = a")
  case True
  then show ?thesis by (simp add: in_range_def)
next
  case False
  then have "unat (x - a) \<noteq> 0" by (simp add: unat_eq_0)
  then have "unat (x - a - 1) = unat (x - a) - 1"
    by (subst unat_sub_u64) (simp_all add: word_le_nat_alt)
  then have "unat (x - (a + 1)) = unat (x - a) - 1" by (simp add: diff_diff_eq)
  with False \<open>unat (x - a) \<noteq> 0\<close> show ?thesis by (auto simp: in_range_def)
qed

lemma unat_neg_diff: "d \<noteq> s \<Longrightarrow> unat (d - s :: u64) = 18446744073709551616 - unat (s - d)"
  using unat_sub_if' [of 0 "s - d"] by (simp add: unat_eq_0)

lemma in_range_add:
  assumes "unat k + n \<le> 18446744073709551616"
  shows "in_range x (b + k) n \<longleftrightarrow> unat k \<le> unat (x - b) \<and> unat (x - b) < unat k + n"
proof (cases "k \<le> x - b")
  case True
  then have "unat (x - b - k) = unat (x - b) - unat k" by (rule unat_sub_u64)
  then show ?thesis using True by (auto simp: in_range_def diff_diff_eq word_le_nat_alt)
next
  case False
  then have "unat (x - b) < unat k" by (simp add: word_le_nat_alt)
  moreover have "unat (x - b - k) = 18446744073709551616 - (unat k - unat (x - b))"
    using unat_neg_diff [of "x - b" k] unat_sub_u64 [of "x - b" k] False by auto
  ultimately show ?thesis using assms by (auto simp: in_range_def diff_diff_eq)
qed

lemma in_range_nat:
  "unat b + k \<le> 18446744073709551616 \<Longrightarrow> in_range x b k \<longleftrightarrow> unat b \<le> unat x \<and> unat x < unat b + k"
  using in_range_add [of b k x 0] by simp

lemma disjoint_ranges_nat:
  assumes "unat b + k \<le> 18446744073709551616" and "unat c + l \<le> 18446744073709551616"
    and "unat b + k \<le> unat c \<or> unat c + l \<le> unat b"
  shows "disjoint_ranges b k c l"
  using assms by (auto simp: disjoint_ranges_def in_range_nat)

lemma load64_cong: "(\<And>x. in_range x a 8 \<Longrightarrow> m' x = m x) \<Longrightarrow> load64 m' a = load64 m a"
  unfolding load64_def peek_def
  by (rule arg_cong [where f = word_of_bytes], rule map_cong) (simp_all add: in_range_offset)

lemma poke_other:
  "length bs < 18446744073709551616 \<Longrightarrow> \<not> in_range x a (length bs) \<Longrightarrow> poke m a bs x = m x"
  by (induction bs arbitrary: m a) (auto simp: in_range_Suc)

lemma poke_apply:
  assumes "length bs < 18446744073709551616"
  shows "poke m a bs x = (if in_range x a (length bs) then bs ! unat (x - a) else m x)"
  using assms
proof (induction bs arbitrary: m a)
  case Nil
  then show ?case by simp
next
  case (Cons b bs)
  show ?case
  proof (cases "x = a")
    case True
    have "unat (a - (a + 1)) = 18446744073709551615"
      by (simp add: unsigned_minus_1_eq_mask mask_eq_exp_minus_1)
    then have "\<not> in_range a (a + 1) (length bs)" using Cons.prems by (simp add: in_range_def)
    then show ?thesis using Cons.prems True
      by (simp add: poke_other in_range_def)
  next
    case False
    then have "unat (x - a) \<noteq> 0" by (simp add: unat_eq_0)
    then have "unat (x - a - 1) = unat (x - a) - 1"
      by (subst unat_sub_u64) (simp_all add: word_le_nat_alt)
    then have "unat (x - (a + 1)) = unat (x - a) - 1" by (simp add: diff_diff_eq)
    with Cons False \<open>unat (x - a) \<noteq> 0\<close> show ?thesis
      by (auto simp: in_range_Suc nth_Cons')
  qed
qed

lemma length_peek [simp]: "length (peek m a n) = n"
  by (simp add: peek_def)

lemma nth_peek [simp]: "i < n \<Longrightarrow> peek m a n ! i = m (a + of_nat i)"
  by (simp add: peek_def)

lemma peek_poke_same:
  "length bs < 18446744073709551616 \<Longrightarrow> peek (poke m a bs) a (length bs) = bs"
  by (rule nth_equalityI) (simp_all add: poke_apply in_range_offset unat_of_nat_u64)

lemma peek_poke_other:
  assumes "length bs < 18446744073709551616" and "n \<le> 18446744073709551616"
    and "disjoint_ranges b n a (length bs)"
  shows "peek (poke m a bs) b n = peek m b n"
  using assms by (intro nth_equalityI) (auto simp: poke_other in_range_offset disjoint_ranges_def)

text \<open>
  The contract of a memory cell of a fixed width: what a load returns after a store to the
  same address and after a store to addresses outside the cell.
\<close>

locale memory_cell =
  fixes width :: nat
    and cell_load :: "mem \<Rightarrow> addr \<Rightarrow> 'a::len word"
    and cell_store :: "mem \<Rightarrow> addr \<Rightarrow> 'a word \<Rightarrow> mem"
  assumes load_store: "cell_load (cell_store m a v) a = v"
    and load_store_disjoint:
      "disjoint_ranges b width a width \<Longrightarrow> cell_load (cell_store m a v) b = cell_load m b"
    and store_frame: "\<not> in_range x a width \<Longrightarrow> cell_store m a v x = m x"
begin

text \<open>
  Adding a constant to each of several cells that do not overlap: every one of them changes by the
  constant, and no other byte changes.
\<close>

lemma add_all_frame:
  assumes "\<And>a. a \<in> set as \<Longrightarrow> \<not> in_range x a width"
  shows "fold (\<lambda>a m. cell_store m a (cell_load m a + d)) as m x = m x"
  using assms by (induction as arbitrary: m) (simp_all add: store_frame)

lemma add_all_disjoint:
  assumes "\<And>a. a \<in> set as \<Longrightarrow> disjoint_ranges b width a width"
  shows "cell_load (fold (\<lambda>a m. cell_store m a (cell_load m a + d)) as m) b = cell_load m b"
  using assms by (induction as arbitrary: m) (simp_all add: load_store_disjoint)

lemma add_all:
  assumes "distinct as" "\<And>a b. \<lbrakk>a \<in> set as; b \<in> set as; a \<noteq> b\<rbrakk> \<Longrightarrow> disjoint_ranges a width b width" "b \<in> set as"
  shows "cell_load (fold (\<lambda>a m. cell_store m a (cell_load m a + d)) as m) b = cell_load m b + d"
  using assms
proof (induction as arbitrary: m)
  case (Cons a as)
  show ?case
  proof (cases "b = a")
    case True
    then have "disjoint_ranges b width c width" if "c \<in> set as" for c using Cons.prems(1) that by (intro Cons.prems(2)) auto
    then show ?thesis using True by (simp add: add_all_disjoint load_store)
  next
    case False
    then show ?thesis using Cons.IH Cons.prems by (simp add: load_store_disjoint)
  qed
qed simp

end

interpretation cell32: memory_cell 4 load32 store32
  by unfold_locales
    (simp_all add: load32_def store32_def word_of_bytes_of_word peek_poke_other poke_other
       peek_poke_same [of "bytes_of_word 4 _", simplified])

interpretation cell64: memory_cell 8 load64 store64
  by unfold_locales
    (simp_all add: load64_def store64_def word_of_bytes_of_word peek_poke_other poke_other
       peek_poke_same [of "bytes_of_word 8 _", simplified])

lemmas load_store_simps [h3_mem] =
  cell32.load_store cell32.load_store_disjoint cell64.load_store cell64.load_store_disjoint

end
