(* ===== verification/H3_Pmm.thy ===== *)
theory H3_Pmm
  imports H3_Prelude
begin

text \<open>
  The physical page allocator of \<^verbatim>\<open>memory/pmm.c\<close>: a bitmap over at most 512 Ki pages, filled
  from the Multiboot2 memory map. The state is the file's static variables. The Multiboot2
  block is read from a byte memory; the linker symbol \<^verbatim>\<open>_kernel_end\<close> is an argument of
  \<open>pmm_init\<close>. \<open>None\<close> stands for a call that never returns: a tag walk that makes no progress,
  or the divide trap of a memory-map tag whose entry size is 0.
\<close>

section \<open>State and bitmap primitives\<close>

record pmm_state =
  page_bitmap :: "u64 \<Rightarrow> u8"
  total_pages :: u64
  used_pages :: u64
  highest_page :: u64

record pmm_stats_t =
  st_total_pages :: u64
  st_used_pages :: u64
  st_free_pages :: u64
  st_total_bytes :: u64

definition PMM_MAX_PAGES :: u64 where
  "PMM_MAX_PAGES = 512 * 1024"

definition bitmap_test :: "pmm_state \<Rightarrow> u64 \<Rightarrow> bool" where
  "bitmap_test s page \<longleftrightarrow> page_bitmap s (page div 8) AND push_bit (unat (page mod 8)) 1 \<noteq> 0"

definition bitmap_set :: "pmm_state \<Rightarrow> u64 \<Rightarrow> pmm_state" where
  "bitmap_set s page = s\<lparr>page_bitmap := (page_bitmap s)
     (page div 8 := page_bitmap s (page div 8) OR push_bit (unat (page mod 8)) 1)\<rparr>"

definition bitmap_clear :: "pmm_state \<Rightarrow> u64 \<Rightarrow> pmm_state" where
  "bitmap_clear s page = s\<lparr>page_bitmap := (page_bitmap s)
     (page div 8 := page_bitmap s (page div 8) AND NOT (push_bit (unat (page mod 8)) 1))\<rparr>"

section \<open>Initialisation\<close>

function reserve_loop :: "u64 \<Rightarrow> u64 \<Rightarrow> pmm_state \<Rightarrow> pmm_state" where
  "reserve_loop p e s =
     (if p < e \<and> p < PMM_MAX_PAGES then
        reserve_loop (p + 1) e
          (if \<not> bitmap_test s p
           then (bitmap_set s p)\<lparr>used_pages := used_pages s + 1\<rparr>
           else s)
      else s)"
  by pat_completeness auto
termination
  by (relation "measure (\<lambda>(p, e, s). unat e - unat p)")
    (auto simp: unat_Suc_below word_less_nat_alt)

definition reserve_region :: "u64 \<Rightarrow> u64 \<Rightarrow> pmm_state \<Rightarrow> pmm_state" where
  "reserve_region a len s =
     reserve_loop (a div PAGE_SIZE) (H3OS_ALIGN_UP (a + len) PAGE_SIZE div PAGE_SIZE) s"

partial_function (option) mb2_find_loop :: "mem \<Rightarrow> addr \<Rightarrow> addr \<Rightarrow> u32 \<Rightarrow> addr option" where
  "mb2_find_loop m ptr e ty =
     (if ptr < e then
        (if load32 m ptr = 0 then Some NULL
         else if load32 m ptr = ty then Some ptr
         else mb2_find_loop m (ptr + ucast ((load32 m (ptr + 4) + 7) AND NOT 7)) e ty)
      else Some NULL)"

definition mb2_find :: "mem \<Rightarrow> addr \<Rightarrow> u32 \<Rightarrow> addr option" where
  "mb2_find m info ty =
     (if info = NULL then Some NULL
      else mb2_find_loop m (info + 8) (info + ucast (load32 m info)) ty)"

definition MB2_TAG_MMAP :: u32 where
  "MB2_TAG_MMAP = 6"

definition MB2_MEMORY_AVAILABLE :: u32 where
  "MB2_MEMORY_AVAILABLE = 1"

function clear_loop :: "u64 \<Rightarrow> u64 \<Rightarrow> pmm_state \<Rightarrow> pmm_state" where
  "clear_loop p e s =
     (if p < e \<and> p < PMM_MAX_PAGES then clear_loop (p + 1) e (bitmap_clear s p) else s)"
  by pat_completeness auto
termination
  by (relation "measure (\<lambda>(p, e, s). unat e - unat p)")
    (auto simp: unat_Suc_below word_less_nat_alt)

text \<open>One iteration of the memory-map loop: the entry at \<open>e\<close> is \<^verbatim>\<open>{addr, len, type, zero}\<close>.\<close>

definition mmap_entry :: "mem \<Rightarrow> addr \<Rightarrow> pmm_state \<Rightarrow> pmm_state" where
  "mmap_entry m e s =
     (let a = load64 m e; len = load64 m (e + 8); ty = load32 m (e + 16);
          end_page = H3OS_ALIGN_UP (a + len) PAGE_SIZE div PAGE_SIZE;
          s1 = (if end_page > highest_page s then s\<lparr>highest_page := end_page\<rparr> else s);
          s2 = (if end_page > total_pages s1 then s1\<lparr>total_pages := end_page\<rparr> else s1)
      in if ty = MB2_MEMORY_AVAILABLE
         then clear_loop (H3OS_ALIGN_UP a PAGE_SIZE div PAGE_SIZE)
                (H3OS_ALIGN_DOWN (a + len) PAGE_SIZE div PAGE_SIZE) s2
         else s2)"

function mmap_loop :: "mem \<Rightarrow> addr \<Rightarrow> u32 \<Rightarrow> u32 \<Rightarrow> u32 \<Rightarrow> pmm_state \<Rightarrow> pmm_state" where
  "mmap_loop m mmap entry_size entries i s =
     (if i < entries then
        mmap_loop m mmap entry_size entries (i + 1)
          (mmap_entry m (mmap + 16 + ucast (i * entry_size)) s)
      else s)"
  by pat_completeness auto
termination
  by (relation "measure (\<lambda>(m, mmap, entry_size, entries, i, s). unat entries - unat i)")
    (auto simp: unat_Suc_below word_less_nat_alt)

function count_loop :: "u64 \<Rightarrow> pmm_state \<Rightarrow> pmm_state" where
  "count_loop p s =
     (if p < total_pages s then
        count_loop (p + 1) (if bitmap_test s p then s\<lparr>used_pages := used_pages s + 1\<rparr> else s)
      else s)"
  by pat_completeness auto
termination
  by (relation "measure (\<lambda>(p, s). unat (total_pages s) - unat p)")
    (auto simp: unat_Suc_below word_less_nat_alt)

definition pmm_reset :: pmm_state where
  "pmm_reset = \<lparr>page_bitmap = (\<lambda>_. 0xFF), total_pages = 0, used_pages = 0, highest_page = 0\<rparr>"

definition pmm_fallback :: "pmm_state \<Rightarrow> pmm_state" where
  "pmm_fallback s = (clear_loop 256 32768 s)
     \<lparr>total_pages := 32768, highest_page := 32768, used_pages := 256\<rparr>"

definition pmm_from_mmap :: "mem \<Rightarrow> addr \<Rightarrow> pmm_state \<Rightarrow> pmm_state" where
  "pmm_from_mmap m mmap s =
     (let entry_size = load32 m (mmap + 8);
          entries = (load32 m (mmap + 4) - 16) div entry_size;
          s1 = mmap_loop m mmap entry_size entries 0 s;
          s2 = (if total_pages s1 > PMM_MAX_PAGES
                then s1\<lparr>total_pages := PMM_MAX_PAGES\<rparr> else s1)
      in count_loop 0 (s2\<lparr>used_pages := 0\<rparr>))"

definition pmm_init :: "mem \<Rightarrow> addr \<Rightarrow> u64 \<Rightarrow> pmm_state option" where
  "pmm_init m mb2 kernel_end =
     (case mb2_find m mb2 MB2_TAG_MMAP of
        None \<Rightarrow> None
      | Some mmap \<Rightarrow>
          (let finish = (\<lambda>s. reserve_region 0x100000 (kernel_end - 0x100000)
                               (reserve_region 0 0x100000 s))
           in if mmap = NULL then Some (finish (pmm_fallback pmm_reset))
              else if load32 m (mmap + 8) = 0 then None
              else Some (finish (pmm_from_mmap m mmap pmm_reset))))"

section \<open>Allocation and release\<close>

function alloc_page_loop :: "u64 \<Rightarrow> pmm_state \<Rightarrow> addr \<times> pmm_state" where
  "alloc_page_loop p s =
     (if p < total_pages s then
        (if \<not> bitmap_test s p
         then (p * PAGE_SIZE, (bitmap_set s p)\<lparr>used_pages := used_pages s + 1\<rparr>)
         else alloc_page_loop (p + 1) s)
      else (0, s))"
  by pat_completeness auto
termination
  by (relation "measure (\<lambda>(p, s). unat (total_pages s) - unat p)")
    (auto simp: unat_Suc_below word_less_nat_alt)

definition pmm_alloc_page :: "pmm_state \<Rightarrow> addr \<times> pmm_state" where
  "pmm_alloc_page s = alloc_page_loop 0 s"

text \<open>The two inner loops of \<^verbatim>\<open>pmm_alloc_pages\<close>: is the run free, and mark the run.\<close>

function run_free :: "pmm_state \<Rightarrow> u64 \<Rightarrow> u64 \<Rightarrow> u64 \<Rightarrow> bool" where
  "run_free s p i count =
     (if i < count then (if bitmap_test s (p + i) then False else run_free s p (i + 1) count)
      else True)"
  by pat_completeness auto
termination
  by (relation "measure (\<lambda>(s, p, i, count). unat count - unat i)")
    (auto simp: unat_Suc_below word_less_nat_alt)

function mark_run :: "u64 \<Rightarrow> u64 \<Rightarrow> u64 \<Rightarrow> pmm_state \<Rightarrow> pmm_state" where
  "mark_run p i count s =
     (if i < count then
        mark_run p (i + 1) count ((bitmap_set s (p + i))\<lparr>used_pages := used_pages s + 1\<rparr>)
      else s)"
  by pat_completeness auto
termination
  by (relation "measure (\<lambda>(p, i, count, s). unat count - unat i)")
    (auto simp: unat_Suc_below word_less_nat_alt)

text \<open>
  The outer loop runs while \<open>p + count \<le> total_pages\<close>, a wrapping 64-bit sum, so whether it
  stops depends on the sum not wrapping for ever: \<open>None\<close> is a scan that does not return.
\<close>

partial_function (option) alloc_run_loop ::
    "u64 \<Rightarrow> u64 \<Rightarrow> pmm_state \<Rightarrow> (addr \<times> pmm_state) option" where
  "alloc_run_loop p count s =
     (if p + count \<le> total_pages s then
        (if run_free s p 0 count then Some (p * PAGE_SIZE, mark_run p 0 count s)
         else alloc_run_loop (p + 1) count s)
      else Some (0, s))"

definition pmm_alloc_pages :: "u64 \<Rightarrow> pmm_state \<Rightarrow> (addr \<times> pmm_state) option" where
  "pmm_alloc_pages count s =
     (if count = 0 then Some (0, s)
      else if count = 1 then Some (pmm_alloc_page s)
      else alloc_run_loop 0 count s)"

definition pmm_free_page :: "addr \<Rightarrow> pmm_state \<Rightarrow> pmm_state" where
  "pmm_free_page a s =
     (let p = a div PAGE_SIZE in
      if p \<ge> total_pages s then s
      else if bitmap_test s p then (bitmap_clear s p)\<lparr>used_pages := used_pages s - 1\<rparr>
      else s)"

function free_loop :: "addr \<Rightarrow> u64 \<Rightarrow> u64 \<Rightarrow> pmm_state \<Rightarrow> pmm_state" where
  "free_loop a i count s =
     (if i < count then free_loop a (i + 1) count (pmm_free_page (a + i * PAGE_SIZE) s) else s)"
  by pat_completeness auto
termination
  by (relation "measure (\<lambda>(a, i, count, s). unat count - unat i)")
    (auto simp: unat_Suc_below word_less_nat_alt)

definition pmm_free_pages :: "addr \<Rightarrow> u64 \<Rightarrow> pmm_state \<Rightarrow> pmm_state" where
  "pmm_free_pages a count s = free_loop a 0 count s"

definition pmm_get_stats :: "pmm_state \<Rightarrow> pmm_stats_t" where
  "pmm_get_stats s =
     \<lparr>st_total_pages = total_pages s, st_used_pages = used_pages s,
      st_free_pages = (if total_pages s > used_pages s then total_pages s - used_pages s else 0),
      st_total_bytes = total_pages s * PAGE_SIZE\<rparr>"

lemmas pmm_loops =
  reserve_loop.simps clear_loop.simps mmap_loop.simps count_loop.simps alloc_page_loop.simps
  run_free.simps mark_run.simps free_loop.simps

declare pmm_loops [simp del]

section \<open>The bitmap as a set of pages\<close>

text \<open>The pages below \<^verbatim>\<open>total_pages\<close> that are marked, and those that are free.\<close>

definition taken :: "pmm_state \<Rightarrow> u64 set" where
  "taken s = {p. p < total_pages s \<and> bitmap_test s p}"

definition free_pages :: "pmm_state \<Rightarrow> u64 set" where
  "free_pages s = {p. p < total_pages s \<and> \<not> bitmap_test s p}"

definition page_span :: "u64 \<Rightarrow> u64 \<Rightarrow> u64 set" where
  "page_span p n = {q. p \<le> q \<and> unat q < unat p + unat n}"

text \<open>
  The allocator's invariant: the table size is within the bitmap, the usage counter counts the
  marked pages, and page 0 is marked (so that the return value 0 means failure only).
\<close>

definition pmm_inv :: "pmm_state \<Rightarrow> bool" where
  "pmm_inv s \<longleftrightarrow> total_pages s \<le> PMM_MAX_PAGES \<and> unat (used_pages s) = card (taken s)
     \<and> bitmap_test s 0"

lemma bitmap_test_bit: "bitmap_test s p \<longleftrightarrow> bit (page_bitmap s (p div 8)) (unat (p mod 8))"
  by (simp add: bitmap_test_def bit_iff_and_push_bit_not_eq_0)

lemma unat_mod_8: "unat ((p :: u64) mod 8) < 8"
  by (simp add: unat_mod)

lemma same_bit_same_page:
  assumes "(p :: u64) div 8 = q div 8" and "unat (p mod 8) = unat (q mod 8)"
  shows "p = q"
proof -
  have "p mod 8 = q mod 8" using assms(2) by (simp add: word_unat_eq_iff)
  then show ?thesis using assms(1) by (metis div_mult_mod_eq)
qed

lemma bitmap_test_set [simp]: "bitmap_test (bitmap_set s p) q \<longleftrightarrow> q = p \<or> bitmap_test s q"
proof (cases "q div 8 = p div 8")
  case True
  then have "q = p \<longleftrightarrow> unat (q mod 8) = unat (p mod 8)" using same_bit_same_page [of q p] by blast
  then show ?thesis using True unat_mod_8 [of q]
    by (auto simp: bitmap_test_bit bitmap_set_def bit_or_iff bit_exp_iff)
next
  case False
  then show ?thesis by (auto simp: bitmap_test_bit bitmap_set_def)
qed

lemma bitmap_test_clear [simp]: "bitmap_test (bitmap_clear s p) q \<longleftrightarrow> q \<noteq> p \<and> bitmap_test s q"
proof (cases "q div 8 = p div 8")
  case True
  then have "q = p \<longleftrightarrow> unat (q mod 8) = unat (p mod 8)" using same_bit_same_page [of q p] by blast
  then show ?thesis using True unat_mod_8 [of q]
    by (auto simp: bitmap_test_bit bitmap_clear_def bit_and_iff bit_not_iff bit_exp_iff)
next
  case False
  then show ?thesis by (auto simp: bitmap_test_bit bitmap_clear_def)
qed

lemma bitmap_frame [simp]:
  "total_pages (bitmap_set s p) = total_pages s" "used_pages (bitmap_set s p) = used_pages s"
  "highest_page (bitmap_set s p) = highest_page s"
  "total_pages (bitmap_clear s p) = total_pages s" "used_pages (bitmap_clear s p) = used_pages s"
  "highest_page (bitmap_clear s p) = highest_page s"
  by (simp_all add: bitmap_set_def bitmap_clear_def)

lemma bitmap_test_upd [simp]:
  "bitmap_test (s\<lparr>used_pages := u\<rparr>) q = bitmap_test s q"
  "bitmap_test (s\<lparr>total_pages := u\<rparr>) q = bitmap_test s q"
  "bitmap_test (s\<lparr>highest_page := u\<rparr>) q = bitmap_test s q"
  by (simp_all add: bitmap_test_def)

lemma card_below: "card {p :: u64. p < n} = unat n"
proof -
  have "unat ` {p :: u64. p < n} = {..<unat n}"
  proof
    show "{..<unat n} \<subseteq> unat ` {p. p < n}"
    proof
      fix k assume "k \<in> {..<unat n}"
      then have "k < unat n" by simp
      moreover from this have "unat (of_nat k :: u64) = k"
        using unat_u64_bound [of n] by (intro unat_of_nat_u64) linarith
      ultimately have "(of_nat k :: u64) < n" by (simp add: word_less_nat_alt)
      then show "k \<in> unat ` {p. p < n}"
        using \<open>unat (of_nat k :: u64) = k\<close> by (intro image_eqI [of _ _ "of_nat k"]) simp_all
    qed
  qed (auto simp: word_less_nat_alt)
  moreover have "inj_on unat {p :: u64. p < n}" by (simp add: inj_on_def word_unat_eq_iff)
  ultimately show ?thesis by (metis card_image card_lessThan)
qed

lemma card_taken_le: "card (taken s) \<le> unat (total_pages s)"
  unfolding card_below [symmetric] by (rule card_mono) (auto simp: taken_def)

lemma card_taken_free: "card (taken s) + card (free_pages s) = unat (total_pages s)"
proof -
  have "taken s \<union> free_pages s = {p. p < total_pages s}" and "taken s \<inter> free_pages s = {}"
    by (auto simp: taken_def free_pages_def)
  then show ?thesis by (metis card_Un_disjoint card_below finite)
qed

text \<open>The effect of marking one free page, the step that both allocators and the boot code share.\<close>

definition take_page :: "u64 \<Rightarrow> pmm_state \<Rightarrow> pmm_state" where
  "take_page p s = (bitmap_set s p)\<lparr>used_pages := used_pages s + 1\<rparr>"

lemma take_page_simps [simp]:
  "total_pages (take_page p s) = total_pages s"
  "bitmap_test (take_page p s) q \<longleftrightarrow> q = p \<or> bitmap_test s q"
  "used_pages (take_page p s) = used_pages s + 1"
  by (simp_all add: take_page_def)

lemma taken_take_page: "p < total_pages s \<Longrightarrow> taken (take_page p s) = insert p (taken s)"
  by (auto simp: taken_def)

lemma pmm_inv_take_page:
  assumes "pmm_inv s" and "p \<in> free_pages s"
  shows "pmm_inv (take_page p s)"
proof -
  have p: "p < total_pages s" "p \<notin> taken s" using assms(2) by (auto simp: free_pages_def taken_def)
  have "0 < card (free_pages s)" using assms(2) by (auto simp: card_gt_0_iff)
  then have "unat (used_pages s) < unat (total_pages s)"
    using assms card_taken_free [of s] by (simp add: pmm_inv_def)
  then have "unat (used_pages s + 1) = Suc (unat (used_pages s))"
    by (intro unat_Suc_below) (simp add: word_less_nat_alt)
  then show ?thesis using assms(1) p by (simp add: pmm_inv_def taken_take_page)
qed

section \<open>Correctness of the single-page allocator\<close>

lemma alloc_page_loop_none:
  "(\<And>q. p \<le> q \<Longrightarrow> q < total_pages s \<Longrightarrow> bitmap_test s q) \<Longrightarrow> alloc_page_loop p s = (0, s)"
proof (induction p s rule: alloc_page_loop.induct)
  case (1 p s)
  show ?case
  proof (cases "p < total_pages s")
    case True
    have "alloc_page_loop (p + 1) s = (0, s)"
      using True "1.prems" unat_Suc_below [OF True]
      by (intro "1.IH") (auto simp: word_le_nat_alt)
    then show ?thesis using True "1.prems" by (subst alloc_page_loop.simps) simp
  qed (subst alloc_page_loop.simps, simp)
qed

lemma alloc_page_loop_found:
  assumes "p \<le> q" "q \<in> free_pages s" "\<And>r. p \<le> r \<Longrightarrow> r < q \<Longrightarrow> bitmap_test s r"
  shows "alloc_page_loop p s = (q * PAGE_SIZE, take_page q s)"
  using assms
proof (induction p s rule: alloc_page_loop.induct)
  case (1 p s)
  have pt: "p < total_pages s" using "1.prems"(1,2) by (auto simp: free_pages_def)
  show ?case
  proof (cases "p = q")
    case True
    then show ?thesis using pt "1.prems"(2)
      by (subst alloc_page_loop.simps) (simp add: free_pages_def take_page_def)
  next
    case False
    then have "p < q" using "1.prems"(1) by simp
    have "alloc_page_loop (p + 1) s = (q * PAGE_SIZE, take_page q s)"
      using "1.prems" \<open>p < q\<close> pt unat_Suc_below [OF \<open>p < q\<close>]
      by (intro "1.IH") (auto simp: word_le_nat_alt word_less_nat_alt)
    then show ?thesis using pt "1.prems"(3) [of p] \<open>p < q\<close> by (subst alloc_page_loop.simps) simp
  qed
qed

lemma alloc_page_cases:
  "pmm_alloc_page s =
     (if free_pages s = {} then (0, s)
      else (Min (free_pages s) * PAGE_SIZE, take_page (Min (free_pages s)) s))"
proof (cases "free_pages s = {}")
  case True
  then show ?thesis
    unfolding pmm_alloc_page_def by (simp, intro alloc_page_loop_none) (auto simp: free_pages_def)
next
  case False
  let ?q = "Min (free_pages s)"
  have q: "?q \<in> free_pages s" using False by (intro Min_in) simp_all
  have "bitmap_test s r" if "r < ?q" for r
  proof (rule ccontr)
    assume "\<not> bitmap_test s r"
    then have "r \<in> free_pages s" using that q by (auto simp: free_pages_def)
    then show False using that by (meson Min_le finite leD)
  qed
  then have "alloc_page_loop 0 s = (?q * PAGE_SIZE, take_page ?q s)"
    using q by (intro alloc_page_loop_found) simp_all
  then show ?thesis using False by (simp add: pmm_alloc_page_def)
qed

section \<open>Correctness of the contiguous allocator\<close>

definition free_runs :: "pmm_state \<Rightarrow> u64 \<Rightarrow> u64 set" where
  "free_runs s n = {p. unat p + unat n \<le> unat (total_pages s) \<and> page_span p n \<subseteq> free_pages s}"

lemma run_free_iff:
  "run_free s p i count \<longleftrightarrow> (\<forall>j. i \<le> j \<and> j < count \<longrightarrow> \<not> bitmap_test s (p + j))"
proof (induction s p i count rule: run_free.induct)
  case (1 s p i count)
  show ?case
  proof (cases "i < count")
    case True
    note split = word_le_step [OF True]
    show ?thesis
      using True "1.IH" by (subst run_free.simps) (auto simp: split)
  qed (subst run_free.simps, auto)
qed

lemma mark_run_frame [simp]:
  "total_pages (mark_run p i count s) = total_pages s"
  by (induction p i count s rule: mark_run.induct) (subst mark_run.simps, simp)

lemma mark_run_test:
  "bitmap_test (mark_run p i count s) q \<longleftrightarrow>
     bitmap_test s q \<or> (\<exists>j. i \<le> j \<and> j < count \<and> q = p + j)"
proof (induction p i count s rule: mark_run.induct)
  case (1 p i count s)
  show ?case
  proof (cases "i < count")
    case True
    note split = word_le_step [OF True]
    show ?thesis
      using True "1.IH" by (subst mark_run.simps) (auto simp: split)
  qed (subst mark_run.simps, auto)
qed

lemma mark_run_used:
  "i \<le> count \<Longrightarrow> used_pages (mark_run p i count s) = used_pages s + (count - i)"
proof (induction p i count s rule: mark_run.induct)
  case (1 p i count s)
  show ?case
  proof (cases "i < count")
    case True
    have "i + 1 \<le> count" using True unat_Suc_below [OF True]
      by (simp add: word_le_nat_alt word_less_nat_alt)
    then show ?thesis using True "1.IH" by (subst mark_run.simps) simp
  qed (use "1.prems" in \<open>subst mark_run.simps, simp\<close>)
qed

lemma page_span_offset:
  assumes "unat p + unat n < 18446744073709551616"
  shows "q \<in> page_span p n \<longleftrightarrow> (\<exists>j. j < n \<and> q = p + j)"
proof
  assume "q \<in> page_span p n"
  then have "p \<le> q" and "unat q < unat p + unat n" by (auto simp: page_span_def)
  then have "unat (q - p) = unat q - unat p" and "unat p \<le> unat q"
    by (simp_all add: unat_sub_u64 word_le_nat_alt)
  then have "q - p < n" using \<open>unat q < unat p + unat n\<close> by (simp add: word_less_nat_alt)
  then show "\<exists>j. j < n \<and> q = p + j" by (intro exI [of _ "q - p"]) simp
next
  assume "\<exists>j. j < n \<and> q = p + j"
  then obtain j where j: "j < n" "q = p + j" by blast
  then have "unat q = unat p + unat j" using assms
    by (simp add: unat_add_u64 word_less_nat_alt)
  then show "q \<in> page_span p n" using j by (simp add: page_span_def word_le_nat_alt word_less_nat_alt)
qed

lemma run_free_span:
  assumes "unat p + unat n \<le> unat (total_pages s)"
  shows "run_free s p 0 n \<longleftrightarrow> page_span p n \<subseteq> free_pages s"
proof -
  have b: "unat p + unat n < 18446744073709551616"
    using assms unat_u64_bound [of "total_pages s"] by linarith
  have "q < total_pages s" if "q \<in> page_span p n" for q
    using that assms by (simp add: page_span_def word_less_nat_alt)
  then have "page_span p n \<subseteq> free_pages s \<longleftrightarrow> (\<forall>q \<in> page_span p n. \<not> bitmap_test s q)"
    by (auto simp: free_pages_def)
  also have "\<dots> \<longleftrightarrow> (\<forall>j < n. \<not> bitmap_test s (p + j))"
    by (auto simp: page_span_offset [OF b])
  finally show ?thesis by (simp add: run_free_iff)
qed

lemma alloc_run_loop_found:
  assumes "p \<le> q" and "q \<in> free_runs s n" and "\<And>r. p \<le> r \<Longrightarrow> r < q \<Longrightarrow> r \<notin> free_runs s n"
  shows "alloc_run_loop p n s = Some (q * PAGE_SIZE, mark_run q 0 n s)"
  using assms
proof (induction "unat q - unat p" arbitrary: p)
  case 0
  then have "p = q" by (simp add: word_le_nat_alt word_unat_eq_iff)
  have q: "unat q + unat n \<le> unat (total_pages s)" using "0.prems"(2) by (simp add: free_runs_def)
  then have "unat (q + n) = unat q + unat n"
    using unat_u64_bound [of "total_pages s"] by (intro unat_add_u64) linarith
  then show ?case using \<open>p = q\<close> "0.prems"(2) q
    by (subst alloc_run_loop.simps) (simp add: word_le_nat_alt run_free_span free_runs_def)
next
  case (Suc d)
  then have "p < q" by (simp add: word_less_nat_alt)
  then have p1: "unat (p + 1) = Suc (unat p)" by (rule unat_Suc_below)
  have q: "unat q + unat n \<le> unat (total_pages s)" using Suc.prems(2) by (simp add: free_runs_def)
  then have p: "unat p + unat n \<le> unat (total_pages s)"
    using \<open>p < q\<close> by (simp add: word_less_nat_alt)
  then have "unat (p + n) = unat p + unat n"
    using unat_u64_bound [of "total_pages s"] by (intro unat_add_u64) linarith
  moreover have "\<not> run_free s p 0 n"
    using Suc.prems(3) [of p] \<open>p < q\<close> p by (simp add: run_free_span free_runs_def)
  moreover have "alloc_run_loop (p + 1) n s = Some (q * PAGE_SIZE, mark_run q 0 n s)"
    using Suc.hyps(2) Suc.prems p1 \<open>p < q\<close>
    by (intro Suc.hyps(1)) (auto simp: word_le_nat_alt word_less_nat_alt)
  ultimately show ?case using p by (subst alloc_run_loop.simps) (simp add: word_le_nat_alt)
qed

lemma alloc_run_loop_none:
  assumes "unat p \<le> unat (total_pages s) + 1" and "unat (total_pages s) + 1 + unat n < 18446744073709551616"
    and "\<And>r. p \<le> r \<Longrightarrow> r \<notin> free_runs s n"
  shows "alloc_run_loop p n s = Some (0, s)"
  using assms
proof (induction "unat (total_pages s) + 1 - unat p" arbitrary: p)
  case 0
  then have "unat (p + n) = unat p + unat n" by (intro unat_add_u64) linarith
  then show ?case using "0.hyps" by (subst alloc_run_loop.simps) (simp add: word_le_nat_alt)
next
  case (Suc d)
  have pn: "unat (p + n) = unat p + unat n" using Suc.prems by (intro unat_add_u64) linarith
  have p1: "unat (p + 1) = Suc (unat p)"
    using Suc.prems(1,2) Suc.hyps(2) unat_add_u64 [of p 1] by simp
  have "alloc_run_loop (p + 1) n s = Some (0, s)"
    using Suc.hyps(2) Suc.prems p1 by (intro Suc.hyps(1)) (auto simp: word_le_nat_alt)
  moreover have "\<not> run_free s p 0 n" if "p + n \<le> total_pages s"
    using Suc.prems(3) [of p] that pn by (simp add: run_free_span free_runs_def word_le_nat_alt)
  ultimately show ?case by (subst alloc_run_loop.simps) simp
qed

lemma pmm_max_bound: "total_pages s \<le> PMM_MAX_PAGES \<Longrightarrow> unat (total_pages s) \<le> 524288"
  by (simp add: PMM_MAX_PAGES_def word_le_nat_alt)

lemma free_runs_1: "free_runs s 1 = free_pages s"
proof -
  have span: "page_span p 1 = {p}" for p
    by (auto simp: page_span_def word_le_nat_alt word_unat_eq_iff)
  show ?thesis by (auto simp: free_runs_def span free_pages_def word_less_nat_alt)
qed

lemma mark_run_1: "mark_run p 0 1 s = take_page p s"
  by (subst mark_run.simps, subst mark_run.simps) (simp add: take_page_def)

text \<open>
  One equation for every request size: the result is the lowest run of free pages, marked, or 0
  and the state unchanged when no run is long enough.
\<close>

lemma alloc_pages_cases:
  assumes "total_pages s \<le> PMM_MAX_PAGES" and "0 < n"
  shows "pmm_alloc_pages n s =
     Some (if free_runs s n = {} then (0, s)
           else (Min (free_runs s n) * PAGE_SIZE, mark_run (Min (free_runs s n)) 0 n s))"
proof (cases "n = 1")
  case True
  then show ?thesis
    by (simp add: pmm_alloc_pages_def alloc_page_cases free_runs_1 mark_run_1)
next
  case False
  then have loop: "pmm_alloc_pages n s = alloc_run_loop 0 n s"
    using assms(2) by (auto simp: pmm_alloc_pages_def)
  show ?thesis
  proof (cases "free_runs s n = {}")
    case True
    have "alloc_run_loop 0 n s = Some (0, s)"
    proof (cases "n \<le> total_pages s")
      case True
      then have "unat n \<le> 524288"
        using pmm_max_bound [OF assms(1)] by (simp add: word_le_nat_alt)
      then show ?thesis using \<open>free_runs s n = {}\<close> pmm_max_bound [OF assms(1)]
        by (intro alloc_run_loop_none) simp_all
    next
      case False
      then show ?thesis by (subst alloc_run_loop.simps) simp
    qed
    then show ?thesis using True loop by simp
  next
    case False
    then have "Min (free_runs s n) \<in> free_runs s n" by (intro Min_in) simp_all
    moreover have "r \<notin> free_runs s n" if "r < Min (free_runs s n)" for r
      using that by (meson Min_le finite leD)
    ultimately have "alloc_run_loop 0 n s =
        Some (Min (free_runs s n) * PAGE_SIZE, mark_run (Min (free_runs s n)) 0 n s)"
      by (intro alloc_run_loop_found) simp_all
    then show ?thesis using False loop by simp
  qed
qed

lemma card_page_span:
  assumes "unat p + unat n < 18446744073709551616"
  shows "card (page_span p n) = unat n"
proof -
  have "page_span p n = (\<lambda>j. p + j) ` {j. j < n}"
    using page_span_offset [OF assms] by auto
  moreover have "inj_on (\<lambda>j. p + j) {j. j < n}" by (simp add: inj_on_def)
  ultimately show ?thesis by (simp add: card_image card_below)
qed

lemma mark_run_effect:
  assumes "pmm_inv s" and "p \<in> free_runs s n"
  shows "taken (mark_run p 0 n s) = taken s \<union> page_span p n"
    and "pmm_inv (mark_run p 0 n s)"
proof -
  have fit: "unat p + unat n \<le> unat (total_pages s)" and free: "page_span p n \<subseteq> free_pages s"
    using assms(2) by (auto simp: free_runs_def)
  have b: "unat p + unat n < 18446744073709551616"
    using fit unat_u64_bound [of "total_pages s"] by linarith
  have test: "bitmap_test (mark_run p 0 n s) q \<longleftrightarrow> bitmap_test s q \<or> q \<in> page_span p n" for q
    by (auto simp: mark_run_test page_span_offset [OF b])
  show taken: "taken (mark_run p 0 n s) = taken s \<union> page_span p n"
    using free by (auto simp: taken_def test free_pages_def)
  have disj: "taken s \<inter> page_span p n = {}"
    using free by (auto simp: taken_def free_pages_def)
  have "card (taken s \<union> page_span p n) = card (taken s) + unat n"
    using card_Un_disjoint [OF finite finite disj] card_page_span [OF b] by simp
  moreover have "card (taken (mark_run p 0 n s)) \<le> unat (total_pages s)"
    using card_taken_le [of "mark_run p 0 n s"] by simp
  moreover have u: "unat (used_pages s) = card (taken s)" using assms(1) by (simp add: pmm_inv_def)
  ultimately have "unat (used_pages s) + unat n \<le> unat (total_pages s)" by (simp add: taken)
  then have "unat (used_pages s + n) = unat (used_pages s) + unat n"
    using unat_u64_bound [of "total_pages s"] by (intro unat_add_u64) linarith
  then have "unat (used_pages (mark_run p 0 n s)) = card (taken (mark_run p 0 n s))"
    using u \<open>card (taken s \<union> page_span p n) = card (taken s) + unat n\<close>
    by (simp add: mark_run_used taken)
  then show "pmm_inv (mark_run p 0 n s)"
    using assms(1) by (simp add: pmm_inv_def test)
qed

lemma free_run_nonzero: "pmm_inv s \<Longrightarrow> 0 < n \<Longrightarrow> p \<in> free_runs s n \<Longrightarrow> 0 < p"
proof (rule ccontr)
  assume "pmm_inv s" "0 < n" "p \<in> free_runs s n" "\<not> 0 < p"
  then have "p = 0" by (simp add: word_gt_0)
  then have "0 \<in> page_span p n"
    using \<open>0 < n\<close> by (simp add: page_span_def word_less_nat_alt)
  then have "\<not> bitmap_test s 0"
    using \<open>p \<in> free_runs s n\<close> \<open>p = 0\<close> by (auto simp: free_runs_def free_pages_def)
  then show False using \<open>pmm_inv s\<close> by (simp add: pmm_inv_def)
qed

lemma page_address:
  assumes "unat p < 4503599627370496"
  shows "unat (p * PAGE_SIZE) = unat p * 4096" "(p * PAGE_SIZE) div PAGE_SIZE = p"
proof -
  have "unat p * 4096 < 18446744073709551616" using assms by simp
  then show u: "unat (p * PAGE_SIZE) = unat p * 4096"
    by (simp add: PAGE_SIZE_def unat_word_ariths)
  then show "(p * PAGE_SIZE) div PAGE_SIZE = p"
    by (simp add: word_unat_eq_iff unat_div) (simp add: PAGE_SIZE_def)
qed

section \<open>Release\<close>

lemma pmm_free_page_test:
  "bitmap_test (pmm_free_page a s) q \<longleftrightarrow>
     bitmap_test s q \<and> \<not> (q = a div PAGE_SIZE \<and> q < total_pages s)"
  by (auto simp: pmm_free_page_def Let_def)

lemma pmm_free_page_total [simp]: "total_pages (pmm_free_page a s) = total_pages s"
  by (simp add: pmm_free_page_def Let_def)

lemma taken_free_page: "taken (pmm_free_page a s) = taken s - {a div PAGE_SIZE}"
  by (auto simp: taken_def pmm_free_page_test)

lemma pmm_free_page_inv:
  assumes "pmm_inv s" and "a div PAGE_SIZE \<noteq> 0"
  shows "pmm_inv (pmm_free_page a s)"
proof (cases "a div PAGE_SIZE \<in> taken s")
  case True
  then have "0 < card (taken s)" by (auto simp: card_gt_0_iff)
  then have pos: "0 < unat (used_pages s)" using assms(1) by (simp add: pmm_inv_def)
  have "used_pages (pmm_free_page a s) = used_pages s - 1"
    using True by (auto simp: pmm_free_page_def Let_def taken_def not_le)
  then have "unat (used_pages (pmm_free_page a s)) = unat (used_pages s) - 1"
    using pos by (simp add: unat_sub_u64 word_le_nat_alt)
  then show ?thesis using assms True
    by (simp add: pmm_inv_def taken_free_page pmm_free_page_test)
next
  case False
  then have "pmm_free_page a s = s"
    by (auto simp: pmm_free_page_def Let_def taken_def)
  then show ?thesis using assms(1) by simp
qed

lemma free_loop_frame [simp]: "total_pages (free_loop a i n s) = total_pages s"
  by (induction a i n s rule: free_loop.induct) (subst free_loop.simps, simp)

lemma free_loop_taken:
  "taken (free_loop a i n s) = taken s - {(a + j * PAGE_SIZE) div PAGE_SIZE |j. i \<le> j \<and> j < n}"
proof (induction a i n s rule: free_loop.induct)
  case (1 a i n s)
  show ?case
  proof (cases "i < n")
    case True
    note split = word_le_step [OF True]
    show ?thesis
      using True "1.IH" by (subst free_loop.simps) (auto simp: split taken_free_page)
  qed (subst free_loop.simps, auto)
qed

lemma free_loop_inv:
  "pmm_inv s \<Longrightarrow> (\<And>j. i \<le> j \<Longrightarrow> j < n \<Longrightarrow> (a + j * PAGE_SIZE) div PAGE_SIZE \<noteq> 0) \<Longrightarrow>
     pmm_inv (free_loop a i n s)"
proof (induction a i n s rule: free_loop.induct)
  case (1 a i n s)
  show ?case
  proof (cases "i < n")
    case True
    have "i + 1 \<le> j \<Longrightarrow> i \<le> j" for j
      using unat_Suc_below [OF True] by (simp add: word_le_nat_alt)
    then show ?thesis
      using True "1.prems" "1.IH" pmm_free_page_inv by (subst free_loop.simps) simp
  qed (use "1.prems" in \<open>subst free_loop.simps, simp\<close>)
qed

lemma page_run_offset:
  assumes "unat p + unat n \<le> 524288" and "j < n"
  shows "(p * PAGE_SIZE + j * PAGE_SIZE) div PAGE_SIZE = p + j"
proof -
  have "unat (p + j) = unat p + unat j"
    using assms by (intro unat_add_u64) (simp add: word_less_nat_alt)
  then have "unat (p + j) < 4503599627370496" using assms by (simp add: word_less_nat_alt)
  then show ?thesis using page_address(2) [of "p + j"] by (simp add: distrib_right)
qed

lemma free_run_pages:
  assumes "unat p + unat n \<le> 524288"
  shows "{(p * PAGE_SIZE + j * PAGE_SIZE) div PAGE_SIZE |j. 0 \<le> j \<and> j < n} = page_span p n"
proof -
  have "unat p + unat n < 18446744073709551616" using assms by simp
  then show ?thesis using page_run_offset [OF assms]
    by (auto simp: page_span_offset) metis
qed

section \<open>Boot: the invariant is established\<close>

text \<open>
  While the table is being filled, the counter counts the marked pages and every page between
  \<^verbatim>\<open>total_pages\<close> and the capacity of the bitmap is marked.
\<close>

definition tail_marked :: "pmm_state \<Rightarrow> bool" where
  "tail_marked s \<longleftrightarrow> (\<forall>p. total_pages s \<le> p \<and> p < PMM_MAX_PAGES \<longrightarrow> bitmap_test s p)"

definition counted :: "pmm_state \<Rightarrow> bool" where
  "counted s \<longleftrightarrow> total_pages s \<le> PMM_MAX_PAGES \<and> unat (used_pages s) = card (taken s)
     \<and> tail_marked s"

lemma counted_take_page:
  assumes "counted s" and "p \<in> free_pages s"
  shows "counted (take_page p s)"
proof -
  have p: "p < total_pages s" "p \<notin> taken s" using assms(2) by (auto simp: free_pages_def taken_def)
  have "0 < card (free_pages s)" using assms(2) by (auto simp: card_gt_0_iff)
  then have "unat (used_pages s) < unat (total_pages s)"
    using assms card_taken_free [of s] by (simp add: counted_def)
  then have "unat (used_pages s + 1) = Suc (unat (used_pages s))"
    by (intro unat_Suc_below) (simp add: word_less_nat_alt)
  then show ?thesis using assms(1) p
    by (simp add: counted_def taken_take_page tail_marked_def)
qed

lemma reserve_loop_counted: "counted s \<Longrightarrow> counted (reserve_loop p e s)"
proof (induction p e s rule: reserve_loop.induct)
  case (1 p e s)
  show ?case
  proof (cases "p < e \<and> p < PMM_MAX_PAGES")
    case True
    have "counted (if \<not> bitmap_test s p then take_page p s else s)"
    proof (cases "bitmap_test s p")
      case False
      then have "p \<in> free_pages s"
        using True "1.prems" by (force simp: free_pages_def counted_def tail_marked_def not_less)
      then show ?thesis using "1.prems" False by (simp add: counted_take_page)
    qed (use "1.prems" in simp)
    then have "counted (reserve_loop (p + 1) e (if \<not> bitmap_test s p then take_page p s else s))"
      by (rule "1.IH" [folded take_page_def, OF True])
    then show ?thesis using True
      by (subst reserve_loop.simps) (simp add: take_page_def split: if_splits)
  qed (use "1.prems" in \<open>subst reserve_loop.simps, auto\<close>)
qed

lemma reserve_loop_test:
  "bitmap_test (reserve_loop p e s) q \<longleftrightarrow>
     bitmap_test s q \<or> p \<le> q \<and> q < e \<and> q < PMM_MAX_PAGES"
proof (induction p e s rule: reserve_loop.induct)
  case (1 p e s)
  show ?case
  proof (cases "p < e \<and> p < PMM_MAX_PAGES")
    case True
    then have "p < e" by simp
    note split = word_le_step [OF \<open>p < e\<close>]
    show ?thesis using True "1.IH" by (subst reserve_loop.simps) (auto simp: split)
  qed (subst reserve_loop.simps, auto)
qed

lemma clear_loop_test:
  "bitmap_test (clear_loop p e s) q \<longleftrightarrow>
     bitmap_test s q \<and> \<not> (p \<le> q \<and> q < e \<and> q < PMM_MAX_PAGES)"
proof (induction p e s rule: clear_loop.induct)
  case (1 p e s)
  show ?case
  proof (cases "p < e \<and> p < PMM_MAX_PAGES")
    case True
    then have "p < e" by simp
    note split = word_le_step [OF \<open>p < e\<close>]
    show ?thesis using True "1.IH" by (subst clear_loop.simps) (auto simp: split)
  qed (subst clear_loop.simps, auto)
qed

lemma clear_loop_frame [simp]:
  "total_pages (clear_loop p e s) = total_pages s" "used_pages (clear_loop p e s) = used_pages s"
  "highest_page (clear_loop p e s) = highest_page s"
  by (induction p e s rule: clear_loop.induct) (subst clear_loop.simps, simp)+

lemma pmm_reset_test [simp]: "bitmap_test pmm_reset p"
proof -
  have m: "(255 :: u8) = mask 8" by (simp add: mask_eq_exp_minus_1)
  have "bit (255 :: u8) (unat (p mod 8))"
    unfolding m bit_mask_iff using unat_mod_8 [of p] by simp
  then show ?thesis by (simp add: bitmap_test_bit pmm_reset_def)
qed

lemma PMM_MAX_PAGES_eq: "PMM_MAX_PAGES = 524288"
  by (simp add: PMM_MAX_PAGES_def)

lemma fallback_test:
  "bitmap_test (pmm_fallback pmm_reset) p \<longleftrightarrow> p < 256 \<or> 32768 \<le> p"
proof -
  have "p < 524288" if "p < 32768" using that by (rule less_trans) simp
  then show ?thesis by (auto simp: pmm_fallback_def clear_loop_test PMM_MAX_PAGES_eq)
qed

lemma fallback_counted: "counted (pmm_fallback pmm_reset)"
proof -
  have "p < 32768" if "p < 256" for p :: u64 using that by (rule less_trans) simp
  moreover have total: "total_pages (pmm_fallback pmm_reset) = 32768"
    and used: "used_pages (pmm_fallback pmm_reset) = 256"
    by (simp_all add: pmm_fallback_def)
  ultimately have "taken (pmm_fallback pmm_reset) = {p. p < 256}"
    by (auto simp: taken_def fallback_test)
  then show ?thesis
    by (simp add: counted_def card_below total used tail_marked_def fallback_test PMM_MAX_PAGES_eq)
qed

text \<open>
  A memory map is regular when no region ends within the last page of the 64-bit address
  space, where the rounding of its end would wrap.
\<close>

definition mmap_regular :: "mem \<Rightarrow> addr \<Rightarrow> bool" where
  "mmap_regular m mmap \<longleftrightarrow>
     (let entry_size = load32 m (mmap + 8); entries = (load32 m (mmap + 4) - 16) div entry_size in
      \<forall>i < entries. let e = mmap + 16 + ucast (i * entry_size) in
        unat (load64 m e) + unat (load64 m (e + 8)) + 4095 < 18446744073709551616)"

text \<open>The page \<open>p\<close> lies inside a region the map reports as available RAM.\<close>

definition page_available :: "mem \<Rightarrow> addr \<Rightarrow> u64 \<Rightarrow> bool" where
  "page_available m e p \<longleftrightarrow> load32 m (e + 16) = MB2_MEMORY_AVAILABLE \<and>
     unat (load64 m e) \<le> unat p * 4096 \<and>
     (unat p + 1) * 4096 \<le> unat (load64 m e) + unat (load64 m (e + 8))"

definition mmap_available :: "mem \<Rightarrow> addr \<Rightarrow> u64 \<Rightarrow> bool" where
  "mmap_available m mmap p \<longleftrightarrow>
     (let entry_size = load32 m (mmap + 8); entries = (load32 m (mmap + 4) - 16) div entry_size in
      \<exists>i < entries. page_available m (mmap + 16 + ucast (i * entry_size)) p)"

lemma mmap_entry_tail:
  assumes "tail_marked s"
    and "unat (load64 m e) + unat (load64 m (e + 8)) + 4095 < 18446744073709551616"
  shows "tail_marked (mmap_entry m e s)"
proof -
  let ?x = "load64 m e + load64 m (e + 8)"
  have "unat ?x = unat (load64 m e) + unat (load64 m (e + 8))"
    using assms(2) by (intro unat_add_u64) simp
  then have "unat (H3OS_ALIGN_DOWN ?x PAGE_SIZE div PAGE_SIZE) \<le> unat (H3OS_ALIGN_UP ?x PAGE_SIZE div PAGE_SIZE)"
    using assms(2) by (simp add: PAGE_SIZE_def align_down_page_div align_up_page_div div_le_mono)
  then show ?thesis using assms(1)
    by (auto simp: mmap_entry_def Let_def tail_marked_def clear_loop_test word_le_nat_alt word_less_nat_alt)
qed

lemma mmap_loop_tail:
  assumes "tail_marked s"
    and "\<And>k. i \<le> k \<Longrightarrow> k < n \<Longrightarrow> unat (load64 m (a + 16 + ucast (k * z)))
        + unat (load64 m (a + 16 + ucast (k * z) + 8)) + 4095 < 18446744073709551616"
  shows "tail_marked (mmap_loop m a z n i s)"
  using assms
proof (induction m a z n i s rule: mmap_loop.induct)
  case (1 m a z n i s)
  show ?case
  proof (cases "i < n")
    case True
    have "i + 1 \<le> k \<Longrightarrow> i \<le> k" for k
      using unat_Suc_below [OF True] by (simp add: word_le_nat_alt)
    then have "tail_marked (mmap_loop m a z n (i + 1) (mmap_entry m (a + 16 + ucast (i * z)) s))"
      using True "1.prems" by (intro "1.IH" mmap_entry_tail) simp_all
    then show ?thesis using True by (subst mmap_loop.simps) simp
  qed (use "1.prems" in \<open>subst mmap_loop.simps, simp\<close>)
qed

lemma mmap_entry_test:
  assumes "unat (load64 m e) + unat (load64 m (e + 8)) + 4095 < 18446744073709551616"
  shows "bitmap_test (mmap_entry m e s) q \<longleftrightarrow> bitmap_test s q \<and> \<not> (q < PMM_MAX_PAGES \<and> page_available m e q)"
proof -
  let ?x = "load64 m e + load64 m (e + 8)"
  have x: "unat ?x = unat (load64 m e) + unat (load64 m (e + 8))"
    using assms by (intro unat_add_u64) simp
  have "H3OS_ALIGN_UP (load64 m e) PAGE_SIZE div PAGE_SIZE \<le> q \<longleftrightarrow> (unat (load64 m e) + 4095) div 4096 \<le> unat q"
    "q < H3OS_ALIGN_DOWN ?x PAGE_SIZE div PAGE_SIZE \<longleftrightarrow> unat q < unat ?x div 4096"
    using assms by (simp_all add: PAGE_SIZE_def align_up_page_div align_down_page_div word_le_nat_alt word_less_nat_alt)
  moreover have "(unat (load64 m e) + 4095) div 4096 \<le> unat q \<longleftrightarrow> unat (load64 m e) \<le> unat q * 4096"
    "unat q < unat ?x div 4096 \<longleftrightarrow> (unat q + 1) * 4096 \<le> unat ?x"
    by (linarith, simp add: div_less_iff_less_mult less_eq_div_iff_mult_less_eq Suc_le_eq [symmetric] del: Suc_le_eq)
  ultimately have "page_available m e q \<longleftrightarrow> load32 m (e + 16) = MB2_MEMORY_AVAILABLE \<and>
      H3OS_ALIGN_UP (load64 m e) PAGE_SIZE div PAGE_SIZE \<le> q \<and> q < H3OS_ALIGN_DOWN ?x PAGE_SIZE div PAGE_SIZE"
    using x by (simp add: page_available_def)
  then show ?thesis by (auto simp: mmap_entry_def Let_def clear_loop_test)
qed

lemma mmap_loop_test:
  assumes "\<And>k. i \<le> k \<Longrightarrow> k < n \<Longrightarrow> unat (load64 m (a + 16 + ucast (k * z)))
        + unat (load64 m (a + 16 + ucast (k * z) + 8)) + 4095 < 18446744073709551616"
  shows "bitmap_test (mmap_loop m a z n i s) q \<longleftrightarrow>
    bitmap_test s q \<and> \<not> (q < PMM_MAX_PAGES \<and> (\<exists>k. i \<le> k \<and> k < n \<and> page_available m (a + 16 + ucast (k * z)) q))"
  using assms
proof (induction m a z n i s rule: mmap_loop.induct)
  case (1 m a z n i s)
  show ?case
  proof (cases "i < n")
    case True
    note step = word_le_step [OF True]
    let ?s = "mmap_entry m (a + 16 + ucast (i * z)) s"
    have "bitmap_test (mmap_loop m a z n (i + 1) ?s) q \<longleftrightarrow> bitmap_test ?s q \<and>
        \<not> (q < PMM_MAX_PAGES \<and> (\<exists>k. i + 1 \<le> k \<and> k < n \<and> page_available m (a + 16 + ucast (k * z)) q))"
      using "1.prems" True by (intro "1.IH") (auto simp: step)
    moreover have "bitmap_test ?s q \<longleftrightarrow> bitmap_test s q \<and> \<not> (q < PMM_MAX_PAGES \<and> page_available m (a + 16 + ucast (i * z)) q)"
      using "1.prems" True by (intro mmap_entry_test) simp
    moreover have "mmap_loop m a z n i s = mmap_loop m a z n (i + 1) ?s" using True by (subst mmap_loop.simps) simp
    ultimately show ?thesis using True by (auto simp: step)
  qed (subst mmap_loop.simps, auto)
qed

lemma count_loop_frame [simp]:
  "total_pages (count_loop p s) = total_pages s"
  "bitmap_test (count_loop p s) q = bitmap_test s q"
  by (induction p s rule: count_loop.induct) (subst count_loop.simps, simp)+

lemma count_loop_used:
  "unat (used_pages s) + unat (total_pages s) < 18446744073709551616 + unat p \<Longrightarrow>
     p \<le> total_pages s \<Longrightarrow>
     unat (used_pages (count_loop p s)) =
       unat (used_pages s) + card {q. p \<le> q \<and> q < total_pages s \<and> bitmap_test s q}"
proof (induction p s rule: count_loop.induct)
  case (1 p s)
  show ?case
  proof (cases "p < total_pages s")
    case True
    let ?s = "if bitmap_test s p then s\<lparr>used_pages := used_pages s + 1\<rparr> else s"
    let ?A = "\<lambda>p. {q. p \<le> q \<and> q < total_pages s \<and> bitmap_test s q}"
    have p1: "unat (p + 1) = Suc (unat p)" by (rule unat_Suc_below [OF True])
    have lt: "unat p < unat (total_pages s)" using True by (simp add: word_less_nat_alt)
    have u: "unat (used_pages s + 1) = Suc (unat (used_pages s))"
      using "1.prems"(1) lt unat_add_u64 [of "used_pages s" 1] by simp
    have eq: "?A p = (if bitmap_test s p then insert p (?A (p + 1)) else ?A (p + 1))"
      using True by (auto simp: word_le_step [OF True])
    have notin: "p \<notin> ?A (p + 1)" using p1 by (simp add: word_le_nat_alt)
    have card: "card (?A p) = (if bitmap_test s p then Suc (card (?A (p + 1))) else card (?A (p + 1)))"
      by (cases "bitmap_test s p") (simp_all only: eq card_insert_disjoint [OF finite notin] if_True if_False)
    have "unat (used_pages (count_loop (p + 1) ?s)) = unat (used_pages ?s) +
        card {q. p + 1 \<le> q \<and> q < total_pages ?s \<and> bitmap_test ?s q}"
      using "1.prems" True p1 u lt by (intro "1.IH") (auto simp: word_le_nat_alt)
    then show ?thesis using True u card by (subst count_loop.simps) (simp split: if_splits)
  next
    case False
    then have "{q. p \<le> q \<and> q < total_pages s \<and> bitmap_test s q} = {}" by auto
    then show ?thesis using False by (subst count_loop.simps) (simp del: Collect_empty_eq)
  qed
qed

lemma from_mmap_counted:
  assumes "mmap_regular m mmap"
  shows "counted (pmm_from_mmap m mmap pmm_reset)"
proof -
  define z where "z = load32 m (mmap + 8)"
  define n where "n = (load32 m (mmap + 4) - 16) div z"
  define s1 where "s1 = mmap_loop m mmap z n 0 pmm_reset"
  define s2 where "s2 = (if total_pages s1 > PMM_MAX_PAGES
      then s1\<lparr>total_pages := PMM_MAX_PAGES\<rparr> else s1)\<lparr>used_pages := 0\<rparr>"
  have "tail_marked s1"
    unfolding s1_def using assms
    by (intro mmap_loop_tail) (simp_all add: tail_marked_def mmap_regular_def z_def n_def Let_def)
  then have tail: "tail_marked s2" and max: "total_pages s2 \<le> PMM_MAX_PAGES"
    by (auto simp: s2_def tail_marked_def not_less)
  have res: "pmm_from_mmap m mmap pmm_reset = count_loop 0 s2"
    by (simp add: pmm_from_mmap_def Let_def z_def n_def s1_def s2_def)
  have "unat (used_pages (count_loop 0 s2)) = card (taken s2)"
    using count_loop_used [of s2 0] by (simp add: s2_def taken_def)
  then show ?thesis using tail max
    by (simp add: res counted_def tail_marked_def taken_def)
qed

lemma counted_inv: "counted s \<Longrightarrow> bitmap_test s 0 \<Longrightarrow> pmm_inv s"
  by (simp add: counted_def pmm_inv_def)

lemma finish_reserves:
  assumes "counted s" and "0x100000 \<le> kernel_end" and "unat kernel_end + 4095 < 18446744073709551616"
    and "s' = reserve_region 0x100000 (kernel_end - 0x100000) (reserve_region 0 0x100000 s)"
  shows "pmm_inv s'" and "\<And>p. unat p * 4096 < unat kernel_end \<Longrightarrow> p \<notin> free_pages s'"
proof -
  have max: "total_pages s' \<le> PMM_MAX_PAGES"
    using assms reserve_loop_counted by (auto simp: reserve_region_def counted_def)
  have "H3OS_ALIGN_UP (0 + 0x100000) PAGE_SIZE div PAGE_SIZE = 256"
    by (simp add: H3OS_ALIGN_UP_def PAGE_SIZE_def)
  then have low: "reserve_region 0 0x100000 s = reserve_loop 0 256 s"
    by (simp add: reserve_region_def PAGE_SIZE_def)
  have s': "s' = reserve_loop 256 (H3OS_ALIGN_UP kernel_end PAGE_SIZE div PAGE_SIZE) (reserve_loop 0 256 s)"
    unfolding assms(4) low by (simp add: reserve_region_def PAGE_SIZE_def)
  have "unat (H3OS_ALIGN_UP kernel_end PAGE_SIZE div PAGE_SIZE) = (unat kernel_end + 4095) div 4096"
    using assms(3) by (simp add: PAGE_SIZE_def align_up_page_div)
  then have test: "bitmap_test s' p" if "p < PMM_MAX_PAGES" "unat p * 4096 < unat kernel_end" for p
    using that by (auto simp: s' reserve_loop_test word_le_nat_alt word_less_nat_alt)
  then have "bitmap_test s' 0" using assms(2) by (simp add: PMM_MAX_PAGES_eq word_le_nat_alt)
  then show "pmm_inv s'"
    using assms(1,4) reserve_loop_counted by (intro counted_inv) (simp_all add: reserve_region_def)
  show "p \<notin> free_pages s'" if "unat p * 4096 < unat kernel_end" for p
    using test [of p] that max by (auto simp: free_pages_def)
qed

lemma finish_free:
  assumes "counted s" and "0x100000 \<le> kernel_end" and "unat kernel_end + 4095 < 18446744073709551616"
    and "s' = reserve_region 0x100000 (kernel_end - 0x100000) (reserve_region 0 0x100000 s)"
  shows "p \<in> free_pages s' \<longleftrightarrow> p < PMM_MAX_PAGES \<and> \<not> bitmap_test s p \<and> unat kernel_end \<le> unat p * 4096"
proof -
  define n where "n = H3OS_ALIGN_UP kernel_end PAGE_SIZE div PAGE_SIZE"
  have n: "unat n = (unat kernel_end + 4095) div 4096" using assms(3) by (simp add: n_def PAGE_SIZE_def align_up_page_div)
  have "H3OS_ALIGN_UP (0 + 0x100000) PAGE_SIZE div PAGE_SIZE = 256" by (simp add: H3OS_ALIGN_UP_def PAGE_SIZE_def)
  then have s': "s' = reserve_loop 256 n (reserve_loop 0 256 s)"
    unfolding assms(4) by (simp add: reserve_region_def PAGE_SIZE_def n_def)
  have "total_pages (reserve_loop q e t) = total_pages t" for q e t
    by (induction q e t rule: reserve_loop.induct) (subst reserve_loop.simps, simp)
  then have total: "total_pages s' = total_pages s" by (simp add: s')
  have tail: "total_pages s \<le> PMM_MAX_PAGES" "\<And>q. \<not> bitmap_test s q \<Longrightarrow> q < PMM_MAX_PAGES \<Longrightarrow> q < total_pages s"
    using assms(1) by (auto simp: counted_def tail_marked_def not_le [symmetric])
  have "p < n \<longleftrightarrow> unat p * 4096 < unat kernel_end" using n by (simp add: word_less_nat_alt) linarith
  moreover have "256 \<le> n" using n assms(2) by (simp add: word_le_nat_alt)
  ultimately have "bitmap_test s' p \<longleftrightarrow> bitmap_test s p \<or> unat p * 4096 < unat kernel_end" if "p < PMM_MAX_PAGES"
    using that by (auto simp: s' reserve_loop_test not_le)
  moreover have "p < PMM_MAX_PAGES" if "p < total_pages s" using that tail(1) by (rule less_le_trans)
  ultimately show ?thesis using tail(2) total by (auto simp: free_pages_def not_less)
qed

section \<open>The interface the clients of the allocator use\<close>

text \<open>
  What the heap, the virtual memory manager and the program loader rely on: a call returns; a
  non-zero result is the address of \<open>n\<close> contiguous pages nobody holds, which then are held;
  a zero result changes nothing.
\<close>

locale page_allocator =
  fixes inv :: "'s \<Rightarrow> bool"
    and held :: "'s \<Rightarrow> u64 set"
    and alloc :: "u64 \<Rightarrow> 's \<Rightarrow> (addr \<times> 's) option"
  assumes alloc_returns: "inv s \<Longrightarrow> 0 < n \<Longrightarrow> \<exists>a s'. alloc n s = Some (a, s')"
    and alloc_inv: "inv s \<Longrightarrow> 0 < n \<Longrightarrow> alloc n s = Some (a, s') \<Longrightarrow> inv s'"
    and alloc_fail: "inv s \<Longrightarrow> 0 < n \<Longrightarrow> alloc n s = Some (0, s') \<Longrightarrow> s' = s"
    and alloc_success: "inv s \<Longrightarrow> 0 < n \<Longrightarrow> alloc n s = Some (a, s') \<Longrightarrow> a \<noteq> 0 \<Longrightarrow>
      \<exists>p. a = p * PAGE_SIZE \<and> 0 < p \<and> unat p + unat n \<le> 524288 \<and>
          page_span p n \<inter> held s = {} \<and> held s' = held s \<union> page_span p n"
begin

text \<open>The block returned, in bytes: it starts on a page boundary and does not wrap.\<close>

lemma alloc_block:
  assumes "inv s" "0 < n" "alloc n s = Some (a, s')" "a \<noteq> 0"
  shows "unat a mod 4096 = 0" and "4096 \<le> unat a" and "unat a + unat n * 4096 \<le> 2147483648"
proof -
  obtain p where p: "a = p * PAGE_SIZE" "0 < p" "unat p + unat n \<le> 524288"
    using alloc_success [OF assms] by blast
  then have a: "unat a = unat p * 4096" using page_address(1) [of p] by simp
  then show "unat a mod 4096 = 0" by simp
  show "4096 \<le> unat a" using p(2) a by (simp add: word_less_nat_alt)
  have "unat a + unat n * 4096 = (unat p + unat n) * 4096" using a by simp
  also have "\<dots> \<le> 524288 * 4096" using p(3) by (rule mult_le_mono1)
  finally show "unat a + unat n * 4096 \<le> 2147483648" by simp
qed

text \<open>Every byte of the block lies in a page that was not held before and is held afterwards.\<close>

lemma alloc_bytes_fresh:
  assumes "inv s" "0 < n" "alloc n s = Some (a, s')" "a \<noteq> 0"
    and "unat a \<le> unat x" "unat x < unat a + unat n * 4096"
  shows "x div PAGE_SIZE \<notin> held s" and "x div PAGE_SIZE \<in> held s'"
proof -
  obtain p where p: "a = p * PAGE_SIZE" "unat p + unat n \<le> 524288"
    "page_span p n \<inter> held s = {}" "held s' = held s \<union> page_span p n"
    using alloc_success [OF assms(1-4)] by blast
  then have a: "unat a = unat p * 4096" using page_address(1) [of p] by simp
  have "unat p \<le> unat x div 4096" using assms(5) a by simp
  moreover have "unat x div 4096 < unat p + unat n"
    using assms(6) a by (simp add: less_mult_imp_div_less distrib_right)
  ultimately have "x div PAGE_SIZE \<in> page_span p n"
    by (simp add: page_span_def word_le_nat_alt unat_div PAGE_SIZE_def)
  then show "x div PAGE_SIZE \<notin> held s" and "x div PAGE_SIZE \<in> held s'" using p by auto
qed

lemma alloc_held_mono:
  assumes "inv s" "0 < n" "alloc n s = Some (a, s')"
  shows "held s \<subseteq> held s'"
  using alloc_fail [of s n s'] alloc_success [of s n a s'] assms by (cases "a = 0") auto

end

lemma alloc_pages_contract:
  assumes "pmm_inv s" "0 < n" "pmm_alloc_pages n s = Some (a, s')" "a \<noteq> 0"
  shows "\<exists>p. a = p * PAGE_SIZE \<and> 0 < p \<and> unat p + unat n \<le> 524288 \<and>
    page_span p n \<inter> taken s = {} \<and> taken s' = taken s \<union> page_span p n"
proof -
  have max: "total_pages s \<le> PMM_MAX_PAGES" using assms(1) by (simp add: pmm_inv_def)
  let ?p = "Min (free_runs s n)"
  have ne: "free_runs s n \<noteq> {}" and eq: "a = ?p * PAGE_SIZE" "s' = mark_run ?p 0 n s"
    using assms(3,4) alloc_pages_cases [OF max assms(2)] by (auto split: if_splits)
  then have p: "?p \<in> free_runs s n" by (intro Min_in) simp_all
  then have "unat ?p + unat n \<le> 524288"
    using pmm_max_bound [OF max] by (simp add: free_runs_def)
  moreover have "page_span ?p n \<inter> taken s = {}"
    using p by (auto simp: free_runs_def free_pages_def taken_def)
  ultimately show ?thesis
    using eq free_run_nonzero [OF assms(1,2) p] mark_run_effect(1) [OF assms(1) p] by blast
qed

lemma alloc_zero_iff:
  assumes "pmm_inv s" "0 < n" "pmm_alloc_pages n s = Some (a, s')"
  shows "a = 0 \<longleftrightarrow> free_runs s n = {}"
proof -
  have max: "total_pages s \<le> PMM_MAX_PAGES" using assms(1) by (simp add: pmm_inv_def)
  show ?thesis
  proof (cases "free_runs s n = {}")
    case False
    then have p: "Min (free_runs s n) \<in> free_runs s n" by (intro Min_in) simp_all
    then have "unat (Min (free_runs s n)) < 4503599627370496"
      using pmm_max_bound [OF max] by (simp add: free_runs_def)
    then have "unat (Min (free_runs s n) * PAGE_SIZE) = unat (Min (free_runs s n)) * 4096"
      by (rule page_address(1))
    moreover have "0 < unat (Min (free_runs s n))"
      using free_run_nonzero [OF assms(1,2) p] by (simp add: word_less_nat_alt)
    ultimately have "Min (free_runs s n) * PAGE_SIZE \<noteq> 0" by (metis unat_0 mult_is_0 less_numeral_extra(3) zero_neq_numeral)
    then show ?thesis using False assms(3) alloc_pages_cases [OF max assms(2)] by auto
  qed (use assms(3) alloc_pages_cases [OF max assms(2)] in auto)
qed

lemma alloc_pages_inv:
  assumes "pmm_inv s" "0 < n" "pmm_alloc_pages n s = Some (a, s')"
  shows "pmm_inv s'"
proof -
  have "total_pages s \<le> PMM_MAX_PAGES" using assms(1) by (simp add: pmm_inv_def)
  then show ?thesis
    using assms alloc_pages_cases [of s n] mark_run_effect(2) [of s "Min (free_runs s n)" n] Min_in
    by (auto split: if_splits)
qed

interpretation pmm: page_allocator pmm_inv taken pmm_alloc_pages
proof unfold_locales
  fix s s' :: pmm_state and n a :: u64
  assume *: "pmm_inv s" "0 < n"
  then have max: "total_pages s \<le> PMM_MAX_PAGES" by (simp add: pmm_inv_def)
  show "\<exists>a t. pmm_alloc_pages n s = Some (a, t)"
    using alloc_pages_cases [OF max *(2)] by (cases "free_runs s n = {}") auto
  show "s' = s" if "pmm_alloc_pages n s = Some (0, s')"
    using that alloc_zero_iff [OF * that] alloc_pages_cases [OF max *(2)] by auto
  show "pmm_inv s'" if "pmm_alloc_pages n s = Some (a, s')"
    using * that by (rule alloc_pages_inv)
  show "\<exists>p. a = p * PAGE_SIZE \<and> 0 < p \<and> unat p + unat n \<le> 524288 \<and>
      page_span p n \<inter> taken s = {} \<and> taken s' = taken s \<union> page_span p n"
    if "pmm_alloc_pages n s = Some (a, s')" "a \<noteq> 0"
    using * that by (rule alloc_pages_contract)
qed

lemma from_mmap_available:
  assumes "mmap_regular m mmap"
  shows "bitmap_test (pmm_from_mmap m mmap pmm_reset) p \<longleftrightarrow> \<not> (p < PMM_MAX_PAGES \<and> mmap_available m mmap p)"
proof -
  let ?z = "load32 m (mmap + 8)" and ?n = "(load32 m (mmap + 4) - 16) div load32 m (mmap + 8)"
  have "bitmap_test (pmm_from_mmap m mmap pmm_reset) p \<longleftrightarrow> bitmap_test (mmap_loop m mmap ?z ?n 0 pmm_reset) p"
    by (simp add: pmm_from_mmap_def Let_def)
  also have "\<dots> \<longleftrightarrow> \<not> (p < PMM_MAX_PAGES \<and> (\<exists>k. 0 \<le> k \<and> k < ?n \<and> page_available m (mmap + 16 + ucast (k * ?z)) p))"
    using assms by (subst mmap_loop_test) (simp_all add: mmap_regular_def Let_def)
  finally show ?thesis by (simp add: mmap_available_def Let_def)
qed

text \<open>
  The walk over the tags: the positions that \<^verbatim>\<open>mb2_find\<close> visits from \<open>p\<close> on. It goes past a tag in front of the end of
  the block that is neither the last one nor of the type searched for.
\<close>

definition tag_step :: "mem \<Rightarrow> addr \<Rightarrow> addr" where
  "tag_step m q = ucast ((load32 m (q + 4) + 7) AND NOT 7)"

definition tag_passed :: "mem \<Rightarrow> addr \<Rightarrow> u32 \<Rightarrow> addr \<Rightarrow> bool" where
  "tag_passed m e ty q \<longleftrightarrow> q < e \<and> load32 m q \<noteq> 0 \<and> load32 m q \<noteq> ty"

inductive tag_walk :: "mem \<Rightarrow> addr \<Rightarrow> u32 \<Rightarrow> addr \<Rightarrow> addr \<Rightarrow> bool" for m e ty p where
  walk_start: "tag_walk m e ty p p"
| walk_step: "tag_walk m e ty p q \<Longrightarrow> tag_passed m e ty q \<Longrightarrow> tag_walk m e ty p (q + tag_step m q)"

lemma tag_walk_front: "tag_walk m e ty p q \<Longrightarrow> q = p \<or> tag_passed m e ty p \<and> tag_walk m e ty (p + tag_step m p) q"
  by (induction rule: tag_walk.induct) (auto intro: tag_walk.intros)

lemma tag_walk_push: "tag_walk m e ty (p + tag_step m p) q \<Longrightarrow> tag_passed m e ty p \<Longrightarrow> tag_walk m e ty p q"
  by (induction rule: tag_walk.induct) (auto intro: tag_walk.intros)

lemma mb2_find_loop_walk:
  "mb2_find_loop m ptr e ty = (if tag_passed m e ty ptr then mb2_find_loop m (ptr + tag_step m ptr) e ty
     else Some (if ptr < e \<and> load32 m ptr \<noteq> 0 then ptr else NULL))"
  by (subst mb2_find_loop.simps) (auto simp: tag_passed_def tag_step_def)

text \<open>A walk that returns never stood on a tag it had to pass without a step, and returns a tag that it visited.\<close>

lemma mb2_find_loop_returned:
  assumes "mb2_find_loop m ptr e ty = Some r"
  shows "(\<forall>q. tag_walk m e ty ptr q \<longrightarrow> tag_passed m e ty q \<longrightarrow> tag_step m q \<noteq> 0) \<and>
    (r = NULL \<or> tag_walk m e ty ptr r \<and> r < e \<and> load32 m r = ty)"
proof (rule mb2_find_loop.raw_induct [OF _ assms])
  fix f :: "mem \<Rightarrow> addr \<Rightarrow> addr \<Rightarrow> u32 \<Rightarrow> addr option" and m ptr e ty r
  let ?P = "\<lambda>m ptr e ty r. (\<forall>q. tag_walk m e ty ptr q \<longrightarrow> tag_passed m e ty q \<longrightarrow> tag_step m q \<noteq> 0) \<and>
    (r = NULL \<or> tag_walk m e ty ptr r \<and> r < e \<and> load32 m r = ty)"
  assume IH: "\<And>m ptr e ty r. f m ptr e ty = Some r \<Longrightarrow> ?P m ptr e ty r"
    and eq: "(if ptr < e then (if load32 m ptr = 0 then Some NULL
         else if load32 m ptr = ty then Some ptr
         else f m (ptr + ucast ((load32 m (ptr + 4) + 7) AND NOT 7)) e ty) else Some NULL) = Some r"
  show "?P m ptr e ty r"
  proof (cases "tag_passed m e ty ptr")
    case True
    then have f: "f m (ptr + tag_step m ptr) e ty = Some r" using eq by (simp add: tag_passed_def tag_step_def)
    have "tag_step m ptr \<noteq> 0"
    proof
      assume z: "tag_step m ptr = 0"
      with f have "?P m ptr e ty r" by (intro IH) simp
      then show False using True z walk_start by blast
    qed
    then show ?thesis using IH [OF f] tag_walk_front [of m e ty ptr] tag_walk_push [OF _ True] by blast
  next
    case False
    then show ?thesis using eq tag_walk_front [of m e ty ptr] by (auto simp: tag_passed_def walk_start split: if_splits)
  qed
qed

lemma mb2_find_loop_returns:
  assumes "unat e + 4294967296 < 18446744073709551616"
    and "\<And>q. tag_walk m e ty ptr q \<Longrightarrow> tag_passed m e ty q \<Longrightarrow> tag_step m q \<noteq> 0"
  shows "\<exists>r. mb2_find_loop m ptr e ty = Some r"
  using assms
proof (induction "unat e - unat ptr" arbitrary: ptr rule: less_induct)
  case less
  show ?case
  proof (cases "tag_passed m e ty ptr")
    case True
    have d: "0 < unat (tag_step m ptr)" using less.prems(2) [OF walk_start True] by (simp add: unat_gt_0)
    have b: "unat (tag_step m ptr) < 4294967296" by (simp add: tag_step_def unat_u32_bound)
    have lt: "unat ptr < unat e" using True by (simp add: tag_passed_def word_less_nat_alt)
    then have step: "unat (ptr + tag_step m ptr) = unat ptr + unat (tag_step m ptr)"
      using less.prems(1) b by (intro unat_add_u64) simp
    have "\<exists>r. mb2_find_loop m (ptr + tag_step m ptr) e ty = Some r"
      using less.prems(2) step d lt tag_walk_push [OF _ True] by (intro less.hyps less.prems(1)) auto
    then show ?thesis using True by (subst mb2_find_loop_walk) simp
  qed (subst mb2_find_loop_walk, simp)
qed

section \<open>Properties\<close>

text \<open>
  (C4) For every request of at least one page and every state that satisfies the allocator's
  invariant, \<^verbatim>\<open>pmm_alloc_pages\<close> returns. It returns 0, with the state unchanged, exactly when
  no run of that many free pages exists. Otherwise it returns the address of the lowest such
  run, the run was free, exactly its pages become marked, and the invariant (usage counter,
  table bound, page 0 reserved) holds again.
\<close>

theorem pmm_alloc_pages_first_fit:
  assumes "pmm_inv s" and "0 < n"
  shows "\<exists>a s'. pmm_alloc_pages n s = Some (a, s') \<and> pmm_inv s' \<and>
    (a = 0 \<longleftrightarrow> free_runs s n = {}) \<and> (a = 0 \<longrightarrow> s' = s) \<and>
    (a \<noteq> 0 \<longrightarrow> a = Min (free_runs s n) * PAGE_SIZE \<and>
       page_span (Min (free_runs s n)) n \<inter> taken s = {} \<and>
       taken s' = taken s \<union> page_span (Min (free_runs s n)) n)"
proof -
  obtain a s' where r: "pmm_alloc_pages n s = Some (a, s')"
    using pmm.alloc_returns [OF assms] by blast
  have max: "total_pages s \<le> PMM_MAX_PAGES" using assms(1) by (simp add: pmm_inv_def)
  have "a = Min (free_runs s n) * PAGE_SIZE \<and> page_span (Min (free_runs s n)) n \<inter> taken s = {} \<and>
      taken s' = taken s \<union> page_span (Min (free_runs s n)) n" if "a \<noteq> 0"
  proof -
    have ne: "free_runs s n \<noteq> {}" using alloc_zero_iff [OF assms r] that by simp
    then have p: "Min (free_runs s n) \<in> free_runs s n" by (intro Min_in) simp_all
    then have "page_span (Min (free_runs s n)) n \<inter> taken s = {}"
      by (auto simp: free_runs_def free_pages_def taken_def)
    then show ?thesis
      using r ne alloc_pages_cases [OF max assms(2)] mark_run_effect(1) [OF assms(1) p] by auto
  qed
  moreover have "a = 0 \<longrightarrow> s' = s" using r pmm.alloc_fail [OF assms] by auto
  ultimately show ?thesis
    using r pmm.alloc_inv [OF assms r] alloc_zero_iff [OF assms r] by blast
qed

definition pmm_example :: pmm_state where
  "pmm_example = \<lparr>page_bitmap = (\<lambda>_. 1), total_pages = 4, used_pages = 1, highest_page = 4\<rparr>"

lemma u64_below_4: "(p :: u64) < 4 \<longleftrightarrow> p = 0 \<or> p = 1 \<or> p = 2 \<or> p = 3"
  by (auto simp: word_less_nat_alt word_unat_eq_iff)

lemma pmm_example_test: "p < 4 \<Longrightarrow> bitmap_test pmm_example p \<longleftrightarrow> p = 0"
  by (auto simp: u64_below_4 pmm_example_def bitmap_test_def)

lemma pmm_example_inv: "pmm_inv pmm_example"
proof -
  have "taken pmm_example = {0}"
    using pmm_example_test by (auto simp: taken_def pmm_example_def)
  then show ?thesis
    using pmm_example_test [of 0] by (simp add: pmm_inv_def) (simp add: pmm_example_def PMM_MAX_PAGES_def)
qed

lemma pmm_example_run: "1 \<in> free_runs pmm_example 2"
proof -
  have "page_span 1 2 \<subseteq> {p. p < 4 \<and> p \<noteq> 0}"
    by (auto simp: page_span_def word_le_nat_alt word_less_nat_alt)
  then have "page_span 1 2 \<subseteq> free_pages pmm_example"
    using pmm_example_test by (auto simp: free_pages_def pmm_example_def)
  then show ?thesis by (simp add: free_runs_def) (simp add: pmm_example_def)
qed

theorem pmm_alloc_pages_first_fit_witness:
  "\<exists>a s'. pmm_inv pmm_example \<and> pmm_alloc_pages 2 pmm_example = Some (a, s') \<and> a \<noteq> 0 \<and> pmm_inv s'"
  using pmm_alloc_pages_first_fit [OF pmm_example_inv, of 2] pmm_example_inv pmm_example_run by auto

text \<open>
  (C6) Giving back what was allocated: after a successful \<^verbatim>\<open>pmm_alloc_pages\<close>, calling
  \<^verbatim>\<open>pmm_free_pages\<close> with the returned address and the same count restores the set of marked
  pages and the usage counter, and the invariant holds.
\<close>

theorem pmm_free_undoes_alloc:
  assumes "pmm_inv s" and "0 < n" and "pmm_alloc_pages n s = Some (a, s')" and "a \<noteq> 0"
  shows "taken (pmm_free_pages a n s') = taken s \<and>
    used_pages (pmm_free_pages a n s') = used_pages s \<and> pmm_inv (pmm_free_pages a n s')"
proof -
  obtain p where p: "a = p * PAGE_SIZE" "0 < p" "unat p + unat n \<le> 524288"
    "page_span p n \<inter> taken s = {}" "taken s' = taken s \<union> page_span p n"
    using pmm.alloc_success [OF assms] by blast
  have t: "taken (pmm_free_pages a n s') = taken s"
  proof -
    have "taken (pmm_free_pages a n s') = taken s' - page_span p n"
      by (simp only: pmm_free_pages_def free_loop_taken p(1) free_run_pages [OF p(3)])
    then show ?thesis using p(4,5) by auto
  qed
  have "(a + j * PAGE_SIZE) div PAGE_SIZE \<noteq> 0" if "j < n" for j
  proof -
    have "unat (p + j) = unat p + unat j"
      using p(3) that by (intro unat_add_u64) (simp add: word_less_nat_alt)
    then have "p + j \<noteq> 0" using p(2) by (auto simp: word_less_nat_alt)
    then show ?thesis using page_run_offset [OF p(3) that] p(1) by simp
  qed
  then have inv: "pmm_inv (pmm_free_pages a n s')"
    using pmm.alloc_inv [OF assms(1-3)] by (simp add: pmm_free_pages_def free_loop_inv)
  then have "unat (used_pages (pmm_free_pages a n s')) = unat (used_pages s)"
    using t assms(1) by (simp add: pmm_inv_def)
  then show ?thesis using t inv by (simp add: word_unat_eq_iff)
qed

theorem pmm_free_undoes_alloc_witness:
  "\<exists>a s'. pmm_alloc_pages 2 pmm_example = Some (a, s') \<and> a \<noteq> 0 \<and>
     taken (pmm_free_pages a 2 s') = taken pmm_example"
proof -
  obtain a s' where r: "pmm_alloc_pages 2 pmm_example = Some (a, s')"
    using pmm.alloc_returns [OF pmm_example_inv, of 2] by auto
  then have "a \<noteq> 0" using alloc_zero_iff [OF pmm_example_inv _ r] pmm_example_run by auto
  then show ?thesis using pmm_free_undoes_alloc [OF pmm_example_inv _ r] r by auto
qed

text \<open>
  (C5) Boot safety. Let the walk over the boot loader's tags return, let the kernel end above 1 MiB and, if there is a memory map, let its entry size
  not be 0 and no region reach into the last page of the address space. Then \<^verbatim>\<open>pmm_init\<close> returns and establishes the allocator's invariant, and
  the free pages are exactly the pages below the limit of 2 GiB that lie entirely behind the kernel image and entirely inside a region the map
  reports as available (without a map: below 128 MiB). In particular no page of the first MiB or of the kernel image is free.
\<close>

theorem pmm_init_safe:
  assumes "0x100000 \<le> kernel_end" and "unat kernel_end + 4095 < 18446744073709551616"
    and "mb2_find m mb2 MB2_TAG_MMAP = Some mmap" and "mmap \<noteq> NULL \<Longrightarrow> load32 m (mmap + 8) \<noteq> 0 \<and> mmap_regular m mmap"
  shows "\<exists>s. pmm_init m mb2 kernel_end = Some s \<and> pmm_inv s \<and>
    (\<forall>p. p \<in> free_pages s \<longleftrightarrow> p < PMM_MAX_PAGES \<and> unat kernel_end \<le> unat p * 4096 \<and>
      (if mmap = NULL then p < 32768 else mmap_available m mmap p))"
proof -
  define b where "b = (if mmap = NULL then pmm_fallback pmm_reset else pmm_from_mmap m mmap pmm_reset)"
  define s where "s = reserve_region 0x100000 (kernel_end - 0x100000) (reserve_region 0 0x100000 b)"
  have c: "counted b" using assms(4) fallback_counted from_mmap_counted by (simp add: b_def)
  have low: "256 \<le> p" if "unat kernel_end \<le> unat p * 4096" for p :: u64
    using that assms(1) by (simp add: word_le_nat_alt)
  have small: "p < PMM_MAX_PAGES" if "p < 32768" for p using that unfolding PMM_MAX_PAGES_eq by (rule less_trans) simp
  have test: "bitmap_test b p \<longleftrightarrow> \<not> (p < PMM_MAX_PAGES \<and> (if mmap = NULL then 256 \<le> p \<and> p < 32768 else mmap_available m mmap p))" for p
    using assms(4) from_mmap_available [of m mmap p] small [of p] by (auto simp: b_def fallback_test not_less not_le dest: leD)
  have "pmm_init m mb2 kernel_end = Some s" using assms(3,4) by (auto simp: pmm_init_def Let_def b_def s_def)
  moreover have "pmm_inv s" by (rule finish_reserves(1) [OF c assms(1,2) s_def])
  moreover have "p \<in> free_pages s \<longleftrightarrow> p < PMM_MAX_PAGES \<and> unat kernel_end \<le> unat p * 4096 \<and>
      (if mmap = NULL then p < 32768 else mmap_available m mmap p)" for p
    unfolding finish_free [OF c assms(1,2) s_def] test using low [of p] by auto
  ultimately show ?thesis by blast
qed

text \<open>A block with a memory map of one region, 7 MiB of RAM from 1 MiB on.\<close>

definition map_block :: mem where
  "map_block = (\<lambda>_. 0)(0x9000 := 48, 0x9008 := 6, 0x900C := 40, 0x9010 := 24, 0x901A := 0x10, 0x9022 := 0x70, 0x9028 := 1)"

lemma map_block_loads:
  "load32 map_block 0x9000 = 48" "load32 map_block 0x9008 = 6" "load32 map_block 0x900C = 40" "load32 map_block 0x9010 = 24"
  "load64 map_block 0x9018 = 0x100000" "load64 map_block 0x9020 = 0x700000" "load32 map_block 0x9028 = 1"
  by (simp_all add: load32_def load64_def peek_def upt_rec map_block_def)

theorem pmm_init_safe_witness:
  "\<exists>s. pmm_init map_block 0x9000 0x400000 = Some s \<and> pmm_inv s \<and> free_pages s = {p. 0x400 \<le> p \<and> p < 0x800}"
proof -
  note ld = map_block_loads
  have find: "mb2_find map_block 0x9000 MB2_TAG_MMAP = Some 0x9008"
    by (simp add: mb2_find_def NULL_def ld MB2_TAG_MMAP_def mb2_find_loop_walk tag_passed_def)
  have one: "i < 1 \<longleftrightarrow> i = 0" for i :: u32 by (auto simp: word_less_nat_alt word_unat_eq_iff)
  have reg: "mmap_regular map_block 0x9008" by (simp add: mmap_regular_def Let_def ld one)
  have av: "mmap_available map_block 0x9008 p \<longleftrightarrow> 0x100 \<le> unat p \<and> unat p < 0x800" for p
    by (simp add: mmap_available_def page_available_def Let_def ld one MB2_MEMORY_AVAILABLE_def) linarith
  obtain s where s: "pmm_init map_block 0x9000 0x400000 = Some s" "pmm_inv s"
    "\<And>p. p \<in> free_pages s \<longleftrightarrow> p < PMM_MAX_PAGES \<and> 0x400000 \<le> unat p * 4096 \<and> mmap_available map_block 0x9008 p"
    using pmm_init_safe [OF _ _ find, of "0x400000"] reg ld(4) by (auto simp: NULL_def)
  have "free_pages s = {p. 0x400 \<le> p \<and> p < 0x800}"
    by (rule set_eqI) (simp add: s(3) av PMM_MAX_PAGES_eq word_le_nat_alt word_less_nat_alt, linarith)
  then show ?thesis using s(1,2) by blast
qed

text \<open>
  (C18) The walk over the boot loader's tags, for a block that ends more than 4 GiB below the top of the address space. \<^verbatim>\<open>mb2_find\<close> returns exactly if
  every tag that the walk visits and has to pass has a size that does not round to 0; one visited tag whose size rounds to 0, in front of the
  end tag and of the tag searched for, makes it run for ever. What it returns is \<^verbatim>\<open>NULL\<close> or a visited tag of the type.
\<close>

theorem mb2_find_progress:
  assumes "info \<noteq> NULL" and "e = info + ucast (load32 m info)"
    and "unat e + 4294967296 < 18446744073709551616"
  shows "((\<exists>r. mb2_find m info ty = Some r) \<longleftrightarrow>
      (\<forall>q. tag_walk m e ty (info + 8) q \<longrightarrow> tag_passed m e ty q \<longrightarrow> tag_step m q \<noteq> 0)) \<and>
    (\<forall>r. mb2_find m info ty = Some r \<longrightarrow> r = NULL \<or> tag_walk m e ty (info + 8) r \<and> r < e \<and> load32 m r = ty)"
proof -
  have "mb2_find m info ty = mb2_find_loop m (info + 8) e ty" using assms(1,2) by (simp add: mb2_find_def)
  then show ?thesis
    using mb2_find_loop_returned [of m "info + 8" e ty] mb2_find_loop_returns [OF assms(3), of m ty "info + 8"] by (simp only:) blast
qed

text \<open>Two tags: one of type 4 with 16 bytes, then one with a size of 0, which ends the block or is of type 5.\<close>

definition tag_block :: "u8 \<Rightarrow> mem" where
  "tag_block ty = (\<lambda>_. 0)(0x1000 := 40, 0x1008 := 4, 0x100C := 16, 0x1018 := ty)"

theorem mb2_find_progress_witness:
  "mb2_find (tag_block 5) 0x1000 MB2_TAG_MMAP = None \<and> (\<exists>r. mb2_find (tag_block 0) 0x1000 MB2_TAG_MMAP = Some r)"
proof -
  have ld: "load32 (tag_block t) 0x1000 = 40" "load32 (tag_block t) 0x1008 = 4" "load32 (tag_block t) 0x100C = 16"
    "load32 (tag_block t) 0x101C = 0" "load32 (tag_block 5) 0x1018 = 5" "load32 (tag_block 0) 0x1018 = 0" for t
    by (simp_all add: load32_def peek_def upt_rec tag_block_def)
  have st: "tag_step (tag_block t) 0x1008 = 16" "tag_step (tag_block t) 0x1018 = 0" for t by (simp_all add: tag_step_def ld)
  have h: "(0x1000 :: addr) \<noteq> NULL" "0x1028 = (0x1000 :: addr) + ucast (load32 (tag_block t) 0x1000)"
    "unat (0x1028 :: addr) + 4294967296 < 18446744073709551616" "(0x1000 :: addr) + 8 = 0x1008" for t by (simp_all add: NULL_def ld)
  have walk: "q = 0x1008 \<or> q = 0x1018" if "tag_walk (tag_block t) 0x1028 MB2_TAG_MMAP 0x1008 q" for t q
    using that by (induction rule: tag_walk.induct) (auto simp: st)
  have two: "tag_walk (tag_block 5) 0x1028 MB2_TAG_MMAP 0x1008 (0x1008 + tag_step (tag_block 5) 0x1008)"
    by (intro tag_walk.intros) (simp add: tag_passed_def ld MB2_TAG_MMAP_def)
  have pass: "tag_passed (tag_block 5) 0x1028 MB2_TAG_MMAP 0x1018" "\<not> tag_passed (tag_block 0) 0x1028 MB2_TAG_MMAP 0x1018"
    by (simp_all add: tag_passed_def ld MB2_TAG_MMAP_def)
  note eq = mb2_find_progress [OF h(1) h(2) h(3), unfolded h(4), THEN conjunct1]
  have "\<not> (\<exists>r. mb2_find (tag_block 5) 0x1000 MB2_TAG_MMAP = Some r)"
    unfolding eq using two pass(1) st by (auto simp: st)
  moreover have "\<exists>r. mb2_find (tag_block 0) 0x1000 MB2_TAG_MMAP = Some r"
    unfolding eq using walk pass(2) st(1) by fastforce
  ultimately show ?thesis by simp
qed

end
