(* ===== verification/H3_String.thy ===== *)
theory H3_String
  imports H3_Prelude "HOL-Library.Sublist"
begin

text \<open>
  The freestanding memory and string routines of \<^verbatim>\<open>kernel/core/string.c\<close>, over the byte
  memory of the prelude. A routine that writes returns its result pointer and the new memory.
  The routines that scan for a terminator are \<^theory_text>\<open>partial_function\<close>s: \<open>None\<close> is a scan that
  finds none and runs for ever. A \<^verbatim>\<open>char\<close> is a byte; where the source casts it to \<^verbatim>\<open>u8\<close> before
  a subtraction the model widens without sign.
\<close>

section \<open>Operations\<close>

function memset_loop :: "mem \<Rightarrow> addr \<Rightarrow> u8 \<Rightarrow> u64 \<Rightarrow> mem" where
  "memset_loop m p c n = (if n \<noteq> 0 then memset_loop (m(p := c)) (p + 1) c (n - 1) else m)"
  by pat_completeness auto
termination by (relation "measure (\<lambda>(m, p, c, n). unat n)") (auto simp: unat_minus_one unat_gt_0)

definition memset :: "mem \<Rightarrow> addr \<Rightarrow> i32 \<Rightarrow> u64 \<Rightarrow> addr \<times> mem" where
  "memset m dst c n = (dst, memset_loop m dst (ucast c) n)"

function copy_up :: "mem \<Rightarrow> addr \<Rightarrow> addr \<Rightarrow> u64 \<Rightarrow> mem" where
  "copy_up m d s n = (if n \<noteq> 0 then copy_up (m(d := m s)) (d + 1) (s + 1) (n - 1) else m)"
  by pat_completeness auto
termination by (relation "measure (\<lambda>(m, d, s, n). unat n)") (auto simp: unat_minus_one unat_gt_0)

definition memcpy :: "mem \<Rightarrow> addr \<Rightarrow> addr \<Rightarrow> u64 \<Rightarrow> addr \<times> mem" where
  "memcpy m dst src n = (dst, copy_up m dst src n)"

function copy_down :: "mem \<Rightarrow> addr \<Rightarrow> addr \<Rightarrow> u64 \<Rightarrow> mem" where
  "copy_down m d s n = (if n \<noteq> 0 then copy_down (m(d - 1 := m (s - 1))) (d - 1) (s - 1) (n - 1) else m)"
  by pat_completeness auto
termination by (relation "measure (\<lambda>(m, d, s, n). unat n)") (auto simp: unat_minus_one unat_gt_0)

definition memmove :: "mem \<Rightarrow> addr \<Rightarrow> addr \<Rightarrow> u64 \<Rightarrow> addr \<times> mem" where
  "memmove m dst src n =
     (dst, if dst < src then copy_up m dst src n else copy_down m (dst + n) (src + n) n)"

function memcmp :: "mem \<Rightarrow> addr \<Rightarrow> addr \<Rightarrow> u64 \<Rightarrow> i32" where
  "memcmp m x y n =
     (if n \<noteq> 0 then (if m x \<noteq> m y then ucast (m x) - ucast (m y) else memcmp m (x + 1) (y + 1) (n - 1))
      else 0)"
  by pat_completeness auto
termination by (relation "measure (\<lambda>(m, x, y, n). unat n)") (auto simp: unat_minus_one unat_gt_0)

partial_function (option) strlen_loop :: "mem \<Rightarrow> addr \<Rightarrow> u64 \<Rightarrow> u64 option" where
  "strlen_loop m s n = (if m (s + n) \<noteq> 0 then strlen_loop m s (n + 1) else Some n)"

definition strlen :: "mem \<Rightarrow> addr \<Rightarrow> u64 option" where
  "strlen m s = strlen_loop m s 0"

partial_function (option) strcmp :: "mem \<Rightarrow> addr \<Rightarrow> addr \<Rightarrow> i32 option" where
  "strcmp m a b =
     (if m a \<noteq> 0 \<and> m a = m b then strcmp m (a + 1) (b + 1)
      else Some (ucast (m a) - ucast (m b)))"

text \<open>The loop of \<^verbatim>\<open>strncmp\<close> stops at the latest when its counter is 0.\<close>

function strncmp :: "mem \<Rightarrow> addr \<Rightarrow> addr \<Rightarrow> u64 \<Rightarrow> i32" where
  "strncmp m a b n =
     (if n \<noteq> 0 \<and> m a \<noteq> 0 \<and> m a = m b then strncmp m (a + 1) (b + 1) (n - 1)
      else if n = 0 then 0 else ucast (m a) - ucast (m b))"
  by pat_completeness auto
termination by (relation "measure (\<lambda>(m, a, b, n). unat n)") (auto simp: unat_minus_one unat_gt_0)

partial_function (option) strcpy_loop :: "mem \<Rightarrow> addr \<Rightarrow> addr \<Rightarrow> mem option" where
  "strcpy_loop m d s =
     (if m s \<noteq> 0 then strcpy_loop (m(d := m s)) (d + 1) (s + 1) else Some (m(d := m s)))"

definition strcpy :: "mem \<Rightarrow> addr \<Rightarrow> addr \<Rightarrow> (addr \<times> mem) option" where
  "strcpy m dst src = map_option (Pair dst) (strcpy_loop m dst src)"

text \<open>The two loops of \<^verbatim>\<open>strncpy\<close> share the index \<open>i\<close>: copy, then pad.\<close>

function strncpy_pad :: "mem \<Rightarrow> addr \<Rightarrow> u64 \<Rightarrow> u64 \<Rightarrow> mem" where
  "strncpy_pad m dst i n = (if i < n then strncpy_pad (m(dst + i := 0)) dst (i + 1) n else m)"
  by pat_completeness auto
termination by (relation "measure (\<lambda>(m, dst, i, n). unat n - unat i)")
    (auto simp: unat_Suc_below word_less_nat_alt)

function strncpy_loop :: "mem \<Rightarrow> addr \<Rightarrow> addr \<Rightarrow> u64 \<Rightarrow> u64 \<Rightarrow> mem" where
  "strncpy_loop m dst src i n =
     (if i < n \<and> m (src + i) \<noteq> 0 then strncpy_loop (m(dst + i := m (src + i))) dst src (i + 1) n
      else strncpy_pad m dst i n)"
  by pat_completeness auto
termination by (relation "measure (\<lambda>(m, dst, src, i, n). unat n - unat i)")
    (auto simp: unat_Suc_below word_less_nat_alt)

definition strncpy :: "mem \<Rightarrow> addr \<Rightarrow> addr \<Rightarrow> u64 \<Rightarrow> addr \<times> mem" where
  "strncpy m dst src n = (dst, strncpy_loop m dst src 0 n)"

definition strcat :: "mem \<Rightarrow> addr \<Rightarrow> addr \<Rightarrow> (addr \<times> mem) option" where
  "strcat m dst src =
     (case strlen m dst of
        None \<Rightarrow> None
      | Some k \<Rightarrow> map_option (Pair dst) (strcpy_loop m (dst + k) src))"

text \<open>The inner loop of \<^verbatim>\<open>strstr\<close>: the position in the needle where the match stops.\<close>

partial_function (option) match_loop :: "mem \<Rightarrow> addr \<Rightarrow> addr \<Rightarrow> addr option" where
  "match_loop m h n =
     (if m h \<noteq> 0 \<and> m n \<noteq> 0 \<and> m h = m n then match_loop m (h + 1) (n + 1) else Some n)"

partial_function (option) strstr_loop :: "mem \<Rightarrow> addr \<Rightarrow> addr \<Rightarrow> addr option" where
  "strstr_loop m haystack needle =
     (if m haystack \<noteq> 0 then
        (case match_loop m haystack needle of
           None \<Rightarrow> None
         | Some n \<Rightarrow> if m n = 0 then Some haystack else strstr_loop m (haystack + 1) needle)
      else Some NULL)"

definition strstr :: "mem \<Rightarrow> addr \<Rightarrow> addr \<Rightarrow> addr option" where
  "strstr m haystack needle =
     (if m needle = 0 then Some haystack else strstr_loop m haystack needle)"

text \<open>
  The digits of \<^verbatim>\<open>utoa\<close>, least significant first, as the first \<open>i\<close> cells of the scratch
  array \<^verbatim>\<open>tmp\<close>; the caller's base guard is not repeated, so the loop is partial.
\<close>

definition digit_char :: "i32 \<Rightarrow> u8" where
  "digit_char digit = ucast (if digit <s 10 then 0x30 + digit else 0x61 + digit - 10)"

partial_function (option) utoa_loop :: "u64 \<Rightarrow> u64 \<Rightarrow> u8 list \<Rightarrow> u8 list option" where
  "utoa_loop value base tmp =
     (if value \<noteq> 0 then utoa_loop (value div base) base (tmp @ [digit_char (ucast (value mod base))])
      else Some tmp)"

primrec utoa_out :: "mem \<Rightarrow> addr \<Rightarrow> u8 list \<Rightarrow> nat \<Rightarrow> mem" where
  "utoa_out m buf tmp 0 = m(buf := 0)"
| "utoa_out m buf tmp (Suc i) = utoa_out (m(buf := tmp ! i)) (buf + 1) tmp i"

definition utoa :: "mem \<Rightarrow> u64 \<Rightarrow> addr \<Rightarrow> i32 \<Rightarrow> mem option" where
  "utoa m value buf base =
     (if base <s 2 \<or> 16 <s base then Some (m(buf := 0))
      else if value = 0 then Some (m(buf := 0x30, buf + 1 := 0))
      else (case utoa_loop value (scast base) [] of
              None \<Rightarrow> None
            | Some tmp \<Rightarrow> Some (utoa_out m buf tmp (length tmp))))"

definition itoa :: "mem \<Rightarrow> i64 \<Rightarrow> addr \<Rightarrow> i32 \<Rightarrow> mem option" where
  "itoa m value buf base =
     (if value <s 0 \<and> base = 10 then utoa (m(buf := 0x2D)) (- value) (buf + 1) base
      else utoa m value buf base)"

declare memset_loop.simps [simp del] copy_up.simps [simp del] copy_down.simps [simp del]
  memcmp.simps [simp del] strncmp.simps [simp del] strncpy_pad.simps [simp del]
  strncpy_loop.simps [simp del]

section \<open>Block operations\<close>

lemma unat_pred: "(n :: u64) \<noteq> 0 \<Longrightarrow> unat n = Suc (unat (n - 1))"
  by (simp add: unat_minus_one unat_gt_0)

lemma peek_Suc: "peek m a (Suc n) = m a # peek m (a + 1) n"
  by (rule nth_equalityI) (auto simp: nth_Cons' algebra_simps of_nat_diff)

lemma peek_0 [simp]: "peek m a 0 = []"
  by (simp add: peek_def)

lemma peek_snoc: "peek m a (Suc n) = peek m a n @ [m (a + of_nat n)]"
  by (simp add: peek_def)

lemma poke_append: "poke m a (bs @ cs) = poke (poke m a bs) (a + of_nat (length bs)) cs"
  by (induction bs arbitrary: m a) (simp_all add: add.assoc)

lemma peek_upd: "n \<le> 18446744073709551616 \<Longrightarrow> \<not> in_range x a n \<Longrightarrow> peek (m(x := v)) a n = peek m a n"
  by (rule nth_equalityI) (auto simp: in_range_offset)

lemma poke_upd_commute:
  assumes "length bs < 18446744073709551616" and "\<not> in_range x a (length bs)"
  shows "poke (m(x := v)) a bs = (poke m a bs)(x := v)"
  using assms by (auto simp: poke_apply)

lemma memset_loop_poke: "memset_loop m p c n = poke m p (replicate (unat n) c)"
proof (induction "unat n" arbitrary: m p n)
  case 0
  then show ?case by (simp add: memset_loop.simps unat_eq_0)
next
  case (Suc k)
  then have n: "n \<noteq> 0" by auto
  then show ?case
    using Suc.hyps unat_pred [OF n] by (simp add: memset_loop.simps [of m p c n])
qed

lemma unat_diff_step: "d \<noteq> s \<Longrightarrow> unat (d - (s + 1) :: u64) = unat (d - s) - 1"
  using unat_pred [of "d - s"] by (simp add: diff_diff_eq)

lemma copy_up_poke:
  assumes "d = s \<or> unat n \<le> unat (d - s)"
  shows "copy_up m d s n = poke m d (peek m s (unat n))"
  using assms
proof (induction "unat n" arbitrary: m d s n)
  case 0
  then show ?case by (simp add: copy_up.simps unat_eq_0)
next
  case (Suc k)
  then have "n \<noteq> 0" by auto
  then have n: "unat n = Suc (unat (n - 1))" by (rule unat_pred)
  have same: "peek (m(d := m s)) (s + 1) (unat (n - 1)) = peek m (s + 1) (unat (n - 1))"
  proof (cases "d = s")
    case False
    then have "\<not> in_range d (s + 1) (unat (n - 1))"
      using Suc.prems n by (simp add: in_range_def unat_diff_step)
    then show ?thesis by (simp add: peek_upd less_imp_le)
  qed simp
  have "copy_up (m(d := m s)) (d + 1) (s + 1) (n - 1) =
      poke (m(d := m s)) (d + 1) (peek (m(d := m s)) (s + 1) (unat (n - 1)))"
    using Suc.prems Suc.hyps(2) n by (intro Suc.hyps(1)) auto
  then show ?case
    using \<open>n \<noteq> 0\<close> n same by (simp add: copy_up.simps [of m d s n] peek_Suc)
qed

lemma copy_down_poke:
  assumes "d = s \<or> unat n \<le> unat (s - d)"
  shows "copy_down m (d + n) (s + n) n = poke m d (peek m s (unat n))"
  using assms
proof (induction "unat n" arbitrary: m n)
  case 0
  then show ?case by (simp add: copy_down.simps unat_eq_0)
next
  case (Suc k)
  then have "n \<noteq> 0" by auto
  then have n: "unat n = Suc (unat (n - 1))" by (rule unat_pred)
  define x where "x = d + n - 1"
  define v where "v = m (s + n - 1)"
  have xs: "d \<noteq> s \<Longrightarrow> \<not> in_range x s (unat (n - 1))"
  proof -
    assume ne: "d \<noteq> s"
    then have "unat (d - s) + unat (n - 1) < 18446744073709551616"
      using Suc.prems n unat_neg_diff [OF ne] ne unat_u64_bound [of "s - d"] by linarith
    then have "unat ((d - s) + (n - 1)) = unat (d - s) + unat (n - 1)" by (rule unat_add_u64)
    then show ?thesis by (simp add: in_range_def x_def algebra_simps)
  qed
  have same: "peek (m(x := v)) s (unat (n - 1)) = peek m s (unat (n - 1))"
    by (cases "d = s") (use xs in \<open>simp_all add: x_def v_def peek_upd less_imp_le\<close>)
  have "\<not> in_range x d (unat (n - 1))" by (simp add: in_range_def x_def)
  then have "poke (m(x := v)) d (peek m s (unat (n - 1))) = (poke m d (peek m s (unat (n - 1))))(x := v)"
    by (intro poke_upd_commute) simp_all
  moreover have "copy_down (m(x := v)) (d + (n - 1)) (s + (n - 1)) (n - 1) =
      poke (m(x := v)) d (peek (m(x := v)) s (unat (n - 1)))"
    using Suc n by (intro Suc.hyps) auto
  moreover have "s + of_nat (unat (n - 1)) = s + n - 1" "d + of_nat (unat (n - 1)) = d + n - 1"
    by simp_all
  ultimately show ?case
    using \<open>n \<noteq> 0\<close> n same
    by (simp add: copy_down.simps [of m "d + n"] peek_snoc poke_append x_def v_def algebra_simps)
qed

lemma memcpy_poke:
  assumes "dst = src \<or> unat n \<le> unat (dst - src)"
  shows "memcpy m dst src n = (dst, poke m dst (peek m src (unat n)))"
  using copy_up_poke [OF assms] by (simp add: memcpy_def)

section \<open>C strings\<close>

text \<open>\<open>cstring m a xs\<close>: the bytes \<open>xs\<close>, none of them 0, followed by a terminator, lie at \<open>a\<close>.\<close>

primrec cstring :: "mem \<Rightarrow> addr \<Rightarrow> u8 list \<Rightarrow> bool" where
  "cstring m a [] \<longleftrightarrow> m a = 0"
| "cstring m a (x # xs) \<longleftrightarrow> x \<noteq> 0 \<and> m a = x \<and> cstring m (a + 1) xs"

lemma cstring_peek:
  "cstring m a xs \<longleftrightarrow> peek m a (Suc (length xs)) = xs @ [0] \<and> 0 \<notin> set xs"
  by (induction xs arbitrary: a) (auto simp: peek_Suc)

lemma cstring_nth: "cstring m a xs \<Longrightarrow> i \<le> length xs \<Longrightarrow> m (a + of_nat i) = 0 \<longleftrightarrow> i = length xs"
proof (induction xs arbitrary: a i)
  case (Cons x xs)
  then show ?case using Cons.IH [of "a + 1" "i - 1"] by (cases i) (auto simp: algebra_simps)
qed simp

lemma cstring_upd:
  assumes "Suc (length xs) \<le> 18446744073709551616" and "\<not> in_range x a (Suc (length xs))"
  shows "cstring (m(x := v)) a xs = cstring m a xs"
  using assms by (simp add: cstring_peek peek_upd)

lemma strlen_loop_cstring:
  "cstring m (s + n) xs \<Longrightarrow> strlen_loop m s n = Some (n + of_nat (length xs))"
proof (induction xs arbitrary: n)
  case Nil
  then show ?case by (subst strlen_loop.simps) simp
next
  case (Cons x xs)
  then show ?case
    using Cons.IH [of "n + 1"] by (subst strlen_loop.simps) (auto simp: algebra_simps)
qed

lemma strlen_cstring: "cstring m s xs \<Longrightarrow> strlen m s = Some (of_nat (length xs))"
  using strlen_loop_cstring [of m s 0 xs] by (simp add: strlen_def)

subsection \<open>Comparison\<close>

lemma uint_u8_bound: "uint (x :: u8) < 256" "0 \<le> uint x"
  using unsigned_less [of x, where ?'a = int] by simp_all

lemma sint_byte: "sint (ucast z :: i32) = uint (z :: u8)"
proof -
  have "take_bit 32 (uint z) = uint z" "signed_take_bit 31 (uint z) = uint z"
    using uint_u8_bound [of z]
    by (simp_all add: take_bit_int_eq_self_iff signed_take_bit_int_eq_self_iff
        order_trans [of _ 0])
  then show ?thesis by (simp add: sint_uint unsigned_ucast_eq)
qed

lemma sint_byte_diff: "sint (ucast x - ucast y :: i32) = uint (x :: u8) - uint (y :: u8)"
proof -
  have "signed_take_bit 31 (uint x - uint y) = uint x - uint y"
    using uint_u8_bound [of x] uint_u8_bound [of y]
    by (intro signed_take_bit_int_eq_self; simp; linarith)
  then show ?thesis by (simp add: sint_word_ariths sint_byte)
qed

lemma byte_diff_zero: "(ucast x - ucast y :: i32) = 0 \<longleftrightarrow> (x :: u8) = y"
proof -
  have "(ucast x - ucast y :: i32) = 0 \<longleftrightarrow> sint (ucast x - ucast y :: i32) = 0"
    using word_eq_iff_signed [of "ucast x - ucast y :: i32" 0] by simp
  then show ?thesis by (simp only: sint_byte_diff) (simp add: word_uint_eq_iff)
qed

lemma byte_diff_neg: "(ucast x - ucast y :: i32) <s 0 \<longleftrightarrow> (x :: u8) < y"
  by (simp add: word_sless_alt sint_byte_diff word_less_def)

lemmas byte_diff = byte_diff_zero byte_diff_neg
  byte_diff_zero [where x = 0, simplified] byte_diff_zero [simplified]
  byte_diff_neg [where y = 0, simplified]
  byte_diff_neg [where x = 0, simplified, folded word_neq_0_conv]

lemma strcmp_cstrings:
  assumes "cstring m a xs" and "cstring m b ys"
  shows "\<exists>r. strcmp m a b = Some r \<and> (r = 0 \<longleftrightarrow> xs = ys) \<and> (r <s 0 \<longleftrightarrow> ord_class.lexordp xs ys)"
  using assms
proof (induction xs arbitrary: a b ys)
  case Nil
  then show ?case
    by (subst strcmp.simps, cases ys) (auto simp: byte_diff)
next
  case (Cons x xs)
  show ?case
  proof (cases ys)
    case Nil
    then show ?thesis using Cons.prems by (subst strcmp.simps) (auto simp: byte_diff)
  next
    case (Cons y ys')
    then show ?thesis
      using Cons.prems Cons.IH [of "a + 1" "b + 1" ys']
      by (subst strcmp.simps, cases "x = y") (auto simp: byte_diff)
  qed
qed

lemma strncmp_cstrings:
  assumes "cstring m a xs" and "cstring m b ys"
  shows "(strncmp m a b n = 0 \<longleftrightarrow> take (unat n) xs = take (unat n) ys) \<and>
    (strncmp m a b n <s 0 \<longleftrightarrow> ord_class.lexordp (take (unat n) xs) (take (unat n) ys))"
  using assms
proof (induction xs arbitrary: a b ys n)
  case Nil
  then show ?case
    by (subst (1 2) strncmp.simps, cases ys; cases "n = 0") (auto simp: byte_diff unat_pred)
next
  case (Cons x xs)
  show ?case
  proof (cases "n = 0")
    case True
    then show ?thesis by (simp add: strncmp.simps)
  next
    case False
    then show ?thesis
      using Cons.prems Cons.IH [of "a + 1" "b + 1" _ "n - 1"] unat_pred [OF False]
      by (subst (1 2) strncmp.simps, cases ys; cases "x = hd ys") (auto simp: byte_diff)
  qed
qed

subsection \<open>Copying\<close>

lemma cstring_copied:
  assumes "cstring m s (x # xs)" and "d = s \<or> length (x # xs) < unat (d - s)"
    and "Suc (length (x # xs)) \<le> 18446744073709551616"
  shows "cstring (m(d := m s)) (s + 1) xs"
proof (cases "d = s")
  case False
  then have "\<not> in_range d (s + 1) (Suc (length xs))"
    using assms(2) by (simp add: in_range_def unat_diff_step)
  then show ?thesis using assms by (subst cstring_upd) simp_all
next
  case True
  then have "m(d := m s) = m" by simp
  then show ?thesis using assms(1) by (simp only: cstring.simps)
qed

lemma strcpy_loop_cstring:
  assumes "cstring m s xs" and "d = s \<or> length xs < unat (d - s)"
    and "Suc (length xs) \<le> 18446744073709551616"
  shows "strcpy_loop m d s = Some (poke m d (xs @ [0]))"
  using assms
proof (induction xs arbitrary: m d s)
  case Nil
  then show ?case by (subst strcpy_loop.simps) simp
next
  case (Cons x xs)
  have c: "cstring (m(d := m s)) (s + 1) xs"
    using cstring_copied [of m s x xs d] Cons.prems by auto
  have "strcpy_loop (m(d := m s)) (d + 1) (s + 1) = Some (poke (m(d := m s)) (d + 1) (xs @ [0]))"
    using Cons.prems by (intro Cons.IH [OF c]) auto
  then show ?case using Cons.prems(1) by (subst strcpy_loop.simps) auto
qed

lemma strncpy_pad_poke: "i \<le> n \<Longrightarrow> strncpy_pad m dst i n = poke m (dst + i) (replicate (unat n - unat i) 0)"
proof (induction "unat n - unat i" arbitrary: m i)
  case 0
  then have "i = n" by (simp add: word_le_nat_alt word_unat_eq_iff)
  then show ?case by (simp add: strncpy_pad.simps)
next
  case (Suc k)
  then have lt: "i < n" by (simp add: word_less_nat_alt)
  then have u: "unat (i + 1) = Suc (unat i)" by (rule unat_Suc_below)
  have "i + 1 \<le> n" using lt by (simp add: word_le_nat_alt u word_less_nat_alt)
  moreover have "unat n - unat i = Suc (unat n - Suc (unat i))" using Suc.hyps(2) by simp
  ultimately show ?case
    using lt Suc.hyps(1) [of "i + 1" "m(dst + i := 0)"] Suc.hyps(2) u
    by (subst strncpy_pad.simps) (simp add: add.assoc)
qed

lemma strncpy_loop_poke:
  assumes "cstring m (src + i) xs" and "i \<le> n"
    and "dst = src \<or> length xs < unat (dst - src)" and "Suc (length xs) \<le> 18446744073709551616"
  shows "strncpy_loop m dst src i n =
    poke m (dst + i) (take (unat n - unat i) xs @ replicate (unat n - unat i - length xs) 0)"
  using assms
proof (induction xs arbitrary: m i)
  case Nil
  then show ?case by (subst strncpy_loop.simps) (simp add: strncpy_pad_poke)
next
  case (Cons x xs)
  show ?case
  proof (cases "i < n")
    case False
    then have "i = n" using Cons.prems(2) by simp
    then show ?thesis by (simp add: strncpy_loop.simps strncpy_pad.simps)
  next
    case True
    then have u: "unat (i + 1) = Suc (unat i)" and le: "i + 1 \<le> n"
      by (auto simp: unat_Suc_below word_le_nat_alt word_less_nat_alt)
    then obtain k where k: "unat n - unat i = Suc k" "unat n - unat (i + 1) = k"
      using True by (auto simp: word_less_nat_alt intro: that [of "unat n - Suc (unat i)"])
    have c: "cstring (m(dst + i := m (src + i))) (src + (i + 1)) xs"
      using cstring_copied [of m "src + i" x xs "dst + i"] Cons.prems by (auto simp: add.assoc)
    have "dst = src \<or> length xs < unat (dst - src)" "Suc (length xs) \<le> 18446744073709551616"
      using Cons.prems(3,4) by auto
    note Cons.IH [OF c le this]
    then show ?thesis using True Cons.prems(1) k
      by (subst strncpy_loop.simps) (simp only: add.assoc, simp add: add.assoc)
  qed
qed

subsection \<open>Searching\<close>

lemma match_loop_cstrings:
  assumes "cstring m h xs" and "cstring m n ys"
  shows "\<exists>k \<le> length ys. match_loop m h n = Some (n + of_nat k) \<and> (k = length ys \<longleftrightarrow> prefix ys xs)"
  using assms
proof (induction ys arbitrary: h n xs)
  case Nil
  then show ?case by (subst match_loop.simps) simp
next
  case (Cons y ys)
  show ?case
  proof (cases "xs \<noteq> [] \<and> hd xs = y")
    case True
    then obtain xs' where xs: "xs = y # xs'" by (cases xs) auto
    with Cons.prems Cons.IH [of "h + 1" xs' "n + 1"] obtain k where
      "k \<le> length ys" "match_loop m (h + 1) (n + 1) = Some (n + 1 + of_nat k)"
      "k = length ys \<longleftrightarrow> prefix ys xs'" by auto
    then show ?thesis using xs Cons.prems
      by (subst match_loop.simps) (auto intro!: exI [of _ "Suc k"] simp: add.assoc)
  next
    case False
    then have "match_loop m h n = Some n"
      using Cons.prems by (subst match_loop.simps, cases xs) auto
    then show ?thesis using False by (intro exI [of _ 0]) (cases xs; auto)
  qed
qed

lemma strstr_loop_cstrings:
  assumes "cstring m h xs" and "cstring m n ys" and "ys \<noteq> []"
  shows "(\<forall>i. \<not> prefix ys (drop i xs)) \<and> strstr_loop m h n = Some NULL \<or>
    (\<exists>i \<le> length xs. strstr_loop m h n = Some (h + of_nat i) \<and> prefix ys (drop i xs) \<and>
      (\<forall>j<i. \<not> prefix ys (drop j xs)))"
  using assms
proof (induction xs arbitrary: h)
  case Nil
  then show ?case by (subst strstr_loop.simps) auto
next
  case (Cons x xs)
  obtain k where k: "k \<le> length ys" "match_loop m h n = Some (n + of_nat k)"
    "k = length ys \<longleftrightarrow> prefix ys (x # xs)"
    using match_loop_cstrings [OF Cons.prems(1,2)] by blast
  have z: "m (n + of_nat k) = 0 \<longleftrightarrow> k = length ys"
    using cstring_nth [OF Cons.prems(2) k(1)] .
  show ?case
  proof (cases "prefix ys (x # xs)")
    case True
    then have "strstr_loop m h n = Some h"
      using Cons.prems k z by (subst strstr_loop.simps) auto
    then show ?thesis using True by (intro disjI2 exI [of _ 0]) simp
  next
    case False
    then have step: "strstr_loop m h n = strstr_loop m (h + 1) n"
      using Cons.prems k z by (subst strstr_loop.simps) auto
    from Cons.IH [of "h + 1"] Cons.prems consider
      "\<forall>i. \<not> prefix ys (drop i xs)" "strstr_loop m (h + 1) n = Some NULL" |
      i where "i \<le> length xs" "strstr_loop m (h + 1) n = Some (h + 1 + of_nat i)"
        "prefix ys (drop i xs)" "\<forall>j<i. \<not> prefix ys (drop j xs)" by auto
    then show ?thesis
    proof cases
      case 1
      then show ?thesis using False step by (auto simp: drop_Cons split: nat.split)
    next
      case 2
      then show ?thesis using False step
        by (intro disjI2 exI [of _ "Suc i"]) (auto simp: drop_Cons add.assoc split: nat.split)
    qed
  qed
qed

subsection \<open>Numbers\<close>

text \<open>The value a digit character stands for, and the value of a digit string.\<close>

definition digit_val :: "u8 \<Rightarrow> nat" where
  "digit_val c = (if c < 0x3A then unat c - 0x30 else unat c - 0x57)"

definition num_val :: "nat \<Rightarrow> u8 list \<Rightarrow> nat" where
  "num_val b xs = foldl (\<lambda>acc c. acc * b + digit_val c) 0 xs"

definition digit_ok :: "nat \<Rightarrow> u8 \<Rightarrow> bool" where
  "digit_ok b c \<longleftrightarrow> (0x30 \<le> c \<and> c < 0x3A \<or> 0x61 \<le> c \<and> c < 0x67) \<and> digit_val c < b"

lemma digit_char_val:
  assumes "k < 16"
  shows "digit_val (digit_char (of_nat k)) = k" "k < b \<Longrightarrow> digit_ok b (digit_char (of_nat k))"
proof -
  have "k \<in> set [0..<16]" using assms by simp
  then show "digit_val (digit_char (of_nat k)) = k" "k < b \<Longrightarrow> digit_ok b (digit_char (of_nat k))"
    by (auto simp: upt_rec digit_val_def digit_char_def digit_ok_def word_sless_alt)
qed

lemma utoa_loop_digits:
  assumes "2 \<le> unat b" and "unat b \<le> 16" and "unat v < 2 ^ k"
  shows "\<exists>ds. utoa_loop v b tmp = Some (tmp @ ds) \<and> num_val (unat b) (rev ds) = unat v \<and>
    (\<forall>d \<in> set ds. digit_ok (unat b) d) \<and> length ds \<le> k \<and>
    (ds \<noteq> [] \<longrightarrow> digit_val (last ds) \<noteq> 0) \<and> (v \<noteq> 0 \<longrightarrow> ds \<noteq> [])"
  using assms(3)
proof (induction k arbitrary: v tmp)
  case 0
  then show ?case by (subst utoa_loop.simps) (auto simp: num_val_def unat_eq_0)
next
  case (Suc k)
  show ?case
  proof (cases "v = 0")
    case True
    then show ?thesis by (subst utoa_loop.simps) (auto simp: num_val_def)
  next
    case False
    let ?q = "v div b" and ?r = "unat (v mod b)"
    let ?c = "digit_char (ucast (v mod b))"
    have r: "?r < unat b" using assms by (simp add: unat_mod)
    then have r16: "?r < 16" using assms by linarith
    have "unat v div unat b \<le> unat v div 2" using assms(1) by (intro div_le_mono2) simp_all
    then have "unat ?q < 2 ^ k" using Suc.prems by (simp add: unat_div)
    from Suc.IH [OF this, of "tmp @ [?c]"] obtain ds where ds:
      "utoa_loop ?q b (tmp @ [?c]) = Some (tmp @ [?c] @ ds)"
      "num_val (unat b) (rev ds) = unat ?q" "\<forall>d \<in> set ds. digit_ok (unat b) d" "length ds \<le> k"
      "ds \<noteq> [] \<longrightarrow> digit_val (last ds) \<noteq> 0" "?q \<noteq> 0 \<longrightarrow> ds \<noteq> []" by auto
    have c: "digit_val ?c = ?r" "digit_ok (unat b) ?c" using digit_char_val [OF r16] r by simp_all
    have "?r \<noteq> 0" if "ds = []"
    proof
      assume "?r = 0"
      moreover have "?q = 0" using that ds(6) by blast
      ultimately have "unat v = 0" by (metis div_mult_mod_eq mult_zero_left add_0 unat_eq_0)
      then show False using False by (simp add: unat_eq_0)
    qed
    moreover have "num_val (unat b) (rev (?c # ds)) = unat v"
      using ds(2) c(1) by (simp add: num_val_def unat_div unat_mod)
    ultimately show ?thesis
      using False ds c by (subst utoa_loop.simps) (auto intro!: exI [of _ "?c # ds"])
  qed
qed

lemma utoa_out_poke: "i \<le> length tmp \<Longrightarrow> utoa_out m buf tmp i = poke m buf (rev (take i tmp) @ [0])"
  by (induction i arbitrary: m buf) (simp_all add: take_Suc_conv_app_nth)

lemma utoa_base_cast:
  assumes "\<not> (base :: i32) <s 2" and "\<not> 16 <s base"
  shows "2 \<le> unat (scast base :: u64)" "unat (scast base :: u64) \<le> 16"
proof -
  have b: "2 \<le> sint base" "sint base \<le> 16" using assms by (simp_all add: word_sless_alt)
  have "uint (scast base :: u64) = take_bit 64 (sint base)" by (simp only: scast_eq uint_word_of_int_eq) simp
  also have "\<dots> = sint base" using b by (simp add: take_bit_int_eq_self_iff)
  finally show "2 \<le> unat (scast base :: u64)" "unat (scast base :: u64) \<le> 16"
    using b by (simp_all add: unat_eq_nat_uint nat_le_iff le_nat_iff)
qed

lemma utoa_poke:
  assumes "\<not> base <s 2" and "\<not> 16 <s base"
  shows "\<exists>xs. utoa m v buf base = Some (poke m buf (xs @ [0])) \<and> 1 \<le> length xs \<and> length xs \<le> 64 \<and>
    (\<forall>c \<in> set xs. digit_ok (unat (scast base :: u64)) c) \<and>
    num_val (unat (scast base :: u64)) xs = unat v \<and> (hd xs = 0x30 \<longrightarrow> xs = [0x30])"
proof (cases "v = 0")
  case True
  have "digit_ok (unat (scast base :: u64)) 0x30"
    using utoa_base_cast [OF assms] by (simp add: digit_ok_def digit_val_def)
  then show ?thesis using True assms
    by (intro exI [of _ "[0x30]"]) (simp add: utoa_def num_val_def digit_val_def)
next
  case False
  let ?b = "scast base :: u64"
  have "unat v < 2 ^ 64" by simp
  from utoa_loop_digits [OF utoa_base_cast [OF assms] this, of "[]"] obtain ds where ds:
    "utoa_loop v ?b [] = Some ds" "num_val (unat ?b) (rev ds) = unat v"
    "\<forall>d \<in> set ds. digit_ok (unat ?b) d" "length ds \<le> 64" "digit_val (last ds) \<noteq> 0" "ds \<noteq> []"
    using False by auto
  then have "utoa m v buf base = Some (poke m buf (rev ds @ [0]))"
    using False assms by (simp add: utoa_def utoa_out_poke)
  moreover have "hd (rev ds) \<noteq> 0x30" using ds(5,6) by (auto simp: hd_rev digit_val_def)
  ultimately show ?thesis using ds by (intro exI [of _ "rev ds"]) (simp add: Suc_le_eq)
qed

lemma digit_ok_not_minus: "digit_ok b c \<Longrightarrow> c \<noteq> 0x2D \<and> c \<noteq> 0"
  by (auto simp: digit_ok_def)

text \<open>The value of a decimal string with an optional minus sign.\<close>

definition dec_val :: "u8 list \<Rightarrow> int" where
  "dec_val xs = (if hd xs = 0x2D then - int (num_val 10 (tl xs)) else int (num_val 10 xs))"

lemma unat_neg_sint: "(v :: i64) <s 0 \<Longrightarrow> int (unat (- v)) = - sint v"
proof -
  assume neg: "v <s 0"
  then have "sint v < 0" "v \<noteq> 0" by (auto simp: word_sless_alt)
  then have "sint v = int (unat v) - 18446744073709551616" by (auto simp: sint_i64 split: if_splits)
  moreover have "unat (- v) = 18446744073709551616 - unat v"
    using unat_neg_diff [of 0 v] \<open>v \<noteq> 0\<close> by simp
  ultimately show ?thesis using unat_u64_bound [of v] by linarith
qed

section \<open>Strings held in arrays\<close>

text \<open>
  Components that keep strings in arrays of structures model such an array as the list of its
  bytes. \<open>strncpy_buf n src buf\<close> is the array after \<^verbatim>\<open>strncpy(buf, src, n)\<close>, as the theorem on
  \<^verbatim>\<open>strncpy\<close> below describes it for the memory, and \<open>cstr buf\<close> is the string an array holds.
\<close>

definition strncpy_buf :: "nat \<Rightarrow> u8 list \<Rightarrow> u8 list \<Rightarrow> u8 list" where
  "strncpy_buf n src buf = take n src @ replicate (n - length src) 0 @ drop n buf"

definition cstr :: "u8 list \<Rightarrow> u8 list" where
  "cstr buf = takeWhile (\<lambda>b. b \<noteq> 0) buf"

definition bytes_of :: "string \<Rightarrow> u8 list" where
  "bytes_of s = map (\<lambda>c. of_nat (of_char c)) s"

lemma length_strncpy_buf [simp]: "n \<le> length buf \<Longrightarrow> length (strncpy_buf n src buf) = length buf"
  by (simp add: strncpy_buf_def)

lemma cstr_append_zero: "0 \<notin> set xs \<Longrightarrow> cstr (xs @ 0 # ys) = xs"
  by (induction xs) (auto simp: cstr_def)

text \<open>A copy of one byte less than the array leaves a terminated, possibly truncated string.\<close>

lemma cstr_strncpy_buf:
  assumes "0 \<notin> set src" and "n < length buf" and "buf ! n = 0"
  shows "cstr (strncpy_buf n src buf) = take n src"
proof -
  have t: "0 \<notin> set (take n src)" using assms(1) by (auto dest: in_set_takeD)
  have d: "drop n buf = 0 # drop (Suc n) buf" using assms(2,3) Cons_nth_drop_Suc by metis
  show ?thesis
  proof (cases "n \<le> length src")
    case True
    then show ?thesis using cstr_append_zero [OF t, of "drop (Suc n) buf"] by (simp add: strncpy_buf_def d)
  next
    case False
    then obtain k where "n - length src = Suc k" by (metis not_le_imp_less zero_less_diff gr0_implies_Suc)
    then show ?thesis
      using cstr_append_zero [OF t, of "replicate k 0 @ drop n buf"] by (simp add: strncpy_buf_def)
  qed
qed

section \<open>Properties\<close>

text \<open>
  (C16) \<^verbatim>\<open>memmove\<close> copies correctly however its blocks overlap: if neither block runs past the
  top of the address space, the destination then holds the bytes the source block held before
  the call, every other byte is unchanged, and the destination pointer is returned.
\<close>

theorem memmove_correct:
  assumes "unat dst + unat n \<le> 18446744073709551616" and "unat src + unat n \<le> 18446744073709551616"
  shows "memmove m dst src n = (dst, poke m dst (peek m src (unat n)))"
proof (cases "dst < src")
  case True
  then have "unat (dst - src) = 18446744073709551616 - (unat src - unat dst)"
    using unat_neg_diff [of dst src] by (auto simp: unat_sub_u64 less_imp_le)
  then have "unat n \<le> unat (dst - src)"
    using assms(2) True by (simp add: word_less_nat_alt)
  then show ?thesis using True copy_up_poke [of dst src n m] by (simp add: memmove_def)
next
  case False
  then have "dst = src \<or> unat n \<le> unat (src - dst)"
    using unat_neg_diff [of src dst] assms(1) unat_sub_u64 [of src dst]
    by (cases "dst = src") (auto simp: not_less word_le_nat_alt)
  then show ?thesis using False copy_down_poke [of dst src n m] by (simp add: memmove_def)
qed

theorem memmove_correct_witness:
  "memmove (\<lambda>a. ucast a) 11 10 4 = (11, poke (\<lambda>a. ucast a) 11 [10, 11, 12, 13])"
  using memmove_correct [of 11 4 10 "\<lambda>a. ucast a"] by (simp add: peek_def upt_rec)

text \<open>
  On two terminated strings \<^verbatim>\<open>strcmp\<close> returns; the result is 0 exactly when the strings are
  equal and negative exactly when the first precedes the second in the lexicographic order of
  unsigned bytes. \<^verbatim>\<open>strncmp\<close> does the same on the prefixes of the given length.
\<close>

theorem strcmp_lexicographic:
  assumes "cstring m a xs" and "cstring m b ys"
  shows "(\<exists>r. strcmp m a b = Some r \<and> (r = 0 \<longleftrightarrow> xs = ys) \<and> (r <s 0 \<longleftrightarrow> ord_class.lexordp xs ys)) \<and>
    (strncmp m a b n = 0 \<longleftrightarrow> take (unat n) xs = take (unat n) ys) \<and>
    (strncmp m a b n <s 0 \<longleftrightarrow> ord_class.lexordp (take (unat n) xs) (take (unat n) ys))"
  using strcmp_cstrings [OF assms] strncmp_cstrings [OF assms] by blast

definition two_words :: mem where
  "two_words = poke (poke (\<lambda>_. 0) 16 [0x61, 0x62]) 32 [0x61, 0xE9]"

lemma two_words_strings: "cstring two_words 16 [0x61, 0x62]" "cstring two_words 32 [0x61, 0xE9]"
  by (simp_all add: two_words_def)

theorem strcmp_lexicographic_witness:
  "\<exists>r. strcmp two_words 16 32 = Some r \<and> r <s 0 \<and> strncmp two_words 16 32 1 = 0"
  using strcmp_lexicographic [OF two_words_strings, of 1] by auto

text \<open>
  \<^verbatim>\<open>strncpy\<close> writes exactly \<open>n\<close> bytes: the first \<open>n\<close> bytes of the source, then zeros if
  the source is shorter. A source of at least \<open>n\<close> bytes leaves the destination unterminated.
  \<^verbatim>\<open>strcpy\<close> and \<^verbatim>\<open>strcat\<close> return, and write the source with its terminator at the start and at
  the end of the destination string. Each holds when the source does not lie in the \<open>length\<close>
  bytes below the place that is written.
\<close>

theorem string_copies:
  assumes "cstring m src xs" and "length xs < unat (dst - src)"
    and "cstring m base ys" and "dst = base + of_nat (length ys)"
  shows "strncpy m dst src n =
      (dst, poke m dst (take (unat n) xs @ replicate (unat n - length xs) 0)) \<and>
    strcpy m dst src = Some (dst, poke m dst (xs @ [0])) \<and>
    strcat m base src = Some (base, poke m dst (xs @ [0]))"
proof -
  have len: "Suc (length xs) \<le> 18446744073709551616"
    using assms(2) unat_u64_bound [of "dst - src"] by linarith
  have "strcpy_loop m dst src = Some (poke m dst (xs @ [0]))"
    using strcpy_loop_cstring [OF assms(1) _ len] assms(2) by blast
  moreover have "strncpy_loop m dst src 0 n = poke m dst (take (unat n) xs @ replicate (unat n - length xs) 0)"
    using strncpy_loop_poke [of m src 0 xs n dst] assms(1,2) len by simp
  ultimately show ?thesis
    using strlen_cstring [OF assms(3)] assms(4) by (simp add: strncpy_def strcpy_def strcat_def)
qed

theorem string_copies_witness:
  "strcat two_words 32 16 = Some (32, poke two_words 34 [0x61, 0x62, 0])"
proof -
  have "length [0x61, 0x62 :: u8] < unat (34 - 16 :: addr)" "(34 :: addr) = 32 + of_nat (length [0x61, 0xE9 :: u8])"
    by simp_all
  from string_copies [OF two_words_strings(1) this(1) two_words_strings(2) this(2)]
  show ?thesis by (simp only: append.simps)
qed

text \<open>
  \<^verbatim>\<open>strstr\<close> on two terminated strings returns the first position of the first string at
  which the second one occurs, and \<^verbatim>\<open>NULL\<close> when it occurs nowhere.
\<close>

theorem strstr_first_occurrence:
  assumes "cstring m h xs" and "cstring m n ys"
  shows "(\<forall>i. \<not> prefix ys (drop i xs)) \<and> strstr m h n = Some NULL \<or>
    (\<exists>i \<le> length xs. strstr m h n = Some (h + of_nat i) \<and> prefix ys (drop i xs) \<and>
      (\<forall>j<i. \<not> prefix ys (drop j xs)))"
proof (cases ys)
  case Nil
  then show ?thesis using assms by (intro disjI2 exI [of _ 0]) (simp add: strstr_def)
next
  case (Cons y ys')
  then show ?thesis
    using strstr_loop_cstrings [OF assms] assms(2) by (simp add: strstr_def)
qed

theorem strstr_first_occurrence_witness:
  "\<exists>m i. strstr m 16 32 = Some (16 + of_nat i) \<and> prefix [0x62] (drop i [0x61, 0x62 :: u8])"
proof -
  define m where "m = poke (poke (\<lambda>_. 0) 16 [0x61, 0x62]) 32 [0x62 :: u8]"
  have "cstring m 16 [0x61, 0x62]" "cstring m 32 [0x62]" by (simp_all add: m_def)
  from strstr_first_occurrence [OF this] have
    "\<exists>i. strstr m 16 32 = Some (16 + of_nat i) \<and> prefix [0x62] (drop i [0x61, 0x62 :: u8])"
    by (auto dest: spec [of _ 1])
  then show ?thesis by blast
qed

text \<open>
  (C17) For every base from 2 to 16 \<^verbatim>\<open>utoa\<close> returns and stores the numeral of its argument: a
  string of at most 64 digits (so the scratch array of 65 cells suffices) that are valid in
  the base, denotes the value, and has no leading zero. In base 10 \<^verbatim>\<open>itoa\<close> stores a numeral that
  denotes the signed value, with the machine's wrapping negation of the least integer.
\<close>

theorem utoa_itoa_numeral:
  assumes "\<not> base <s 2" and "\<not> 16 <s base"
  shows "(\<exists>xs. utoa m v buf base = Some (poke m buf (xs @ [0])) \<and> 1 \<le> length xs \<and> length xs \<le> 64 \<and>
      (\<forall>c \<in> set xs. digit_ok (unat (scast base :: u64)) c) \<and>
      num_val (unat (scast base :: u64)) xs = unat v \<and> (hd xs = 0x30 \<longrightarrow> xs = [0x30])) \<and>
    (\<exists>xs. itoa m w buf 10 = Some (poke m buf (xs @ [0])) \<and> dec_val xs = sint w)"
proof (intro conjI)
  have ten: "\<not> (10 :: i32) <s 2" "\<not> 16 <s (10 :: i32)" by (simp_all add: word_sless_alt)
  show "\<exists>xs. itoa m w buf 10 = Some (poke m buf (xs @ [0])) \<and> dec_val xs = sint w"
  proof (cases "w <s 0")
    case True
    obtain xs where "utoa (m(buf := 0x2D)) (- w) (buf + 1) 10 =
        Some (poke (m(buf := 0x2D)) (buf + 1) (xs @ [0]))" "num_val 10 xs = unat (- w)"
      using utoa_poke [OF ten, of "m(buf := 0x2D)" "- w" "buf + 1"] by auto
    then show ?thesis using True
      by (intro exI [of _ "0x2D # xs"]) (simp add: itoa_def dec_val_def unat_neg_sint del: of_nat_unat)
  next
    case False
    obtain xs where xs: "utoa m w buf 10 = Some (poke m buf (xs @ [0]))" "num_val 10 xs = unat w"
      "xs \<noteq> []" "\<forall>c \<in> set xs. digit_ok 10 c"
      using utoa_poke [OF ten, of m w buf] by (auto simp: Suc_le_eq)
    then have "hd xs \<noteq> 0x2D" using digit_ok_not_minus by (cases xs) auto
    moreover have "int (unat w) = sint w"
      using False unsigned_less [of w, where ?'a = int]
      by (auto simp: word_sless_alt sint_i64 split: if_splits)
    ultimately show ?thesis using xs False by (intro exI [of _ xs]) (simp add: itoa_def dec_val_def)
  qed
qed (rule utoa_poke [OF assms])

theorem utoa_itoa_numeral_witness:
  "\<exists>xs. utoa (\<lambda>_. 0) 255 64 16 = Some (poke (\<lambda>_. 0) 64 (xs @ [0])) \<and> num_val 16 xs = 255"
  using utoa_itoa_numeral [of 16 "\<lambda>_. 0" 255 64] by (auto simp: word_sless_alt)

end
