(* ===== verification/H3_Heap.thy ===== *)
theory H3_Heap
  imports H3_Pmm H3_String
begin

text \<open>
  The kernel heap of \<^verbatim>\<open>memory/heap.c\<close>: a doubly linked list of blocks, each a 40-byte header
  followed by its payload, kept in the byte memory itself. One setter models one assignment to
  a header field. The static variables and the page allocator that \<^verbatim>\<open>expand_heap\<close> calls form
  the state; the address of \<^verbatim>\<open>early_arena\<close> is an argument of \<open>heap_init\<close>. A walk of the block
  list is a partial function (\<open>None\<close>: it never returns) and \<open>Inl\<close> is a kernel panic.
\<close>

section \<open>Block headers in memory\<close>

definition HEAP_MAGIC :: u64 where
  "HEAP_MAGIC = 0x4833414C4C4F43"

definition HEAP_ALIGN :: u64 where
  "HEAP_ALIGN = 16"

definition HEAP_MIN :: u64 where
  "HEAP_MIN = 32"

definition EARLY_HEAP :: u64 where
  "EARLY_HEAP = 512 * 1024"

text \<open>\<^verbatim>\<open>block_t\<close>: two 8-byte words, a byte with 7 bytes of padding, two pointers.\<close>

record block_t =
  b_magic :: u64
  b_size :: u64
  b_free :: bool
  b_next :: addr
  b_prev :: addr

definition BLOCK_SIZE :: u64 where
  "BLOCK_SIZE = 40"

definition block_at :: "mem \<Rightarrow> addr \<Rightarrow> block_t" where
  "block_at m b = \<lparr>b_magic = load64 m b, b_size = load64 m (b + 8), b_free = (m (b + 16) \<noteq> 0),
     b_next = load64 m (b + 24), b_prev = load64 m (b + 32)\<rparr>"

definition set_magic :: "addr \<Rightarrow> u64 \<Rightarrow> mem \<Rightarrow> mem" where
  "set_magic b v m = store64 m b v"

definition set_size :: "addr \<Rightarrow> u64 \<Rightarrow> mem \<Rightarrow> mem" where
  "set_size b v m = store64 m (b + 8) v"

definition set_free :: "addr \<Rightarrow> bool \<Rightarrow> mem \<Rightarrow> mem" where
  "set_free b v m = m(b + 16 := if v then 1 else 0)"

definition set_next :: "addr \<Rightarrow> addr \<Rightarrow> mem \<Rightarrow> mem" where
  "set_next b v m = store64 m (b + 24) v"

definition set_prev :: "addr \<Rightarrow> addr \<Rightarrow> mem \<Rightarrow> mem" where
  "set_prev b v m = store64 m (b + 32) v"

section \<open>State and operations\<close>

record heap_state =
  heap_mem :: mem
  heap_head :: addr
  heap_used :: u64
  heap_total :: u64
  heap_allocs :: u64
  heap_pmm :: pmm_state

record heap_stats_t =
  hs_total_bytes :: u64
  hs_used_bytes :: u64
  hs_free_bytes :: u64
  hs_allocations :: u64

definition heap_add_region :: "addr \<Rightarrow> u64 \<Rightarrow> heap_state \<Rightarrow> heap_state" where
  "heap_add_region a sz s =
     (if sz < BLOCK_SIZE + HEAP_MIN then s
      else let m = set_magic a HEAP_MAGIC (heap_mem s);
               m = set_size a (sz - BLOCK_SIZE) m;
               m = set_free a True m;
               m = set_next a (heap_head s) m;
               m = set_prev a NULL m;
               m = (if heap_head s \<noteq> NULL then set_prev (heap_head s) a m else m)
           in s\<lparr>heap_mem := m, heap_head := a, heap_total := heap_total s + sz\<rparr>)"

definition heap_init :: "addr \<Rightarrow> heap_state \<Rightarrow> heap_state" where
  "heap_init early_arena s =
     heap_add_region early_arena EARLY_HEAP
       (s\<lparr>heap_head := NULL, heap_used := 0, heap_total := 0, heap_allocs := 0\<rparr>)"

text \<open>The two halves of \<^verbatim>\<open>coalesce\<close>: absorb the next block, then be absorbed by the previous one.\<close>

definition coalesce_next :: "addr \<Rightarrow> mem \<Rightarrow> mem" where
  "coalesce_next b m =
     (let n = b_next (block_at m b) in
      if n \<noteq> NULL \<and> b_free (block_at m n)
      then let m = set_size b (b_size (block_at m b) + (BLOCK_SIZE + b_size (block_at m n))) m;
               m = set_next b (b_next (block_at m n)) m
           in (if b_next (block_at m b) \<noteq> NULL then set_prev (b_next (block_at m b)) b m else m)
      else m)"

definition coalesce_prev :: "addr \<Rightarrow> mem \<Rightarrow> mem" where
  "coalesce_prev b m =
     (let p = b_prev (block_at m b) in
      if p \<noteq> NULL \<and> b_free (block_at m p)
      then let m = set_size p (b_size (block_at m p) + (BLOCK_SIZE + b_size (block_at m b))) m;
               m = set_next p (b_next (block_at m b)) m
           in (if b_next (block_at m b) \<noteq> NULL
               then set_prev (b_next (block_at m b)) (b_prev (block_at m b)) m else m)
      else m)"

definition coalesce :: "addr \<Rightarrow> mem \<Rightarrow> mem" where
  "coalesce b m = coalesce_prev b (coalesce_next b m)"

definition expand_heap :: "u64 \<Rightarrow> heap_state \<Rightarrow> (bool \<times> heap_state) option" where
  "expand_heap need s =
     (let pages = H3OS_ALIGN_UP (need + BLOCK_SIZE + PAGE_SIZE) PAGE_SIZE div PAGE_SIZE in
      case pmm_alloc_pages pages (heap_pmm s) of
        None \<Rightarrow> None
      | Some (phys, pmm) \<Rightarrow>
          if phys = 0 then Some (False, s\<lparr>heap_pmm := pmm\<rparr>)
          else Some (True, heap_add_region phys (pages * PAGE_SIZE) (s\<lparr>heap_pmm := pmm\<rparr>)))"

text \<open>The inner loop of \<^verbatim>\<open>kmalloc\<close>: the first free block that is large enough, or \<^verbatim>\<open>NULL\<close>.\<close>

partial_function (option) find_fit :: "mem \<Rightarrow> addr \<Rightarrow> u64 \<Rightarrow> (string + addr) option" where
  "find_fit m b sz =
     (if b = NULL then Some (Inr NULL)
      else if b_magic (block_at m b) \<noteq> HEAP_MAGIC then Some (Inl ''Heap corruption detected'')
      else if b_free (block_at m b) \<and> b_size (block_at m b) \<ge> sz then Some (Inr b)
      else find_fit m (b_next (block_at m b)) sz)"

definition split_block :: "addr \<Rightarrow> u64 \<Rightarrow> mem \<Rightarrow> mem" where
  "split_block b sz m =
     (if b_size (block_at m b) \<ge> sz + BLOCK_SIZE + HEAP_MIN
      then let n = b + BLOCK_SIZE + sz;
               m = set_magic n HEAP_MAGIC m;
               m = set_size n (b_size (block_at m b) - sz - BLOCK_SIZE) m;
               m = set_free n True m;
               m = set_next n (b_next (block_at m b)) m;
               m = set_prev n b m;
               m = (if b_next (block_at m b) \<noteq> NULL then set_prev (b_next (block_at m b)) n m else m);
               m = set_next b n m
           in set_size b sz m
      else m)"

definition take_block :: "addr \<Rightarrow> u64 \<Rightarrow> heap_state \<Rightarrow> addr \<times> heap_state" where
  "take_block b sz s =
     (let m = set_free b False (split_block b sz (heap_mem s)) in
      (b + BLOCK_SIZE,
       s\<lparr>heap_mem := m, heap_used := heap_used s + b_size (block_at m b),
         heap_allocs := heap_allocs s + 1\<rparr>))"

text \<open>The attempts that are left; each is one scan followed, if it fails, by an expansion.\<close>

primrec kmalloc_attempts ::
    "nat \<Rightarrow> u64 \<Rightarrow> heap_state \<Rightarrow> (string + addr \<times> heap_state) option" where
  "kmalloc_attempts 0 sz s = Some (Inr (NULL, s))"
| "kmalloc_attempts (Suc k) sz s =
     (case find_fit (heap_mem s) (heap_head s) sz of
        None \<Rightarrow> None
      | Some (Inl panic) \<Rightarrow> Some (Inl panic)
      | Some (Inr b) \<Rightarrow>
          if b \<noteq> NULL then Some (Inr (take_block b sz s))
          else (case expand_heap sz s of
                  None \<Rightarrow> None
                | Some (ok, s') \<Rightarrow>
                    if ok then kmalloc_attempts k sz s' else Some (Inr (NULL, s'))))"

definition kmalloc_size :: "u64 \<Rightarrow> u64" where
  "kmalloc_size sz =
     (let sz = H3OS_ALIGN_UP sz HEAP_ALIGN in if sz < HEAP_MIN then HEAP_MIN else sz)"

definition kmalloc :: "u64 \<Rightarrow> heap_state \<Rightarrow> (string + addr \<times> heap_state) option" where
  "kmalloc sz s =
     (if sz = 0 then Some (Inr (NULL, s)) else kmalloc_attempts 2 (kmalloc_size sz) s)"

definition kcalloc :: "u64 \<Rightarrow> u64 \<Rightarrow> heap_state \<Rightarrow> (string + addr \<times> heap_state) option" where
  "kcalloc n sz s =
     (let total = n * sz in
      case kmalloc total s of
        Some (Inr (p, s')) \<Rightarrow>
          Some (Inr (p, if p \<noteq> NULL then s'\<lparr>heap_mem := snd (memset (heap_mem s') p 0 total)\<rparr> else s'))
      | r \<Rightarrow> r)"

definition kfree :: "addr \<Rightarrow> heap_state \<Rightarrow> heap_state" where
  "kfree ptr s =
     (if ptr = NULL then s
      else let b = ptr - BLOCK_SIZE; h = block_at (heap_mem s) b in
        if b_magic h \<noteq> HEAP_MAGIC \<or> b_free h then s
        else s\<lparr>heap_mem := coalesce b (set_free b True (heap_mem s)),
               heap_used := heap_used s - b_size h\<rparr>)"

definition krealloc :: "addr \<Rightarrow> u64 \<Rightarrow> heap_state \<Rightarrow> (string + addr \<times> heap_state) option" where
  "krealloc ptr sz s =
     (if ptr = NULL then kmalloc sz s
      else if sz = 0 then Some (Inr (NULL, kfree ptr s))
      else if b_size (block_at (heap_mem s) (ptr - BLOCK_SIZE)) \<ge> sz then Some (Inr (ptr, s))
      else (case kmalloc sz s of
              Some (Inr (n, s')) \<Rightarrow>
                if n = NULL then Some (Inr (NULL, s'))
                else Some (Inr (n, kfree ptr (s'\<lparr>heap_mem := snd (memcpy (heap_mem s') n ptr
                        (b_size (block_at (heap_mem s') (ptr - BLOCK_SIZE))))\<rparr>)))
            | r \<Rightarrow> r))"

definition heap_get_stats :: "heap_state \<Rightarrow> heap_stats_t" where
  "heap_get_stats s =
     \<lparr>hs_total_bytes = heap_total s, hs_used_bytes = heap_used s,
      hs_free_bytes = (if heap_total s > heap_used s then heap_total s - heap_used s else 0),
      hs_allocations = heap_allocs s\<rparr>"

section \<open>Header fields are independent\<close>

lemmas field_range =
  in_range_add [where k = 8, simplified] in_range_add [where k = 16, simplified]
  in_range_add [where k = 24, simplified] in_range_add [where k = 32, simplified]

lemma block_at_cong:
  assumes "\<And>x. in_range x c 40 \<Longrightarrow> m' x = m x"
  shows "block_at m' c = block_at m c"
proof -
  have "load64 m' c = load64 m c" by (rule load64_cong) (auto intro!: assms simp: in_range_def)
  moreover have "m' (c + 16) = m (c + 16)" by (rule assms) (simp add: in_range_def)
  moreover have "load64 m' (c + 8) = load64 m (c + 8)" "load64 m' (c + 24) = load64 m (c + 24)"
    "load64 m' (c + 32) = load64 m (c + 32)"
    by (rule load64_cong; auto intro!: assms simp: field_range, simp add: in_range_def)+
  ultimately show ?thesis by (simp add: block_at_def)
qed

lemma set_frame:
  assumes "\<not> in_range x b 40"
  shows "set_magic b v m x = m x" "set_size b v m x = m x" "set_free b f m x = m x"
    "set_next b v m x = m x" "set_prev b v m x = m x"
  using assms cell64.store_frame [of x b] cell64.store_frame [of x "b + 8"]
    cell64.store_frame [of x "b + 24"] cell64.store_frame [of x "b + 32"]
  by (auto simp: set_magic_def set_size_def set_free_def set_next_def set_prev_def field_range in_range_def [of _ b])

lemma block_at_set_same [simp]:
  "block_at (set_magic b v m) b = (block_at m b)\<lparr>b_magic := v\<rparr>"
  "block_at (set_size b v m) b = (block_at m b)\<lparr>b_size := v\<rparr>"
  "block_at (set_free b f m) b = (block_at m b)\<lparr>b_free := f\<rparr>"
  "block_at (set_next b v m) b = (block_at m b)\<lparr>b_next := v\<rparr>"
  "block_at (set_prev b v m) b = (block_at m b)\<lparr>b_prev := v\<rparr>"
proof -
  have st: "store64 m a v x = m x" if "\<not> in_range x a 8" for a x
    using that by (rule cell64.store_frame)
  have ld: "load64 (store64 m a v) c = load64 m c" if "disjoint_ranges c 8 a 8" for a c
    using that by (rule cell64.load_store_disjoint)
  show "block_at (set_magic b v m) b = (block_at m b)\<lparr>b_magic := v\<rparr>"
    unfolding block_at_def set_magic_def
    by (auto simp: cell64.load_store disjoint_ranges_def field_range in_range_def [of _ b] st intro!: ld)
  show "block_at (set_size b v m) b = (block_at m b)\<lparr>b_size := v\<rparr>"
    unfolding block_at_def set_size_def
    by (auto simp: cell64.load_store disjoint_ranges_def field_range in_range_def [of _ b] st intro!: ld)
  show "block_at (set_next b v m) b = (block_at m b)\<lparr>b_next := v\<rparr>"
    unfolding block_at_def set_next_def
    by (auto simp: cell64.load_store disjoint_ranges_def field_range in_range_def [of _ b] st intro!: ld)
  show "block_at (set_prev b v m) b = (block_at m b)\<lparr>b_prev := v\<rparr>"
    unfolding block_at_def set_prev_def
    by (auto simp: cell64.load_store disjoint_ranges_def field_range in_range_def [of _ b] st intro!: ld)
  have lf: "load64 (m(b + 16 := w)) a = load64 m a" if "\<not> in_range (b + 16) a 8" for a w
    using that by (intro load64_cong) auto
  show "block_at (set_free b f m) b = (block_at m b)\<lparr>b_free := f\<rparr>"
    unfolding block_at_def set_free_def by (auto simp: field_range in_range_def [of _ b] intro!: lf)
qed

text \<open>Headers that do not overlap do not affect each other.\<close>

lemma block_at_set_other [simp]:
  assumes "disjoint_ranges c 40 b 40"
  shows "block_at (set_magic b v m) c = block_at m c" "block_at (set_size b v m) c = block_at m c"
    "block_at (set_free b f m) c = block_at m c" "block_at (set_next b v m) c = block_at m c"
    "block_at (set_prev b v m) c = block_at m c"
  by (rule block_at_cong, rule set_frame, use assms in \<open>auto simp: disjoint_ranges_def\<close>)+

section \<open>Well-formed heaps\<close>

text \<open>
  \<open>seg h p b xs e\<close>: the headers \<open>h\<close> link the blocks \<open>xs\<close> from \<open>b\<close> on, the first one pointing
  back to \<open>p\<close> and the last one on to \<open>e\<close>.
\<close>

primrec seg :: "(addr \<Rightarrow> block_t) \<Rightarrow> addr \<Rightarrow> addr \<Rightarrow> addr list \<Rightarrow> addr \<Rightarrow> bool" where
  "seg h p b [] e \<longleftrightarrow> b = e"
| "seg h p b (x # xs) e \<longleftrightarrow> b = x \<and> x \<noteq> NULL \<and> b_magic (h x) = HEAP_MAGIC \<and> b_prev (h x) = p \<and>
     seg h x (b_next (h x)) xs e"

text \<open>The bytes of a block, header included.\<close>

definition extent :: "(addr \<Rightarrow> block_t) \<Rightarrow> addr \<Rightarrow> addr set" where
  "extent h b = {x. unat b \<le> unat x \<and> unat x < unat b + 40 + unat (b_size (h b))}"

definition blocks_ok :: "(addr \<Rightarrow> block_t) \<Rightarrow> addr \<Rightarrow> addr list \<Rightarrow> bool" where
  "blocks_ok h b bs \<longleftrightarrow> seg h NULL b bs NULL \<and> distinct bs \<and>
     (\<forall>x \<in> set bs. unat x + 40 + unat (b_size (h x)) \<le> 18446744073709551616) \<and>
     (\<forall>x \<in> set bs. \<forall>y \<in> set bs. x \<noteq> y \<longrightarrow> extent h x \<inter> extent h y = {})"

primrec used_sum :: "(addr \<Rightarrow> block_t) \<Rightarrow> addr list \<Rightarrow> u64" where
  "used_sum h [] = 0"
| "used_sum h (x # xs) = (if b_free (h x) then 0 else b_size (h x)) + used_sum h xs"

text \<open>The bytes of the pages that the page allocator has handed out or reserved.\<close>

definition owned :: "pmm_state \<Rightarrow> addr set" where
  "owned p = {x. x div PAGE_SIZE \<in> taken p}"

abbreviation hdr :: "heap_state \<Rightarrow> addr \<Rightarrow> block_t" where
  "hdr s \<equiv> block_at (heap_mem s)"

text \<open>
  The invariant of a heap with block list \<open>bs\<close>: a proper doubly linked list of disjoint blocks
  that lie in owned pages, with a correct count of the bytes in use.
\<close>

definition heap_ok :: "heap_state \<Rightarrow> addr list \<Rightarrow> bool" where
  "heap_ok s bs \<longleftrightarrow> blocks_ok (hdr s) (heap_head s) bs \<and> pmm_inv (heap_pmm s) \<and>
     (\<forall>x \<in> set bs. extent (hdr s) x \<subseteq> owned (heap_pmm s)) \<and> heap_used s = used_sum (hdr s) bs"

text \<open>The allocated payloads: address and size.\<close>

definition allocated :: "heap_state \<Rightarrow> addr list \<Rightarrow> (addr \<times> u64) set" where
  "allocated s bs = {(b + BLOCK_SIZE, b_size (hdr s b)) |b. b \<in> set bs \<and> \<not> b_free (hdr s b)}"

lemma seg_append:
  "seg h p b (xs @ ys) e \<longleftrightarrow> (\<exists>c. seg h p b xs c \<and> seg h (last (p # xs)) c ys e)"
  by (induction xs arbitrary: p b) auto

lemma seg_cong: "(\<And>x. x \<in> set xs \<Longrightarrow> h' x = h x) \<Longrightarrow> seg h' p b xs e = seg h p b xs e"
  by (induction xs arbitrary: p b) auto

lemma used_sum_cong: "(\<And>x. x \<in> set xs \<Longrightarrow> h' x = h x) \<Longrightarrow> used_sum h' xs = used_sum h xs"
  by (induction xs) auto

lemma used_sum_fields:
  "(\<And>x. x \<in> set xs \<Longrightarrow> b_free (h' x) = b_free (h x)) \<Longrightarrow>
   (\<And>x. x \<in> set xs \<Longrightarrow> b_size (h' x) = b_size (h x)) \<Longrightarrow> used_sum h' xs = used_sum h xs"
  by (induction xs) auto

lemma used_sum_append [simp]: "used_sum h (xs @ ys) = used_sum h xs + used_sum h ys"
  by (induction xs) (simp_all add: add.assoc)

lemma seg_nonnull: "seg h p b xs e \<Longrightarrow> x \<in> set xs \<Longrightarrow> x \<noteq> NULL \<and> b_magic (h x) = HEAP_MAGIC"
  by (induction xs arbitrary: p b) auto

lemma seg_head: "seg h p b xs NULL \<Longrightarrow> b = NULL \<longleftrightarrow> xs = []"
  by (cases xs) auto

text \<open>Changing the back pointer of the first block of a segment.\<close>

lemma seg_relink:
  assumes "seg h p b xs e" and "distinct xs"
    and "\<And>x. x \<in> set (tl xs) \<Longrightarrow> h' x = h x"
    and "xs \<noteq> [] \<Longrightarrow> h' (hd xs) = (h (hd xs))\<lparr>b_prev := q\<rparr>"
  shows "seg h' q b xs e"
proof (cases xs)
  case (Cons y ys)
  then have "seg h' y (b_next (h y)) ys e" using assms(1,3) seg_cong [of ys h' h] by auto
  then show ?thesis using Cons assms by simp
qed (use assms in simp)

lemma extent_separate:
  assumes "unat b + 40 + unat (b_size (h b)) \<le> 18446744073709551616"
    and "unat c + 40 + unat (b_size (h c)) \<le> 18446744073709551616"
    and "extent h b \<inter> extent h c = {}"
  shows "unat b + 40 + unat (b_size (h b)) \<le> unat c \<or> unat c + 40 + unat (b_size (h c)) \<le> unat b"
proof (rule ccontr)
  assume "\<not> ?thesis"
  then have "b \<in> extent h c \<or> c \<in> extent h b" and "b \<in> extent h b" and "c \<in> extent h c"
    by (auto simp: extent_def)
  then show False using assms(3) by blast
qed

lemma blocks_okD:
  assumes "blocks_ok h b bs"
  shows "seg h NULL b bs NULL" "distinct bs"
    "x \<in> set bs \<Longrightarrow> unat x + 40 + unat (b_size (h x)) \<le> 18446744073709551616"
    "x \<in> set bs \<Longrightarrow> y \<in> set bs \<Longrightarrow> x \<noteq> y \<Longrightarrow> extent h x \<inter> extent h y = {}"
    "x \<in> set bs \<Longrightarrow> x \<noteq> NULL" "x \<in> set bs \<Longrightarrow> b_magic (h x) = HEAP_MAGIC"
  using assms seg_nonnull [of h NULL b bs NULL] by (auto simp: blocks_ok_def)

lemma blocks_separate:
  assumes "blocks_ok h b bs" "x \<in> set bs" "y \<in> set bs" "x \<noteq> y"
  shows "unat x + 40 + unat (b_size (h x)) \<le> unat y \<or> unat y + 40 + unat (b_size (h y)) \<le> unat x"
  using blocks_okD(3,4) [OF assms(1)] assms by (intro extent_separate) auto

lemma headers_disjoint:
  assumes "blocks_ok h b bs" "x \<in> set bs" "y \<in> set bs" "x \<noteq> y"
  shows "disjoint_ranges x 40 y 40"
  using blocks_separate [OF assms] blocks_okD(3) [OF assms(1)] assms(2,3)
  by (intro disjoint_ranges_nat) (force simp: add.commute)+

section \<open>Splitting and taking a block\<close>

lemma middle_block:
  assumes "blocks_ok h a (xs @ b # ys)"
  shows "seg h NULL a xs b" "b_prev (h b) = last (NULL # xs)" "seg h b (b_next (h b)) ys NULL"
    "b_next (h b) = NULL \<longleftrightarrow> ys = []" "ys \<noteq> [] \<Longrightarrow> b_next (h b) = hd ys"
proof -
  have "seg h b (b_next (h b)) ys NULL" and "seg h NULL a xs b \<and> b_prev (h b) = last (NULL # xs)"
    using blocks_okD(1) [OF assms] by (auto simp: seg_append)
  then show "seg h NULL a xs b" "b_prev (h b) = last (NULL # xs)" "seg h b (b_next (h b)) ys NULL"
    "b_next (h b) = NULL \<longleftrightarrow> ys = []" "ys \<noteq> [] \<Longrightarrow> b_next (h b) = hd ys"
    using seg_head by (auto, cases ys, auto)
qed

lemma split_point:
  assumes "blocks_ok (block_at m) a (xs @ b # ys)" and "unat sz + 72 \<le> unat (b_size (block_at m b))"
  shows "unat (b + BLOCK_SIZE + sz) = unat b + 40 + unat sz"
    and "b_size (block_at m b) \<ge> sz + BLOCK_SIZE + HEAP_MIN"
    and "unat (b_size (block_at m b) - sz - BLOCK_SIZE) = unat (b_size (block_at m b)) - unat sz - 40"
proof -
  have bd: "unat b + 40 + unat (b_size (block_at m b)) \<le> 18446744073709551616"
    using blocks_okD(3) [OF assms(1)] by simp
  have u: "unat (b + 40) = unat b + 40" using bd assms(2) by (subst unat_add_u64) simp_all
  then show "unat (b + BLOCK_SIZE + sz) = unat b + 40 + unat sz"
    using bd assms(2) unat_add_u64 [of "b + 40" sz] by (simp add: BLOCK_SIZE_def)
  have w: "unat (sz + 40) = unat sz + 40" "unat (sz + 40 + 32) = unat sz + 72"
    using assms(2) unat_u64_bound [of "b_size (block_at m b)"] unat_add_u64 [of sz 40]
      unat_add_u64 [of "sz + 40" 32] by (simp_all del: unat_u64_bound)
  show "b_size (block_at m b) \<ge> sz + BLOCK_SIZE + HEAP_MIN"
    using w assms(2) by (simp add: BLOCK_SIZE_def HEAP_MIN_def word_le_nat_alt)
  have "unat (b_size (block_at m b) - (sz + 40)) = unat (b_size (block_at m b)) - (unat sz + 40)"
    using w assms(2) by (subst unat_sub_u64) (simp_all add: word_le_nat_alt)
  then show "unat (b_size (block_at m b) - sz - BLOCK_SIZE) = unat (b_size (block_at m b)) - unat sz - 40"
    by (simp add: BLOCK_SIZE_def diff_diff_eq)
qed

lemma split_headers:
  assumes ok: "blocks_ok (block_at m) a (xs @ b # ys)"
    and fits: "unat sz + 72 \<le> unat (b_size (block_at m b))"
    and n: "n = b + BLOCK_SIZE + sz" and m': "m' = split_block b sz m"
  shows "block_at m' b = (block_at m b)\<lparr>b_size := sz, b_next := n\<rparr>"
    and "block_at m' n = \<lparr>b_magic = HEAP_MAGIC, b_size = b_size (block_at m b) - sz - BLOCK_SIZE,
           b_free = True, b_next = b_next (block_at m b), b_prev = b\<rparr>"
    and "ys \<noteq> [] \<Longrightarrow> block_at m' (hd ys) = (block_at m (hd ys))\<lparr>b_prev := n\<rparr>"
    and "c \<in> set xs \<union> set (tl ys) \<Longrightarrow> block_at m' c = block_at m c"
    and "x \<notin> extent (block_at m) b \<Longrightarrow> (ys = [] \<or> \<not> in_range x (hd ys) 40) \<Longrightarrow> m' x = m x"
proof -
  let ?y = "b_next (block_at m b)"
  have bd: "unat b + 40 + unat (b_size (block_at m b)) \<le> 18446744073709551616"
    using blocks_okD(3) [OF ok] by simp
  have un: "unat n = unat b + 40 + unat sz" using split_point(1) [OF ok fits] n by simp
  have bn: "disjoint_ranges b 40 n 40" "disjoint_ranges n 40 b 40"
    using un bd fits by (auto intro!: disjoint_ranges_nat)
  have cn: "disjoint_ranges c 40 n 40" "disjoint_ranges n 40 c 40"
    "disjoint_ranges c 40 b 40" "disjoint_ranges b 40 c 40"
    if "c \<in> set xs \<union> set ys" for c
  proof -
    have "c \<noteq> b" using that blocks_okD(2) [OF ok] by auto
    then have "unat c + 40 + unat (b_size (block_at m c)) \<le> unat b \<or>
        unat b + 40 + unat (b_size (block_at m b)) \<le> unat c"
      and "unat c + 40 + unat (b_size (block_at m c)) \<le> 18446744073709551616"
      using blocks_separate [OF ok, of c b] blocks_okD(3) [OF ok, of c] that by auto
    then show "disjoint_ranges c 40 n 40" "disjoint_ranges n 40 c 40"
      "disjoint_ranges c 40 b 40" "disjoint_ranges b 40 c 40"
      using un bd fits by (auto intro!: disjoint_ranges_nat)
  qed
  have y: "?y \<noteq> NULL \<longleftrightarrow> ys \<noteq> []" "ys \<noteq> [] \<Longrightarrow> ?y = hd ys" using middle_block(4,5) [OF ok] by auto
  have yc: "disjoint_ranges c 40 (hd ys) 40" if "c \<in> set xs \<union> set (tl ys)" "ys \<noteq> []" for c
    using that blocks_okD(2) [OF ok] by (intro headers_disjoint [OF ok]) (cases ys; auto)+
  have hs: "ys \<noteq> [] \<Longrightarrow> hd ys \<in> set ys" "c \<in> set (tl ys) \<Longrightarrow> c \<in> set ys" for c
    by (cases ys; simp)+
  have m'_eq: "m' = set_size b sz (set_next b n
      ((if ys \<noteq> [] then set_prev (hd ys) n else id)
        (set_prev n b (set_next n ?y (set_free n True
          (set_size n (b_size (block_at m b) - sz - BLOCK_SIZE) (set_magic n HEAP_MAGIC m)))))))"
    using split_point(2) [OF ok fits] y bn by (simp add: m' split_block_def Let_def n [symmetric])
  show "block_at m' b = (block_at m b)\<lparr>b_size := sz, b_next := n\<rparr>"
    using bn cn hs by (simp add: m'_eq)
  show "block_at m' n = \<lparr>b_magic = HEAP_MAGIC, b_size = b_size (block_at m b) - sz - BLOCK_SIZE,
      b_free = True, b_next = ?y, b_prev = b\<rparr>"
    using bn cn hs by (simp add: m'_eq)
  show "ys \<noteq> [] \<Longrightarrow> block_at m' (hd ys) = (block_at m (hd ys))\<lparr>b_prev := n\<rparr>"
    using cn hs by (simp add: m'_eq)
  show "c \<in> set xs \<union> set (tl ys) \<Longrightarrow> block_at m' c = block_at m c"
    using cn [of c] hs yc by (auto simp: m'_eq)
  show "m' x = m x" if "x \<notin> extent (block_at m) b" "ys = [] \<or> \<not> in_range x (hd ys) 40"
  proof -
    have "\<not> in_range x b 40" "\<not> in_range x n 40"
      using that(1) un bd fits by (auto simp: extent_def in_range_nat)
    then show ?thesis using that(2) by (auto simp: m'_eq set_frame)
  qed
qed

lemma split_blocks_ok:
  assumes ok: "blocks_ok (block_at m) a (xs @ b # ys)"
    and fits: "unat sz + 72 \<le> unat (b_size (block_at m b))"
    and n: "n = b + BLOCK_SIZE + sz" and m': "m' = split_block b sz m"
  shows "blocks_ok (block_at m') a (xs @ b # n # ys)"
    and "extent (block_at m') b \<union> extent (block_at m') n \<subseteq> extent (block_at m) b"
    and "c \<in> set xs \<union> set ys \<Longrightarrow> block_at m' c = (block_at m c)\<lparr>b_prev := b_prev (block_at m' c)\<rparr>"
proof -
  let ?h = "block_at m" and ?h' = "block_at m'"
  note sh = split_headers [OF ok fits n m'] and sp = split_point [OF ok fits] and mb = middle_block [OF ok]
  have bd: "unat b + 40 + unat (b_size (?h b)) \<le> 18446744073709551616"
    using blocks_okD(3) [OF ok] by simp
  have un: "unat n = unat b + 40 + unat sz" using sp(1) n by simp
  show other: "?h' c = (?h c)\<lparr>b_prev := b_prev (?h' c)\<rparr>" if "c \<in> set xs \<union> set ys" for c
    using that sh(3) sh(4) [of c] by (cases ys) auto
  have ext: "extent ?h' c = extent ?h c" if "c \<in> set xs \<union> set ys" for c
    by (subst extent_def, subst other [OF that]) (simp add: extent_def)
  show sub: "extent ?h' b \<union> extent ?h' n \<subseteq> extent ?h b"
    using un sp(3) fits by (auto simp: extent_def sh(1,2))
  have disj: "extent ?h' b \<inter> extent ?h' n = {}" using un by (auto simp: extent_def sh(1))
  have n_in: "n \<in> extent ?h' n" by (simp add: extent_def)
  have fresh: "extent ?h b \<inter> extent ?h c = {}" if "c \<in> set xs \<union> set ys" for c
    using that blocks_okD(2,4) [OF ok] by auto
  have n_new: "n \<notin> set xs \<union> set ys"
  proof
    assume "n \<in> set xs \<union> set ys"
    then have "n \<in> extent ?h b \<inter> extent ?h n" using sub n_in ext by blast
    then show False using fresh [OF \<open>n \<in> set xs \<union> set ys\<close>] by blast
  qed
  have "n \<noteq> b" using un by auto
  have "seg ?h' n (b_next (?h b)) ys NULL"
    by (rule seg_relink [OF mb(3)]) (use blocks_okD(2) [OF ok] sh(3,4) in simp_all)
  moreover have "seg ?h' NULL a xs b" using mb(1) sh(4) seg_cong [of xs ?h' ?h] by blast
  moreover have "n \<noteq> NULL" using un by (auto simp: NULL_def)
  ultimately have sg: "seg ?h' NULL a (xs @ b # n # ys) NULL"
    using sh(1,2) mb(2) blocks_okD(5,6) [OF ok, of b] by (auto simp: seg_append)
  have sz': "b_size (?h' c) = b_size (?h c)" if "c \<in> set xs \<union> set ys" for c
    by (subst other [OF that]) simp
  have bounds: "unat c + 40 + unat (b_size (?h' c)) \<le> 18446744073709551616"
    if "c \<in> set (xs @ b # n # ys)" for c
  proof (cases "c = b \<or> c = n")
    case True
    then show ?thesis using bd un sp(3) fits by (auto simp: sh(1,2))
  next
    case False
    then show ?thesis using that sz' [of c] blocks_okD(3) [OF ok, of c] by auto
  qed
  have pair: "extent ?h' c \<inter> extent ?h' d = {}" if "c \<in> set xs \<union> set ys" "d \<in> set (xs @ b # n # ys)" "c \<noteq> d" for c d
  proof (cases "d = b \<or> d = n")
    case True
    then show ?thesis using sub ext [OF that(1)] fresh [OF that(1)] by blast
  next
    case False
    then show ?thesis using that ext [of c] ext [of d] blocks_okD(4) [OF ok, of c d] by auto
  qed
  then have "extent ?h' c \<inter> extent ?h' d = {}"
    if "c \<in> set (xs @ b # n # ys)" "d \<in> set (xs @ b # n # ys)" "c \<noteq> d" for c d
    using that disj pair [of c d] pair [of d c] by auto
  then show "blocks_ok ?h' a (xs @ b # n # ys)"
    using sg bounds n_new \<open>n \<noteq> b\<close> blocks_okD(2) [OF ok] by (simp add: blocks_ok_def)
qed

text \<open>Only the links and sizes matter for well-formedness, not the free flags.\<close>

lemma blocks_ok_flags:
  assumes "blocks_ok h a bs" and "\<And>c. c \<in> set bs \<Longrightarrow> h' c = (h c)\<lparr>b_free := b_free (h' c)\<rparr>"
  shows "blocks_ok h' a bs" and "c \<in> set bs \<Longrightarrow> extent h' c = extent h c"
proof -
  have f: "b_magic (h' c) = b_magic (h c)" "b_size (h' c) = b_size (h c)"
    "b_next (h' c) = b_next (h c)" "b_prev (h' c) = b_prev (h c)" if "c \<in> set bs" for c
    by (subst assms(2) [OF that], simp)+
  then show ext: "c \<in> set bs \<Longrightarrow> extent h' c = extent h c" for c by (simp add: extent_def)
  have "seg h' p b xs e = seg h p b xs e" if "set xs \<subseteq> set bs" for p b xs e
    using that by (induction xs arbitrary: p b) (auto simp: f)
  then show "blocks_ok h' a bs" using assms(1) f ext by (simp add: blocks_ok_def)
qed

lemma set_free_headers:
  assumes "blocks_ok (block_at m) a bs" and "b \<in> set bs" and "c \<in> set bs"
  shows "block_at (set_free b f m) c = (block_at m c)\<lparr>b_free := if c = b then f else b_free (block_at m c)\<rparr>"
  using headers_disjoint [OF assms(1,3,2)] by (cases "c = b") simp_all

lemma set_free_ok:
  assumes "blocks_ok (block_at m) a bs" and "b \<in> set bs"
  shows "blocks_ok (block_at (set_free b f m)) a bs"
    and "c \<in> set bs \<Longrightarrow> extent (block_at (set_free b f m)) c = extent (block_at m) c"
  using blocks_ok_flags [OF assms(1), of "block_at (set_free b f m)"] set_free_headers [OF assms]
  by auto

text \<open>The payload of a block lies in its extent and meets no header.\<close>

lemma payload_range:
  assumes "unat c + 40 + unat k \<le> 18446744073709551616"
  shows "in_range x (c + BLOCK_SIZE) (unat k) \<longleftrightarrow> unat c + 40 \<le> unat x \<and> unat x < unat c + 40 + unat k"
proof (cases "unat k = 0")
  case True
  then show ?thesis by simp
next
  case False
  then have "unat (c + 40) = unat c + 40" using assms by (subst unat_add_u64) simp_all
  then show ?thesis using assms by (simp add: in_range_nat BLOCK_SIZE_def)
qed

lemma payload_outside:
  assumes "blocks_ok h a bs" "c \<in> set bs" "in_range x (c + BLOCK_SIZE) (unat (b_size (h c)))"
  shows "x \<in> extent h c" and "d \<in> set bs \<Longrightarrow> \<not> in_range x d 40" and "d \<in> set bs \<Longrightarrow> x \<in> extent h d \<Longrightarrow> d = c"
proof -
  have x: "unat c + 40 \<le> unat x" "unat x < unat c + 40 + unat (b_size (h c))"
    using assms(3) payload_range [OF blocks_okD(3) [OF assms(1,2)]] by blast+
  then show xc: "x \<in> extent h c" by (simp add: extent_def)
  show one: "d \<in> set bs \<Longrightarrow> x \<in> extent h d \<Longrightarrow> d = c"
    using xc blocks_okD(4) [OF assms(1) _ assms(2)] by blast
  show "\<not> in_range x d 40" if d: "d \<in> set bs"
  proof
    assume "in_range x d 40"
    then have "unat d \<le> unat x" "unat x < unat d + 40"
      using blocks_okD(3) [OF assms(1) d] by (auto simp: in_range_nat)
    moreover from this have "d = c" by (intro one [OF d]) (simp add: extent_def)
    ultimately show False using x(1) by simp
  qed
qed

definition payloads_kept :: "heap_state \<Rightarrow> addr list \<Rightarrow> heap_state \<Rightarrow> bool" where
  "payloads_kept s bs s' \<longleftrightarrow> (\<forall>(q, k) \<in> allocated s bs. \<forall>x. in_range x q (unat k) \<longrightarrow> heap_mem s' x = heap_mem s x)"

lemma payloads_keptD:
  "payloads_kept s bs s' \<Longrightarrow> (q, k) \<in> allocated s bs \<Longrightarrow> in_range x q (unat k) \<Longrightarrow> heap_mem s' x = heap_mem s x"
  by (auto simp: payloads_kept_def)

lemma payloads_kept_trans:
  assumes "payloads_kept s bs s1" "allocated s bs \<subseteq> allocated s1 cs" "payloads_kept s1 cs s'"
  shows "payloads_kept s bs s'"
  unfolding payloads_kept_def
proof clarify
  fix q k x assume "(q, k) \<in> allocated s bs" and "in_range x q (unat k)"
  then have "heap_mem s1 x = heap_mem s x" "heap_mem s' x = heap_mem s1 x"
    using payloads_keptD [OF assms(1)] payloads_keptD [OF assms(3)] assms(2) by blast+
  then show "heap_mem s' x = heap_mem s x" by simp
qed

text \<open>Every block starts where its predecessor in the list ends.\<close>

definition contiguous :: "(addr \<Rightarrow> block_t) \<Rightarrow> addr list \<Rightarrow> bool" where
  "contiguous h bs \<longleftrightarrow> successively (\<lambda>x y. unat y = unat x + 40 + unat (b_size (h x))) bs"

lemma successively_cong_set:
  "successively P xs \<Longrightarrow> (\<And>x y. x \<in> set xs \<Longrightarrow> y \<in> set xs \<Longrightarrow> P x y \<Longrightarrow> Q x y) \<Longrightarrow> successively Q xs"
  by (induction P xs rule: successively.induct) auto

lemma contiguous_cong:
  "contiguous h bs \<Longrightarrow> (\<And>x. x \<in> set bs \<Longrightarrow> b_size (h' x) = b_size (h x)) \<Longrightarrow> contiguous h' bs"
  unfolding contiguous_def by (erule successively_cong_set) simp

lemma split_frame:
  assumes "blocks_ok (block_at m) a (xs @ b # ys)" "unat sz + 72 \<le> unat (b_size (block_at m b))"
    and "c \<in> set xs \<union> set ys" "in_range x (c + BLOCK_SIZE) (unat (b_size (block_at m c)))"
  shows "split_block b sz m x = m x"
proof -
  have c: "c \<in> set (xs @ b # ys)" "c \<noteq> b" using assms(3) blocks_okD(2) [OF assms(1)] by auto
  note po = payload_outside [OF assms(1) c(1) assms(4)]
  have "x \<notin> extent (block_at m) b" using po(3) [of b] c(2) by auto
  moreover have "ys = [] \<or> \<not> in_range x (hd ys) 40" using po(2) by (cases ys) auto
  ultimately show ?thesis by (rule split_headers(5) [OF assms(1,2) refl refl])
qed

text \<open>
  What taking a free block achieves: \<open>(p, k)\<close> is added to the allocated payloads, the bytes of
  all others are kept, and the invariant holds again.
\<close>

definition takes :: "heap_state \<Rightarrow> addr list \<Rightarrow> u64 \<Rightarrow> addr \<Rightarrow> heap_state \<Rightarrow> addr list \<Rightarrow> bool" where
  "takes s bs sz p s' bs' \<longleftrightarrow> heap_ok s' bs' \<and> p \<noteq> NULL \<and> heap_pmm s' = heap_pmm s \<and>
     (\<exists>k \<ge> sz. (p, k) \<notin> allocated s bs \<and> allocated s' bs' = insert (p, k) (allocated s bs)) \<and>
     payloads_kept s bs s' \<and> (contiguous (hdr s) bs \<longrightarrow> contiguous (hdr s') bs')"

text \<open>The memory after the optional split: the chosen block is followed by a free remainder.\<close>

lemma split_effect:
  assumes ok: "blocks_ok (block_at m) a (xs @ b # ys)" and free: "b_free (block_at m b)"
    and fit: "sz \<le> b_size (block_at m b)" and wrap: "unat sz + 72 < 18446744073709551616"
    and m': "m' = split_block b sz m"
  shows "\<exists>zs. blocks_ok (block_at m') a (xs @ b # zs) \<and> sz \<le> b_size (block_at m' b) \<and>
     b_free (block_at m' b) \<and> set ys \<subseteq> set zs \<and>
     (\<forall>c \<in> set zs - set ys. b_free (block_at m' c)) \<and>
     (\<forall>c \<in> set xs \<union> set ys. b_free (block_at m' c) = b_free (block_at m c) \<and>
        b_size (block_at m' c) = b_size (block_at m c)) \<and>
     (\<forall>c \<in> set (b # zs). c \<in> set ys \<or> extent (block_at m') c \<subseteq> extent (block_at m) b) \<and>
     used_sum (block_at m') zs = used_sum (block_at m) ys \<and>
     (contiguous (block_at m) (xs @ b # ys) \<longrightarrow> contiguous (block_at m') (xs @ b # zs))"
proof (cases "sz + BLOCK_SIZE + HEAP_MIN \<le> b_size (block_at m b)")
  case False
  then have "m' = m" using m' by (simp add: split_block_def)
  then show ?thesis using ok free fit by (intro exI [of _ ys]) simp
next
  case True
  have "unat (sz + BLOCK_SIZE + HEAP_MIN) = unat sz + 72"
    using wrap unat_add_u64 [of sz 40] unat_add_u64 [of "sz + 40" 32]
    by (simp add: BLOCK_SIZE_def HEAP_MIN_def)
  then have fits: "unat sz + 72 \<le> unat (b_size (block_at m b))"
    using True by (simp add: word_le_nat_alt)
  let ?n = "b + BLOCK_SIZE + sz"
  note ok' = split_blocks_ok [OF ok fits refl m'] and sh = split_headers [OF ok fits refl m']
    and sp = split_point [OF ok fits]
  have same: "b_free (block_at m' c) = b_free (block_at m c)" "b_size (block_at m' c) = b_size (block_at m c)"
    if "c \<in> set xs \<union> set ys" for c
    by (subst ok'(3) [OF that], simp)+
  have used: "used_sum (block_at m') ys = used_sum (block_at m) ys"
    using same by (induction ys) auto
  have cont: "contiguous (block_at m') (xs @ b # ?n # ys)" if c: "contiguous (block_at m) (xs @ b # ys)"
  proof -
    have "contiguous (block_at m') xs" "contiguous (block_at m') ys"
      using c same contiguous_cong [of "block_at m" xs] contiguous_cong [of "block_at m" ys]
      by (auto simp: contiguous_def successively_append_iff successively_Cons)
    moreover have "xs \<noteq> [] \<Longrightarrow> unat b = unat (last xs) + 40 + unat (b_size (block_at m' (last xs)))"
      using c same(2) [of "last xs"] by (auto simp: contiguous_def successively_append_iff)
    moreover have "ys \<noteq> [] \<Longrightarrow> unat (hd ys) = unat ?n + 40 + unat (b_size (block_at m' ?n))"
      using c sp fits by (auto simp: contiguous_def successively_append_iff successively_Cons sh(2))
    ultimately show ?thesis using sp(1)
      by (auto simp: contiguous_def successively_append_iff successively_Cons sh(1))
  qed
  show ?thesis
    using ok' same used cont sh(1,2) free by (intro exI [of _ "?n # ys"]) auto
qed

lemma owned_bound: "pmm_inv p \<Longrightarrow> x \<in> owned p \<Longrightarrow> unat x < 2147483648"
proof -
  assume "pmm_inv p" and "x \<in> owned p"
  then have "total_pages p \<le> PMM_MAX_PAGES" "x div PAGE_SIZE < total_pages p"
    by (auto simp: pmm_inv_def owned_def taken_def)
  then have "unat x div 4096 < 524288"
    by (simp add: word_less_nat_alt word_le_nat_alt unat_div PAGE_SIZE_def PMM_MAX_PAGES_def)
  then show ?thesis by linarith
qed

lemma block_address_bound: "heap_ok s bs \<Longrightarrow> b \<in> set bs \<Longrightarrow> unat b < 2147483648"
proof -
  assume "heap_ok s bs" and "b \<in> set bs"
  moreover have "b \<in> extent (hdr s) b" by (simp add: extent_def)
  ultimately show ?thesis using owned_bound [of "heap_pmm s" b] by (auto simp: heap_ok_def)
qed

lemma block_end_bound:
  assumes "heap_ok s bs" "c \<in> set bs"
  shows "unat c + 40 + unat (b_size (hdr s c)) \<le> 2147483648"
proof -
  let ?x = "of_nat (unat c + 39 + unat (b_size (hdr s c))) :: addr"
  have "unat c + 40 + unat (b_size (hdr s c)) \<le> 18446744073709551616"
    using assms blocks_okD(3) by (auto simp: heap_ok_def)
  then have u: "unat ?x = unat c + 39 + unat (b_size (hdr s c))" by (intro unat_of_nat_u64) linarith
  then have "?x \<in> extent (hdr s) c" unfolding extent_def mem_Collect_eq u by linarith
  then have "unat ?x < 2147483648" using assms owned_bound [of "heap_pmm s" ?x] by (auto simp: heap_ok_def)
  then show ?thesis using u by linarith
qed

lemma split_keeps_payload:
  assumes "blocks_ok (block_at m) a (xs @ b # ys)" "unat sz + 72 < 18446744073709551616"
    and "c \<in> set xs \<union> set ys" "in_range x (c + BLOCK_SIZE) (unat (b_size (block_at m c)))"
  shows "set_free b f (split_block b sz m) x = m x"
proof -
  have "\<not> in_range x b 40"
    by (rule payload_outside(2) [OF assms(1) _ assms(4)]) (use assms(3) in auto)
  then have "set_free b f (split_block b sz m) x = split_block b sz m x" by (rule set_frame(3))
  also have "\<dots> = m x"
  proof (cases "sz + BLOCK_SIZE + HEAP_MIN \<le> b_size (block_at m b)")
    case True
    have "unat (sz + BLOCK_SIZE + HEAP_MIN) = unat sz + 72"
      using assms(2) unat_add_u64 [of sz 40] unat_add_u64 [of "sz + 40" 32]
      by (simp add: BLOCK_SIZE_def HEAP_MIN_def)
    then have "unat sz + 72 \<le> unat (b_size (block_at m b))" using True by (simp add: word_le_nat_alt)
    then show ?thesis by (rule split_frame [OF assms(1) _ assms(3,4)])
  qed (simp add: split_block_def)
  finally show ?thesis .
qed

lemma take_block_takes:
  assumes ok: "heap_ok s bs" and b: "b \<in> set bs" "b_free (hdr s b)" "sz \<le> b_size (hdr s b)"
    and wrap: "unat sz + 72 < 18446744073709551616" and r: "take_block b sz s = (p, s')"
  shows "\<exists>bs'. takes s bs sz p s' bs'"
proof -
  obtain xs ys where bs: "bs = xs @ b # ys" using b(1) by (meson split_list)
  let ?m = "heap_mem s" and ?m' = "split_block b sz (heap_mem s)"
  have bok: "blocks_ok (block_at ?m) (heap_head s) (xs @ b # ys)" using ok bs by (simp add: heap_ok_def)
  obtain zs where z: "blocks_ok (block_at ?m') (heap_head s) (xs @ b # zs)" "sz \<le> b_size (block_at ?m' b)"
    "b_free (block_at ?m' b)" "set ys \<subseteq> set zs" "\<forall>c \<in> set zs - set ys. b_free (block_at ?m' c)"
    "\<forall>c \<in> set xs \<union> set ys. b_free (block_at ?m' c) = b_free (block_at ?m c) \<and>
        b_size (block_at ?m' c) = b_size (block_at ?m c)"
    "\<forall>c \<in> set (b # zs). c \<in> set ys \<or> extent (block_at ?m') c \<subseteq> extent (block_at ?m) b"
    "used_sum (block_at ?m') zs = used_sum (block_at ?m) ys"
    "contiguous (block_at ?m) (xs @ b # ys) \<longrightarrow> contiguous (block_at ?m') (xs @ b # zs)"
    using split_effect [OF bok b(2,3) wrap refl] by blast
  let ?m2 = "set_free b False ?m'"
  have s': "p = b + BLOCK_SIZE" "s' = s\<lparr>heap_mem := ?m2,
      heap_used := heap_used s + b_size (block_at ?m2 b), heap_allocs := heap_allocs s + 1\<rparr>"
    using r by (auto simp: take_block_def Let_def)
  have bz: "b \<in> set (xs @ b # zs)" by simp
  note h2 = set_free_headers [OF z(1) bz, where f = False]
    and ok2 = set_free_ok [OF z(1) bz, where f = False]
  have dist: "b \<notin> set xs \<union> set zs" using blocks_okD(2) [OF z(1)] by auto
  have kb: "block_at ?m2 b = (block_at ?m' b)\<lparr>b_free := False\<rparr>" by simp
  have other: "block_at ?m2 c = block_at ?m' c" if "c \<in> set xs \<union> set zs" for c
    using h2 [of c] that dist by auto
  have "extent (block_at ?m2) c \<subseteq> owned (heap_pmm s)" if c: "c \<in> set (xs @ b # zs)" for c
  proof (cases "c \<in> set xs \<union> set ys")
    case True
    then have "extent (block_at ?m2) c = extent (block_at ?m) c"
      using ok2(2) [OF c] z(6) by (auto simp: extent_def)
    then show ?thesis using ok True bs by (auto simp: heap_ok_def)
  next
    case False
    then have "extent (block_at ?m2) c \<subseteq> extent (block_at ?m) b" using ok2(2) [OF c] z(7) c by auto
    then show ?thesis using ok bs by (auto simp: heap_ok_def)
  qed
  moreover have "used_sum (block_at ?m2) (xs @ b # zs) = heap_used s + b_size (block_at ?m2 b)"
  proof -
    have "used_sum (block_at ?m2) xs = used_sum (block_at ?m) xs"
      using z(6) other by (induction xs) auto
    moreover have "used_sum (block_at ?m2) zs = used_sum (block_at ?m') zs"
      using other by (intro used_sum_cong) auto
    ultimately show ?thesis using ok bs z(8) b(2) kb by (simp add: heap_ok_def add.commute)
  qed
  ultimately have ok': "heap_ok s' (xs @ b # zs)"
    using ok ok2(1) by (simp add: heap_ok_def s')
  have al: "allocated s' (xs @ b # zs) = insert (p, b_size (block_at ?m2 b)) (allocated s bs)"
  proof -
    have "allocated s' (xs @ b # zs) = insert (p, b_size (block_at ?m2 b))
        {(c + BLOCK_SIZE, b_size (block_at ?m2 c)) |c. c \<in> set xs \<union> set zs \<and> \<not> b_free (block_at ?m2 c)}"
      using kb by (auto simp: allocated_def s')
    also have "{(c + BLOCK_SIZE, b_size (block_at ?m2 c)) |c. c \<in> set xs \<union> set zs \<and> \<not> b_free (block_at ?m2 c)} =
        {(c + BLOCK_SIZE, b_size (block_at ?m c)) |c. c \<in> set xs \<union> set ys \<and> \<not> b_free (block_at ?m c)}"
      using other z(4,5,6) by (auto 4 4)
    also have "\<dots> = allocated s bs" using b(2) bs by (auto simp: allocated_def)
    finally show ?thesis .
  qed
  have new: "(p, k) \<notin> allocated s bs" for k using b(2) s'(1) by (auto simp: allocated_def)
  have kept: "payloads_kept s bs s'"
    unfolding payloads_kept_def
  proof (clarify)
    fix q k x assume "(q, k) \<in> allocated s bs" and x: "in_range x q (unat k)"
    then obtain c where c: "c \<in> set bs" "\<not> b_free (block_at ?m c)" "q = c + BLOCK_SIZE" "k = b_size (block_at ?m c)"
      by (auto simp: allocated_def)
    then have "c \<in> set xs \<union> set ys" using b(2) bs by auto
    then show "heap_mem s' x = heap_mem s x"
      using split_keeps_payload [OF bok wrap] x c by (simp add: s')
  qed
  have ct: "contiguous (hdr s') (xs @ b # zs)" if "contiguous (hdr s) bs"
    using that z(9) bs h2 by (auto simp: s' intro!: contiguous_cong [of "block_at ?m'"])
  have "p \<noteq> NULL"
    using block_address_bound [OF ok b(1)] unat_add_u64 [of b 40]
    by (auto simp: s'(1) BLOCK_SIZE_def NULL_def)
  then show ?thesis
    using ok' al new kept ct z(2) kb
    by (intro exI [of _ "xs @ b # zs"]) (auto simp: takes_def s')
qed

section \<open>Searching and growing\<close>

lemma find_fit_seg:
  assumes "seg (block_at m) p b xs NULL"
  shows "find_fit m b sz = Some (Inr (case filter (\<lambda>x. b_free (block_at m x) \<and> sz \<le> b_size (block_at m x)) xs of
    [] \<Rightarrow> NULL | x # _ \<Rightarrow> x))"
  using assms
proof (induction xs arbitrary: p b)
  case Nil
  then show ?case by (subst find_fit.simps) simp
next
  case (Cons x xs)
  then show ?case by (subst find_fit.simps) auto
qed

lemma find_fit_cases:
  assumes "heap_ok s bs"
  shows "\<exists>b. find_fit (heap_mem s) (heap_head s) sz = Some (Inr b) \<and>
    (b = NULL \<and> (\<forall>x \<in> set bs. \<not> (b_free (hdr s x) \<and> sz \<le> b_size (hdr s x))) \<or>
     b \<noteq> NULL \<and> b \<in> set bs \<and> b_free (hdr s b) \<and> sz \<le> b_size (hdr s b))"
proof -
  have ok: "blocks_ok (hdr s) (heap_head s) bs" using assms by (simp add: heap_ok_def)
  let ?f = "filter (\<lambda>x. b_free (hdr s x) \<and> sz \<le> b_size (hdr s x)) bs"
  note f = find_fit_seg [OF blocks_okD(1) [OF ok], of sz]
  show ?thesis
  proof (cases ?f)
    case Nil
    then show ?thesis using f by (auto simp: filter_empty_conv)
  next
    case (Cons x xs)
    have "x \<in> set ?f" by (simp only: Cons) simp
    then have "x \<in> set bs \<and> b_free (hdr s x) \<and> sz \<le> b_size (hdr s x)" by (simp only: set_filter) simp
    then show ?thesis using f Cons blocks_okD(5) [OF ok, of x] by simp
  qed
qed

lemma add_region_ok:
  assumes ok: "heap_ok s bs" and a: "a \<noteq> NULL" "unat a + unat sz \<le> 18446744073709551616" "72 \<le> unat sz"
    and fresh: "\<And>x y. unat a \<le> unat x \<Longrightarrow> unat x < unat a + unat sz \<Longrightarrow> y \<in> set bs \<Longrightarrow> x \<notin> extent (hdr s) y"
    and own: "\<And>x. unat a \<le> unat x \<Longrightarrow> unat x < unat a + unat sz \<Longrightarrow> x \<in> owned (heap_pmm s)"
    and s': "s' = heap_add_region a sz s"
  shows "heap_ok s' (a # bs)" and "allocated s' (a # bs) = allocated s bs" and "payloads_kept s bs s'"
    and "b_free (hdr s' a)" and "unat (b_size (hdr s' a)) = unat sz - 40" and "heap_pmm s' = heap_pmm s"
proof -
  let ?h = "hdr s" and ?h' = "hdr s'"
  have bok: "blocks_ok ?h (heap_head s) bs" using ok by (simp add: heap_ok_def)
  have u: "unat (sz - BLOCK_SIZE) = unat sz - 40"
    using a(3) by (subst unat_sub_u64) (simp_all add: BLOCK_SIZE_def word_le_nat_alt)
  have d: "disjoint_ranges y 40 a 40" "disjoint_ranges a 40 y 40" "y \<noteq> a" if y: "y \<in> set bs" for y
  proof -
    have "y \<in> extent ?h y" by (simp add: extent_def)
    then have 1: "\<not> (unat a \<le> unat y \<and> unat y < unat a + unat sz)" using fresh y by blast
    have 2: "a \<notin> extent ?h y" using fresh [of a y] y a(3) by simp
    show "y \<noteq> a" using 2 by (auto simp: extent_def)
    have "unat a + 40 \<le> unat y \<or> unat y + 40 \<le> unat a"
      using 1 2 a(3) by (auto simp: extent_def not_less)
    moreover have "unat y + 40 \<le> 18446744073709551616" using blocks_okD(3) [OF bok y] by simp
    ultimately show "disjoint_ranges y 40 a 40" "disjoint_ranges a 40 y 40"
      using a by (auto intro!: disjoint_ranges_nat)
  qed
  have hd: "heap_head s \<noteq> NULL \<longleftrightarrow> bs \<noteq> []" "bs \<noteq> [] \<Longrightarrow> heap_head s = hd bs"
    using blocks_okD(1) [OF bok] seg_head by (auto, cases bs, auto)
  have "\<not> sz < BLOCK_SIZE + HEAP_MIN" using a(3) by (simp add: BLOCK_SIZE_def HEAP_MIN_def word_less_nat_alt)
  then have m': "heap_mem s' = (if bs \<noteq> [] then set_prev (hd bs) a else id)
      (set_prev a NULL (set_next a (heap_head s) (set_free a True (set_size a (sz - BLOCK_SIZE)
        (set_magic a HEAP_MAGIC (heap_mem s))))))"
    and r: "heap_head s' = a" "heap_used s' = heap_used s" "heap_pmm s' = heap_pmm s"
    using hd by (simp_all add: s' heap_add_region_def Let_def)
  have ha: "?h' a = \<lparr>b_magic = HEAP_MAGIC, b_size = sz - BLOCK_SIZE, b_free = True, b_next = heap_head s, b_prev = NULL\<rparr>"
    using d(2) [of "hd bs"] by (simp add: m')
  have hy: "?h' y = (if y = hd bs then (?h y)\<lparr>b_prev := a\<rparr> else ?h y)" if "y \<in> set bs" for y
    using d [OF that] headers_disjoint [OF bok that, of "hd bs"] that by (cases "y = hd bs") (auto simp: m')
  have sf: "b_size (?h' y) = b_size (?h y)" "b_free (?h' y) = b_free (?h y)" if "y \<in> set bs" for y
    using hy [OF that] by simp_all
  then have ext: "extent ?h' y = extent ?h y" if "y \<in> set bs" for y using that by (simp add: extent_def)
  have ea: "extent ?h' a = {x. unat a \<le> unat x \<and> unat x < unat a + unat sz}"
    using u a(3) by (auto simp: extent_def ha)
  have "seg ?h' a (heap_head s) bs NULL"
    by (rule seg_relink [OF blocks_okD(1) [OF bok]])
      (use hy blocks_okD(2) [OF bok] in \<open>cases bs; auto\<close>)+
  then have sg: "seg ?h' NULL a (a # bs) NULL" using a(1) ha by simp
  have ad: "extent ?h' a \<inter> extent ?h y = {}" if "y \<in> set bs" for y
    using fresh [OF _ _ that] by (auto simp: ea)
  have dist: "distinct (a # bs)" using d(3) blocks_okD(2) [OF bok] by auto
  have bnd: "unat x + 40 + unat (b_size (?h' x)) \<le> 18446744073709551616" if "x \<in> set (a # bs)" for x
    using that u a blocks_okD(3) [OF bok, of x] sf by (auto simp: ha)
  have "extent ?h' x \<inter> extent ?h' y = {}" if "x \<in> set (a # bs)" "y \<in> set (a # bs)" "x \<noteq> y" for x y
    using that ext ad blocks_okD(4) [OF bok, of x y] by (cases "x = a"; cases "y = a") auto
  then have "blocks_ok ?h' (heap_head s') (a # bs)"
    using sg dist bnd r(1) unfolding blocks_ok_def by blast
  moreover have "used_sum ?h' (a # bs) = used_sum ?h bs"
    using sf ha by (simp, induction bs) auto
  ultimately show "heap_ok s' (a # bs)"
    using ok own ext ea r by (auto simp: heap_ok_def)
  show "allocated s' (a # bs) = allocated s bs" using sf ha by (auto simp: allocated_def)
  show "b_free (hdr s' a)" "unat (b_size (hdr s' a)) = unat sz - 40" "heap_pmm s' = heap_pmm s"
    using ha u r by simp_all
  show "payloads_kept s bs s'"
    unfolding payloads_kept_def
  proof clarify
    fix q k x assume "(q, k) \<in> allocated s bs" and x: "in_range x q (unat k)"
    then obtain c where c: "c \<in> set bs" "q = c + BLOCK_SIZE" "k = b_size (?h c)" by (auto simp: allocated_def)
    note po = payload_outside [OF bok c(1), of x]
    have "\<not> in_range x a 40"
      using fresh [of x c] po(1) x c a by (auto simp: in_range_nat)
    moreover have "bs = [] \<or> \<not> in_range x (hd bs) 40" using po(2) [of "hd bs"] x c by auto
    ultimately show "heap_mem s' x = heap_mem s x" by (auto simp: m' set_frame)
  qed
qed

lemma expand_pages:
  assumes "unat need \<le> 9223372036854775807"
  shows "unat (H3OS_ALIGN_UP (need + BLOCK_SIZE + PAGE_SIZE) PAGE_SIZE div PAGE_SIZE) = (unat need + 8231) div 4096"
proof -
  have "unat (need + 40 + 4096) = unat need + 4136"
    using assms unat_add_u64 [of need 40] unat_add_u64 [of "need + 40" 4096] by simp
  then show ?thesis
    using assms align_up_page_div [of "need + 40 + 4096"] by (simp add: BLOCK_SIZE_def PAGE_SIZE_def)
qed

lemma owned_mono: "taken p \<subseteq> taken p' \<Longrightarrow> owned p \<subseteq> owned p'"
  by (auto simp: owned_def)

text \<open>
  Expansion either fails and changes nothing, or adds a free block that is large enough at the
  front of the list, in pages that no block used before.
\<close>

lemma expand_heap_effect:
  assumes ok: "heap_ok s bs" and need: "unat need \<le> 9223372036854775807"
    and n: "n = H3OS_ALIGN_UP (need + BLOCK_SIZE + PAGE_SIZE) PAGE_SIZE div PAGE_SIZE"
  shows "expand_heap need s = Some (False, s) \<and> free_runs (heap_pmm s) n = {} \<or>
    (\<exists>a s'. expand_heap need s = Some (True, s') \<and> heap_ok s' (a # bs) \<and>
      allocated s' (a # bs) = allocated s bs \<and> payloads_kept s bs s' \<and> b_free (hdr s' a) \<and>
      need \<le> b_size (hdr s' a) \<and> heap_pmm s' \<noteq> heap_pmm s)"
proof -
  have un: "unat n = (unat need + 8231) div 4096" using expand_pages [OF need] n by simp
  then have pos: "0 < n" by (simp add: word_less_nat_alt)
  have inv: "pmm_inv (heap_pmm s)" using ok by (simp add: heap_ok_def)
  obtain a pm where r: "pmm_alloc_pages n (heap_pmm s) = Some (a, pm)"
    using pmm.alloc_returns [OF inv pos] by blast
  show ?thesis
  proof (cases "a = 0")
    case True
    then have "pm = heap_pmm s" using pmm.alloc_fail [OF inv pos] r by simp
    then show ?thesis using True r n alloc_zero_iff [OF inv pos r]
      by (simp add: expand_heap_def Let_def)
  next
    case False
    note blk = pmm.alloc_block [OF inv pos r False] and fr = pmm.alloc_bytes_fresh [OF inv pos r False]
    let ?s = "s\<lparr>heap_pmm := pm\<rparr>"
    have sz: "unat (n * PAGE_SIZE) = unat n * 4096"
      using blk(3) by (simp add: unat_word_ariths PAGE_SIZE_def)
    have "need \<le> n * PAGE_SIZE - BLOCK_SIZE" and big: "72 \<le> unat n * 4096"
    proof -
      have "unat need + 4136 \<le> unat n * 4096" using un by linarith
      moreover from this have "unat (n * PAGE_SIZE - BLOCK_SIZE) = unat n * 4096 - 40"
        using sz by (subst unat_sub_u64) (simp_all add: word_le_nat_alt BLOCK_SIZE_def)
      ultimately show "need \<le> n * PAGE_SIZE - BLOCK_SIZE" and "72 \<le> unat n * 4096"
        by (simp_all add: word_le_nat_alt)
    qed
    have mono: "owned (heap_pmm s) \<subseteq> owned pm" by (rule owned_mono [OF pmm.alloc_held_mono [OF inv pos r]])
    then have ok': "heap_ok ?s bs"
      using ok pmm.alloc_inv [OF inv pos r] by (auto simp: heap_ok_def)
    have fresh: "x \<notin> extent (hdr ?s) y" if "unat a \<le> unat x" "unat x < unat a + unat (n * PAGE_SIZE)" "y \<in> set bs" for x y
    proof -
      have "x \<notin> owned (heap_pmm s)" using fr(1) [of x] that sz by (simp add: owned_def)
      then show ?thesis using ok that(3) by (auto simp: heap_ok_def)
    qed
    have own: "x \<in> owned (heap_pmm ?s)" if "unat a \<le> unat x" "unat x < unat a + unat (n * PAGE_SIZE)" for x
      using fr(2) [of x] that sz by (simp add: owned_def)
    have "a \<noteq> NULL" using False by (simp add: NULL_def)
    have "unat a + unat (n * PAGE_SIZE) \<le> 18446744073709551616" "72 \<le> unat (n * PAGE_SIZE)"
      using blk(3) big sz by simp_all
    note ar = add_region_ok [OF ok' \<open>a \<noteq> NULL\<close> this fresh own refl]
    have "expand_heap need s = Some (True, heap_add_region a (n * PAGE_SIZE) ?s)"
      using r False n by (simp add: expand_heap_def Let_def)
    moreover have "allocated ?s bs = allocated s bs" by (simp add: allocated_def)
    moreover have "payloads_kept ?s bs s' = payloads_kept s bs s'" for s'
      by (simp add: payloads_kept_def allocated_def)
    moreover have "need \<le> b_size (hdr (heap_add_region a (n * PAGE_SIZE) ?s) a)"
      using ar(5) \<open>need \<le> n * PAGE_SIZE - BLOCK_SIZE\<close> blk(3) big sz
      by (simp add: word_le_nat_alt BLOCK_SIZE_def unat_sub_u64)
    moreover have "pm \<noteq> heap_pmm s" using fr(1,2) [of a] big by auto
    ultimately show ?thesis using ar(1-4,6) by auto
  qed
qed

section \<open>Allocation as a whole\<close>

lemma align_up_16:
  assumes "unat x \<le> 9223372036854775807"
  shows "x \<le> H3OS_ALIGN_UP x HEAP_ALIGN" and "unat (H3OS_ALIGN_UP x HEAP_ALIGN) \<le> unat x + 15"
proof -
  have "unat (x + 15) = unat x + 15" using assms by (subst unat_add_u64) simp_all
  then have u: "unat (H3OS_ALIGN_UP x HEAP_ALIGN) = (unat x + 15) div 16 * 16"
    by (simp add: align_up_down HEAP_ALIGN_def align_down_16)
  show "x \<le> H3OS_ALIGN_UP x HEAP_ALIGN" and "unat (H3OS_ALIGN_UP x HEAP_ALIGN) \<le> unat x + 15"
    unfolding word_le_nat_alt u by linarith+
qed

lemma kmalloc_size_bounds:
  assumes "unat sz \<le> 4611686018427387904"
  shows "sz \<le> kmalloc_size sz" and "unat (kmalloc_size sz) \<le> 4611686018427387920"
  using align_up_16 [of sz] assms
  by (auto simp: kmalloc_size_def Let_def HEAP_MIN_def word_le_nat_alt word_less_nat_alt)

text \<open>One scan that finds a block, as the client sees it.\<close>

lemma attempts_found:
  assumes "heap_ok s bs" and "x \<in> set bs" "b_free (hdr s x)" "sz \<le> b_size (hdr s x)"
    and "unat sz + 72 < 18446744073709551616"
  shows "\<exists>p s' bs'. kmalloc_attempts (Suc k) sz s = Some (Inr (p, s')) \<and> takes s bs sz p s' bs'"
proof -
  obtain b where b: "find_fit (heap_mem s) (heap_head s) sz = Some (Inr b)" "b \<noteq> NULL" "b \<in> set bs"
    "b_free (hdr s b)" "sz \<le> b_size (hdr s b)"
    using find_fit_cases [OF assms(1), of sz] assms(2-4) by blast
  obtain p s' where r: "take_block b sz s = (p, s')" by (cases "take_block b sz s")
  then show ?thesis
    using take_block_takes [OF assms(1) b(3-5) assms(5) r] b(1,2) by auto
qed

definition expand_count :: "u64 \<Rightarrow> u64" where
  "expand_count sz = H3OS_ALIGN_UP (kmalloc_size sz + BLOCK_SIZE + PAGE_SIZE) PAGE_SIZE div PAGE_SIZE"

text \<open>What a client may rely on after an allocation of \<open>sz\<close> bytes returned \<open>p\<close>.\<close>

definition kmalloc_post :: "u64 \<Rightarrow> heap_state \<Rightarrow> addr list \<Rightarrow> addr \<Rightarrow> heap_state \<Rightarrow> addr list \<Rightarrow> bool" where
  "kmalloc_post sz s bs p s' bs' \<longleftrightarrow> heap_ok s' bs' \<and> payloads_kept s bs s' \<and>
     (if p = NULL
      then s' = s \<and> bs' = bs \<and> free_runs (heap_pmm s) (expand_count sz) = {} \<and>
        (\<forall>x \<in> set bs. \<not> (b_free (hdr s x) \<and> kmalloc_size sz \<le> b_size (hdr s x)))
      else \<exists>k \<ge> sz. (p, k) \<notin> allocated s bs \<and> allocated s' bs' = insert (p, k) (allocated s bs)) \<and>
     (contiguous (hdr s) bs \<and> heap_pmm s' = heap_pmm s \<longrightarrow> contiguous (hdr s') bs')"

lemma kmalloc_found:
  assumes "heap_ok s bs" and "0 < sz" "unat sz \<le> 4611686018427387904"
    and "x \<in> set bs" "b_free (hdr s x)" "kmalloc_size sz \<le> b_size (hdr s x)"
  shows "\<exists>p s' bs'. kmalloc sz s = Some (Inr (p, s')) \<and> takes s bs (kmalloc_size sz) p s' bs'"
proof -
  have "kmalloc sz s = kmalloc_attempts (Suc (Suc 0)) (kmalloc_size sz) s"
    using assms(2) by (auto simp: kmalloc_def numeral_2_eq_2 simp del: kmalloc_attempts.simps)
  then show ?thesis
    using attempts_found [OF assms(1,4-6), of "Suc 0"] kmalloc_size_bounds [OF assms(3)] by auto
qed

lemma kmalloc_spec:
  assumes ok: "heap_ok s bs" and sz: "0 < sz" "unat sz \<le> 4611686018427387904"
  shows "\<exists>p s' bs'. kmalloc sz s = Some (Inr (p, s')) \<and> kmalloc_post sz s bs p s' bs'"
proof -
  let ?z = "kmalloc_size sz"
  note ks = kmalloc_size_bounds [OF sz(2)]
  have km: "kmalloc sz s = kmalloc_attempts (Suc (Suc 0)) ?z s"
    using sz(1) by (auto simp: kmalloc_def numeral_2_eq_2 simp del: kmalloc_attempts.simps)
  show ?thesis
  proof (cases "\<exists>x \<in> set bs. b_free (hdr s x) \<and> ?z \<le> b_size (hdr s x)")
    case True
    then obtain x where x: "x \<in> set bs" "b_free (hdr s x)" "?z \<le> b_size (hdr s x)" by blast
    obtain p s' bs' where "kmalloc sz s = Some (Inr (p, s'))" and t: "takes s bs ?z p s' bs'"
      using kmalloc_found [OF ok sz x] by blast
    moreover have "kmalloc_post sz s bs p s' bs'"
      using t ks(1) unfolding takes_def kmalloc_post_def by (auto intro: order_trans)
    ultimately show ?thesis by blast
  next
    case none: False
    then have ff: "find_fit (heap_mem s) (heap_head s) ?z = Some (Inr NULL)"
      using find_fit_cases [OF ok, of ?z] by blast
    have z: "unat ?z \<le> 9223372036854775807" using ks(2) by simp
    from expand_heap_effect [OF ok z refl] show ?thesis
    proof (elim disjE exE conjE)
      assume "expand_heap ?z s = Some (False, s)"
        and "free_runs (heap_pmm s) (H3OS_ALIGN_UP (?z + BLOCK_SIZE + PAGE_SIZE) PAGE_SIZE div PAGE_SIZE) = {}"
      then show ?thesis using km ff none ok
        by (auto simp: kmalloc_post_def payloads_kept_def expand_count_def)
    next
      fix a s1
      assume e: "expand_heap ?z s = Some (True, s1)" and ok1: "heap_ok s1 (a # bs)"
        and al: "allocated s1 (a # bs) = allocated s bs" and kept: "payloads_kept s bs s1"
        and a: "b_free (hdr s1 a)" "?z \<le> b_size (hdr s1 a)"
        and pm: "heap_pmm s1 \<noteq> heap_pmm s"
      obtain p s' bs' where at: "kmalloc_attempts (Suc 0) ?z s1 = Some (Inr (p, s'))"
        and t: "takes s1 (a # bs) ?z p s' bs'"
        using attempts_found [OF ok1 _ a, of 0] ks(2) by auto
      have km': "kmalloc sz s = Some (Inr (p, s'))" using km ff e at by simp
      have "payloads_kept s bs s'"
        using kept t al by (intro payloads_kept_trans [of s bs s1 "a # bs" s']) (auto simp: takes_def)
      moreover have "heap_pmm s' \<noteq> heap_pmm s" using pm t by (simp add: takes_def)
      ultimately have "kmalloc_post sz s bs p s' bs'"
        using t ks(1) al unfolding takes_def kmalloc_post_def by (auto intro: order_trans)
      then show ?thesis using km' by blast
    qed
  qed
qed

section \<open>Release and merging\<close>

text \<open>Both halves of \<^verbatim>\<open>coalesce\<close> make a block \<open>c\<close> absorb its list successor \<open>d\<close>.\<close>

definition merge :: "addr \<Rightarrow> addr \<Rightarrow> mem \<Rightarrow> mem" where
  "merge c d m =
     (let n = b_next (block_at m d);
          m = set_next c n (set_size c (b_size (block_at m c) + (BLOCK_SIZE + b_size (block_at m d))) m)
      in if n \<noteq> NULL then set_prev n c m else m)"

lemma merge_headers:
  assumes ok: "blocks_ok (block_at m) a (us @ c # d # vs)" and m': "m' = merge c d m"
  shows "block_at m' c = (block_at m c)\<lparr>b_size := b_size (block_at m c) + (BLOCK_SIZE + b_size (block_at m d)),
       b_next := b_next (block_at m d)\<rparr>"
    and "vs \<noteq> [] \<Longrightarrow> block_at m' (hd vs) = (block_at m (hd vs))\<lparr>b_prev := c\<rparr>"
    and "e \<in> set us \<union> {d} \<union> set (tl vs) \<Longrightarrow> block_at m' e = block_at m e"
    and "\<not> in_range x c 40 \<Longrightarrow> vs = [] \<or> \<not> in_range x (hd vs) 40 \<Longrightarrow> m' x = m x"
proof -
  have ok2: "blocks_ok (block_at m) a ((us @ [c]) @ d # vs)" using ok by simp
  have n: "b_next (block_at m d) = NULL \<longleftrightarrow> vs = []" "vs \<noteq> [] \<Longrightarrow> b_next (block_at m d) = hd vs"
    using middle_block(4,5) [OF ok2] by auto
  have dist: "distinct (us @ c # d # vs)" by (rule blocks_okD(2) [OF ok])
  have eq: "m' = (if vs \<noteq> [] then set_prev (hd vs) c else id) (set_next c (b_next (block_at m d))
      (set_size c (b_size (block_at m c) + (BLOCK_SIZE + b_size (block_at m d))) m))"
    using n by (auto simp: m' merge_def Let_def)
  have hv: "vs \<noteq> [] \<Longrightarrow> disjoint_ranges c 40 (hd vs) 40 \<and> disjoint_ranges (hd vs) 40 c 40"
    using dist by (intro conjI headers_disjoint [OF ok]) (cases vs; auto)+
  show "block_at m' c = (block_at m c)\<lparr>b_size := b_size (block_at m c) + (BLOCK_SIZE + b_size (block_at m d)),
       b_next := b_next (block_at m d)\<rparr>" using hv by (simp add: eq)
  show "vs \<noteq> [] \<Longrightarrow> block_at m' (hd vs) = (block_at m (hd vs))\<lparr>b_prev := c\<rparr>" using hv by (simp add: eq)
  show "block_at m' e = block_at m e" if e: "e \<in> set us \<union> {d} \<union> set (tl vs)"
  proof -
    have "disjoint_ranges e 40 c 40" "vs \<noteq> [] \<Longrightarrow> disjoint_ranges e 40 (hd vs) 40"
      using e dist by (intro headers_disjoint [OF ok]; cases vs; auto)+
    then show ?thesis by (simp add: eq)
  qed
  show "\<not> in_range x c 40 \<Longrightarrow> vs = [] \<or> \<not> in_range x (hd vs) 40 \<Longrightarrow> m' x = m x"
    by (auto simp: eq set_frame)
qed

lemma merge_ok:
  assumes ok: "blocks_ok (block_at m) a (us @ c # d # vs)" and m': "m' = merge c d m"
    and adj: "unat d = unat c + 40 + unat (b_size (block_at m c))"
  shows "blocks_ok (block_at m') a (us @ c # vs)"
    and "unat (b_size (block_at m' c)) = unat (b_size (block_at m c)) + 40 + unat (b_size (block_at m d))"
    and "extent (block_at m') c = extent (block_at m) c \<union> extent (block_at m) d"
    and "e \<in> set us \<union> set vs \<Longrightarrow> block_at m' e = (block_at m e)\<lparr>b_prev := b_prev (block_at m' e)\<rparr>"
    and "contiguous (block_at m) (us @ c # d # vs) \<Longrightarrow> contiguous (block_at m') (us @ c # vs)"
proof -
  let ?h = "block_at m" and ?h' = "block_at m'"
  note mh = merge_headers [OF ok m']
  have ok2: "blocks_ok ?h a ((us @ [c]) @ d # vs)" using ok by simp
  note mb = middle_block [OF ok] and mb2 = middle_block [OF ok2]
  have dist: "distinct (us @ c # d # vs)" by (rule blocks_okD(2) [OF ok])
  have bd: "unat d + 40 + unat (b_size (?h d)) \<le> 18446744073709551616"
    using blocks_okD(3) [OF ok] by simp
  show sc: "unat (b_size (?h' c)) = unat (b_size (?h c)) + 40 + unat (b_size (?h d))"
  proof -
    have "unat (40 + b_size (?h d)) = 40 + unat (b_size (?h d))"
      using bd adj by (subst unat_add_u64) simp_all
    then show ?thesis using bd adj by (simp add: mh(1) BLOCK_SIZE_def unat_add_u64)
  qed
  show ext: "extent ?h' c = extent ?h c \<union> extent ?h d" using sc adj by (auto simp: extent_def)
  show other: "?h' e = (?h e)\<lparr>b_prev := b_prev (?h' e)\<rparr>" if "e \<in> set us \<union> set vs" for e
    using that mh(2) mh(3) [of e] by (cases vs) auto
  have sz: "b_size (?h' e) = b_size (?h e)" if "e \<in> set us \<union> set vs" for e
    by (subst other [OF that]) simp
  then have exo: "extent ?h' e = extent ?h e" if "e \<in> set us \<union> set vs" for e
    using that by (simp add: extent_def)
  have "seg ?h' c (b_next (?h d)) vs NULL"
    by (rule seg_relink [OF mb2(3)]) (use dist mh(2,3) in simp_all)
  moreover have "seg ?h' NULL a us c" using mb(1) mh(3) seg_cong [of us ?h' ?h] by auto
  ultimately have sg: "seg ?h' NULL a (us @ c # vs) NULL"
    using mb(2) blocks_okD(5,6) [OF ok, of c] by (auto simp: seg_append mh(1))
  have bnd: "unat e + 40 + unat (b_size (?h' e)) \<le> 18446744073709551616" if "e \<in> set (us @ c # vs)" for e
    using that bd adj sc sz [of e] blocks_okD(3) [OF ok, of e] by (cases "e = c") auto
  have ce: "extent ?h' c \<inter> extent ?h' e = {}" if "e \<in> set us \<union> set vs" for e
    using that dist blocks_okD(4) [OF ok, of c e] blocks_okD(4) [OF ok, of d e] by (auto simp: ext exo)
  have "extent ?h' e \<inter> extent ?h' f = {}" if "e \<in> set (us @ c # vs)" "f \<in> set (us @ c # vs)" "e \<noteq> f" for e f
    using that ce [of e] ce [of f] exo [of e] exo [of f] blocks_okD(4) [OF ok, of e f]
    by (cases "e = c"; cases "f = c") auto
  then show "blocks_ok ?h' a (us @ c # vs)"
    using sg bnd dist unfolding blocks_ok_def by auto
  show "contiguous ?h' (us @ c # vs)" if c: "contiguous ?h (us @ c # d # vs)"
  proof -
    have "contiguous ?h' us" "contiguous ?h' vs"
      using c sz contiguous_cong [of ?h us] contiguous_cong [of ?h vs]
      by (auto simp: contiguous_def successively_append_iff successively_Cons)
    then show ?thesis using c sz [of "last us"] sc adj
      by (cases "us = []") (auto simp: contiguous_def successively_append_iff successively_Cons)
  qed
qed

text \<open>Merging two free neighbours changes no allocation.\<close>

definition same_allocations :: "heap_state \<Rightarrow> addr list \<Rightarrow> heap_state \<Rightarrow> addr list \<Rightarrow> bool" where
  "same_allocations s bs s' bs' \<longleftrightarrow> heap_ok s' bs' \<and> allocated s' bs' = allocated s bs \<and>
     payloads_kept s bs s' \<and> heap_pmm s' = heap_pmm s \<and>
     (contiguous (hdr s) bs \<longrightarrow> contiguous (hdr s') bs')"

lemma same_allocations_refl: "heap_ok s bs \<Longrightarrow> same_allocations s bs s bs"
  by (auto simp: same_allocations_def payloads_kept_def)

lemma same_allocations_trans:
  assumes "same_allocations s bs s1 cs" and "same_allocations s1 cs s' bs'"
  shows "same_allocations s bs s' bs'"
  using assms payloads_kept_trans [of s bs s1 cs s'] by (auto simp: same_allocations_def)

lemma merge_same_allocations:
  assumes ok: "heap_ok s (us @ c # d # vs)" and free: "b_free (hdr s c)" "b_free (hdr s d)"
    and adj: "unat d = unat c + 40 + unat (b_size (hdr s c))"
  shows "same_allocations s (us @ c # d # vs) (s\<lparr>heap_mem := merge c d (heap_mem s)\<rparr>) (us @ c # vs)"
proof -
  let ?s' = "s\<lparr>heap_mem := merge c d (heap_mem s)\<rparr>"
  have bok: "blocks_ok (hdr s) (heap_head s) (us @ c # d # vs)" using ok by (simp add: heap_ok_def)
  note mo = merge_ok [OF bok refl adj] and mh = merge_headers [OF bok refl]
  have same: "b_free (hdr ?s' e) = b_free (hdr s e)" "b_size (hdr ?s' e) = b_size (hdr s e)"
    if "e \<in> set us \<union> set vs" for e
  proof -
    have eq: "hdr ?s' e = (hdr s e)\<lparr>b_prev := b_prev (hdr ?s' e)\<rparr>" using mo(4) [OF that] by simp
    show "b_free (hdr ?s' e) = b_free (hdr s e)" by (subst eq) simp
    show "b_size (hdr ?s' e) = b_size (hdr s e)" by (subst eq) simp
  qed
  have fc: "b_free (hdr ?s' c)" using free by (simp add: mh(1))
  have "used_sum (hdr ?s') us = used_sum (hdr s) us" "used_sum (hdr ?s') vs = used_sum (hdr s) vs"
    using same by (auto intro!: used_sum_fields)
  then have "used_sum (hdr ?s') (us @ c # vs) = used_sum (hdr s) (us @ c # d # vs)"
    using fc free by simp
  moreover have "extent (hdr ?s') e \<subseteq> owned (heap_pmm s)" if "e \<in> set (us @ c # vs)" for e
    using that ok mo(3) same(2) [of e] by (cases "e = c") (auto simp: heap_ok_def extent_def)
  ultimately have "heap_ok ?s' (us @ c # vs)" using ok mo(1) by (simp add: heap_ok_def)
  moreover have "allocated ?s' (us @ c # vs) = allocated s (us @ c # d # vs)"
    using same fc free by (auto simp: allocated_def)
  moreover have "payloads_kept s (us @ c # d # vs) ?s'"
    unfolding payloads_kept_def
  proof clarify
    fix q k x assume "(q, k) \<in> allocated s (us @ c # d # vs)" and x: "in_range x q (unat k)"
    then obtain e where e: "e \<in> set (us @ c # d # vs)" "q = e + BLOCK_SIZE" "k = b_size (hdr s e)"
      by (auto simp: allocated_def)
    note po = payload_outside(2) [OF bok e(1), of x]
    show "heap_mem ?s' x = heap_mem s x"
      using mh(4) [of x] po [of c] po [of "hd vs"] x e by (cases vs) auto
  qed
  ultimately show ?thesis using mo(5) by (simp add: same_allocations_def)
qed

lemma coalesce_next_merge:
  assumes ok: "blocks_ok (block_at m) a (xs @ b # ys)"
  shows "coalesce_next b m = (if ys \<noteq> [] \<and> b_free (block_at m (hd ys)) then merge b (hd ys) m else m)"
proof (cases "ys \<noteq> [] \<and> b_free (block_at m (hd ys))")
  case False
  then show ?thesis using middle_block(4,5) [OF ok] by (auto simp: coalesce_next_def Let_def)
next
  case True
  then have "disjoint_ranges (hd ys) 40 b 40" "disjoint_ranges b 40 (hd ys) 40"
    using blocks_okD(2) [OF ok] by (intro headers_disjoint [OF ok]; cases ys; auto)+
  then show ?thesis using True middle_block(4,5) [OF ok]
    by (auto simp: coalesce_next_def merge_def Let_def)
qed

lemma coalesce_prev_merge:
  assumes ok: "blocks_ok (block_at m) a (xs @ b # ys)"
  shows "coalesce_prev b m = (if xs \<noteq> [] \<and> b_free (block_at m (last xs)) then merge (last xs) b m else m)"
proof (cases "xs = []")
  case True
  then show ?thesis using middle_block(2) [OF ok] by (simp add: coalesce_prev_def Let_def)
next
  case False
  then have l: "last xs \<in> set (xs @ b # ys)" "last xs \<noteq> b" using blocks_okD(2) [OF ok] by auto
  then have "disjoint_ranges (last xs) 40 b 40" "disjoint_ranges b 40 (last xs) 40"
    by (auto intro!: headers_disjoint [OF ok])
  moreover have "b_prev (block_at m b) = last xs" "last xs \<noteq> NULL"
    using middle_block(2) [OF ok] False blocks_okD(5) [OF ok l(1)] by simp_all
  ultimately show ?thesis using False by (simp add: coalesce_prev_def merge_def Let_def)
qed

lemma contiguous_adjacent:
  "contiguous h (us @ c # d # vs) \<Longrightarrow> unat d = unat c + 40 + unat (b_size (h c))"
  by (simp add: contiguous_def successively_append_iff)

lemma coalesce_same_allocations:
  assumes ok: "heap_ok s (xs @ b # ys)" and free: "b_free (hdr s b)"
    and cont: "contiguous (hdr s) (xs @ b # ys)"
  shows "(\<exists>bs'. same_allocations s (xs @ b # ys) (s\<lparr>heap_mem := coalesce b (heap_mem s)\<rparr>) bs') \<and>
    b_free (block_at (coalesce b (heap_mem s)) b)"
proof -
  define s1 where "s1 = s\<lparr>heap_mem := coalesce_next b (heap_mem s)\<rparr>"
  have bok: "blocks_ok (hdr s) (heap_head s) (xs @ b # ys)" using ok by (simp add: heap_ok_def)
  obtain ys1 where y1: "same_allocations s (xs @ b # ys) s1 (xs @ b # ys1)" "b_free (hdr s1 b)"
    "xs \<noteq> [] \<Longrightarrow> hdr s1 (last xs) = hdr s (last xs)"
  proof (cases "ys \<noteq> [] \<and> b_free (hdr s (hd ys))")
    case False
    then have "s1 = s" using coalesce_next_merge [OF bok] by (auto simp: s1_def)
    then show ?thesis using that [of ys] same_allocations_refl [OF ok] free by simp
  next
    case True
    then obtain y vs where ys: "ys = y # vs" by (cases ys) auto
    have s1: "s1 = s\<lparr>heap_mem := merge b y (heap_mem s)\<rparr>"
      using coalesce_next_merge [OF bok] True ys by (simp add: s1_def)
    note mh = merge_headers [OF bok [unfolded ys] refl]
    have "same_allocations s (xs @ b # ys) s1 (xs @ b # vs)"
      using merge_same_allocations [OF ok [unfolded ys] free] True contiguous_adjacent cont
      by (auto simp: s1 ys)
    then show ?thesis using that [of vs] mh(1,3) free by (simp add: s1)
  qed
  have ok1: "heap_ok s1 (xs @ b # ys1)" and cont1: "contiguous (hdr s1) (xs @ b # ys1)"
    using y1(1) cont by (auto simp: same_allocations_def)
  then have bok1: "blocks_ok (block_at (coalesce_next b (heap_mem s))) (heap_head s) (xs @ b # ys1)"
    by (simp add: heap_ok_def s1_def)
  define s2 where "s2 = s\<lparr>heap_mem := coalesce b (heap_mem s)\<rparr>"
  have s2: "s2 = s1\<lparr>heap_mem := coalesce_prev b (heap_mem s1)\<rparr>" by (simp add: s2_def s1_def coalesce_def)
  show ?thesis
  proof (cases "xs \<noteq> [] \<and> b_free (hdr s1 (last xs))")
    case False
    then have "s2 = s1" using coalesce_prev_merge [OF bok1] by (auto simp: s2 s1_def)
    then show ?thesis using y1(1,2) s2_def by auto
  next
    case True
    then have xs: "xs @ b # ys1 = butlast xs @ last xs # b # ys1" by simp
    have "s2 = s1\<lparr>heap_mem := merge (last xs) b (heap_mem s1)\<rparr>"
      using coalesce_prev_merge [OF bok1] True by (auto simp: s2 s1_def)
    then have "same_allocations s1 (xs @ b # ys1) s2 (butlast xs @ last xs # ys1)"
      unfolding xs using merge_same_allocations [OF ok1 [unfolded xs]] True y1(2)
        contiguous_adjacent [OF cont1 [unfolded xs]] by blast
    moreover have "hdr s2 b = hdr s1 b"
    proof -
      have "blocks_ok (hdr s1) (heap_head s1) (butlast xs @ last xs # b # ys1)"
        using ok1 [unfolded xs] unfolding heap_ok_def by blast
      from merge_headers(3) [OF this refl, of b] show ?thesis
        using \<open>s2 = s1\<lparr>heap_mem := merge (last xs) b (heap_mem s1)\<rparr>\<close> by simp
    qed
    ultimately show ?thesis using same_allocations_trans [OF y1(1)] y1(2) by (auto simp: s2_def)
  qed
qed

lemma allocated_block:
  assumes "heap_ok s bs" and "(p, k) \<in> allocated s bs"
  obtains xs b ys where "bs = xs @ b # ys" "p = b + BLOCK_SIZE" "k = b_size (hdr s b)" "\<not> b_free (hdr s b)"
    "p \<noteq> NULL" "p - BLOCK_SIZE = b" "b_magic (hdr s b) = HEAP_MAGIC"
proof -
  obtain b where b: "b \<in> set bs" "p = b + BLOCK_SIZE" "k = b_size (hdr s b)" "\<not> b_free (hdr s b)"
    using assms(2) by (auto simp: allocated_def)
  obtain xs ys where "bs = xs @ b # ys" using b(1) by (meson split_list)
  moreover have "p \<noteq> NULL"
    using block_address_bound [OF assms(1) b(1)] unat_add_u64 [of b 40] b(2)
    by (auto simp: BLOCK_SIZE_def NULL_def)
  moreover have "b_magic (hdr s b) = HEAP_MAGIC"
    using assms(1) b(1) blocks_okD(6) by (auto simp: heap_ok_def)
  ultimately show ?thesis using that b by simp
qed

text \<open>Marking an allocated block free removes exactly its payload from the allocated ones.\<close>

lemma mark_free:
  assumes ok: "heap_ok s bs" and b: "b \<in> set bs" "\<not> b_free (hdr s b)"
    and s1: "s1 = s\<lparr>heap_mem := set_free b True (heap_mem s), heap_used := heap_used s - b_size (hdr s b)\<rparr>"
  shows "heap_ok s1 bs" and "allocated s1 bs = allocated s bs - {(b + BLOCK_SIZE, b_size (hdr s b))}"
    and "payloads_kept s bs s1" and "contiguous (hdr s) bs \<Longrightarrow> contiguous (hdr s1) bs"
    and "b_free (hdr s1 b)"
proof -
  have bok: "blocks_ok (hdr s) (heap_head s) bs" using ok by (simp add: heap_ok_def)
  note h = set_free_headers [OF bok b(1), where f = True] and o1 = set_free_ok [OF bok b(1), where f = True]
  obtain xs ys where bs: "bs = xs @ b # ys" using b(1) by (meson split_list)
  have dist: "b \<notin> set xs \<union> set ys" using blocks_okD(2) [OF bok] bs by auto
  have "used_sum (hdr s1) xs = used_sum (hdr s) xs" "used_sum (hdr s1) ys = used_sum (hdr s) ys"
    using h dist by (auto simp: s1 bs split: if_splits intro!: used_sum_fields)
  moreover show "b_free (hdr s1 b)" by (simp add: s1)
  ultimately have "used_sum (hdr s1) bs = heap_used s - b_size (hdr s b)"
    using ok b(2) by (simp add: heap_ok_def bs)
  then show "heap_ok s1 bs" using ok o1 by (auto simp: heap_ok_def s1)
  show "allocated s1 bs = allocated s bs - {(b + BLOCK_SIZE, b_size (hdr s b))}"
    using h b by (auto simp: allocated_def s1 split: if_splits)
  show "contiguous (hdr s) bs \<Longrightarrow> contiguous (hdr s1) bs"
    using h by (auto simp: s1 intro: contiguous_cong)
  show "payloads_kept s bs s1"
    unfolding payloads_kept_def
  proof clarify
    fix q k x assume "(q, k) \<in> allocated s bs" and x: "in_range x q (unat k)"
    then obtain c where c: "c \<in> set bs" "q = c + BLOCK_SIZE" "k = b_size (hdr s c)"
      by (auto simp: allocated_def)
    have "\<not> in_range x b 40" using payload_outside(2) [OF bok c(1) _ b(1)] x c by simp
    then show "heap_mem s1 x = heap_mem s x" by (simp add: s1 set_frame)
  qed
qed

lemma kfree_spec:
  assumes ok: "heap_ok s bs" and cont: "contiguous (hdr s) bs" and p: "(p, k) \<in> allocated s bs"
  shows "\<exists>bs'. heap_ok (kfree p s) bs' \<and> contiguous (hdr (kfree p s)) bs' \<and>
    b_free (hdr (kfree p s) (p - BLOCK_SIZE)) \<and>
    allocated (kfree p s) bs' = allocated s bs - {(p, k)} \<and> heap_pmm (kfree p s) = heap_pmm s \<and>
    heap_used (kfree p s) = heap_used s - k \<and>
    (\<forall>q l x. (q, l) \<in> allocated s bs - {(p, k)} \<longrightarrow> in_range x q (unat l) \<longrightarrow>
       heap_mem (kfree p s) x = heap_mem s x)"
proof -
  obtain xs b ys where b: "bs = xs @ b # ys" "p = b + BLOCK_SIZE" "k = b_size (hdr s b)"
    "\<not> b_free (hdr s b)" "p \<noteq> NULL" "p - BLOCK_SIZE = b" "b_magic (hdr s b) = HEAP_MAGIC"
    by (rule allocated_block [OF ok p])
  define s1 where "s1 = s\<lparr>heap_mem := set_free b True (heap_mem s), heap_used := heap_used s - b_size (hdr s b)\<rparr>"
  have "b \<in> set bs" using b(1) by simp
  note mf = mark_free [OF ok this b(4) s1_def]
  have kf: "kfree p s = s1\<lparr>heap_mem := coalesce b (heap_mem s1)\<rparr>"
    using b by (simp add: kfree_def Let_def s1_def)
  obtain bs' where sa: "same_allocations s1 bs (kfree p s) bs'"
    and fb: "b_free (hdr (kfree p s) b)"
    using coalesce_same_allocations [of s1 xs b ys] mf(1,4,5) cont b(1) kf by auto
  have "heap_mem (kfree p s) x = heap_mem s x"
    if "(q, l) \<in> allocated s bs - {(p, k)}" "in_range x q (unat l)" for q l x
    using that mf(2) b(2,3) payloads_keptD [OF mf(3), of q l x] sa
      payloads_keptD [of s1 bs "kfree p s" q l x] by (auto simp: same_allocations_def)
  moreover have "heap_used (kfree p s) = heap_used s - k" "heap_pmm s1 = heap_pmm s"
    using b(3) by (simp_all add: kf s1_def)
  ultimately show ?thesis
    using sa mf(2,4) cont b(2,3,6) fb unfolding same_allocations_def by (intro exI [of _ bs']) auto
qed

lemma allocated_functional: "(p, k) \<in> allocated s bs \<Longrightarrow> (p, l) \<in> allocated s bs \<Longrightarrow> k = l"
  by (auto simp: allocated_def)

text \<open>Allocated payloads do not overlap.\<close>

lemma allocated_disjoint:
  assumes "heap_ok s bs" "(p, k) \<in> allocated s bs" "(q, l) \<in> allocated s bs" "p \<noteq> q"
  shows "disjoint_ranges p (unat k) q (unat l)"
proof -
  obtain b c where b: "b \<in> set bs" "p = b + BLOCK_SIZE" "k = b_size (hdr s b)"
    and c: "c \<in> set bs" "q = c + BLOCK_SIZE" "l = b_size (hdr s c)"
    using assms(2,3) by (auto simp: allocated_def)
  have ok: "blocks_ok (hdr s) (heap_head s) bs" using assms(1) by (simp add: heap_ok_def)
  have "False" if "in_range x p (unat k)" "in_range x q (unat l)" for x
    using payload_outside(1,3) [OF ok b(1)] payload_outside(1) [OF ok c(1)] that b c assms(4) by metis
  then show ?thesis by (auto simp: disjoint_ranges_def)
qed

section \<open>What clients do with a payload\<close>

text \<open>Writing inside an allocated payload keeps the heap well-formed.\<close>

lemma client_write:
  assumes ok: "heap_ok s bs" and p: "(p, k) \<in> allocated s bs"
    and w: "\<And>x. \<not> in_range x p (unat k) \<Longrightarrow> m' x = heap_mem s x"
  shows "heap_ok (s\<lparr>heap_mem := m'\<rparr>) bs" and "c \<in> set bs \<Longrightarrow> block_at m' c = hdr s c"
    and "allocated (s\<lparr>heap_mem := m'\<rparr>) bs = allocated s bs"
    and "contiguous (hdr s) bs \<Longrightarrow> contiguous (block_at m') bs"
proof -
  have bok: "blocks_ok (hdr s) (heap_head s) bs" using ok by (simp add: heap_ok_def)
  obtain b where b: "b \<in> set bs" "p = b + BLOCK_SIZE" "k = b_size (hdr s b)"
    using p by (auto simp: allocated_def)
  show h: "c \<in> set bs \<Longrightarrow> block_at m' c = hdr s c" for c
    using payload_outside(2) [OF bok b(1)] b w by (intro block_at_cong) blast
  then have e: "c \<in> set bs \<Longrightarrow> extent (block_at m') c = extent (hdr s) c" for c
    by (simp add: extent_def)
  have "blocks_ok (block_at m') (heap_head s) bs"
    using bok h e seg_cong [of bs "block_at m'" "hdr s"] by (simp add: blocks_ok_def)
  then show "heap_ok (s\<lparr>heap_mem := m'\<rparr>) bs"
    using ok h e used_sum_cong [of bs "block_at m'" "hdr s"] by (simp add: heap_ok_def)
  show "allocated (s\<lparr>heap_mem := m'\<rparr>) bs = allocated s bs" using h by (auto simp: allocated_def)
  show "contiguous (hdr s) bs \<Longrightarrow> contiguous (block_at m') bs" using h by (auto intro: contiguous_cong)
qed

lemma in_range_le: "in_range x a k \<Longrightarrow> k \<le> l \<Longrightarrow> in_range x a l"
  by (simp add: in_range_def)

lemma poke_in_payload:
  assumes "length bs \<le> unat (k :: u64)" and "\<not> in_range x p (unat k)"
  shows "poke m p bs x = m x"
  using assms unat_u64_bound [of k] by (intro poke_other) (auto dest: in_range_le simp del: unat_u64_bound)

lemma allocated_range:
  assumes "heap_ok s bs" "(p, k) \<in> allocated s bs"
  shows "unat p + unat k \<le> 18446744073709551616"
proof -
  obtain b where b: "b \<in> set bs" "p = b + BLOCK_SIZE" "k = b_size (hdr s b)"
    using assms(2) by (auto simp: allocated_def)
  have "unat b + 40 + unat k \<le> 18446744073709551616"
    using assms(1) b blocks_okD(3) by (auto simp: heap_ok_def)
  moreover have "unat p = unat b + 40"
    using block_address_bound [OF assms(1) b(1)] unat_add_u64 [of b 40] b(2) by (simp add: BLOCK_SIZE_def)
  ultimately show ?thesis by simp
qed

lemma kcalloc_spec:
  assumes ok: "heap_ok s bs" and t: "0 < n * sz" "unat (n * sz) \<le> 4611686018427387904"
  shows "\<exists>p s' bs'. kcalloc n sz s = Some (Inr (p, s')) \<and> heap_ok s' bs' \<and>
    (p \<noteq> NULL \<longrightarrow> peek (heap_mem s') p (unat (n * sz)) = replicate (unat (n * sz)) 0 \<and>
      (\<exists>k \<ge> n * sz. (p, k) \<notin> allocated s bs \<and> allocated s' bs' = insert (p, k) (allocated s bs)))"
proof -
  obtain p s1 bs1 where km: "kmalloc (n * sz) s = Some (Inr (p, s1))"
    and post: "kmalloc_post (n * sz) s bs p s1 bs1"
    using kmalloc_spec [OF ok t] by blast
  show ?thesis
  proof (cases "p = NULL")
    case True
    then show ?thesis using km post by (auto simp: kcalloc_def Let_def kmalloc_post_def)
  next
    case False
    then obtain k where k: "n * sz \<le> k" "(p, k) \<notin> allocated s bs"
      "allocated s1 bs1 = insert (p, k) (allocated s bs)" and ok1: "heap_ok s1 bs1"
      using post by (auto simp: kmalloc_post_def)
    let ?m = "poke (heap_mem s1) p (replicate (unat (n * sz)) 0)"
    have kc: "kcalloc n sz s = Some (Inr (p, s1\<lparr>heap_mem := ?m\<rparr>))"
      using km False by (simp add: kcalloc_def Let_def memset_def memset_loop_poke)
    have "?m x = heap_mem s1 x" if "\<not> in_range x p (unat k)" for x
      using that k(1) by (intro poke_in_payload) (simp_all add: word_le_nat_alt)
    note cw = client_write [OF ok1 _ this, of p k]
    have "peek ?m p (unat (n * sz)) = replicate (unat (n * sz)) 0"
      using peek_poke_same [of "replicate (unat (n * sz)) 0" "heap_mem s1" p] by simp
    then show ?thesis using kc cw(1,3) k by auto
  qed
qed

lemma krealloc_moves:
  assumes ok: "heap_ok s bs" and cont: "contiguous (hdr s) bs" and p: "(p, k) \<in> allocated s bs"
    and sz: "k < sz" "unat sz \<le> 4611686018427387904"
    and km: "kmalloc sz s = Some (Inr (n, s1))" "n \<noteq> NULL" "heap_pmm s1 = heap_pmm s"
  shows "\<exists>s' bs' l. krealloc p sz s = Some (Inr (n, s')) \<and> heap_ok s' bs' \<and> contiguous (hdr s') bs' \<and>
    sz \<le> l \<and> allocated s' bs' = insert (n, l) (allocated s bs - {(p, k)}) \<and>
    peek (heap_mem s') n (unat k) = peek (heap_mem s) p (unat k)"
proof -
  obtain xs b ys where b: "bs = xs @ b # ys" "p = b + BLOCK_SIZE" "k = b_size (hdr s b)"
    "\<not> b_free (hdr s b)" "p \<noteq> NULL" "p - BLOCK_SIZE = b" "b_magic (hdr s b) = HEAP_MAGIC"
    by (rule allocated_block [OF ok p])
  have pos: "0 < sz" using sz(1) by (auto simp: word_less_nat_alt)
  obtain bs1 where "kmalloc_post sz s bs n s1 bs1" using kmalloc_spec [OF ok pos sz(2)] km(1) by auto
  then obtain l where l: "sz \<le> l" "(n, l) \<notin> allocated s bs" "allocated s1 bs1 = insert (n, l) (allocated s bs)"
    and ok1: "heap_ok s1 bs1" and cont1: "contiguous (hdr s1) bs1" and kept: "payloads_kept s bs s1"
    using km cont by (auto simp: kmalloc_post_def)
  have pa: "(p, k) \<in> allocated s1 bs1" "(n, l) \<in> allocated s1 bs1" using l(3) p by auto
  have pn: "p \<noteq> n"
  proof
    assume "p = n"
    then have "k = l" using pa b(2) by (auto simp: allocated_def)
    then show False using l(2) p \<open>p = n\<close> by simp
  qed
  have size1: "b_size (hdr s1 b) = k"
    using pa(1) b(2) by (auto simp: allocated_def)
  have sep: "disjoint_ranges n (unat l) p (unat k)" using allocated_disjoint [OF ok1 pa(2,1)] pn by simp
  have "unat k \<le> unat (n - p)"
  proof (rule ccontr)
    assume "\<not> ?thesis"
    then have "in_range n p (unat k)" by (simp add: in_range_def)
    moreover have "in_range n n (unat l)"
      using l(1) pos by (intro in_range_self) (auto simp: word_le_nat_alt word_less_nat_alt)
    ultimately show False using sep by (auto simp: disjoint_ranges_def)
  qed
  define m2 where "m2 = poke (heap_mem s1) n (peek (heap_mem s1) p (unat k))"
  have mc: "snd (memcpy (heap_mem s1) n p k) = m2"
    using memcpy_poke [of n p k "heap_mem s1"] \<open>unat k \<le> unat (n - p)\<close> by (simp add: m2_def)
  have kl: "unat k \<le> unat l" using sz(1) l(1) by (simp add: word_le_nat_alt word_less_nat_alt)
  have w: "m2 x = heap_mem s1 x" if "\<not> in_range x n (unat l)" for x
    using that kl unfolding m2_def by (intro poke_in_payload) simp_all
  note cw = client_write [OF ok1 pa(2) w]
  let ?s2 = "s1\<lparr>heap_mem := m2\<rparr>"
  have "\<not> sz \<le> k" using sz(1) by simp
  then have kr: "krealloc p sz s = Some (Inr (n, kfree p ?s2))"
    using b(5) km(1,2) pos by (auto simp: krealloc_def b(6) b(3) [symmetric] size1 mc)
  have pa2: "(p, k) \<in> allocated ?s2 bs1" using cw(3) pa(1) by simp
  obtain bs' where f: "heap_ok (kfree p ?s2) bs'" "contiguous (hdr (kfree p ?s2)) bs'"
    "allocated (kfree p ?s2) bs' = allocated ?s2 bs1 - {(p, k)}"
    "\<And>q l x. (q, l) \<in> allocated ?s2 bs1 - {(p, k)} \<Longrightarrow> in_range x q (unat l) \<Longrightarrow> heap_mem (kfree p ?s2) x = m2 x"
    using kfree_spec [OF cw(1) _ pa2] cw(4) cont1 by auto
  have "allocated (kfree p ?s2) bs' = insert (n, l) (allocated s bs - {(p, k)})"
    using f(3) cw(3) l(3) pn by auto
  moreover have "peek (heap_mem (kfree p ?s2)) n (unat k) = peek (heap_mem s) p (unat k)"
  proof -
    have "peek (heap_mem (kfree p ?s2)) n (unat k) = peek m2 n (unat k)"
      using f(4) [of n l] cw(3) pa(2) pn kl
      by (intro nth_equalityI) (auto simp: in_range_offset less_imp_le intro!: f(4) [of n l] in_range_le [of _ _ "unat k"])
    also have "\<dots> = peek (heap_mem s1) p (unat k)"
      using peek_poke_same [of "peek (heap_mem s1) p (unat k)"] by (simp add: m2_def)
    also have "\<dots> = peek (heap_mem s) p (unat k)"
      using payloads_keptD [OF kept p] by (intro nth_equalityI) (auto simp: in_range_offset less_imp_le)
    finally show ?thesis .
  qed
  ultimately show ?thesis using kr f(1,2) l(1) by blast
qed

lemma heap_init_spec:
  assumes "pmm_inv (heap_pmm s)" and "a \<noteq> NULL" and "unat a + 524288 \<le> 18446744073709551616"
    and "\<And>x. unat a \<le> unat x \<Longrightarrow> unat x < unat a + 524288 \<Longrightarrow> x \<in> owned (heap_pmm s)"
  shows "heap_ok (heap_init a s) [a]" and "contiguous (hdr (heap_init a s)) [a]"
    and "allocated (heap_init a s) [a] = {}" and "unat (b_size (hdr (heap_init a s) a)) = 524248"
    and "b_free (hdr (heap_init a s) a)" and "heap_pmm (heap_init a s) = heap_pmm s"
proof -
  let ?s = "s\<lparr>heap_head := NULL, heap_used := 0, heap_total := 0, heap_allocs := 0\<rparr>"
  have ok: "heap_ok ?s []" using assms(1) by (simp add: heap_ok_def blocks_ok_def)
  have e: "unat EARLY_HEAP = 524288" by (simp add: EARLY_HEAP_def)
  have "heap_init a s = heap_add_region a EARLY_HEAP ?s" by (simp add: heap_init_def)
  note ar = add_region_ok [OF ok assms(2) _ _ _ _ this, unfolded e]
  show "heap_ok (heap_init a s) [a]" "allocated (heap_init a s) [a] = {}"
    "unat (b_size (hdr (heap_init a s) a)) = 524248" "b_free (hdr (heap_init a s) a)"
    "heap_pmm (heap_init a s) = heap_pmm s"
    using ar assms(3,4) by (auto simp: allocated_def)
  show "contiguous (hdr (heap_init a s)) [a]" by (simp add: contiguous_def)
qed

section \<open>Blocks that are taken whole, and heaps of two regions\<close>

lemma take_whole:
  assumes ok: "heap_ok s bs" and b: "b \<in> set bs" "b_free (hdr s b)"
    and fit: "\<not> sz + BLOCK_SIZE + HEAP_MIN \<le> b_size (hdr s b)"
  shows "\<exists>s'. take_block b sz s = (b + BLOCK_SIZE, s') \<and> heap_ok s' bs \<and> heap_pmm s' = heap_pmm s \<and>
    heap_mem s' = set_free b False (heap_mem s) \<and> (contiguous (hdr s) bs \<longrightarrow> contiguous (hdr s') bs) \<and>
    (\<forall>c \<in> set bs. hdr s' c = (hdr s c)\<lparr>b_free := c \<noteq> b \<and> b_free (hdr s c)\<rparr>)"
proof -
  have bok: "blocks_ok (hdr s) (heap_head s) bs" using ok by (simp add: heap_ok_def)
  define s' where "s' = s\<lparr>heap_mem := set_free b False (heap_mem s),
    heap_used := heap_used s + b_size (hdr s b), heap_allocs := heap_allocs s + 1\<rparr>"
  have tb: "take_block b sz s = (b + BLOCK_SIZE, s')"
    using fit by (simp add: take_block_def split_block_def Let_def s'_def)
  note o1 = set_free_ok [OF bok b(1), where f = False]
  have h: "hdr s' c = (hdr s c)\<lparr>b_free := c \<noteq> b \<and> b_free (hdr s c)\<rparr>" if "c \<in> set bs" for c
    using set_free_headers [OF bok b(1) that, of False] by (simp add: s'_def)
  obtain xs ys where bs: "bs = xs @ b # ys" using b(1) by (meson split_list)
  have dist: "b \<notin> set xs \<union> set ys" using blocks_okD(2) [OF bok] bs by auto
  have "used_sum (hdr s') xs = used_sum (hdr s) xs" "used_sum (hdr s') ys = used_sum (hdr s) ys"
    using h dist by (auto simp: bs intro!: used_sum_fields)
  then have "used_sum (hdr s') bs = heap_used s + b_size (hdr s b)"
    using ok b(2) h [OF b(1)] by (simp add: heap_ok_def bs add_ac)
  then have "heap_ok s' bs" using ok o1 by (auto simp: heap_ok_def s'_def)
  moreover have "contiguous (hdr s) bs \<longrightarrow> contiguous (hdr s') bs" using h by (auto intro: contiguous_cong)
  ultimately show ?thesis using tb h by (auto simp: s'_def)
qed

lemma kmalloc_first:
  assumes "heap_ok s (b # bs)" and "0 < sz" and "b_free (hdr s b)" "kmalloc_size sz \<le> b_size (hdr s b)"
  shows "kmalloc sz s = Some (Inr (take_block b (kmalloc_size sz) s))"
proof -
  have "find_fit (heap_mem s) (heap_head s) (kmalloc_size sz) = Some (Inr b)" "b \<noteq> NULL"
    using find_fit_seg [of "heap_mem s" NULL "heap_head s" "b # bs"] assms(1,3,4)
    by (auto simp: heap_ok_def blocks_ok_def)
  then show ?thesis using assms(2) by (auto simp: kmalloc_def numeral_2_eq_2)
qed

section \<open>Allocation from a heap with room\<close>

text \<open>The bytes that belong to the heap, and a free block of at least \<open>n\<close> bytes.\<close>

definition extents :: "heap_state \<Rightarrow> addr list \<Rightarrow> addr set" where
  "extents s bs = (\<Union>b \<in> set bs. extent (hdr s) b)"

definition spare :: "heap_state \<Rightarrow> addr list \<Rightarrow> nat \<Rightarrow> bool" where
  "spare s bs n \<longleftrightarrow> (\<exists>b \<in> set bs. b_free (hdr s b) \<and> n \<le> unat (b_size (hdr s b)))"

lemma seg_unique: "seg h p b xs NULL \<Longrightarrow> seg h p b ys NULL \<Longrightarrow> xs = ys"
proof (induction xs arbitrary: p b ys)
  case Nil
  then show ?case using seg_head [of h p NULL ys] by simp
next
  case (Cons x xs)
  then show ?case by (cases ys) auto
qed

lemma blocks_ok_unique: "blocks_ok h a xs \<Longrightarrow> blocks_ok h a ys \<Longrightarrow> xs = ys"
  using seg_unique blocks_okD(1) by blast

text \<open>Taking a block changes nothing outside the heap, keeps the heap where it is and leaves the rest of the block free.\<close>

lemma take_block_frame:
  assumes ok: "heap_ok s bs" and b: "b \<in> set bs" "b_free (hdr s b)" "sz \<le> b_size (hdr s b)"
    and wrap: "unat sz + 72 < 18446744073709551616" and r: "take_block b sz s = (p, s')" and ok': "heap_ok s' bs'"
  shows "x \<notin> extents s bs \<Longrightarrow> heap_mem s' x = heap_mem s x" and "extents s' bs' \<subseteq> extents s bs"
    and "spare s bs n \<Longrightarrow> unat sz + 72 \<le> n \<Longrightarrow> spare s' bs' (n - unat sz - 40)"
proof -
  obtain xs ys where bs: "bs = xs @ b # ys" using b(1) by (meson split_list)
  let ?m = "heap_mem s" and ?m' = "split_block b sz (heap_mem s)"
  have bok: "blocks_ok (block_at ?m) (heap_head s) (xs @ b # ys)" using ok bs by (simp add: heap_ok_def)
  obtain zs where z: "blocks_ok (block_at ?m') (heap_head s) (xs @ b # zs)" "set ys \<subseteq> set zs"
    "\<And>c. c \<in> set xs \<union> set ys \<Longrightarrow> b_free (block_at ?m' c) = b_free (block_at ?m c)"
    "\<And>c. c \<in> set xs \<union> set ys \<Longrightarrow> b_size (block_at ?m' c) = b_size (block_at ?m c)"
    "\<And>c. c \<in> set (b # zs) \<Longrightarrow> c \<in> set ys \<or> extent (block_at ?m') c \<subseteq> extent (block_at ?m) b"
    using split_effect [OF bok b(2,3) wrap refl] by blast
  let ?m2 = "set_free b False ?m'"
  have s': "heap_mem s' = ?m2" "heap_head s' = heap_head s" using r by (auto simp: take_block_def Let_def)
  have bz: "b \<in> set (xs @ b # zs)" by simp
  note h2 = set_free_headers [OF z(1) bz, where f = False] and ok2 = set_free_ok [OF z(1) bz, where f = False]
  have bs': "bs' = xs @ b # zs"
    by (rule blocks_ok_unique [OF _ ok2(1)]) (use ok' s' in \<open>simp add: heap_ok_def\<close>)
  have ext: "extent (hdr s') c = extent (block_at ?m') c" if "c \<in> set bs'" for c using ok2(2) [of c] that bs' s' by simp
  show "extents s' bs' \<subseteq> extents s bs"
  proof
    fix x assume "x \<in> extents s' bs'"
    then obtain c where c: "c \<in> set bs'" "x \<in> extent (block_at ?m') c" using ext by (auto simp: extents_def)
    have "extent (block_at ?m') c = extent (block_at ?m) c" if "c \<in> set xs \<union> set ys" using z(4) [OF that] by (simp add: extent_def)
    then show "x \<in> extents s bs" using c z(5) [of c] bs' bs by (auto simp: extents_def)
  qed
  show "heap_mem s' x = heap_mem s x" if "x \<notin> extents s bs"
  proof -
    have hdrs: "\<not> in_range x c 40" "x \<notin> extent (block_at ?m) c" if "c \<in> set bs" for c
      using \<open>x \<notin> extents s bs\<close> that blocks_okD(3) [OF bok, of c] bs by (auto simp: extents_def extent_def in_range_nat)
    have "?m' x = ?m x"
    proof (cases "sz + BLOCK_SIZE + HEAP_MIN \<le> b_size (block_at ?m b)")
      case True
      have "unat (sz + BLOCK_SIZE + HEAP_MIN) = unat sz + 72"
        using wrap unat_add_u64 [of sz 40] unat_add_u64 [of "sz + 40" 32] by (simp add: BLOCK_SIZE_def HEAP_MIN_def)
      then have fits: "unat sz + 72 \<le> unat (b_size (block_at ?m b))" using True by (simp add: word_le_nat_alt)
      have "ys = [] \<or> \<not> in_range x (hd ys) 40" using hdrs(1) [of "hd ys"] bs by (cases ys) auto
      then show ?thesis using split_headers(5) [OF bok fits refl refl] hdrs(2) [of b] bs by simp
    qed (simp add: split_block_def)
    then show ?thesis using hdrs(1) [of b] bs by (simp add: s' set_frame)
  qed
  show "spare s' bs' (n - unat sz - 40)" if sp: "spare s bs n" "unat sz + 72 \<le> n"
  proof -
    obtain c where c: "c \<in> set bs" "b_free (hdr s c)" "n \<le> unat (b_size (hdr s c))" using sp(1) by (auto simp: spare_def)
    have dist: "b \<notin> set xs \<union> set zs" using blocks_okD(2) [OF z(1)] by auto
    show ?thesis
    proof (cases "c = b")
      case True
      then have fits: "unat sz + 72 \<le> unat (b_size (block_at ?m b))" using c(3) sp(2) by simp
      let ?n = "b + BLOCK_SIZE + sz"
      note sh = split_headers [OF bok fits refl refl] and sp' = split_point [OF bok fits]
        and sok = split_blocks_ok [OF bok fits refl refl]
      have "xs @ b # zs = xs @ b # ?n # ys" by (rule blocks_ok_unique [OF z(1) sok(1)])
      then have n: "?n \<in> set zs" by simp
      then have nb: "?n \<noteq> b" using dist by (metis UnI2)
      have "block_at ?m2 ?n = block_at ?m' ?n" using h2 [of ?n] n by (simp only: nb if_False) simp
      then show ?thesis using sh(2) sp'(3) n c(3) True bs' s' by (auto simp: spare_def intro!: bexI [of _ ?n])
    next
      case False
      then have cx: "c \<in> set xs \<union> set ys" using c(1) bs by auto
      then have "block_at ?m2 c = block_at ?m' c" using h2 [of c] dist z(2) by auto
      then show ?thesis using c z(2) z(3,4) [OF cx] cx bs' s' by (auto simp: spare_def intro!: bexI [of _ c])
    qed
  qed
qed

lemma kmalloc_spare:
  assumes ok: "heap_ok s bs" and sz: "0 < sz" "unat (kmalloc_size sz) + 72 \<le> n" "unat sz \<le> 4611686018427387904" and sp: "spare s bs n"
  shows "\<exists>p k s' bs'. kmalloc sz s = Some (Inr (p, s')) \<and> p \<noteq> NULL \<and> sz \<le> k \<and> heap_ok s' bs' \<and>
    (p, k) \<notin> allocated s bs \<and> allocated s' bs' = insert (p, k) (allocated s bs) \<and> payloads_kept s bs s' \<and>
    heap_pmm s' = heap_pmm s \<and> (\<forall>x. x \<notin> extents s bs \<longrightarrow> heap_mem s' x = heap_mem s x) \<and> extents s' bs' \<subseteq> extents s bs \<and>
    spare s' bs' (n - unat (kmalloc_size sz) - 40) \<and> (contiguous (hdr s) bs \<longrightarrow> contiguous (hdr s') bs')"
proof -
  let ?z = "kmalloc_size sz"
  note ks = kmalloc_size_bounds [OF sz(3)]
  have fit: "\<exists>x \<in> set bs. b_free (hdr s x) \<and> ?z \<le> b_size (hdr s x)" using sp sz(2) by (auto simp: spare_def word_le_nat_alt)
  obtain b where b: "find_fit (heap_mem s) (heap_head s) ?z = Some (Inr b)" "b \<noteq> NULL" "b \<in> set bs" "b_free (hdr s b)" "?z \<le> b_size (hdr s b)"
    using find_fit_cases [OF ok, of ?z] fit by blast
  obtain p s' where r: "take_block b ?z s = (p, s')" by (cases "take_block b ?z s")
  have wrap: "unat ?z + 72 < 18446744073709551616" using ks(2) by simp
  obtain bs' where t: "takes s bs ?z p s' bs'" using take_block_takes [OF ok b(3-5) wrap r] by blast
  then obtain k where k: "?z \<le> k" "(p, k) \<notin> allocated s bs" "allocated s' bs' = insert (p, k) (allocated s bs)" by (auto simp: takes_def)
  have ok': "heap_ok s' bs'" using t by (simp add: takes_def)
  have "kmalloc sz s = Some (Inr (p, s'))" using sz(1) b(1,2) r by (auto simp: kmalloc_def numeral_2_eq_2)
  then show ?thesis
    using t k ok' ks(1) take_block_frame [OF ok b(3-5) wrap r ok'] sp sz(2)
    by (intro exI [of _ p] exI [of _ k] exI [of _ s'] exI [of _ bs']) (auto simp: takes_def)
qed

lemma spare_mono: "spare s bs n \<Longrightarrow> k \<le> n \<Longrightarrow> spare s bs k"
  by (auto simp: spare_def intro: order_trans)

lemma payload_extent:
  assumes "heap_ok s bs" "(p, k) \<in> allocated s bs" "in_range x p (unat k)"
  shows "x \<in> extents s bs"
proof -
  obtain b where b: "b \<in> set bs" "p = b + BLOCK_SIZE" "k = b_size (hdr s b)" using assms(2) by (auto simp: allocated_def)
  then have "x \<in> extent (hdr s) b" using payload_outside(1) [of "hdr s" "heap_head s" bs b x] assms by (simp add: heap_ok_def)
  then show ?thesis using b(1) by (auto simp: extents_def)
qed

text \<open>A heap that only lost free space: it lies where it lay, and no other byte of the memory changed.\<close>

definition shrunk :: "heap_state \<Rightarrow> addr list \<Rightarrow> heap_state \<Rightarrow> addr list \<Rightarrow> bool" where
  "shrunk h bs h' bs' \<longleftrightarrow> heap_pmm h' = heap_pmm h \<and> extents h' bs' \<subseteq> extents h bs \<and> (\<forall>x. x \<notin> extents h bs \<longrightarrow> heap_mem h' x = heap_mem h x)"

lemma shrunk_refl: "shrunk h bs h bs"
  by (simp add: shrunk_def)

lemma shrunk_trans: "shrunk h bs h1 bs1 \<Longrightarrow> shrunk h1 bs1 h2 bs2 \<Longrightarrow> shrunk h bs h2 bs2"
  unfolding shrunk_def by (metis subset_iff)

section \<open>Properties\<close>

text \<open>
  (C1) Allocation. On a well-formed heap every request between 1 byte and \<open>2 ^ 62\<close> bytes
  returns, without a panic. A non-null result is a payload of at least the requested size that
  was not allocated before and overlaps none of the payloads in use; their bytes are unchanged,
  and the heap is well-formed with exactly one more allocated payload. A null result leaves the
  heap as it was and occurs only when no free block fits and the page allocator has no run of
  the pages an expansion needs.
\<close>

theorem kmalloc_fresh_block:
  assumes "heap_ok s bs" and "0 < sz" and "unat sz \<le> 4611686018427387904"
  shows "\<exists>p s' bs'. kmalloc sz s = Some (Inr (p, s')) \<and> heap_ok s' bs' \<and>
    (\<forall>q l x. (q, l) \<in> allocated s bs \<longrightarrow> in_range x q (unat l) \<longrightarrow> heap_mem s' x = heap_mem s x) \<and>
    (p \<noteq> NULL \<longrightarrow> (\<exists>k \<ge> sz. (p, k) \<notin> allocated s bs \<and> allocated s' bs' = insert (p, k) (allocated s bs) \<and>
       (\<forall>q l. (q, l) \<in> allocated s bs \<longrightarrow> disjoint_ranges p (unat k) q (unat l)))) \<and>
    (p = NULL \<longrightarrow> s' = s \<and> free_runs (heap_pmm s) (expand_count sz) = {} \<and>
       (\<forall>x \<in> set bs. \<not> (b_free (hdr s x) \<and> kmalloc_size sz \<le> b_size (hdr s x))))"
proof -
  obtain p s' bs' where km: "kmalloc sz s = Some (Inr (p, s'))" and post: "kmalloc_post sz s bs p s' bs'"
    using kmalloc_spec [OF assms] by blast
  have "disjoint_ranges p (unat k) q (unat l)"
    if "(p, k) \<notin> allocated s bs" "allocated s' bs' = insert (p, k) (allocated s bs)" "(q, l) \<in> allocated s bs" for k q l
  proof -
    have "p \<noteq> q" using that allocated_functional [of p k s' bs' l] by auto
    then show ?thesis using post that allocated_disjoint [of s' bs' p k q l] by (auto simp: kmalloc_post_def)
  qed
  then show ?thesis
    using km post payloads_keptD [of s bs s'] unfolding kmalloc_post_def
    by (intro exI [of _ p] exI [of _ s'] exI [of _ bs']) (auto split: if_splits)
qed

text \<open>A page allocator with all of its 256 pages taken, and the heap of a boot on top of it.\<close>

definition full_pmm :: pmm_state where
  "full_pmm = \<lparr>page_bitmap = (\<lambda>_. 0xFF), total_pages = 256, used_pages = 256, highest_page = 256\<rparr>"

definition boot_heap :: heap_state where
  "boot_heap = heap_init 0x10000 \<lparr>heap_mem = (\<lambda>_. 0), heap_head = 0, heap_used = 0, heap_total = 0,
     heap_allocs = 0, heap_pmm = full_pmm\<rparr>"

lemma full_pmm_test: "bitmap_test full_pmm p"
proof -
  have "unat (p mod 8) \<in> {0..<8}" by (simp add: unat_mod)
  then have "bit (0xFF :: u8) (unat (p mod 8))" by (auto simp: atLeastLessThan_def upt_rec numeral_eq_Suc less_Suc_eq)
  then show ?thesis by (simp add: bitmap_test_bit full_pmm_def)
qed

lemma full_pmm_inv: "pmm_inv full_pmm"
proof -
  have "taken full_pmm = {p. p < 256}" using full_pmm_test by (auto simp: taken_def full_pmm_def)
  then show ?thesis using full_pmm_test card_below [of 256]
    by (simp add: pmm_inv_def) (simp add: full_pmm_def PMM_MAX_PAGES_def)
qed

lemma full_pmm_owned: "unat x < 1048576 \<Longrightarrow> x \<in> owned full_pmm"
  using full_pmm_test
  by (simp add: owned_def taken_def) (simp add: full_pmm_def word_less_nat_alt unat_div PAGE_SIZE_def)

lemma boot_heap_ok: "heap_ok boot_heap [0x10000]" "contiguous (hdr boot_heap) [0x10000]"
  "allocated boot_heap [0x10000] = {}" "unat (b_size (hdr boot_heap 0x10000)) = 524248"
  "b_free (hdr boot_heap 0x10000)"
  unfolding boot_heap_def
  by (rule heap_init_spec [where a = "0x10000"]; simp add: full_pmm_inv full_pmm_owned NULL_def)+

theorem kmalloc_fresh_block_witness:
  "\<exists>p s' bs'. kmalloc 100 boot_heap = Some (Inr (p, s')) \<and> p \<noteq> NULL \<and> heap_ok s' bs' \<and>
     (\<exists>k \<ge> 100. allocated s' bs' = {(p, k)})"
proof -
  have "kmalloc_size 100 \<le> b_size (hdr boot_heap 0x10000)"
    using boot_heap_ok(4) by (simp add: word_le_nat_alt kmalloc_size_def H3OS_ALIGN_UP_def HEAP_ALIGN_def HEAP_MIN_def)
  then show ?thesis
    using kmalloc_fresh_block [OF boot_heap_ok(1), of 100] boot_heap_ok(3,5) by fastforce
qed

text \<open>
  (C2) Release. On a well-formed heap whose blocks lie back to back (which \<^verbatim>\<open>heap_init\<close>
  establishes and every allocation without expansion keeps), freeing an allocated payload
  removes exactly this payload, keeps the bytes of all others, updates the usage count and
  leaves a well-formed heap of blocks that lie back to back. A second free of the same pointer
  is rejected and changes nothing.
\<close>

theorem kfree_releases:
  assumes "heap_ok s bs" and "contiguous (hdr s) bs" and "(p, k) \<in> allocated s bs"
  shows "(\<exists>bs'. heap_ok (kfree p s) bs' \<and> contiguous (hdr (kfree p s)) bs' \<and>
      allocated (kfree p s) bs' = allocated s bs - {(p, k)} \<and> heap_used (kfree p s) = heap_used s - k \<and>
      (\<forall>q l x. (q, l) \<in> allocated s bs - {(p, k)} \<longrightarrow> in_range x q (unat l) \<longrightarrow>
         heap_mem (kfree p s) x = heap_mem s x)) \<and>
    kfree p (kfree p s) = kfree p s"
proof -
  obtain xs b ys where b: "bs = xs @ b # ys" "p = b + BLOCK_SIZE" "k = b_size (hdr s b)"
    "\<not> b_free (hdr s b)" "p \<noteq> NULL" "p - BLOCK_SIZE = b" "b_magic (hdr s b) = HEAP_MAGIC"
    by (rule allocated_block [OF assms(1,3)])
  have "b_free (hdr (kfree p s) b)" using kfree_spec [OF assms] b(6) by auto
  then have "kfree p (kfree p s) = kfree p s" using b(6) by (simp add: kfree_def [of p "kfree p s"] Let_def)
  then show ?thesis using kfree_spec [OF assms] by blast
qed

text \<open>One block of the boot heap in use.\<close>

lemma boot_heap_alloc:
  obtains p s k bs where "kmalloc 100 boot_heap = Some (Inr (p, s))" "p \<noteq> NULL" "heap_ok s bs"
    "contiguous (hdr s) bs" "allocated s bs = {(p, k)}" "100 \<le> k"
proof -
  have "kmalloc_size 100 \<le> b_size (hdr boot_heap 0x10000)"
    using boot_heap_ok(4) by (simp add: word_le_nat_alt kmalloc_size_def H3OS_ALIGN_UP_def HEAP_ALIGN_def HEAP_MIN_def)
  then obtain p s bs where "kmalloc 100 boot_heap = Some (Inr (p, s))"
    "takes boot_heap [0x10000] (kmalloc_size 100) p s bs"
    using kmalloc_found [OF boot_heap_ok(1) _ _ _ boot_heap_ok(5), of 100] by auto
  then show ?thesis
    using that boot_heap_ok(2,3) kmalloc_size_bounds(1) [of 100] unfolding takes_def
    by (auto intro: order_trans)
qed

theorem kfree_releases_witness:
  "\<exists>p s bs'. kmalloc 100 boot_heap = Some (Inr (p, s)) \<and> heap_ok (kfree p s) bs' \<and>
     allocated (kfree p s) bs' = {} \<and> kfree p (kfree p s) = kfree p s"
proof -
  obtain p s k bs where r: "kmalloc 100 boot_heap = Some (Inr (p, s))" "heap_ok s bs"
    "contiguous (hdr s) bs" "allocated s bs = {(p, k)}"
    by (rule boot_heap_alloc)
  then have "(p, k) \<in> allocated s bs" by simp
  from kfree_releases [OF r(2,3) this] r(1,4) show ?thesis by auto
qed

text \<open>
  (C15) Growing an allocation. On a well-formed heap whose blocks lie back to back, if \<^verbatim>\<open>krealloc\<close> asks for more (up to \<open>2 ^ 62\<close> bytes)
  than the block of the payload holds and a new block is found without an expansion, the call returns a payload of at least the size asked for,
  which starts with the old contents; exactly the old payload is released, and the heap stays well-formed with its blocks back to back. On
  a heap with gaps the release can merge blocks over a gap, which is why the blocks have to lie back to back.
\<close>

theorem krealloc_keeps_contents:
  assumes "heap_ok s bs" and "contiguous (hdr s) bs" and "(p, k) \<in> allocated s bs"
    and "k < sz" and "unat sz \<le> 4611686018427387904"
    and "kmalloc sz s = Some (Inr (n, s1))" and "n \<noteq> NULL" and "heap_pmm s1 = heap_pmm s"
  shows "\<exists>s' bs' l. krealloc p sz s = Some (Inr (n, s')) \<and> heap_ok s' bs' \<and> contiguous (hdr s') bs' \<and>
    sz \<le> l \<and> allocated s' bs' = insert (n, l) (allocated s bs - {(p, k)}) \<and>
    peek (heap_mem s') n (unat k) = peek (heap_mem s) p (unat k)"
  by (rule krealloc_moves [OF assms])

text \<open>A heap of two one-block regions: \<open>n\<close> bytes at \<open>a\<close> in front of \<open>l\<close> bytes at \<open>b\<close>.\<close>

definition two_regions :: "addr \<Rightarrow> u64 \<Rightarrow> addr \<Rightarrow> u64 \<Rightarrow> heap_state" where
  "two_regions a n b l = heap_add_region a n (heap_add_region b l
     \<lparr>heap_mem = (\<lambda>_. 0), heap_head = 0, heap_used = 0, heap_total = 0, heap_allocs = 0,
      heap_pmm = full_pmm\<rparr>)"

lemma two_regions_ok:
  assumes "a \<noteq> 0" "b \<noteq> 0" "unat a + unat n \<le> 1048576" "unat b + unat l \<le> 1048576"
    and "72 \<le> unat n" "72 \<le> unat l" and "unat a + unat n \<le> unat b \<or> unat b + unat l \<le> unat a"
  shows "heap_ok (two_regions a n b l) [a, b]" and "b_free (hdr (two_regions a n b l) a)"
    and "b_free (hdr (two_regions a n b l) b)" and "unat (b_size (hdr (two_regions a n b l) a)) = unat n - 40"
    and "unat (b_size (hdr (two_regions a n b l) b)) = unat l - 40"
    and "allocated (two_regions a n b l) [a, b] = {}"
proof -
  let ?s0 = "\<lparr>heap_mem = (\<lambda>_. 0), heap_head = 0, heap_used = 0, heap_total = 0, heap_allocs = 0,
      heap_pmm = full_pmm\<rparr>"
  define s1 where "s1 = heap_add_region b l ?s0"
  have ok0: "heap_ok ?s0 []" by (simp add: heap_ok_def blocks_ok_def full_pmm_inv NULL_def)
  have r1: "heap_ok s1 [b]" "b_free (hdr s1 b)" "unat (b_size (hdr s1 b)) = unat l - 40"
    "heap_pmm s1 = full_pmm" "allocated s1 [b] = {}"
    using assms add_region_ok [OF ok0 _ _ _ _ _ s1_def] full_pmm_owned
    by (auto simp: NULL_def allocated_def)
  define s2 where "s2 = heap_add_region a n s1"
  have s2: "two_regions a n b l = s2" by (simp add: two_regions_def s1_def s2_def)
  have fr: "x \<notin> extent (hdr s1) y" if "unat a \<le> unat x" "unat x < unat a + unat n" "y \<in> set [b]" for x y
    using that assms(6,7) r1(3) by (auto simp: extent_def)
  have own: "x \<in> owned (heap_pmm s1)" if "unat a \<le> unat x" "unat x < unat a + unat n" for x
    using that assms(3) full_pmm_owned r1(4) by simp
  have pre: "a \<noteq> NULL" "unat a + unat n \<le> 18446744073709551616" using assms by (simp_all add: NULL_def)
  note r2 = add_region_ok [OF r1(1) pre assms(5) fr own s2_def]
  have bok: "blocks_ok (hdr s2) (heap_head s2) [a, b]" using r2(1) by (simp add: heap_ok_def)
  have "hdr s2 b = (hdr s1 b)\<lparr>b_prev := a\<rparr>"
  proof -
    have d: "disjoint_ranges b 40 a 40" using blocks_okD(2) [OF bok] headers_disjoint [OF bok, of b a] by simp
    have "heap_head s1 = b" "b \<noteq> NULL" using r1(1) by (auto simp: heap_ok_def blocks_ok_def)
    then show ?thesis using assms(5) d by (simp add: s2_def heap_add_region_def Let_def
          BLOCK_SIZE_def HEAP_MIN_def word_less_nat_alt)
  qed
  then show "heap_ok (two_regions a n b l) [a, b]" "b_free (hdr (two_regions a n b l) a)"
    "b_free (hdr (two_regions a n b l) b)" "unat (b_size (hdr (two_regions a n b l) a)) = unat n - 40"
    "unat (b_size (hdr (two_regions a n b l) b)) = unat l - 40"
    "allocated (two_regions a n b l) [a, b] = {}"
    using r1 r2 s2 by simp_all
qed

text \<open>The heap after a 4000-byte request has taken the whole first region.\<close>

lemma region_taken:
  assumes "heap_ok s [a, b]" "b_free (hdr s a)" "unat (b_size (hdr s a)) = 4056"
  shows "\<exists>s'. kmalloc 4000 s = Some (Inr (a + BLOCK_SIZE, s')) \<and> heap_ok s' [a, b] \<and>
    heap_pmm s' = heap_pmm s \<and> (contiguous (hdr s) [a, b] \<longrightarrow> contiguous (hdr s') [a, b]) \<and>
    hdr s' a = (hdr s a)\<lparr>b_free := False\<rparr> \<and> hdr s' b = hdr s b"
proof -
  have k: "kmalloc_size 4000 = 4000" by (simp add: kmalloc_size_def H3OS_ALIGN_UP_def HEAP_ALIGN_def HEAP_MIN_def)
  have "\<not> (4000 :: u64) + BLOCK_SIZE + HEAP_MIN \<le> b_size (hdr s a)"
    using assms(3) by (simp add: BLOCK_SIZE_def HEAP_MIN_def word_le_nat_alt)
  from take_whole [OF assms(1) _ assms(2) this] obtain s' where s': "take_block a 4000 s = (a + BLOCK_SIZE, s')"
    "heap_ok s' [a, b]" "heap_pmm s' = heap_pmm s" "contiguous (hdr s) [a, b] \<longrightarrow> contiguous (hdr s') [a, b]"
    "\<forall>c \<in> set [a, b]. hdr s' c = (hdr s c)\<lparr>b_free := c \<noteq> a \<and> b_free (hdr s c)\<rparr>" by auto
  have "a \<noteq> b" using blocks_okD(2) [of "hdr s" "heap_head s" "[a, b]"] assms(1) by (simp add: heap_ok_def)
  moreover have "kmalloc 4000 s = Some (Inr (a + BLOCK_SIZE, s'))"
    using kmalloc_first [OF assms(1) _ assms(2), of 4000] assms(3) s'(1) by (simp add: k word_le_nat_alt)
  ultimately show ?thesis using s' by auto
qed

theorem krealloc_keeps_contents_witness:
  "\<exists>s bs p n s'. kmalloc 4000 (two_regions 0x10000 0x1000 0x11000 0x2000) = Some (Inr (p, s)) \<and>
     krealloc p 5000 s = Some (Inr (n, s')) \<and> heap_ok s' bs \<and> n \<noteq> p \<and>
     peek (heap_mem s') n 4056 = peek (heap_mem s) p 4056"
proof -
  let ?s = "two_regions 0x10000 0x1000 0x11000 0x2000"
  note tr = two_regions_ok [of "0x10000" "0x11000" "0x1000" "0x2000", simplified]
  have "contiguous (hdr ?s) [0x10000, 0x11000]" using tr(4) by (simp add: contiguous_def)
  then obtain s where s: "kmalloc 4000 ?s = Some (Inr (0x10028, s))" "heap_ok s [0x10000, 0x11000]"
    "contiguous (hdr s) [0x10000, 0x11000]" "hdr s 0x10000 = (hdr ?s 0x10000)\<lparr>b_free := False\<rparr>"
    "hdr s 0x11000 = hdr ?s 0x11000"
    using region_taken [OF tr(1,2,4)] by (auto simp: BLOCK_SIZE_def)
  have al: "(0x10028, b_size (hdr s 0x10000)) \<in> allocated s [0x10000, 0x11000]"
    using s(4) by (auto simp: allocated_def BLOCK_SIZE_def)
  have sz: "b_size (hdr s 0x10000) < 5000" "unat (b_size (hdr s 0x10000)) = 4056"
    using s(4) tr(4) by (simp_all add: word_less_nat_alt)
  have "kmalloc_size 5000 \<le> b_size (hdr s 0x11000)"
    using s(5) tr(5) by (simp add: word_le_nat_alt kmalloc_size_def H3OS_ALIGN_UP_def HEAP_ALIGN_def HEAP_MIN_def)
  then obtain n s1 where n: "kmalloc 5000 s = Some (Inr (n, s1))" "n \<noteq> NULL" "heap_pmm s1 = heap_pmm s"
    and new: "\<exists>k. (n, k) \<notin> allocated s [0x10000, 0x11000] \<and> (\<exists>bs'. allocated s1 bs' = insert (n, k) (allocated s [0x10000, 0x11000]))"
    using kmalloc_found [OF s(2), of 5000 "0x11000"] s(5) tr(3) unfolding takes_def by auto
  have "n \<noteq> 0x10028"
  proof
    assume e: "n = 0x10028"
    from new obtain k bs' where k: "(n, k) \<notin> allocated s [0x10000, 0x11000]"
      "allocated s1 bs' = insert (n, k) (allocated s [0x10000, 0x11000])" by blast
    then have "k = b_size (hdr s 0x10000)" using al e allocated_functional [of n k s1 bs'] by auto
    then show False using k(1) al e by simp
  qed
  with krealloc_keeps_contents [OF s(2,3) al sz(1) _ n] sz(2) s(1) show ?thesis by fastforce
qed

text \<open>
  \<^verbatim>\<open>kcalloc\<close> on a well-formed heap, for a product of its arguments that does not overflow:
  it returns, and a non-null result is a fresh payload of at least \<open>n * sz\<close> bytes of which the
  first \<open>n * sz\<close> are 0; the heap is well-formed.
\<close>

theorem kcalloc_zeroes:
  assumes "heap_ok s bs" and "0 < unat n * unat sz" and "unat n * unat sz \<le> 4611686018427387904"
  shows "\<exists>p s' bs'. kcalloc n sz s = Some (Inr (p, s')) \<and> heap_ok s' bs' \<and>
    (p \<noteq> NULL \<longrightarrow> peek (heap_mem s') p (unat n * unat sz) = replicate (unat n * unat sz) 0 \<and>
      (\<exists>k. unat n * unat sz \<le> unat k \<and> (p, k) \<notin> allocated s bs \<and>
        allocated s' bs' = insert (p, k) (allocated s bs)))"
proof -
  have u: "unat (n * sz) = unat n * unat sz" using assms(3) by (simp add: unat_word_ariths)
  then have "0 < n * sz" using assms(2) by (simp add: word_less_nat_alt)
  from kcalloc_spec [OF assms(1) this] assms(3) show ?thesis
    unfolding u word_le_nat_alt by auto
qed

theorem kcalloc_zeroes_witness:
  "\<exists>p s' bs'. kcalloc 10 8 boot_heap = Some (Inr (p, s')) \<and> heap_ok s' bs'"
  using kcalloc_zeroes [OF boot_heap_ok(1), of 10 8] by auto

text \<open>
  The limit of the release operation. \<^verbatim>\<open>coalesce\<close> joins neighbours of the list, not of
  memory. On a heap of two free regions that do not touch, allocating the first region and
  freeing it again leaves a first block that reaches past the end of its region: it contains
  an address that belonged to no block.
\<close>

theorem kfree_merges_across_regions:
  assumes ok: "heap_ok s [a, b]" and free: "b_free (hdr s a)" "b_free (hdr s b)" and "0 < sz"
    and fit: "kmalloc_size sz \<le> b_size (hdr s a)"
    and whole: "\<not> kmalloc_size sz + BLOCK_SIZE + HEAP_MIN \<le> b_size (hdr s a)"
    and gap: "unat b \<noteq> unat a + 40 + unat (b_size (hdr s a))"
  shows "\<exists>p s1. kmalloc sz s = Some (Inr (p, s1)) \<and>
    p + b_size (hdr s a) \<in> extent (hdr (kfree p s1)) a - (extent (hdr s) a \<union> extent (hdr s) b)"
proof -
  let ?p = "a + BLOCK_SIZE" and ?e = "a + BLOCK_SIZE + b_size (hdr s a)"
  have "a \<in> set [a, b]" by simp
  from take_whole [OF ok this free(1) whole] obtain s1 where
    s1: "take_block a (kmalloc_size sz) s = (?p, s1)" "heap_ok s1 [a, b]"
    "\<forall>c \<in> set [a, b]. hdr s1 c = (hdr s c)\<lparr>b_free := c \<noteq> a \<and> b_free (hdr s c)\<rparr>" by auto
  have km: "kmalloc sz s = Some (Inr (?p, s1))"
    using kmalloc_first [OF ok \<open>0 < sz\<close> free(1) fit] s1(1) by simp
  have bok: "blocks_ok (hdr s) (heap_head s) [a, b]" using ok by (simp add: heap_ok_def)
  have "a \<noteq> b" using blocks_okD(2) [OF bok] by simp
  define m1 where "m1 = set_free a True (heap_mem s1)"
  have ok1: "blocks_ok (block_at m1) (heap_head s1) ([] @ a # [b])"
    and h1: "block_at m1 a = hdr s a" "block_at m1 b = hdr s b"
    using s1(2,3) set_free_ok(1) [of "heap_mem s1" "heap_head s1" "[a, b]" a True] free \<open>a \<noteq> b\<close>
      set_free_headers [of "heap_mem s1" "heap_head s1" "[a, b]" a _ True]
    by (auto simp: m1_def heap_ok_def)
  have cn: "coalesce_next a m1 = merge a b m1" using coalesce_next_merge [OF ok1] h1 free by simp
  have ha: "block_at (merge a b m1) a = (hdr s a)\<lparr>b_size := b_size (hdr s a) + (BLOCK_SIZE + b_size (hdr s b)),
      b_next := b_next (hdr s b)\<rparr>"
    using merge_headers(1) [of m1 "heap_head s1" "[]" a b "[]", OF _ refl] ok1 h1 by simp
  have "b_prev (hdr s a) = NULL" using blocks_okD(1) [OF bok] by simp
  then have "coalesce a m1 = merge a b m1" by (simp add: coalesce_def cn coalesce_prev_def ha)
  moreover have "b_magic (hdr s1 a) = HEAP_MAGIC" "\<not> b_free (hdr s1 a)" "?p \<noteq> NULL"
    using s1(3) blocks_okD(6) [OF bok, of a] block_address_bound [OF ok, of a] unat_add_u64 [of a 40]
    by (auto simp: BLOCK_SIZE_def NULL_def)
  ultimately have kf: "hdr (kfree ?p s1) a = (hdr s a)\<lparr>b_size := b_size (hdr s a) + (BLOCK_SIZE + b_size (hdr s b)),
      b_next := b_next (hdr s b)\<rparr>"
    using ha by (simp add: kfree_def Let_def m1_def)
  have ba: "unat a + 40 + unat (b_size (hdr s a)) \<le> 2147483648" "unat b + 40 + unat (b_size (hdr s b)) \<le> 2147483648"
    using block_end_bound [OF ok] by simp_all
  have e: "unat ?e = unat a + 40 + unat (b_size (hdr s a))"
    using ba(1) unat_add_u64 [of a 40] unat_add_u64 [of "a + 40" "b_size (hdr s a)"] by (simp add: BLOCK_SIZE_def)
  have "unat (b_size (hdr (kfree ?p s1) a)) = unat (b_size (hdr s a)) + (40 + unat (b_size (hdr s b)))"
    using ba unat_add_u64 [of 40 "b_size (hdr s b)"]
      unat_add_u64 [of "b_size (hdr s a)" "40 + b_size (hdr s b)"]
    unfolding kf by (simp add: BLOCK_SIZE_def)
  then have "?e \<in> extent (hdr (kfree ?p s1)) a" by (simp add: extent_def e)
  moreover have "?e \<notin> extent (hdr s) a \<union> extent (hdr s) b"
    using blocks_separate [OF bok, of a b] \<open>a \<noteq> b\<close> gap by (auto simp: extent_def e)
  ultimately show ?thesis using km by blast
qed

theorem kfree_merges_across_regions_witness:
  "\<exists>p s1. kmalloc 4000 (two_regions 0x20000 0x1000 0x10000 0x1000) = Some (Inr (p, s1)) \<and>
    (\<exists>x. x \<in> extent (hdr (kfree p s1)) 0x20000 \<and>
      x \<notin> extent (hdr (two_regions 0x20000 0x1000 0x10000 0x1000)) 0x20000 \<and>
      x \<notin> extent (hdr (two_regions 0x20000 0x1000 0x10000 0x1000)) 0x10000)"
proof -
  note tr = two_regions_ok [of "0x20000" "0x10000" "0x1000" "0x1000", simplified]
  have "kmalloc_size 4000 = 4000" by (simp add: kmalloc_size_def H3OS_ALIGN_UP_def HEAP_ALIGN_def HEAP_MIN_def)
  then show ?thesis
    using kfree_merges_across_regions [OF tr(1,2,3), of 4000] tr(4)
    by (auto simp: word_le_nat_alt BLOCK_SIZE_def HEAP_MIN_def)
qed

text \<open>
  The limit of the size computation. Rounding a request of at least \<open>2 ^ 64 - 15\<close> bytes
  up to a multiple of 16 wraps to 0, so it is served as a request for 32 bytes; and \<^verbatim>\<open>kcalloc\<close>
  serves the wrapped product of its arguments.
\<close>

theorem huge_request_wraps:
  assumes "18446744073709551601 \<le> unat sz"
  shows "kmalloc sz s = kmalloc 32 s \<and> kcalloc 0x8000000000000010 2 s = kcalloc 1 32 s"
proof -
  have "unat (sz + 15) < 16"
  proof -
    have "unat (sz + 15) = (unat sz + 15) mod 18446744073709551616" by (simp add: unat_word_ariths)
    also have "\<dots> = unat sz + 15 - 18446744073709551616"
      using assms unat_u64_bound [of sz] by (subst le_mod_geq) (simp_all del: unat_u64_bound)
    finally show ?thesis using unat_u64_bound [of sz] by linarith
  qed
  then have "unat (H3OS_ALIGN_UP sz HEAP_ALIGN) = 0"
    by (simp add: align_up_down HEAP_ALIGN_def align_down_16)
  then have "kmalloc_size sz = 32" by (simp add: kmalloc_size_def HEAP_MIN_def word_less_nat_alt)
  moreover have "kmalloc_size 32 = 32" by (simp add: kmalloc_size_def H3OS_ALIGN_UP_def HEAP_ALIGN_def HEAP_MIN_def)
  moreover have "sz \<noteq> 0" using assms by auto
  moreover have "(0x8000000000000010 :: u64) * 2 = 1 * 32" by (simp add: word_unat_eq_iff)
  ultimately show ?thesis unfolding kcalloc_def by (simp only: kmalloc_def) simp
qed

theorem huge_request_wraps_witness:
  "kmalloc (- 1) boot_heap = kmalloc 32 boot_heap"
  using huge_request_wraps [of "- 1" boot_heap] by (simp add: unsigned_minus_1_eq_mask mask_eq_exp_minus_1)

end
