(* ===== verification/H3_Vmm.thy ===== *)
theory H3_Vmm
  imports H3_Pmm H3_String
begin

text \<open>
  The paging helpers of \<^verbatim>\<open>memory/vmm.c\<close>. Page tables live in the byte memory, which is identity
  mapped; an entry is the 64-bit word at \<open>table + 8 * index\<close>. New tables come from the page
  allocator. The value of CR3 is an argument of \<open>vmm_init\<close>; the TLB (\<^verbatim>\<open>invlpg\<close>) is not part of
  the state.
\<close>

section \<open>State and operations\<close>

definition PTE_PRESENT :: u64 where
  "PTE_PRESENT = push_bit 0 1"

definition PTE_WRITE :: u64 where
  "PTE_WRITE = push_bit 1 1"

definition PTE_HUGE :: u64 where
  "PTE_HUGE = push_bit 7 1"

definition PTE_NX :: u64 where
  "PTE_NX = push_bit 63 1"

record vmm_state =
  vmm_mem :: mem
  pml4 :: addr
  vmm_pmm :: pmm_state

text \<open>Array access \<^verbatim>\<open>table[index]\<close>.\<close>

definition entry :: "vmm_state \<Rightarrow> addr \<Rightarrow> u64 \<Rightarrow> u64" where
  "entry s table index = load64 (vmm_mem s) (table + 8 * index)"

definition set_entry :: "addr \<Rightarrow> u64 \<Rightarrow> u64 \<Rightarrow> vmm_state \<Rightarrow> vmm_state" where
  "set_entry table index v s = s\<lparr>vmm_mem := store64 (vmm_mem s) (table + 8 * index) v\<rparr>"

definition table_walk_alloc :: "addr \<Rightarrow> u64 \<Rightarrow> vmm_state \<Rightarrow> addr \<times> vmm_state" where
  "table_walk_alloc table index s =
     (if entry s table index AND PTE_PRESENT = 0 then
        (let (page, pm) = pmm_alloc_page (vmm_pmm s); s1 = s\<lparr>vmm_pmm := pm\<rparr> in
         if page = 0 then (NULL, s1)
         else let s2 = s1\<lparr>vmm_mem := snd (memset (vmm_mem s1) page 0 PAGE_SIZE)\<rparr>;
                  s3 = set_entry table index (page OR PTE_PRESENT OR PTE_WRITE) s2
              in (entry s3 table index AND NOT 0xFFF, s3))
      else (entry s table index AND NOT 0xFFF, s))"

definition vmm_init :: "addr \<Rightarrow> vmm_state \<Rightarrow> vmm_state" where
  "vmm_init cr3 s = s\<lparr>pml4 := cr3\<rparr>"

text \<open>The four table indices of a virtual address.\<close>

definition idx4 :: "addr \<Rightarrow> u64" where
  "idx4 virt = drop_bit 39 virt AND 0x1FF"

definition idx3 :: "addr \<Rightarrow> u64" where
  "idx3 virt = drop_bit 30 virt AND 0x1FF"

definition idx2 :: "addr \<Rightarrow> u64" where
  "idx2 virt = drop_bit 21 virt AND 0x1FF"

definition idx1 :: "addr \<Rightarrow> u64" where
  "idx1 virt = drop_bit 12 virt AND 0x1FF"

definition vmm_map_page :: "addr \<Rightarrow> addr \<Rightarrow> u64 \<Rightarrow> vmm_state \<Rightarrow> bool \<times> vmm_state" where
  "vmm_map_page virt phys flags s =
     (let (pdpt, s1) = table_walk_alloc (pml4 s) (idx4 virt) s in
      if pdpt = NULL then (False, s1)
      else let (pd, s2) = table_walk_alloc pdpt (idx3 virt) s1 in
        if pd = NULL then (False, s2)
        else if entry s2 pd (idx2 virt) AND PTE_HUGE \<noteq> 0 then (False, s2)
        else let (pt, s3) = table_walk_alloc pd (idx2 virt) s2 in
          if pt = NULL then (False, s3)
          else (True, set_entry pt (idx1 virt)
                  ((phys AND NOT 0xFFF) OR (flags AND 0xFFF) OR PTE_PRESENT) s3))"

definition vmm_unmap_page :: "addr \<Rightarrow> vmm_state \<Rightarrow> bool \<times> vmm_state" where
  "vmm_unmap_page virt s =
     (if entry s (pml4 s) (idx4 virt) AND PTE_PRESENT = 0 then (False, s)
      else let pdpt = entry s (pml4 s) (idx4 virt) AND NOT 0xFFF in
        if entry s pdpt (idx3 virt) AND PTE_PRESENT = 0 then (False, s)
        else let pd = entry s pdpt (idx3 virt) AND NOT 0xFFF in
          if entry s pd (idx2 virt) AND PTE_HUGE \<noteq> 0 then (False, s)
          else if entry s pd (idx2 virt) AND PTE_PRESENT = 0 then (False, s)
          else let pt = entry s pd (idx2 virt) AND NOT 0xFFF in
            (True, set_entry pt (idx1 virt) 0 s))"

definition vmm_resolve :: "addr \<Rightarrow> vmm_state \<Rightarrow> addr" where
  "vmm_resolve virt s =
     (if entry s (pml4 s) (idx4 virt) AND PTE_PRESENT = 0 then 0
      else let pdpt = entry s (pml4 s) (idx4 virt) AND NOT 0xFFF in
        if entry s pdpt (idx3 virt) AND PTE_PRESENT = 0 then 0
        else let pd = entry s pdpt (idx3 virt) AND NOT 0xFFF in
          if entry s pd (idx2 virt) AND PTE_HUGE \<noteq> 0
          then (entry s pd (idx2 virt) AND NOT 0x1FFFFF) + (virt AND 0x1FFFFF)
          else if entry s pd (idx2 virt) AND PTE_PRESENT = 0 then 0
          else let pt = entry s pd (idx2 virt) AND NOT 0xFFF in
            if entry s pt (idx1 virt) AND PTE_PRESENT = 0 then 0
            else (entry s pt (idx1 virt) AND NOT 0xFFF) + (virt AND 0xFFF))"

section \<open>Trees of page tables\<close>

text \<open>
  A level assignment \<open>lev\<close> marks the pages that hold tables: level 4 for the root, 1 for the
  last one. A link leads from an entry that the walk follows to the next table.
\<close>

definition present :: "vmm_state \<Rightarrow> addr \<Rightarrow> u64 \<Rightarrow> bool" where
  "present s t i \<longleftrightarrow> entry s t i AND PTE_PRESENT \<noteq> 0"

definition huge :: "vmm_state \<Rightarrow> addr \<Rightarrow> u64 \<Rightarrow> bool" where
  "huge s t i \<longleftrightarrow> entry s t i AND PTE_HUGE \<noteq> 0"

definition target :: "vmm_state \<Rightarrow> addr \<Rightarrow> u64 \<Rightarrow> addr" where
  "target s t i = entry s t i AND NOT 0xFFF"

definition link :: "vmm_state \<Rightarrow> (addr \<rightharpoonup> nat) \<Rightarrow> addr \<Rightarrow> u64 \<Rightarrow> bool" where
  "link s lev t i \<longleftrightarrow> i < 512 \<and> present s t i \<and>
     (\<exists>k. lev t = Some k \<and> 2 \<le> k \<and> \<not> (k = 2 \<and> huge s t i))"

text \<open>
  The tables form a tree: aligned pages that the page allocator regards as taken, each link
  leading one level down and no table reached by two links.
\<close>

definition tables_ok :: "vmm_state \<Rightarrow> (addr \<rightharpoonup> nat) \<Rightarrow> bool" where
  "tables_ok s lev \<longleftrightarrow> pmm_inv (vmm_pmm s) \<and> lev (pml4 s) = Some 4 \<and>
     (\<forall>t k. lev t = Some k \<longrightarrow> t AND 0xFFF = 0 \<and> t \<noteq> NULL \<and> t div PAGE_SIZE \<in> taken (vmm_pmm s)) \<and>
     (\<forall>t i k. link s lev t i \<longrightarrow> lev t = Some k \<longrightarrow> lev (target s t i) = Some (k - 1)) \<and>
     (\<forall>t i t' i'. link s lev t i \<longrightarrow> link s lev t' i' \<longrightarrow> target s t i = target s t' i' \<longrightarrow> t = t' \<and> i = i')"

section \<open>Entries as cells of aligned tables\<close>

lemma and_fff: "(t :: u64) AND 0xFFF = take_bit 12 t" "(t :: u64) AND NOT 0xFFF = t AND NOT (mask 12)"
  by (simp_all add: take_bit_eq_mask mask_eq_exp_minus_1)

lemma aligned_iff: "(t :: u64) AND 0xFFF = 0 \<longleftrightarrow> unat t mod 4096 = 0"
proof -
  have "unat (take_bit 12 t) = unat t mod 4096"
    by (simp add: take_bit_eq_mod unat_mod)
  then show ?thesis unfolding and_fff by (metis unat_eq_0)
qed

lemma aligned_number:
  assumes "(t :: u64) AND 0xFFF = 0"
  obtains a where "unat t = 4096 * a" "a < 4503599627370496"
proof -
  have "unat t = 4096 * (unat t div 4096)" using assms by (simp add: aligned_iff mod_eq_0_iff_dvd)
  moreover from this have "unat t div 4096 < 4503599627370496" using unat_u64_bound [of t] by linarith
  ultimately show ?thesis by (rule that)
qed

lemma entry_address:
  assumes "t AND 0xFFF = 0" and "(i :: u64) < 512"
  shows "unat (t + 8 * i) = unat t + 8 * unat i" and "unat t + 8 * unat i + 8 \<le> 18446744073709551616"
proof -
  have i: "unat i < 512" using assms(2) by (simp add: word_less_nat_alt)
  obtain a where "unat t = 4096 * a" "a < 4503599627370496" by (rule aligned_number [OF assms(1)])
  then show b: "unat t + 8 * unat i + 8 \<le> 18446744073709551616" using i by linarith
  have "unat (8 * i) = 8 * unat i" using i by (simp add: unat_word_ariths)
  then show "unat (t + 8 * i) = unat t + 8 * unat i" using b by (simp add: unat_add_u64)
qed

lemma aligned_pages_apart:
  assumes "(t :: u64) AND 0xFFF = 0" "t' AND 0xFFF = 0" "t \<noteq> t'"
  shows "unat t + 4096 \<le> unat t' \<or> unat t' + 4096 \<le> unat t"
proof -
  obtain a where a: "unat t = 4096 * a" by (rule aligned_number [OF assms(1)])
  obtain b where b: "unat t' = 4096 * b" by (rule aligned_number [OF assms(2)])
  have "a \<noteq> b" using assms(3) a b by (auto simp: word_unat_eq_iff)
  then show ?thesis using a b by linarith
qed

lemma entries_disjoint:
  assumes "t AND 0xFFF = 0" "(i :: u64) < 512" "t' AND 0xFFF = 0" "i' < 512" "(t, i) \<noteq> (t', i')"
  shows "disjoint_ranges (t + 8 * i) 8 (t' + 8 * i') 8"
proof -
  have i: "unat i < 512" "unat i' < 512" using assms(2,4) by (simp_all add: word_less_nat_alt)
  have "unat t + 8 * unat i + 8 \<le> unat t' + 8 * unat i' \<or> unat t' + 8 * unat i' + 8 \<le> unat t + 8 * unat i"
  proof (cases "t = t'")
    case True
    then have "unat i \<noteq> unat i'" using assms(5) by (simp add: word_unat_eq_iff)
    then show ?thesis using True by auto
  next
    case False
    then show ?thesis using aligned_pages_apart [OF assms(1,3)] i by linarith
  qed
  then show ?thesis
    using entry_address [OF assms(1,2)] entry_address [OF assms(3,4)]
    by (intro disjoint_ranges_nat) simp_all
qed

lemma entry_set_entry:
  assumes "t AND 0xFFF = 0" "i < 512" "t' AND 0xFFF = 0" "i' < 512"
  shows "entry (set_entry t i v s) t' i' = (if t' = t \<and> i' = i then v else entry s t' i')"
  using entries_disjoint [OF assms(3,4,1,2)]
  by (auto simp: entry_def set_entry_def cell64.load_store cell64.load_store_disjoint)

lemma set_entry_frame [simp]: "pml4 (set_entry t i v s) = pml4 s" "vmm_pmm (set_entry t i v s) = vmm_pmm s"
  by (simp_all add: set_entry_def)

lemma idx_bound [simp]: "idx4 v < 512" "idx3 v < 512" "idx2 v < 512" "idx1 v < 512"
proof -
  have "(x :: u64) AND 0x1FF < 512" for x
  proof -
    have "x AND 0x1FF = take_bit 9 x" by (simp add: take_bit_eq_mask mask_eq_exp_minus_1)
    moreover have "unat (take_bit 9 x) < 512" using take_bit_nat_less_exp [of 9 "unat x"]
      by (simp add: unsigned_take_bit_eq)
    ultimately show ?thesis by (simp add: word_less_nat_alt)
  qed
  then show "idx4 v < 512" "idx3 v < 512" "idx2 v < 512" "idx1 v < 512"
    by (simp_all add: idx4_def idx3_def idx2_def idx1_def)
qed

text \<open>Zeroing a page, seen through the entries.\<close>

lemma entry_zeroed:
  assumes "p AND 0xFFF = 0" "t AND 0xFFF = 0" "i < 512"
  shows "entry (s\<lparr>vmm_mem := snd (memset (vmm_mem s) p 0 PAGE_SIZE)\<rparr>) t i = (if t = p then 0 else entry s t i)"
proof -
  let ?m = "poke (vmm_mem s) p (replicate 4096 0)"
  have m: "snd (memset (vmm_mem s) p 0 PAGE_SIZE) = ?m"
    by (simp add: memset_def memset_loop_poke PAGE_SIZE_def)
  note ea = entry_address [OF assms(2,3)]
  have i: "unat i < 512" using assms(3) by (simp add: word_less_nat_alt)
  have pb: "unat p + 4096 \<le> 18446744073709551616" by (rule aligned_number [OF assms(1)]) linarith
  show ?thesis
  proof (cases "t = p")
    case True
    have z: "?m x = 0" if "in_range x (t + 8 * i) 8" for x
    proof -
      have "unat t + 8 * unat i \<le> unat x" "unat x < unat t + 8 * unat i + 8"
        using that ea by (simp_all add: in_range_nat)
      then have "in_range x p 4096" using True i pb by (simp add: in_range_nat)
      then show ?thesis by (simp add: poke_apply in_range_def)
    qed
    have "load64 ?m (t + 8 * i) = load64 (\<lambda>_. 0) (t + 8 * i)" by (rule load64_cong) (rule z)
    then show ?thesis using True m by (simp add: entry_def load64_def peek_def upt_rec)
  next
    case False
    then have sep: "unat t + 4096 \<le> unat p \<or> unat p + 4096 \<le> unat t"
      by (rule aligned_pages_apart [OF assms(2,1)])
    have "?m x = vmm_mem s x" if "in_range x (t + 8 * i) 8" for x
    proof -
      have "unat t + 8 * unat i \<le> unat x" "unat x < unat t + 8 * unat i + 8"
        using that ea by (simp_all add: in_range_nat)
      then have "\<not> in_range x p 4096" using sep i pb by (auto simp: in_range_nat)
      then show ?thesis by (simp add: poke_other)
    qed
    then have "load64 ?m (t + 8 * i) = load64 (vmm_mem s) (t + 8 * i)" by (rule load64_cong)
    then show ?thesis using False m by (simp add: entry_def)
  qed
qed

section \<open>Extending the tree by one table\<close>

lemma present_bit: "present s t i \<longleftrightarrow> bit (entry s t i) 0"
  unfolding present_def PTE_PRESENT_def by (rule bit_iff_and_push_bit_not_eq_0 [symmetric])

lemma huge_bit: "huge s t i \<longleftrightarrow> bit (entry s t i) 7"
  unfolding huge_def PTE_HUGE_def by (rule bit_iff_and_push_bit_not_eq_0 [symmetric])

lemma aligned_bits: "(t :: u64) AND 0xFFF = 0 \<Longrightarrow> n < 12 \<Longrightarrow> \<not> bit t n"
  unfolding and_fff by (metis bit_0_eq bit_take_bit_iff bot_apply bot_bool_def)

lemma target_aligned: "target s t i AND 0xFFF = 0"
  unfolding target_def and_fff by (rule bit_word_eqI) (auto simp: bit_simps)

lemma bit_pte: "bit PTE_PRESENT n \<longleftrightarrow> n = 0" "bit PTE_WRITE n \<longleftrightarrow> n = 1"
  "bit PTE_HUGE n \<longleftrightarrow> n = 7" "bit PTE_NX n \<longleftrightarrow> n = 63"
  by (simp_all only: PTE_PRESENT_def PTE_WRITE_def PTE_HUGE_def PTE_NX_def bit_push_bit_iff)
    (auto simp: bit_1_iff)

lemma table_entry_bits:
  assumes "p AND 0xFFF = 0"
  shows "bit (p OR PTE_PRESENT OR PTE_WRITE) 0" and "\<not> bit (p OR PTE_PRESENT OR PTE_WRITE) 7"
    and "(p OR PTE_PRESENT OR PTE_WRITE) AND NOT 0xFFF = p"
proof -
  have low: "bit p n \<Longrightarrow> 12 \<le> n" for n using aligned_bits [OF assms, of n] by (cases "n < 12") auto
  show "bit (p OR PTE_PRESENT OR PTE_WRITE) 0" "\<not> bit (p OR PTE_PRESENT OR PTE_WRITE) 7"
    using low [of 7] by (auto simp: bit_or_iff bit_pte)
  show "(p OR PTE_PRESENT OR PTE_WRITE) AND NOT 0xFFF = p"
    unfolding and_fff
    by (rule bit_word_eqI) (use low in \<open>force simp: bit_or_iff bit_and_iff bit_not_iff bit_mask_iff bit_pte\<close>)
qed

lemma leaf_entry_bits:
  "bit ((phys AND NOT 0xFFF) OR (flags AND 0xFFF) OR PTE_PRESENT) 0"
  "((phys AND NOT 0xFFF) OR (flags AND 0xFFF) OR PTE_PRESENT) AND NOT 0xFFF = phys AND NOT 0xFFF"
  unfolding and_fff
  by (simp add: bit_or_iff bit_pte)
    (rule bit_word_eqI, auto simp: bit_or_iff bit_and_iff bit_not_iff bit_mask_iff bit_take_bit_iff bit_pte)

lemma tables_okD:
  assumes "tables_ok s lev"
  shows "pmm_inv (vmm_pmm s)" "lev (pml4 s) = Some 4"
    "lev t = Some k \<Longrightarrow> t AND 0xFFF = 0" "lev t = Some k \<Longrightarrow> t \<noteq> NULL"
    "lev t = Some k \<Longrightarrow> t div PAGE_SIZE \<in> taken (vmm_pmm s)"
    "link s lev t i \<Longrightarrow> lev t = Some k \<Longrightarrow> lev (target s t i) = Some (k - 1)"
    "link s lev t i \<Longrightarrow> link s lev t' i' \<Longrightarrow> target s t i = target s t' i' \<Longrightarrow> t = t' \<and> i = i'"
  using assms unfolding tables_ok_def by blast+

lemma alloc_page_fresh:
  assumes inv: "pmm_inv pm" and r: "pmm_alloc_page pm = (a, pm')"
  shows "a = 0 \<Longrightarrow> pm' = pm \<and> free_pages pm = {}"
    and "a \<noteq> 0 \<Longrightarrow> pmm_inv pm' \<and> a AND 0xFFF = 0 \<and> a div PAGE_SIZE \<notin> taken pm \<and>
      a div PAGE_SIZE \<in> taken pm' \<and> taken pm \<subseteq> taken pm'"
proof -
  have r1: "pmm_alloc_pages 1 pm = Some (a, pm')" using r by (simp add: pmm_alloc_pages_def)
  have pos: "0 < (1 :: u64)" by simp
  show "a = 0 \<Longrightarrow> pm' = pm \<and> free_pages pm = {}"
    using pmm.alloc_fail [OF inv pos] r1 alloc_zero_iff [OF inv pos r1] free_runs_1 by auto
  show "a \<noteq> 0 \<Longrightarrow> pmm_inv pm' \<and> a AND 0xFFF = 0 \<and> a div PAGE_SIZE \<notin> taken pm \<and>
      a div PAGE_SIZE \<in> taken pm' \<and> taken pm \<subseteq> taken pm'"
    using pmm.alloc_inv [OF inv pos r1] pmm.alloc_block(1) [OF inv pos r1]
      pmm.alloc_bytes_fresh [OF inv pos r1, of a] pmm.alloc_held_mono [OF inv pos r1]
    by (simp add: aligned_iff)
qed

text \<open>
  What following one link does: it fails when the entry is absent and no page is free; it
  changes nothing when the entry is present; otherwise it links a fresh, empty table.
\<close>

definition extended :: "vmm_state \<Rightarrow> (addr \<rightharpoonup> nat) \<Rightarrow> addr \<Rightarrow> u64 \<Rightarrow> addr \<Rightarrow> vmm_state \<Rightarrow> (addr \<rightharpoonup> nat) \<Rightarrow> bool" where
  "extended s lev t i r s' lev' \<longleftrightarrow> lev r = None \<and> \<not> present s t i \<and> \<not> huge s' t i \<and>
     (\<forall>t' j k. lev t' = Some k \<longrightarrow> j < 512 \<longrightarrow> (t', j) \<noteq> (t, i) \<longrightarrow> entry s' t' j = entry s t' j) \<and>
     (\<forall>j < 512. entry s' r j = 0) \<and> lev' = lev(r \<mapsto> the (lev t) - 1)"

lemma walk_alloc_effect:
  assumes ok: "tables_ok s lev" and t: "lev t = Some k" "2 \<le> k" "i < 512"
    and h: "k = 2 \<longrightarrow> \<not> huge s t i" and r: "table_walk_alloc t i s = (r, s')"
  shows "r = NULL \<and> s' = s \<and> \<not> present s t i \<and> free_pages (vmm_pmm s) = {} \<or>
    r \<noteq> NULL \<and> pml4 s' = pml4 s \<and> (\<exists>lev'. tables_ok s' lev' \<and> link s' lev' t i \<and> target s' t i = r \<and>
      lev' r = Some (k - 1) \<and> (\<forall>t' k'. lev t' = Some k' \<longrightarrow> lev' t' = Some k') \<and>
      (s' = s \<and> lev' = lev \<or> extended s lev t i r s' lev'))"
proof (cases "present s t i")
  case True
  then have "r = target s t i" "s' = s"
    using r by (auto simp: table_walk_alloc_def present_def target_def)
  moreover have "link s lev t i" using True t h by (auto simp: link_def)
  ultimately show ?thesis
    using tables_okD(6) [OF ok _ t(1)] tables_okD(4) [OF ok] ok by auto
next
  case False
  obtain a pm where a: "pmm_alloc_page (vmm_pmm s) = (a, pm)" by (cases "pmm_alloc_page (vmm_pmm s)")
  note af = alloc_page_fresh [OF tables_okD(1) [OF ok] a]
  show ?thesis
  proof (cases "a = 0")
    case True
    then show ?thesis using False r a af(1) by (simp add: table_walk_alloc_def present_def)
  next
    case nz: False
    define s2 where "s2 = s\<lparr>vmm_pmm := pm, vmm_mem := snd (memset (vmm_mem s) a 0 PAGE_SIZE)\<rparr>"
    let ?v = "a OR PTE_PRESENT OR PTE_WRITE"
    have eq: "s' = set_entry t i ?v s2" "r = entry s' t i AND NOT 0xFFF"
      using False nz r a by (auto simp: table_walk_alloc_def present_def s2_def Let_def)
    have al: "a AND 0xFFF = 0" using af(2) nz by simp
    have ta: "t AND 0xFFF = 0" using tables_okD(3) [OF ok t(1)] .
    have ent: "entry s' t' j = (if t' = t \<and> j = i then ?v else if t' = a then 0 else entry s t' j)"
      if "t' AND 0xFFF = 0" "j < 512" for t' j
    proof -
      have "entry s2 t' j = (if t' = a then 0 else entry s t' j)"
        using entry_zeroed [OF al that, of "s\<lparr>vmm_pmm := pm\<rparr>"] by (auto simp: s2_def entry_def)
      then show ?thesis using entry_set_entry [OF ta t(3) that, of ?v s2] by (auto simp: eq(1))
    qed
    have ra: "r = a" using ent [OF ta t(3)] table_entry_bits(3) [OF al] eq(2) by simp
    have new: "lev a = None" using tables_okD(5) [OF ok, of a] af(2) nz by (cases "lev a") auto
    let ?lev = "lev(a \<mapsto> k - 1)"
    have "t \<noteq> a" using t(1) new by auto
    have old: "entry s' t' j = entry s t' j" if "lev t' = Some k'" "j < 512" "(t', j) \<noteq> (t, i)" for t' j k'
      using ent [OF tables_okD(3) [OF ok that(1)] that(2)] that new by auto
    have zero: "entry s' a j = 0" if "j < 512" for j using ent [OF al that] \<open>t \<noteq> a\<close> by simp
    have v: "entry s' t i = ?v" using ent [OF ta t(3)] by simp
    have lk: "link s' ?lev t i" "target s' t i = a"
      using t \<open>t \<noteq> a\<close> v table_entry_bits [OF al] by (auto simp: link_def present_bit huge_bit target_def)
    have links: "t' = t \<and> j = i \<or> link s lev t' j \<and> target s' t' j = target s t' j \<and> ?lev t' = lev t'"
      if "link s' ?lev t' j" for t' j
    proof (cases "t' = a")
      case True
      then show ?thesis using that zero [of j] by (simp add: link_def present_bit)
    next
      case False
      then have "(t', j) = (t, i) \<or> entry s' t' j = entry s t' j"
        using that old [of t' _ j] by (auto simp: link_def)
      then show ?thesis using that False by (auto simp: link_def present_bit huge_bit target_def)
    qed
    have "pmm_inv pm" "taken (vmm_pmm s) \<subseteq> taken pm" "a div PAGE_SIZE \<in> taken pm" using af(2) nz by auto
    moreover have "vmm_pmm s' = pm" "pml4 s' = pml4 s" by (simp_all add: eq(1) s2_def)
    moreover have "?lev (target s' t' j) = Some (k' - 1)" if "link s' ?lev t' j" "?lev t' = Some k'" for t' j k'
      using links [OF that(1)] that(2) lk t(1) \<open>t \<noteq> a\<close> tables_okD(6) [OF ok, of t' j k'] new by auto
    moreover have "t1 = t2 \<and> j1 = j2"
      if "link s' ?lev t1 j1" "link s' ?lev t2 j2" "target s' t1 j1 = target s' t2 j2" for t1 j1 t2 j2
    proof -
      have no: "target s' t' j \<noteq> a" if "link s lev t' j" "target s' t' j = target s t' j" for t' j
        using tables_okD(6) [OF ok that(1)] that(2) new that(1) by (auto simp: link_def)
      show ?thesis using links [OF that(1)] links [OF that(2)] that(3) lk(2) no tables_okD(7) [OF ok] by metis
    qed
    moreover have "t' AND 0xFFF = 0 \<and> t' \<noteq> NULL \<and> t' div PAGE_SIZE \<in> taken pm" if "?lev t' = Some k'" for t' k'
      using that al nz af(2) tables_okD(3-5) [OF ok, of t' k']
      by (cases "t' = a") (auto simp only: fun_upd_apply NULL_def if_True if_False simp_thms)
    moreover have "?lev (pml4 s) = Some 4" using tables_okD(2) [OF ok] new by auto
    ultimately have "tables_ok s' ?lev" unfolding tables_ok_def by metis
    moreover have "extended s lev t i a s' ?lev"
      using False new old zero t(1) v table_entry_bits(2) [OF al] by (auto simp: extended_def huge_bit)
    ultimately show ?thesis
      using lk ra nz new \<open>pml4 s' = pml4 s\<close> by (intro disjI2) (auto simp: NULL_def intro!: exI [of _ ?lev])
  qed
qed

section \<open>Resolution along the tree\<close>

definition idx :: "nat \<Rightarrow> addr \<Rightarrow> u64" where
  "idx k v = (if k = 1 then idx1 v else if k = 2 then idx2 v else if k = 3 then idx3 v else idx4 v)"

lemma idx_less [simp]: "idx k v < 512"
  by (simp add: idx_def)

text \<open>Resolution from a table of level \<open>k\<close> on, and the last table it reaches.\<close>

primrec resolve_at :: "nat \<Rightarrow> vmm_state \<Rightarrow> addr \<Rightarrow> addr \<Rightarrow> addr" where
  "resolve_at 0 s t v = t + (v AND 0xFFF)"
| "resolve_at (Suc k) s t v =
     (if k = 1 \<and> huge s t (idx (Suc k) v) then (entry s t (idx (Suc k) v) AND NOT 0x1FFFFF) + (v AND 0x1FFFFF)
      else if present s t (idx (Suc k) v) then resolve_at k s (target s t (idx (Suc k) v)) v else 0)"

primrec leaf_at :: "nat \<Rightarrow> vmm_state \<Rightarrow> addr \<Rightarrow> addr \<Rightarrow> addr option" where
  "leaf_at 0 s t v = None"
| "leaf_at (Suc k) s t v =
     (if k = 0 then Some t
      else if \<not> (k = 1 \<and> huge s t (idx (Suc k) v)) \<and> present s t (idx (Suc k) v)
      then leaf_at k s (target s t (idx (Suc k) v)) v else None)"

lemma vmm_resolve_at: "vmm_resolve v s = resolve_at 4 s (pml4 s) v"
proof -
  have "(4 :: nat) = Suc (Suc (Suc (Suc 0)))" by simp
  then show ?thesis
    by (simp only: resolve_at.simps) (simp add: vmm_resolve_def Let_def idx_def huge_def target_def present_def)
qed

lemma followed_link:
  assumes "tables_ok s lev" "lev t = Some (Suc k)" "0 < k"
    "\<not> (k = 1 \<and> huge s t (idx (Suc k) v))" "present s t (idx (Suc k) v)"
  shows "link s lev t (idx (Suc k) v)" and "lev (target s t (idx (Suc k) v)) = Some k"
proof -
  show "link s lev t (idx (Suc k) v)" using assms(2-5) by (auto simp: link_def)
  from tables_okD(6) [OF assms(1) this assms(2)] show "lev (target s t (idx (Suc k) v)) = Some k" by simp
qed

lemma resolve_extended:
  assumes ok: "tables_ok s lev" and e: "extended s lev t0 i0 r s' lev'" and t0: "lev t0 = Some k0" "2 \<le> k0"
    and tgt: "target s' t0 i0 = r" and h: "k0 = 2 \<longrightarrow> \<not> huge s t0 i0"
  shows "lev t = Some k \<Longrightarrow> 0 < k \<Longrightarrow> resolve_at k s' t v = resolve_at k s t v"
proof (induction k arbitrary: t)
  case (Suc k)
  show ?case
  proof (cases "(t, idx (Suc k) v) = (t0, i0)")
    case False
    then have "entry s' t (idx (Suc k) v) = entry s t (idx (Suc k) v)"
      using e Suc.prems by (auto simp: extended_def)
    then have same: "huge s' t (idx (Suc k) v) = huge s t (idx (Suc k) v)"
      "present s' t (idx (Suc k) v) = present s t (idx (Suc k) v)"
      "target s' t (idx (Suc k) v) = target s t (idx (Suc k) v)"
      "entry s' t (idx (Suc k) v) = entry s t (idx (Suc k) v)"
      by (simp_all add: huge_def present_def target_def)
    have "resolve_at k s' (target s t (idx (Suc k) v)) v = resolve_at k s (target s t (idx (Suc k) v)) v"
      if "\<not> (k = 1 \<and> huge s t (idx (Suc k) v))" "present s t (idx (Suc k) v)"
    proof (cases "k = 0")
      case False
      then show ?thesis using Suc.IH followed_link(2) [OF ok Suc.prems(1) _ that] by blast
    qed simp
    then show ?thesis unfolding resolve_at.simps same by (intro if_cong refl) blast
  next
    case True
    then have k: "Suc k = k0" using Suc.prems t0 by simp
    then obtain j where j: "k = Suc j" using t0(2) by (cases k) auto
    have "entry s' r i = 0" if "i < 512" for i using e that by (auto simp: extended_def)
    then have "resolve_at k s' r v = 0" using j by (simp add: huge_def present_def)
    moreover have "\<not> present s t (idx (Suc k) v)" "\<not> huge s' t (idx (Suc k) v)"
      using e True by (auto simp: extended_def)
    ultimately show ?thesis using True tgt h k by auto
  qed
qed simp

lemma leaf_at_idx:
  "(\<And>j. 2 \<le> j \<Longrightarrow> j \<le> k \<Longrightarrow> idx j v = idx j v') \<Longrightarrow> leaf_at k s t v = leaf_at k s t v'"
  by (induction k arbitrary: t) auto

lemma leaf_injective:
  assumes ok: "tables_ok s lev"
  shows "lev t = Some k \<Longrightarrow> lev t' = Some k \<Longrightarrow> leaf_at k s t v = Some p \<Longrightarrow> leaf_at k s t' v' = Some p \<Longrightarrow>
    t = t' \<and> (\<forall>j. 2 \<le> j \<longrightarrow> j \<le> k \<longrightarrow> idx j v = idx j v')"
proof (induction k arbitrary: t t')
  case (Suc k)
  show ?case
  proof (cases "k = 0")
    case True
    then show ?thesis using Suc.prems by auto
  next
    case False
    then have c: "\<not> (k = 1 \<and> huge s t (idx (Suc k) v))" "present s t (idx (Suc k) v)"
      "leaf_at k s (target s t (idx (Suc k) v)) v = Some p"
      and c': "\<not> (k = 1 \<and> huge s t' (idx (Suc k) v'))" "present s t' (idx (Suc k) v')"
      "leaf_at k s (target s t' (idx (Suc k) v')) v' = Some p"
      using Suc.prems(3,4) by (auto split: if_splits)
    note f = followed_link [OF ok Suc.prems(1) _ c(1,2)] and f' = followed_link [OF ok Suc.prems(2) _ c'(1,2)]
    have ih: "target s t (idx (Suc k) v) = target s t' (idx (Suc k) v')"
      "\<forall>j. 2 \<le> j \<longrightarrow> j \<le> k \<longrightarrow> idx j v = idx j v'"
      using Suc.IH [OF f(2) f'(2) c(3) c'(3)] False by auto
    from tables_okD(7) [OF ok f(1) f'(1) ih(1)] False ih(2) show ?thesis by (auto simp: le_Suc_eq)
  qed
qed simp

lemma leaf_same:
  assumes ok: "tables_ok s lev" and t: "lev t = Some 4" and p: "leaf_at 4 s t v' = Some p"
  shows "leaf_at 4 s t v = Some p \<longleftrightarrow> idx4 v = idx4 v' \<and> idx3 v = idx3 v' \<and> idx2 v = idx2 v'"
proof
  assume "leaf_at 4 s t v = Some p"
  from leaf_injective [OF ok t t this p] have i: "idx j v = idx j v'" if "2 \<le> j" "j \<le> 4" for j
    using that by blast
  show "idx4 v = idx4 v' \<and> idx3 v = idx3 v' \<and> idx2 v = idx2 v'"
    using i [of 4] i [of 3] i [of 2] by (simp add: idx_def)
next
  assume "idx4 v = idx4 v' \<and> idx3 v = idx3 v' \<and> idx2 v = idx2 v'"
  then have "idx j v = idx j v'" if "2 \<le> j" "j \<le> 4" for j using that by (simp add: idx_def)
  then show "leaf_at 4 s t v = Some p" using p leaf_at_idx [of 4 v v'] by simp
qed

text \<open>Writing an entry of a last-level table.\<close>

lemma set_leaf_entry:
  assumes ok: "tables_ok s lev" and p: "lev p = Some 1" "i < 512" and s': "s' = set_entry p i x s"
  shows "tables_ok s' lev" and "lev t = Some k \<Longrightarrow> 2 \<le> k \<Longrightarrow> j < 512 \<Longrightarrow> entry s' t j = entry s t j"
    and "lev t = Some k \<Longrightarrow> leaf_at k s' t v = leaf_at k s t v"
    and "lev t = Some k \<Longrightarrow> resolve_at k s' t v =
      (if leaf_at k s t v = Some p \<and> idx1 v = i
       then (if bit x 0 then (x AND NOT 0xFFF) + (v AND 0xFFF) else 0) else resolve_at k s t v)"
proof -
  have e: "entry s' t j = (if t = p \<and> j = i then x else entry s t j)" if "lev t = Some k" "j < 512" for t k j
    using entry_set_entry [OF _ p(2)] tables_okD(3) [OF ok] that p(1) by (simp add: s')
  show up: "lev t = Some k \<Longrightarrow> 2 \<le> k \<Longrightarrow> j < 512 \<Longrightarrow> entry s' t j = entry s t j" for t k j
    using e [of t k j] p(1) by auto
  have fr: "pml4 s' = pml4 s" "vmm_pmm s' = vmm_pmm s" by (simp_all add: s')
  have lk: "link s' lev t j = link s lev t j" "link s lev t j \<Longrightarrow> target s' t j = target s t j" for t j
    using up [of t _ j] by (auto simp: link_def present_def huge_def target_def)
  show "tables_ok s' lev" using ok lk unfolding tables_ok_def fr by (metis lk)
  have same: "huge s' t (idx (Suc k) v) = huge s t (idx (Suc k) v)"
      "present s' t (idx (Suc k) v) = present s t (idx (Suc k) v)"
      "target s' t (idx (Suc k) v) = target s t (idx (Suc k) v)"
      "entry s' t (idx (Suc k) v) = entry s t (idx (Suc k) v)" if "lev t = Some (Suc k)" "0 < k" for t k
    using up [OF that(1)] that(2) by (simp_all add: huge_def present_def target_def)
  show lf: "lev t = Some k \<Longrightarrow> leaf_at k s' t v = leaf_at k s t v" for t k
  proof (induction k arbitrary: t)
    case (Suc k)
    show ?case
    proof (cases "k = 0")
      case False
      then show ?thesis
        using Suc.IH followed_link(2) [OF ok Suc.prems, of v] same [OF Suc.prems] by auto
    qed simp
  qed simp
  show "lev t = Some k \<Longrightarrow> resolve_at k s' t v =
      (if leaf_at k s t v = Some p \<and> idx1 v = i
       then (if bit x 0 then (x AND NOT 0xFFF) + (v AND 0xFFF) else 0) else resolve_at k s t v)" for t
  proof (induction k arbitrary: t)
    case (Suc k)
    show ?case
    proof (cases "k = 0")
      case True
      then have "idx (Suc k) v = idx1 v" by (simp add: idx_def)
      then show ?thesis using e [OF Suc.prems, of "idx1 v"] True
        by (cases "t = p \<and> idx1 v = i") (auto simp: present_bit target_def)
    next
      case False
      note sm = same [OF Suc.prems] and fl = followed_link(2) [OF ok Suc.prems, of v]
      show ?thesis
      proof (cases "\<not> (k = 1 \<and> huge s t (idx (Suc k) v)) \<and> present s t (idx (Suc k) v)")
        case True
        then have nh: "(k = 1 \<and> huge s t (idx (Suc k) v)) = False" and pr: "present s t (idx (Suc k) v) = True"
          by blast+
        have "(k = 0) = False" using False by simp
        then show ?thesis
          using Suc.IH [OF fl] False True
          by (simp only: resolve_at.simps leaf_at.simps sm nh pr if_True if_False simp_thms)
      next
        case f: False
        then show ?thesis using False sm unfolding resolve_at.simps leaf_at.simps by auto
      qed
    qed
  qed simp
qed

lemma alloc_page_cost:
  "pmm_alloc_page pm = (a, pm') \<Longrightarrow> card (free_pages pm) \<le> Suc (card (free_pages pm'))"
proof -
  assume r: "pmm_alloc_page pm = (a, pm')"
  show ?thesis
  proof (cases "free_pages pm = {}")
    case False
    let ?q = "Min (free_pages pm)"
    have "free_pages (take_page ?q pm) = free_pages pm - {?q}"
      by (auto simp: free_pages_def take_page_def)
    then show ?thesis using r False alloc_page_cases [of pm]
      by (simp add: card_Diff_singleton_if)
  qed simp
qed

lemma walk_cost:
  "table_walk_alloc t i s = (r, s') \<Longrightarrow> card (free_pages (vmm_pmm s)) \<le> Suc (card (free_pages (vmm_pmm s')))"
  using alloc_page_cost [of "vmm_pmm s"]
  by (auto simp: table_walk_alloc_def Let_def set_entry_def split: if_splits prod.splits)

text \<open>One walk step keeps every resolution, and a link that was there stays.\<close>

lemma walk_step:
  assumes ok: "tables_ok s lev" and t: "lev t = Some k" "2 \<le> k" "i < 512"
    and h: "k = 2 \<longrightarrow> \<not> huge s t i" and r: "table_walk_alloc t i s = (r, s')"
  shows "(\<forall>v. vmm_resolve v s' = vmm_resolve v s) \<and> (\<exists>lev'. tables_ok s' lev' \<and>
    (r = NULL \<longrightarrow> card (free_pages (vmm_pmm s)) = 0) \<and>
    (r \<noteq> NULL \<longrightarrow> (if present s t i then s' = s else \<forall>j<512. entry s' r j = 0)) \<and>
    (r \<noteq> NULL \<longrightarrow> link s' lev' t i \<and> target s' t i = r \<and> lev' r = Some (k - 1)) \<and>
    (\<forall>t' j. link s lev t' j \<longrightarrow> link s' lev' t' j \<and> target s' t' j = target s t' j) \<and>
    (\<forall>t' k'. lev t' = Some k' \<longrightarrow> lev' t' = Some k') \<and> pml4 s' = pml4 s)"
  using walk_alloc_effect [OF ok t h r]
proof (elim disjE conjE exE)
  assume "r = NULL" "s' = s" "free_pages (vmm_pmm s) = {}"
  then show ?thesis using ok by auto
next
  fix lev'
  assume a: "tables_ok s' lev'" "link s' lev' t i" "target s' t i = r" "lev' r = Some (k - 1)"
    "\<forall>t' k'. lev t' = Some k' \<longrightarrow> lev' t' = Some k'" "pml4 s' = pml4 s" "r \<noteq> NULL"
    and e: "extended s lev t i r s' lev'"
  have "vmm_resolve v s' = vmm_resolve v s" for v
    using resolve_extended [OF ok e t(1,2) a(3) h tables_okD(2) [OF ok]] a(6) by (simp add: vmm_resolve_at)
  moreover have "link s' lev' t' j \<and> target s' t' j = target s t' j" if l: "link s lev t' j" for t' j
  proof -
    have "(t', j) \<noteq> (t, i)" using l e by (auto simp: extended_def link_def)
    then have "entry s' t' j = entry s t' j" using l e by (auto simp: extended_def link_def)
    then show ?thesis using l a(5) by (auto simp: link_def present_def huge_def target_def)
  qed
  moreover have "if present s t i then s' = s else \<forall>j<512. entry s' r j = 0"
    using e by (auto simp: extended_def)
  ultimately show ?thesis using a by blast
qed (use ok in \<open>auto simp: link_def\<close>)

text \<open>The address lies in a 2 MiB page.\<close>

definition huge_mapped :: "addr \<Rightarrow> vmm_state \<Rightarrow> bool" where
  "huge_mapped v s \<longleftrightarrow> present s (pml4 s) (idx4 v) \<and> present s (target s (pml4 s) (idx4 v)) (idx3 v) \<and>
     huge s (target s (target s (pml4 s) (idx4 v)) (idx3 v)) (idx2 v)"

lemma link_levels:
  assumes "link s lev t i" "lev t = Some k"
  shows "present s t i" "\<not> (k = 2 \<and> huge s t i)"
  using assms by (auto simp: link_def)

lemma map_page_effect:
  assumes ok: "tables_ok s lev" and m: "vmm_map_page virt phys flags s = (b, s')"
  shows "\<exists>lev'. tables_ok s' lev' \<and>
    (\<not> b \<longrightarrow> (\<forall>v. vmm_resolve v s' = vmm_resolve v s) \<and>
      (huge_mapped virt s \<or> card (free_pages (vmm_pmm s)) < 3)) \<and> (huge_mapped virt s \<longrightarrow> \<not> b) \<and>
    (b \<longrightarrow> (\<forall>v. vmm_resolve v s' =
      (if idx4 v = idx4 virt \<and> idx3 v = idx3 virt \<and> idx2 v = idx2 virt \<and> idx1 v = idx1 virt
       then (phys AND NOT 0xFFF) + (v AND 0xFFF) else vmm_resolve v s)))"
proof -
  obtain r1 s1 where 1: "table_walk_alloc (pml4 s) (idx4 virt) s = (r1, s1)"
    by (cases "table_walk_alloc (pml4 s) (idx4 virt) s")
  obtain lev1 where w1: "\<forall>v. vmm_resolve v s1 = vmm_resolve v s" "tables_ok s1 lev1" "pml4 s1 = pml4 s"
    "r1 \<noteq> NULL \<longrightarrow> link s1 lev1 (pml4 s) (idx4 virt) \<and> target s1 (pml4 s) (idx4 virt) = r1 \<and> lev1 r1 = Some 3"
    "r1 \<noteq> NULL \<longrightarrow> (if present s (pml4 s) (idx4 virt) then s1 = s else \<forall>j<512. entry s1 r1 j = 0)"
    "r1 = NULL \<longrightarrow> card (free_pages (vmm_pmm s)) = 0"
    using walk_step [OF ok tables_okD(2) [OF ok] _ _ _ 1] by auto
  show ?thesis
  proof (cases "r1 = NULL")
    case True
    then have "\<not> b" "s' = s1" using m 1 by (simp_all add: vmm_map_page_def)
    moreover have "card (free_pages (vmm_pmm s)) < 3" using w1(6) True by simp
    ultimately show ?thesis using w1(1,2) by blast
  next
    case r1: False
    obtain r2 s2 where 2: "table_walk_alloc r1 (idx3 virt) s1 = (r2, s2)"
      by (cases "table_walk_alloc r1 (idx3 virt) s1")
    obtain lev2 where w2: "\<forall>v. vmm_resolve v s2 = vmm_resolve v s1" "tables_ok s2 lev2" "pml4 s2 = pml4 s1"
      "r2 \<noteq> NULL \<longrightarrow> link s2 lev2 r1 (idx3 virt) \<and> target s2 r1 (idx3 virt) = r2 \<and> lev2 r2 = Some 2"
      "\<forall>t j. link s1 lev1 t j \<longrightarrow> link s2 lev2 t j \<and> target s2 t j = target s1 t j"
      "\<forall>t k. lev1 t = Some k \<longrightarrow> lev2 t = Some k"
      "r2 \<noteq> NULL \<longrightarrow> (if present s1 r1 (idx3 virt) then s2 = s1 else \<forall>j<512. entry s2 r2 j = 0)"
      "r2 = NULL \<longrightarrow> card (free_pages (vmm_pmm s1)) = 0"
      using walk_step [OF w1(2), of r1 3 "idx3 virt" r2 s2] w1(4) r1 2 by auto
    show ?thesis
    proof (cases "r2 = NULL \<or> entry s2 r2 (idx2 virt) AND PTE_HUGE \<noteq> 0")
      case True
      then have "\<not> b" "s' = s2" using m 1 2 r1 by (auto simp: vmm_map_page_def split: if_splits)
      moreover have "huge_mapped virt s \<or> card (free_pages (vmm_pmm s)) < 3"
      proof (cases "r2 = NULL")
        case False
        then have h: "huge s2 r2 (idx2 virt)" using True by (simp add: huge_def)
        then have p1: "present s1 r1 (idx3 virt)" "s2 = s1" using w2(7) False by (auto simp: huge_def split: if_splits)
        then have "present s (pml4 s) (idx4 virt)" "s1 = s" using w1(5) r1 by (auto simp: present_def split: if_splits)
        then show ?thesis using h p1 w1(4) w2(4) r1 False by (auto simp: huge_mapped_def)
      qed (use w2(8) walk_cost [OF 1] in simp)
      ultimately show ?thesis using w1(1) w2(1,2) by (intro exI [of _ lev2]) auto
    next
      case r2: False
      obtain r3 s3 where 3: "table_walk_alloc r2 (idx2 virt) s2 = (r3, s3)"
        by (cases "table_walk_alloc r2 (idx2 virt) s2")
      obtain lev3 where w3: "\<forall>v. vmm_resolve v s3 = vmm_resolve v s2" "tables_ok s3 lev3" "pml4 s3 = pml4 s2"
        "r3 \<noteq> NULL \<longrightarrow> link s3 lev3 r2 (idx2 virt) \<and> target s3 r2 (idx2 virt) = r3 \<and> lev3 r3 = Some 1"
        "\<forall>t j. link s2 lev2 t j \<longrightarrow> link s3 lev3 t j \<and> target s3 t j = target s2 t j"
        "\<forall>t k. lev2 t = Some k \<longrightarrow> lev3 t = Some k" "r3 = NULL \<longrightarrow> card (free_pages (vmm_pmm s2)) = 0"
        using walk_step [OF w2(2), of r2 2 "idx2 virt" r3 s3] w2(4) r2 3 by (auto simp: huge_def)
      show ?thesis
      proof (cases "r3 = NULL")
        case True
        then have "\<not> b" "s' = s3" using m 1 2 3 r1 r2 by (simp_all add: vmm_map_page_def)
        moreover have "card (free_pages (vmm_pmm s)) < 3"
          using w3(7) True walk_cost [OF 1] walk_cost [OF 2] by simp
        ultimately show ?thesis using w1(1) w2(1) w3(1,2) by (intro exI [of _ lev3]) auto
      next
        case r3: False
        let ?x = "(phys AND NOT 0xFFF) OR (flags AND 0xFFF) OR PTE_PRESENT"
        have b: "b" "s' = set_entry r3 (idx1 virt) ?x s3"
          using m 1 2 3 r1 r2 r3 by (auto simp: vmm_map_page_def)
        note sl = set_leaf_entry [OF w3(2) _ idx_bound(4) b(2)]
        have lev3: "lev3 r3 = Some 1" "lev3 (pml4 s) = Some 4" "lev3 r1 = Some 3" "lev3 r2 = Some 2"
          using w1 w2 w3 r1 r2 r3 tables_okD(2) [OF w3(2)] by auto
        have links: "link s3 lev3 (pml4 s) (idx4 virt)" "target s3 (pml4 s) (idx4 virt) = r1"
          "link s3 lev3 r1 (idx3 virt)" "target s3 r1 (idx3 virt) = r2"
          "link s3 lev3 r2 (idx2 virt)" "target s3 r2 (idx2 virt) = r3"
          using w1 w2 w3 r1 r2 r3 by auto
        have four: "(4 :: nat) = Suc (Suc (Suc (Suc 0)))" by simp
        have lf: "leaf_at 4 s3 (pml4 s) virt = Some r3"
          using link_levels [OF links(5) lev3(4)] unfolding four
          by (simp add: idx_def links(2,4,6) link_levels(1) [OF links(1) lev3(2)]
              link_levels(1) [OF links(3) lev3(3)])
        have same: "leaf_at 4 s3 (pml4 s) v = Some r3 \<longleftrightarrow>
            idx4 v = idx4 virt \<and> idx3 v = idx3 virt \<and> idx2 v = idx2 virt" for v
          by (rule leaf_same [OF w3(2) lev3(2) lf])
        note x = leaf_entry_bits [of phys flags]
        have "vmm_resolve v s' = (if idx4 v = idx4 virt \<and> idx3 v = idx3 virt \<and> idx2 v = idx2 virt \<and> idx1 v = idx1 virt
             then (phys AND NOT 0xFFF) + (v AND 0xFFF) else vmm_resolve v s)" for v
          using sl(4) [OF lev3(1) lev3(2), of v] same [of v] x w1(1,3) w2(1,3) w3(1,3) b(2)
          by (simp add: vmm_resolve_at)
        moreover have "\<not> huge_mapped virt s"
        proof
          assume h: "huge_mapped virt s"
          then have "s1 = s" using w1(5) r1 by (simp add: huge_mapped_def)
          then have "s2 = s" using h w1(4) w2(7) r1 r2 by (simp add: huge_mapped_def)
          then show False
            using h r2 w1(4) w2(4) r1 \<open>s1 = s\<close> by (auto simp: huge_mapped_def huge_def)
        qed
        ultimately show ?thesis using sl(1) [OF lev3(1)] b(1) by blast
      qed
    qed
  qed
qed

text \<open>Unmapping in terms of the tree.\<close>

lemma unmap_page_effect:
  assumes ok: "tables_ok s lev" and m: "vmm_unmap_page virt s = (b, s')"
  shows "tables_ok s' lev \<and> (\<not> b \<longrightarrow> s' = s \<and> (huge_mapped virt s \<or> vmm_resolve virt s = 0)) \<and>
    (b \<longrightarrow> (\<forall>v. vmm_resolve v s' =
      (if idx4 v = idx4 virt \<and> idx3 v = idx3 virt \<and> idx2 v = idx2 virt \<and> idx1 v = idx1 virt
       then 0 else vmm_resolve v s)))"
proof -
  let ?r1 = "target s (pml4 s) (idx4 virt)"
  let ?r2 = "target s ?r1 (idx3 virt)"
  let ?r3 = "target s ?r2 (idx2 virt)"
  let ?c = "present s (pml4 s) (idx4 virt) \<and> present s ?r1 (idx3 virt) \<and>
    \<not> huge s ?r2 (idx2 virt) \<and> present s ?r2 (idx2 virt)"
  have def: "vmm_unmap_page virt s = (if ?c then (True, set_entry ?r3 (idx1 virt) 0 s) else (False, s))"
    unfolding vmm_unmap_page_def present_def huge_def target_def Let_def by auto
  have four: "(4 :: nat) = Suc (Suc (Suc (Suc 0)))" by simp
  show ?thesis
  proof (cases ?c)
    case False
    then have "huge_mapped virt s \<or> vmm_resolve virt s = 0"
      unfolding vmm_resolve_def Let_def huge_mapped_def present_def huge_def target_def by auto
    then show ?thesis using False def m ok by auto
  next
    case c: True
    have s': "b" "s' = set_entry ?r3 (idx1 virt) 0 s" using c def m by auto
    have l4: "lev (pml4 s) = Some 4" by (rule tables_okD(2) [OF ok])
    have k1: "link s lev (pml4 s) (idx4 virt)" using c l4 by (auto simp: link_def)
    then have l3: "lev ?r1 = Some 3" using tables_okD(6) [OF ok k1 l4] by simp
    have k2: "link s lev ?r1 (idx3 virt)" using c l3 by (auto simp: link_def)
    then have l2: "lev ?r2 = Some 2" using tables_okD(6) [OF ok k2 l3] by simp
    have k3: "link s lev ?r2 (idx2 virt)" using c l2 by (auto simp: link_def)
    then have l1: "lev ?r3 = Some 1" using tables_okD(6) [OF ok k3 l2] by simp
    have lf: "leaf_at 4 s (pml4 s) virt = Some ?r3" unfolding four using c by (simp add: idx_def)
    have same: "leaf_at 4 s (pml4 s) v = Some ?r3 \<longleftrightarrow>
        idx4 v = idx4 virt \<and> idx3 v = idx3 virt \<and> idx2 v = idx2 virt" for v
      by (rule leaf_same [OF ok l4 lf])
    note sl = set_leaf_entry [OF ok l1 idx_bound(4) s'(2)]
    have "vmm_resolve v s' = (if idx4 v = idx4 virt \<and> idx3 v = idx3 virt \<and> idx2 v = idx2 virt \<and> idx1 v = idx1 virt
        then 0 else vmm_resolve v s)" for v
      using sl(4) [OF l4, of v] same [of v] s'(2) by (simp add: vmm_resolve_at)
    then show ?thesis using s'(1) sl(1) by blast
  qed
qed

section \<open>Properties\<close>

text \<open>
  (C3) Mapping a page, on a tree of page tables. If \<^verbatim>\<open>vmm_map_page\<close> returns true, every address
  of the page resolves to the same offset in the physical page, every address of another page
  resolves as before, and the tables still form a tree. If it returns false, no resolution
  changes, and the address lies in a 2 MiB page or fewer than three physical pages were free.
  An address in a 2 MiB page is always refused.
\<close>

theorem vmm_map_page_resolves:
  assumes "tables_ok s lev" and "vmm_map_page virt phys flags s = (b, s')"
  shows "\<exists>lev'. tables_ok s' lev' \<and>
    (\<not> b \<longrightarrow> (\<forall>v. vmm_resolve v s' = vmm_resolve v s) \<and>
      (huge_mapped virt s \<or> card (free_pages (vmm_pmm s)) < 3)) \<and> (huge_mapped virt s \<longrightarrow> \<not> b) \<and>
    (b \<longrightarrow> (\<forall>v. vmm_resolve v s' =
      (if idx4 v = idx4 virt \<and> idx3 v = idx3 virt \<and> idx2 v = idx2 virt \<and> idx1 v = idx1 virt
       then (phys AND NOT 0xFFF) + (v AND 0xFFF) else vmm_resolve v s)))"
  by (rule map_page_effect [OF assms])

text \<open>An empty root table in page 1 of a 64-page machine.\<close>

definition vmm_example :: vmm_state where
  "vmm_example = \<lparr>vmm_mem = (\<lambda>_. 0), pml4 = 0x1000,
     vmm_pmm = \<lparr>page_bitmap = (\<lambda>_. 0)(0 := 3), total_pages = 64, used_pages = 2, highest_page = 64\<rparr>\<rparr>"

lemma vmm_example_taken: "taken (vmm_pmm vmm_example) = {0, 1}"
proof -
  have "bitmap_test (vmm_pmm vmm_example) p \<longleftrightarrow> p = 0 \<or> p = 1" for p
  proof (cases "p div 8 = 0")
    case True
    then have "unat p div 8 = 0" using unat_div [of p 8] by simp
    then have "unat (p mod 8) = unat p" by (simp add: unat_mod)
    moreover have "bit (3 :: u8) k \<longleftrightarrow> k < 2" for k
    proof -
      have "(3 :: u8) = mask 2" by (simp add: mask_eq_exp_minus_1)
      then show ?thesis by (simp only: bit_mask_iff) auto
    qed
    ultimately have "bitmap_test (vmm_pmm vmm_example) p \<longleftrightarrow> unat p < 2"
      using True by (simp add: bitmap_test_bit vmm_example_def)
    then show ?thesis by (auto simp: word_unat_eq_iff)
  next
    case False
    then show ?thesis by (auto simp: bitmap_test_def vmm_example_def)
  qed
  then show ?thesis by (auto simp: taken_def) (simp_all add: vmm_example_def)
qed

lemma vmm_example_ok: "tables_ok vmm_example [0x1000 \<mapsto> 4]" "3 \<le> card (free_pages (vmm_pmm vmm_example))"
  "\<not> present vmm_example t i"
proof -
  have e: "entry vmm_example t i = 0" for t i
    by (simp add: entry_def vmm_example_def load64_def peek_def upt_rec)
  then show "\<not> present vmm_example t i" by (simp add: present_def)
  have inv: "pmm_inv (vmm_pmm vmm_example)"
    using vmm_example_taken by (auto simp: pmm_inv_def taken_def vmm_example_def PMM_MAX_PAGES_def)
  have "\<not> link vmm_example lev t i" for lev t i using e by (simp add: link_def present_def)
  then show "tables_ok vmm_example [0x1000 \<mapsto> 4]"
    using inv vmm_example_taken by (auto simp: tables_ok_def NULL_def PAGE_SIZE_def) (simp_all add: vmm_example_def)
  have "card (taken (vmm_pmm vmm_example)) = 2" by (simp add: vmm_example_taken)
  then show "3 \<le> card (free_pages (vmm_pmm vmm_example))"
    using card_taken_free [of "vmm_pmm vmm_example"] by (simp add: vmm_example_def)
qed

theorem vmm_map_page_resolves_witness:
  "\<exists>s'. vmm_map_page 0x403000 0x7000 3 vmm_example = (True, s') \<and> vmm_resolve 0x403004 s' = 0x7004 \<and>
     vmm_resolve 0x404004 s' = 0"
proof -
  obtain b s' where r: "vmm_map_page 0x403000 0x7000 3 vmm_example = (b, s')"
    by (cases "vmm_map_page 0x403000 0x7000 3 vmm_example")
  have "\<not> huge_mapped 0x403000 vmm_example" using vmm_example_ok(3) by (simp add: huge_mapped_def)
  moreover have "vmm_resolve v vmm_example = 0" for v
    using vmm_example_ok(3) by (simp add: vmm_resolve_def present_def)
  ultimately show ?thesis
    using vmm_map_page_resolves [OF vmm_example_ok(1) r] vmm_example_ok(2) r
    by (auto simp: idx4_def idx3_def idx2_def idx1_def)
qed

text \<open>
  Unmapping. If \<^verbatim>\<open>vmm_unmap_page\<close> returns true, the addresses of the page resolve to 0 and
  all others as before. If it returns false, nothing changes and the address either lies in a
  2 MiB page or did not resolve. In both cases the tables remain a tree.
\<close>

theorem vmm_unmap_page_clears:
  assumes "tables_ok s lev" and "vmm_unmap_page virt s = (b, s')"
  shows "tables_ok s' lev \<and> (\<not> b \<longrightarrow> s' = s \<and> (huge_mapped virt s \<or> vmm_resolve virt s = 0)) \<and>
    (b \<longrightarrow> (\<forall>v. vmm_resolve v s' =
      (if idx4 v = idx4 virt \<and> idx3 v = idx3 virt \<and> idx2 v = idx2 virt \<and> idx1 v = idx1 virt
       then 0 else vmm_resolve v s)))"
  by (rule unmap_page_effect [OF assms])

theorem vmm_unmap_page_clears_witness:
  "vmm_unmap_page 0x403000 vmm_example = (False, vmm_example) \<and> tables_ok vmm_example [0x1000 \<mapsto> 4]"
proof -
  obtain b s' where r: "vmm_unmap_page 0x403000 vmm_example = (b, s')"
    by (cases "vmm_unmap_page 0x403000 vmm_example")
  moreover have "\<not> b" using r vmm_example_ok(3) by (auto simp: vmm_unmap_page_def present_def split: if_splits)
  ultimately show ?thesis using vmm_unmap_page_clears [OF vmm_example_ok(1) r] vmm_example_ok(1) by auto
qed

text \<open>
  The no-execute flag is lost: \<^verbatim>\<open>PTE_NX\<close> is bit 63, but \<^verbatim>\<open>vmm_map_page\<close> keeps only the low
  twelve bits of its flags, so asking for a no-execute mapping has no effect at all.
\<close>

theorem vmm_map_page_ignores_nx:
  "vmm_map_page virt phys (flags OR PTE_NX) s = vmm_map_page virt phys flags s"
proof -
  have "(flags OR PTE_NX) AND 0xFFF = flags AND 0xFFF"
    unfolding and_fff by (rule bit_word_eqI) (auto simp: bit_take_bit_iff bit_or_iff bit_pte)
  then show ?thesis by (simp only: vmm_map_page_def)
qed

end
