(* ===== verification/H3_Sync.thy ===== *)
theory H3_Sync
  imports H3_Prelude
begin

text \<open>
  The locks of \<^verbatim>\<open>kernel/sync/sync.c\<close>, twice. First as functions of the lock object for a single
  thread of control: a wait that nobody else can end is \<open>None\<close>. Then as programs of many
  processors that interleave at every access to shared memory: each processor has a program
  counter that names the next access in the source, and the test-and-set and the release are
  the only atomic operations.
\<close>

section \<open>The operations on one processor\<close>

record spinlock_t =
  locked :: u32

record semaphore_t =
  sem_count :: i32
  sem_lock :: spinlock_t

record mutex_t =
  mtx_state :: i32
  mtx_lock :: spinlock_t

definition spinlock_init :: "spinlock_t \<Rightarrow> spinlock_t" where
  "spinlock_init l = l\<lparr>locked := 0\<rparr>"

text \<open>The inner loop: read the lock until it is free.\<close>

partial_function (option) spin_wait :: "spinlock_t \<Rightarrow> spinlock_t option" where
  "spin_wait l = (if locked l \<noteq> 0 then spin_wait l else Some l)"

partial_function (option) spin_lock :: "spinlock_t \<Rightarrow> spinlock_t option" where
  "spin_lock l =
     (if locked l \<noteq> 0
      then (case spin_wait (l\<lparr>locked := 1\<rparr>) of None \<Rightarrow> None | Some l' \<Rightarrow> spin_lock l')
      else Some (l\<lparr>locked := 1\<rparr>))"

definition spin_trylock :: "spinlock_t \<Rightarrow> bool \<times> spinlock_t" where
  "spin_trylock l = (locked l = 0, l\<lparr>locked := 1\<rparr>)"

definition spin_unlock :: "spinlock_t \<Rightarrow> spinlock_t" where
  "spin_unlock l = l\<lparr>locked := 0\<rparr>"

definition semaphore_init :: "semaphore_t \<Rightarrow> i32 \<Rightarrow> semaphore_t" where
  "semaphore_init s v = s\<lparr>sem_count := v, sem_lock := spinlock_init (sem_lock s)\<rparr>"

partial_function (option) semaphore_wait :: "semaphore_t \<Rightarrow> semaphore_t option" where
  "semaphore_wait s =
     (case spin_lock (sem_lock s) of
        None \<Rightarrow> None
      | Some l \<Rightarrow>
          if 0 <s sem_count s
          then Some (s\<lparr>sem_count := sem_count s - 1, sem_lock := spin_unlock l\<rparr>)
          else semaphore_wait (s\<lparr>sem_lock := spin_unlock l\<rparr>))"

definition semaphore_post :: "semaphore_t \<Rightarrow> semaphore_t option" where
  "semaphore_post s =
     (case spin_lock (sem_lock s) of
        None \<Rightarrow> None
      | Some l \<Rightarrow> Some (s\<lparr>sem_count := sem_count s + 1, sem_lock := spin_unlock l\<rparr>))"

definition mutex_init :: "mutex_t \<Rightarrow> mutex_t" where
  "mutex_init m = m\<lparr>mtx_state := 0, mtx_lock := spinlock_init (mtx_lock m)\<rparr>"

partial_function (option) mutex_lock :: "mutex_t \<Rightarrow> mutex_t option" where
  "mutex_lock m =
     (case spin_lock (mtx_lock m) of
        None \<Rightarrow> None
      | Some l \<Rightarrow>
          if mtx_state m = 0
          then Some (m\<lparr>mtx_state := 1, mtx_lock := spin_unlock l\<rparr>)
          else mutex_lock (m\<lparr>mtx_lock := spin_unlock l\<rparr>))"

definition mutex_unlock :: "mutex_t \<Rightarrow> mutex_t option" where
  "mutex_unlock m =
     (case spin_lock (mtx_lock m) of
        None \<Rightarrow> None
      | Some l \<Rightarrow> Some (m\<lparr>mtx_state := 0, mtx_lock := spin_unlock l\<rparr>))"

lemma spin_wait_stuck: "locked l \<noteq> 0 \<Longrightarrow> spin_wait l = None"
proof (rule ccontr)
  assume l: "locked l \<noteq> 0" and "spin_wait l \<noteq> None"
  then obtain r where "spin_wait l = Some r" by auto
  then have "locked l = 0"
    by (rule spin_wait.raw_induct [where P = "\<lambda>l r. locked l = 0", rotated]) (auto split: if_splits)
  then show False using l by simp
qed

lemma spin_lock_cases: "spin_lock l = (if locked l = 0 then Some (l\<lparr>locked := 1\<rparr>) else None)"
  by (subst spin_lock.simps) (simp add: spin_wait_stuck)

lemma spin_unlock_lock: "locked (spin_unlock l) = 0"
  by (simp add: spin_unlock_def)

section \<open>Interleaved processors\<close>

type_synonym tid = nat

record 'pc machine =
  m_lock :: u32
  m_val :: i32
  m_pc :: "tid \<Rightarrow> 'pc"

text \<open>
  Program counters of a processor that uses a mutex. \<open>ML_\<close> is inside \<^verbatim>\<open>mutex_lock\<close>, \<open>MU_\<close> inside
  \<^verbatim>\<open>mutex_unlock\<close>; \<open>Tas\<close> is the test-and-set, \<open>Spin\<close> the inner loop of \<^verbatim>\<open>spin_lock\<close>, \<open>Rel\<close> the
  release. \<open>M_Crit\<close> is the client's code between the two calls.
\<close>

datatype mutex_pc =
    M_Out | ML_Tas | ML_Spin | ML_Check | ML_Set | ML_RelOk | ML_RelBusy
  | M_Crit | MU_Tas | MU_Spin | MU_Set | MU_Rel

inductive mutex_step :: "mutex_pc machine \<Rightarrow> mutex_pc machine \<Rightarrow> bool" where
  ml_call: "m_pc s t = M_Out \<Longrightarrow> mutex_step s (s\<lparr>m_pc := (m_pc s)(t := ML_Tas)\<rparr>)"
| ml_tas: "m_pc s t = ML_Tas \<Longrightarrow> mutex_step s
    (s\<lparr>m_lock := 1, m_pc := (m_pc s)(t := if m_lock s \<noteq> 0 then ML_Spin else ML_Check)\<rparr>)"
| ml_spin: "m_pc s t = ML_Spin \<Longrightarrow> mutex_step s
    (s\<lparr>m_pc := (m_pc s)(t := if m_lock s \<noteq> 0 then ML_Spin else ML_Tas)\<rparr>)"
| ml_check: "m_pc s t = ML_Check \<Longrightarrow> mutex_step s
    (s\<lparr>m_pc := (m_pc s)(t := if m_val s = 0 then ML_Set else ML_RelBusy)\<rparr>)"
| ml_set: "m_pc s t = ML_Set \<Longrightarrow> mutex_step s (s\<lparr>m_val := 1, m_pc := (m_pc s)(t := ML_RelOk)\<rparr>)"
| ml_rel_ok: "m_pc s t = ML_RelOk \<Longrightarrow> mutex_step s (s\<lparr>m_lock := 0, m_pc := (m_pc s)(t := M_Crit)\<rparr>)"
| ml_rel_busy: "m_pc s t = ML_RelBusy \<Longrightarrow> mutex_step s (s\<lparr>m_lock := 0, m_pc := (m_pc s)(t := ML_Tas)\<rparr>)"
| mu_call: "m_pc s t = M_Crit \<Longrightarrow> mutex_step s (s\<lparr>m_pc := (m_pc s)(t := MU_Tas)\<rparr>)"
| mu_tas: "m_pc s t = MU_Tas \<Longrightarrow> mutex_step s
    (s\<lparr>m_lock := 1, m_pc := (m_pc s)(t := if m_lock s \<noteq> 0 then MU_Spin else MU_Set)\<rparr>)"
| mu_spin: "m_pc s t = MU_Spin \<Longrightarrow> mutex_step s
    (s\<lparr>m_pc := (m_pc s)(t := if m_lock s \<noteq> 0 then MU_Spin else MU_Tas)\<rparr>)"
| mu_set: "m_pc s t = MU_Set \<Longrightarrow> mutex_step s (s\<lparr>m_val := 0, m_pc := (m_pc s)(t := MU_Rel)\<rparr>)"
| mu_rel: "m_pc s t = MU_Rel \<Longrightarrow> mutex_step s (s\<lparr>m_lock := 0, m_pc := (m_pc s)(t := M_Out)\<rparr>)"

inductive mutex_reach :: "mutex_pc machine \<Rightarrow> bool" where
  mutex_start: "mutex_reach \<lparr>m_lock = 0, m_val = 0, m_pc = (\<lambda>_. M_Out)\<rparr>"
| mutex_next: "mutex_reach s \<Longrightarrow> mutex_step s s' \<Longrightarrow> mutex_reach s'"

text \<open>
  A processor that uses a semaphore. The decrement and the increment are a load and a store of
  the count; the program counter carries the value loaded.
\<close>

datatype sem_pc =
    S_Out | SW_Tas | SW_Spin | SW_Check | SW_Load | SW_Store i32 | SW_RelOk | SW_RelBusy
  | S_In | SP_Tas | SP_Spin | SP_Load | SP_Store i32 | SP_Rel

inductive sem_step :: "sem_pc machine \<Rightarrow> sem_pc machine \<Rightarrow> bool" where
  sw_call: "m_pc s t = S_Out \<Longrightarrow> sem_step s (s\<lparr>m_pc := (m_pc s)(t := SW_Tas)\<rparr>)"
| sw_tas: "m_pc s t = SW_Tas \<Longrightarrow> sem_step s
    (s\<lparr>m_lock := 1, m_pc := (m_pc s)(t := if m_lock s \<noteq> 0 then SW_Spin else SW_Check)\<rparr>)"
| sw_spin: "m_pc s t = SW_Spin \<Longrightarrow> sem_step s
    (s\<lparr>m_pc := (m_pc s)(t := if m_lock s \<noteq> 0 then SW_Spin else SW_Tas)\<rparr>)"
| sw_check: "m_pc s t = SW_Check \<Longrightarrow> sem_step s
    (s\<lparr>m_pc := (m_pc s)(t := if 0 <s m_val s then SW_Load else SW_RelBusy)\<rparr>)"
| sw_load: "m_pc s t = SW_Load \<Longrightarrow> sem_step s (s\<lparr>m_pc := (m_pc s)(t := SW_Store (m_val s))\<rparr>)"
| sw_store: "m_pc s t = SW_Store v \<Longrightarrow> sem_step s (s\<lparr>m_val := v - 1, m_pc := (m_pc s)(t := SW_RelOk)\<rparr>)"
| sw_rel_ok: "m_pc s t = SW_RelOk \<Longrightarrow> sem_step s (s\<lparr>m_lock := 0, m_pc := (m_pc s)(t := S_In)\<rparr>)"
| sw_rel_busy: "m_pc s t = SW_RelBusy \<Longrightarrow> sem_step s (s\<lparr>m_lock := 0, m_pc := (m_pc s)(t := SW_Tas)\<rparr>)"
| sp_call: "m_pc s t = S_In \<Longrightarrow> sem_step s (s\<lparr>m_pc := (m_pc s)(t := SP_Tas)\<rparr>)"
| sp_tas: "m_pc s t = SP_Tas \<Longrightarrow> sem_step s
    (s\<lparr>m_lock := 1, m_pc := (m_pc s)(t := if m_lock s \<noteq> 0 then SP_Spin else SP_Load)\<rparr>)"
| sp_spin: "m_pc s t = SP_Spin \<Longrightarrow> sem_step s
    (s\<lparr>m_pc := (m_pc s)(t := if m_lock s \<noteq> 0 then SP_Spin else SP_Tas)\<rparr>)"
| sp_load: "m_pc s t = SP_Load \<Longrightarrow> sem_step s (s\<lparr>m_pc := (m_pc s)(t := SP_Store (m_val s))\<rparr>)"
| sp_store: "m_pc s t = SP_Store v \<Longrightarrow> sem_step s (s\<lparr>m_val := v + 1, m_pc := (m_pc s)(t := SP_Rel)\<rparr>)"
| sp_rel: "m_pc s t = SP_Rel \<Longrightarrow> sem_step s (s\<lparr>m_lock := 0, m_pc := (m_pc s)(t := S_Out)\<rparr>)"

inductive sem_reach :: "i32 \<Rightarrow> sem_pc machine \<Rightarrow> bool" for n where
  sem_start: "sem_reach n \<lparr>m_lock = 0, m_val = n, m_pc = (\<lambda>_. S_Out)\<rparr>"
| sem_next: "sem_reach n s \<Longrightarrow> sem_step s s' \<Longrightarrow> sem_reach n s'"

section \<open>The contract of the spinlock\<close>

text \<open>
  Programs whose processors take the lock word only by a test-and-set that finds 0 and release
  it only while they hold it. At most one processor holds the lock, and then the word is not 0.
\<close>

locale spin_client =
  fixes step :: "'s \<Rightarrow> 's \<Rightarrow> bool" and word_of :: "'s \<Rightarrow> u32" and holds :: "'s \<Rightarrow> tid \<Rightarrow> bool"
  assumes step_cases: "step s s' \<Longrightarrow>
    (\<exists>t. word_of s = 0 \<and> word_of s' \<noteq> 0 \<and> holds s' = (holds s)(t := True)) \<or>
    (\<exists>t. holds s t \<and> word_of s' = 0 \<and> holds s' = (holds s)(t := False)) \<or>
    (word_of s' = 0 \<longleftrightarrow> word_of s = 0) \<and> holds s' = holds s"
begin

definition exclusive :: "'s \<Rightarrow> bool" where
  "exclusive s \<longleftrightarrow> (\<forall>t t'. holds s t \<longrightarrow> holds s t' \<longrightarrow> t = t') \<and> (word_of s \<noteq> 0 \<longleftrightarrow> (\<exists>t. holds s t))"

lemma exclusive_step: "exclusive s \<Longrightarrow> step s s' \<Longrightarrow> exclusive s'"
  using step_cases [of s s'] unfolding exclusive_def by (auto split: if_splits)

end

fun mutex_holds_pc :: "mutex_pc \<Rightarrow> bool" where
  "mutex_holds_pc pc \<longleftrightarrow> pc \<in> {ML_Check, ML_Set, ML_RelOk, ML_RelBusy, MU_Set, MU_Rel}"

fun sem_holds_pc :: "sem_pc \<Rightarrow> bool" where
  "sem_holds_pc (SW_Store v) = True"
| "sem_holds_pc (SP_Store v) = True"
| "sem_holds_pc pc \<longleftrightarrow> pc \<in> {SW_Check, SW_Load, SW_RelOk, SW_RelBusy, SP_Load, SP_Rel}"

definition mutex_holds :: "mutex_pc machine \<Rightarrow> tid \<Rightarrow> bool" where
  "mutex_holds s t = mutex_holds_pc (m_pc s t)"

definition sem_holds :: "sem_pc machine \<Rightarrow> tid \<Rightarrow> bool" where
  "sem_holds s t = sem_holds_pc (m_pc s t)"

inductive_cases mutex_stepE: "mutex_step s s'"
inductive_cases sem_stepE: "sem_step s s'"

interpretation mutex_spin: spin_client mutex_step m_lock mutex_holds
proof
  fix s s' assume "mutex_step s s'"
  then show "(\<exists>t. m_lock s = 0 \<and> m_lock s' \<noteq> 0 \<and> mutex_holds s' = (mutex_holds s)(t := True)) \<or>
    (\<exists>t. mutex_holds s t \<and> m_lock s' = 0 \<and> mutex_holds s' = (mutex_holds s)(t := False)) \<or>
    (m_lock s' = 0 \<longleftrightarrow> m_lock s = 0) \<and> mutex_holds s' = mutex_holds s"
    by (cases rule: mutex_step.cases) (auto simp: mutex_holds_def fun_eq_iff)
qed

interpretation sem_spin: spin_client sem_step m_lock sem_holds
proof
  fix s s' assume "sem_step s s'"
  then show "(\<exists>t. m_lock s = 0 \<and> m_lock s' \<noteq> 0 \<and> sem_holds s' = (sem_holds s)(t := True)) \<or>
    (\<exists>t. sem_holds s t \<and> m_lock s' = 0 \<and> sem_holds s' = (sem_holds s)(t := False)) \<or>
    (m_lock s' = 0 \<longleftrightarrow> m_lock s = 0) \<and> sem_holds s' = sem_holds s"
  proof (cases rule: sem_step.cases)
    case (sw_rel_ok t)
    then show ?thesis
      by (intro disjI2 disjI1 exI [of _ t]) (auto simp: sem_holds_def fun_eq_iff)
  next
    case (sw_rel_busy t)
    then show ?thesis
      by (intro disjI2 disjI1 exI [of _ t]) (auto simp: sem_holds_def fun_eq_iff)
  next
    case (sp_rel t)
    then show ?thesis
      by (intro disjI2 disjI1 exI [of _ t]) (auto simp: sem_holds_def fun_eq_iff)
  qed (auto simp: sem_holds_def fun_eq_iff)
qed

section \<open>Mutual exclusion\<close>

text \<open>The processors that own the mutex: from setting its state until clearing it.\<close>

definition mutex_owner :: "mutex_pc machine \<Rightarrow> tid \<Rightarrow> bool" where
  "mutex_owner s t \<longleftrightarrow> m_pc s t \<in> {ML_RelOk, M_Crit, MU_Tas, MU_Spin, MU_Set}"

definition mutex_inv :: "mutex_pc machine \<Rightarrow> bool" where
  "mutex_inv s \<longleftrightarrow> mutex_spin.exclusive s \<and>
     (\<forall>t t'. mutex_owner s t \<longrightarrow> mutex_owner s t' \<longrightarrow> t = t') \<and>
     (m_val s \<noteq> 0 \<longleftrightarrow> (\<exists>t. mutex_owner s t)) \<and> (\<forall>t. m_pc s t = ML_Set \<longrightarrow> m_val s = 0)"

lemma mutex_inv_frame:
  assumes "mutex_inv s" and "mutex_spin.exclusive s'" and "\<And>u. mutex_owner s' u = mutex_owner s u"
    and "m_val s' = m_val s" and "\<And>u. m_pc s' u = ML_Set \<Longrightarrow> m_pc s u = ML_Set \<or> m_val s = 0"
  shows "mutex_inv s'"
  using assms unfolding mutex_inv_def by metis

lemma mutex_inv_step:
  assumes inv: "mutex_inv s" and st: "mutex_step s s'"
  shows "mutex_inv s'"
proof -
  have ex: "mutex_spin.exclusive s'" using inv st mutex_spin.exclusive_step by (auto simp: mutex_inv_def)
  have ho: "mutex_holds s t \<Longrightarrow> mutex_holds s t' \<Longrightarrow> t = t'" for t t'
    using inv by (auto simp: mutex_inv_def mutex_spin.exclusive_def)
  have set_other: "m_pc s t = ML_Set \<Longrightarrow> mutex_holds s t' \<Longrightarrow> t' = t" for t t'
    using ho [of t' t] by (simp add: mutex_holds_def)
  from st show ?thesis
  proof (cases rule: mutex_step.cases)
    case (ml_set t)
    have "m_val s = 0" using inv ml_set(2) by (auto simp: mutex_inv_def)
    then have none: "\<not> mutex_owner s u" for u using inv by (auto simp: mutex_inv_def)
    have own: "mutex_owner s' u \<longleftrightarrow> u = t" for u
      using none [of u] ml_set(1) by (auto simp: mutex_owner_def)
    have "m_pc s' u \<noteq> ML_Set" for u
      using set_other [OF ml_set(2), of u] ml_set(1) by (auto simp: mutex_holds_def split: if_splits)
    then show ?thesis using ex own ml_set(1) by (simp add: mutex_inv_def)
  next
    case (mu_set t)
    have "mutex_owner s t" using mu_set(2) by (simp add: mutex_owner_def)
    then have "u = t" if "mutex_owner s u" for u using inv that by (auto simp: mutex_inv_def)
    then have "\<not> mutex_owner s' u" for u using mu_set(1) by (auto simp: mutex_owner_def split: if_splits)
    then show ?thesis using ex mu_set(1) by (simp add: mutex_inv_def)
  qed (rule mutex_inv_frame [OF inv ex]; auto simp: mutex_owner_def split: if_splits)+
qed

lemma mutex_reach_inv: "mutex_reach s \<Longrightarrow> mutex_inv s"
proof (induction rule: mutex_reach.induct)
  case mutex_start
  then show ?case by (simp add: mutex_inv_def mutex_owner_def mutex_spin.exclusive_def mutex_holds_def)
next
  case (mutex_next s s')
  then show ?case by (blast intro: mutex_inv_step)
qed

section \<open>Counting of the semaphore\<close>

text \<open>The processors that have been admitted: from the store of the decremented count until the store
  of the incremented one.\<close>

fun admitted_pc :: "sem_pc \<Rightarrow> bool" where
  "admitted_pc (SP_Store v) = True"
| "admitted_pc pc \<longleftrightarrow> pc \<in> {SW_RelOk, S_In, SP_Tas, SP_Spin, SP_Load}"

definition admitted :: "sem_pc machine \<Rightarrow> tid set" where
  "admitted s = {t. admitted_pc (m_pc s t)}"

text \<open>A processor between a load or a successful test and its store knows the current count.\<close>

fun pc_knows :: "sem_pc \<Rightarrow> i32 \<Rightarrow> bool" where
  "pc_knows (SW_Store v) c \<longleftrightarrow> v = c \<and> 0 < sint c"
| "pc_knows (SP_Store v) c \<longleftrightarrow> v = c"
| "pc_knows SW_Load c \<longleftrightarrow> 0 < sint c"
| "pc_knows _ c \<longleftrightarrow> True"

definition sem_inv :: "i32 \<Rightarrow> sem_pc machine \<Rightarrow> bool" where
  "sem_inv n s \<longleftrightarrow> sem_spin.exclusive s \<and> finite (admitted s) \<and> 0 \<le> sint (m_val s) \<and>
     int (card (admitted s)) + sint (m_val s) = sint n \<and> (\<forall>t. pc_knows (m_pc s t) (m_val s))"

lemma pc_knows_other: "\<not> sem_holds_pc pc \<Longrightarrow> pc_knows pc c"
  by (cases pc) simp_all

lemma sem_inv_frame:
  assumes "sem_inv n s" and "sem_spin.exclusive s'" and "admitted s' = admitted s"
    and "m_val s' = m_val s" and "\<And>u. pc_knows (m_pc s' u) (m_val s)"
  shows "sem_inv n s'"
  using assms by (simp add: sem_inv_def)

lemma sint_step:
  "0 < sint (v :: i32) \<Longrightarrow> sint (v - 1) = sint v - 1"
  "sint (v :: i32) < sint (n :: i32) \<Longrightarrow> sint (v + 1) = sint v + 1"
proof -
  have b: "sint x < 2147483648" "- 2147483648 \<le> sint x" for x :: i32
    using sint_less [of x] sint_greater_eq [of x] by simp_all
  show "0 < sint v \<Longrightarrow> sint (v - 1) = sint v - 1"
    using b [of v] by (simp add: sint_word_ariths signed_take_bit_int_eq_self_iff)
  show "sint v < sint n \<Longrightarrow> sint (v + 1) = sint v + 1"
    using b [of v] b [of n] by (simp add: sint_word_ariths signed_take_bit_int_eq_self_iff)
qed

lemma sem_inv_step:
  assumes inv: "sem_inv n s" and st: "sem_step s s'"
  shows "sem_inv n s'"
proof -
  have ex: "sem_spin.exclusive s'" using inv st sem_spin.exclusive_step by (auto simp: sem_inv_def)
  have ho: "sem_holds s t \<Longrightarrow> sem_holds s t' \<Longrightarrow> t = t'" for t t'
    using inv by (auto simp: sem_inv_def sem_spin.exclusive_def)
  have kn: "pc_knows (m_pc s t) (m_val s)" for t using inv by (simp add: sem_inv_def)
  from st show ?thesis
  proof (cases rule: sem_step.cases)
    case (sw_store t v)
    have v: "v = m_val s" "0 < sint v" using kn [of t] sw_store(2) by auto
    have ad: "admitted s' = insert t (admitted s)" "t \<notin> admitted s"
      using sw_store by (auto simp: admitted_def)
    have "pc_knows (m_pc s' u) (m_val s')" for u
      using ho [of u t] sw_store by (auto simp: sem_holds_def intro!: pc_knows_other)
    then show ?thesis
      using inv ex ad v sint_step(1) sw_store(1) by (simp add: sem_inv_def)
  next
    case (sw_load t)
    then show ?thesis using kn kn [of t]
      by (intro sem_inv_frame [OF inv ex]) (auto simp: admitted_def)
  next
    case (sp_store t v)
    have v: "v = m_val s" using kn [of t] sp_store(2) by auto
    have ad: "admitted s' = admitted s - {t}" "t \<in> admitted s"
      using sp_store by (auto simp: admitted_def)
    have "sint v < sint n"
    proof -
      have "0 < card (admitted s)" using ad(2) inv by (auto simp: sem_inv_def card_gt_0_iff)
      then show ?thesis using inv v by (auto simp: sem_inv_def)
    qed
    moreover have "pc_knows (m_pc s' u) (m_val s')" for u
      using ho [of u t] sp_store by (auto simp: sem_holds_def intro!: pc_knows_other)
    moreover have "int (card (admitted s - {t})) = int (card (admitted s)) - 1"
    proof -
      have "finite (admitted s)" using inv by (simp add: sem_inv_def)
      from card_Suc_Diff1 [OF this ad(2)] show ?thesis by linarith
    qed
    ultimately show ?thesis
      using inv ex ad v sint_step(2) [of v n] sp_store(1) by (simp add: sem_inv_def)
  qed (rule sem_inv_frame [OF inv ex];
      use kn in \<open>auto simp: admitted_def word_sless_alt split: if_splits\<close>)+
qed

lemma sem_reach_inv: "sem_reach n s \<Longrightarrow> 0 \<le> sint n \<Longrightarrow> sem_inv n s"
proof (induction rule: sem_reach.induct)
  case sem_start
  then show ?case by (simp add: sem_inv_def admitted_def sem_spin.exclusive_def sem_holds_def)
next
  case (sem_next s s')
  then show ?case by (blast intro: sem_inv_step)
qed

section \<open>Properties\<close>

text \<open>
  (C10) Mutual exclusion for any number of processors and any interleaving of their memory
  accesses: at most one processor is between its return from \<^verbatim>\<open>mutex_lock\<close> and its call of
  \<^verbatim>\<open>mutex_unlock\<close>, at most one is inside the spinlock-protected sections, and the lock word and
  the state word tell whether there is one.
\<close>

theorem mutex_mutual_exclusion:
  assumes "mutex_reach s"
  shows "(m_pc s t = M_Crit \<and> m_pc s t' = M_Crit \<longrightarrow> t = t') \<and>
    (m_pc s t = M_Crit \<longrightarrow> m_val s \<noteq> 0) \<and>
    (mutex_holds s t \<and> mutex_holds s t' \<longrightarrow> t = t') \<and> (m_lock s \<noteq> 0 \<longleftrightarrow> (\<exists>u. mutex_holds s u))"
proof -
  have inv: "mutex_inv s" using assms by (rule mutex_reach_inv)
  then have "t = t'" if "m_pc s t = M_Crit" "m_pc s t' = M_Crit"
    using that by (auto simp: mutex_inv_def mutex_owner_def)
  moreover have "m_val s \<noteq> 0" if "m_pc s t = M_Crit"
  proof -
    have "mutex_owner s t" using that by (simp add: mutex_owner_def)
    then show ?thesis using inv by (auto simp: mutex_inv_def)
  qed
  ultimately show ?thesis using inv by (auto simp: mutex_inv_def mutex_spin.exclusive_def)
qed

text \<open>Processor 0 runs alone through an uncontended \<^verbatim>\<open>mutex_lock\<close>.\<close>

lemma mutex_alone_reach:
  "mutex_reach \<lparr>m_lock = 0, m_val = 1, m_pc = (\<lambda>_. M_Out)(0 := M_Crit)\<rparr>"
proof -
  have 1: "mutex_reach \<lparr>m_lock = 0, m_val = 0, m_pc = (\<lambda>_. M_Out)(0 := ML_Tas)\<rparr>"
    using mutex_next [OF mutex_start ml_call, of 0] by simp
  have 2: "mutex_reach \<lparr>m_lock = 1, m_val = 0, m_pc = (\<lambda>_. M_Out)(0 := ML_Check)\<rparr>"
    using mutex_next [OF 1 ml_tas, of 0] by simp
  have 3: "mutex_reach \<lparr>m_lock = 1, m_val = 0, m_pc = (\<lambda>_. M_Out)(0 := ML_Set)\<rparr>"
    using mutex_next [OF 2 ml_check, of 0] by simp
  have 4: "mutex_reach \<lparr>m_lock = 1, m_val = 1, m_pc = (\<lambda>_. M_Out)(0 := ML_RelOk)\<rparr>"
    using mutex_next [OF 3 ml_set, of 0] by simp
  show ?thesis using mutex_next [OF 4 ml_rel_ok, of 0] by simp
qed

theorem mutex_mutual_exclusion_witness:
  "\<exists>s. mutex_reach s \<and> m_pc s 0 = M_Crit \<and> m_pc s 1 \<noteq> M_Crit \<and> m_val s \<noteq> 0"
proof -
  let ?s = "\<lparr>m_lock = 0, m_val = 1, m_pc = (\<lambda>_. M_Out)(0 := M_Crit)\<rparr>"
  have "m_pc ?s 0 = M_Crit" by simp
  with mutex_mutual_exclusion [OF mutex_alone_reach, of 0 1] have "m_pc ?s 1 \<noteq> M_Crit \<and> m_val ?s \<noteq> 0" by simp
  with mutex_alone_reach \<open>m_pc ?s 0 = M_Crit\<close> show ?thesis by blast
qed

text \<open>
  The semaphore admits at most as many processors as its initial count, for any
  interleaving: the count plus the number of processors between their decrement and their
  increment is the initial count, and the count is never negative.
\<close>

theorem semaphore_admits_at_most:
  assumes "sem_reach n s" and "0 \<le> sint n"
  shows "finite (admitted s) \<and> int (card (admitted s)) + sint (m_val s) = sint n \<and> 0 \<le> sint (m_val s)"
  using sem_reach_inv [OF assms] by (simp add: sem_inv_def)

lemma sem_alone_reach:
  "sem_reach 1 \<lparr>m_lock = 0, m_val = 0, m_pc = (\<lambda>_. S_Out)(0 := S_In)\<rparr>"
proof -
  have 1: "sem_reach 1 \<lparr>m_lock = 0, m_val = 1, m_pc = (\<lambda>_. S_Out)(0 := SW_Tas)\<rparr>"
    using sem_next [OF sem_start sw_call, of 1 0] by simp
  have 2: "sem_reach 1 \<lparr>m_lock = 1, m_val = 1, m_pc = (\<lambda>_. S_Out)(0 := SW_Check)\<rparr>"
    using sem_next [OF 1 sw_tas, of 0] by simp
  have 3: "sem_reach 1 \<lparr>m_lock = 1, m_val = 1, m_pc = (\<lambda>_. S_Out)(0 := SW_Load)\<rparr>"
    using sem_next [OF 2 sw_check, of 0] by (simp add: word_sless_alt)
  have 4: "sem_reach 1 \<lparr>m_lock = 1, m_val = 1, m_pc = (\<lambda>_. S_Out)(0 := SW_Store 1)\<rparr>"
    using sem_next [OF 3 sw_load, of 0] by simp
  have 5: "sem_reach 1 \<lparr>m_lock = 1, m_val = 0, m_pc = (\<lambda>_. S_Out)(0 := SW_RelOk)\<rparr>"
    using sem_next [OF 4 sw_store, of 0 1] by simp
  show ?thesis using sem_next [OF 5 sw_rel_ok, of 0] by simp
qed

theorem semaphore_admits_at_most_witness:
  "\<exists>s. sem_reach 1 s \<and> m_pc s 0 = S_In \<and> card (admitted s) = 1"
proof -
  let ?s = "\<lparr>m_lock = 0, m_val = 0, m_pc = (\<lambda>_. S_Out)(0 := S_In)\<rparr>"
  from semaphore_admits_at_most [OF sem_alone_reach] have "card (admitted ?s) = 1" by simp
  moreover have "m_pc ?s 0 = S_In" by simp
  ultimately show ?thesis using sem_alone_reach by blast
qed

text \<open>
  The locks on one processor. Locking a free mutex and unlocking it restores the object;
  locking it a second time before that never returns, because nobody else can unlock it.
\<close>

theorem mutex_not_recursive:
  assumes "locked (mtx_lock m) = 0" and "mtx_state m = 0"
  shows "\<exists>m1. mutex_lock m = Some m1 \<and> mutex_unlock m1 = Some m \<and> mutex_lock m1 = None"
proof -
  have "spin_unlock ((mtx_lock m)\<lparr>locked := 1\<rparr>) = mtx_lock m" using assms(1) by (simp add: spin_unlock_def)
  then have 1: "mutex_lock m = Some (m\<lparr>mtx_state := 1\<rparr>)"
    using assms by (subst mutex_lock.simps) (simp add: spin_lock_cases)
  have 2: "mutex_unlock (m\<lparr>mtx_state := 1\<rparr>) = Some m"
    using assms by (simp add: mutex_unlock_def spin_lock_cases spin_unlock_def)
  have "mtx_state m1 = 0" if "mutex_lock m1 = Some r" for m1 r
    using that
    by (rule mutex_lock.raw_induct [where P = "\<lambda>m r. mtx_state m = 0", rotated])
      (fastforce split: if_splits option.splits)
  then have "mutex_lock (m\<lparr>mtx_state := 1\<rparr>) = None" by fastforce
  then show ?thesis using 1 2 by blast
qed

theorem mutex_not_recursive_witness:
  "\<exists>m1. mutex_lock \<lparr>mtx_state = 0, mtx_lock = \<lparr>locked = 0\<rparr>\<rparr> = Some m1 \<and> mutex_lock m1 = None"
  using mutex_not_recursive [of "\<lparr>mtx_state = 0, mtx_lock = \<lparr>locked = 0\<rparr>\<rparr>"] by auto

end
