(* ===== verification/H3_Sched.thy ===== *)
theory H3_Sched
  imports H3_Sync H3_String
begin

text \<open>
  The cooperative scheduler of \<^verbatim>\<open>kernel/core/sched.c\<close>. A task pointer is the index of a slot of
  the static array, \<open>None\<close> for \<^verbatim>\<open>NULL\<close>. A call that never returns (the lock is held, or the walk
  to the tail of the ready queue runs in a circle) is \<open>None\<close>. The character array of a name is
  the list of its 32 bytes.
\<close>

section \<open>State and operations\<close>

definition MAX_TASKS :: nat where
  "MAX_TASKS = 64"

definition TASK_NAME :: nat where
  "TASK_NAME = 32"

datatype task_state_t = TASK_READY | TASK_RUNNING | TASK_BLOCKED | TASK_DEAD

type_synonym task_ptr = "nat option"

record task_t =
  t_id :: u32
  t_name :: "u8 list"
  t_state :: task_state_t
  t_ticks :: u64
  t_entry :: addr
  t_arg :: addr
  t_next :: task_ptr

record sched_state =
  tasks :: "nat \<Rightarrow> task_t"
  current :: task_ptr
  ready_q :: task_ptr
  next_id :: u32
  task_count :: u32
  sched_lock :: spinlock_t

text \<open>A zeroed task: \<^verbatim>\<open>TASK_READY\<close> is 0.\<close>

definition task_zero :: task_t where
  "task_zero = \<lparr>t_id = 0, t_name = replicate TASK_NAME 0, t_state = TASK_READY, t_ticks = 0,
     t_entry = 0, t_arg = 0, t_next = None\<rparr>"

definition set_task :: "nat \<Rightarrow> (task_t \<Rightarrow> task_t) \<Rightarrow> sched_state \<Rightarrow> sched_state" where
  "set_task i f s = s\<lparr>tasks := (tasks s)(i := f (tasks s i))\<rparr>"

text \<open>The first slot that is dead or was never used.\<close>

function find_slot :: "sched_state \<Rightarrow> nat \<Rightarrow> task_ptr" where
  "find_slot s i =
     (if i < MAX_TASKS then
        (if t_state (tasks s i) = TASK_DEAD \<or> t_id (tasks s i) = 0 then Some i
         else find_slot s (i + 1))
      else None)"
  by pat_completeness auto
termination by (relation "measure (\<lambda>(s, i). MAX_TASKS - i)") auto

definition sched_create ::
    "u8 list option \<Rightarrow> addr \<Rightarrow> addr \<Rightarrow> sched_state \<Rightarrow> (task_ptr \<times> sched_state) option" where
  "sched_create name entry arg s =
     (case spin_lock (sched_lock s) of
        None \<Rightarrow> None
      | Some l \<Rightarrow>
          (case find_slot s 0 of
             None \<Rightarrow> Some (None, s\<lparr>sched_lock := spin_unlock l\<rparr>)
           | Some t \<Rightarrow>
               let s = set_task t (\<lambda>_. task_zero\<lparr>t_id := next_id s\<rparr>) s\<lparr>next_id := next_id s + 1\<rparr>;
                   s = set_task t (\<lambda>k. k\<lparr>t_name := strncpy_buf (TASK_NAME - 1)
                         (case name of None \<Rightarrow> bytes_of ''task'' | Some n \<Rightarrow> n) (t_name k),
                         t_state := TASK_READY, t_entry := entry, t_arg := arg,
                         t_next := ready_q s\<rparr>) s
               in Some (Some t, s\<lparr>ready_q := Some t, task_count := task_count s + 1,
                    sched_lock := spin_unlock l\<rparr>)))"

definition sched_init :: "sched_state \<Rightarrow> sched_state option" where
  "sched_init s =
     (let s = s\<lparr>tasks := (\<lambda>_. task_zero), sched_lock := spinlock_init (sched_lock s),
            current := None, ready_q := None, next_id := 1, task_count := 0\<rparr> in
      case sched_create (Some (bytes_of ''kernel-idle'')) 0 0 s of
        None \<Rightarrow> None
      | Some (None, s) \<Rightarrow> Some s
      | Some (Some idle, s) \<Rightarrow>
          Some (set_task idle (\<lambda>k. k\<lparr>t_state := TASK_RUNNING\<rparr>) s\<lparr>current := Some idle\<rparr>))"

text \<open>The walk to the last task of a non-empty queue.\<close>

partial_function (option) queue_tail :: "sched_state \<Rightarrow> nat \<Rightarrow> nat option" where
  "queue_tail s i = (case t_next (tasks s i) of None \<Rightarrow> Some i | Some j \<Rightarrow> queue_tail s j)"

definition append_current :: "nat \<Rightarrow> sched_state \<Rightarrow> sched_state option" where
  "append_current c s =
     (case ready_q s of
        None \<Rightarrow> Some (s\<lparr>ready_q := Some c\<rparr>)
      | Some h \<Rightarrow> (case queue_tail s h of
                     None \<Rightarrow> None
                   | Some l \<Rightarrow> Some (set_task l (\<lambda>k. k\<lparr>t_next := Some c\<rparr>) s)))"

definition sched_yield :: "sched_state \<Rightarrow> sched_state option" where
  "sched_yield s =
     (case spin_lock (sched_lock s) of
        None \<Rightarrow> None
      | Some l \<Rightarrow>
          let s = s\<lparr>sched_lock := l\<rparr>;
              s = (case current s of None \<Rightarrow> s
                   | Some c \<Rightarrow> set_task c (\<lambda>k. k\<lparr>t_state := TASK_READY\<rparr>) s) in
          case ready_q s of
            None \<Rightarrow> Some (s\<lparr>sched_lock := spin_unlock (sched_lock s)\<rparr>)
          | Some nx \<Rightarrow>
              let s = s\<lparr>ready_q := t_next (tasks s nx)\<rparr> in
              (case (case current s of
                       None \<Rightarrow> Some s
                     | Some c \<Rightarrow>
                         if t_state (tasks s c) \<noteq> TASK_DEAD
                         then append_current c (set_task c (\<lambda>k. k\<lparr>t_next := None\<rparr>) s)
                         else Some s) of
                 None \<Rightarrow> None
               | Some s \<Rightarrow>
                   let s = set_task nx (\<lambda>k. k\<lparr>t_state := TASK_RUNNING, t_next := None\<rparr>)
                             (s\<lparr>current := Some nx\<rparr>)
                   in Some (s\<lparr>sched_lock := spin_unlock (sched_lock s)\<rparr>)))"

definition sched_tick :: "sched_state \<Rightarrow> sched_state" where
  "sched_tick s =
     (case current s of None \<Rightarrow> s | Some c \<Rightarrow> set_task c (\<lambda>k. k\<lparr>t_ticks := t_ticks k + 1\<rparr>) s)"

definition sched_current :: "sched_state \<Rightarrow> task_ptr" where
  "sched_current s = current s"

definition sched_task_count :: "sched_state \<Rightarrow> u32" where
  "sched_task_count s = task_count s"

declare find_slot.simps [simp del]

section \<open>The ready queue as a list\<close>

primrec task_chain :: "(nat \<Rightarrow> task_t) \<Rightarrow> task_ptr \<Rightarrow> nat list \<Rightarrow> bool" where
  "task_chain ts p [] \<longleftrightarrow> p = None"
| "task_chain ts p (x # xs) \<longleftrightarrow> p = Some x \<and> task_chain ts (t_next (ts x)) xs"

text \<open>
  A queue that is a proper list of distinct tasks in use, with the running task outside of it
  and the lock free.
\<close>

definition in_use :: "task_t \<Rightarrow> bool" where
  "in_use k \<longleftrightarrow> t_id k \<noteq> 0 \<and> t_state k \<noteq> TASK_DEAD"

definition sched_ok :: "sched_state \<Rightarrow> nat list \<Rightarrow> bool" where
  "sched_ok s q \<longleftrightarrow> task_chain (tasks s) (ready_q s) q \<and> distinct q \<and> locked (sched_lock s) = 0 \<and>
     (\<forall>c. current s = Some c \<longrightarrow> c \<notin> set q \<and> in_use (tasks s c)) \<and> (\<forall>i \<in> set q. in_use (tasks s i))"

lemma set_task_simps [simp]:
  "tasks (set_task i f s) = (tasks s)(i := f (tasks s i))" "current (set_task i f s) = current s"
  "ready_q (set_task i f s) = ready_q s" "sched_lock (set_task i f s) = sched_lock s"
  "next_id (set_task i f s) = next_id s" "task_count (set_task i f s) = task_count s"
  by (simp_all add: set_task_def)

lemma task_chain_cong:
  "(\<And>x. x \<in> set xs \<Longrightarrow> t_next (ts' x) = t_next (ts x)) \<Longrightarrow> task_chain ts' p xs = task_chain ts p xs"
  by (induction xs arbitrary: p) auto

lemma task_chain_snoc:
  assumes "task_chain ts p (xs @ [l])" "distinct (xs @ [l])" "c \<notin> set (xs @ [l])" "t_next (ts c) = None"
  shows "task_chain (ts(l := (ts l)\<lparr>t_next := Some c\<rparr>)) p (xs @ [l, c])"
  using assms
proof (induction xs arbitrary: p)
  case (Cons x xs)
  then show ?case by auto
qed simp

lemma queue_tail_chain:
  "task_chain (tasks s) (Some i) (xs @ [l]) \<Longrightarrow> queue_tail s i = Some l"
proof (induction xs arbitrary: i)
  case Nil
  then show ?case by (subst queue_tail.simps) simp
next
  case (Cons x xs)
  then obtain j where "t_next (tasks s i) = Some j" by (cases xs) auto
  then show ?case using Cons by (subst queue_tail.simps) auto
qed

lemma queue_tail_loop: "t_next (tasks s i) = Some i \<Longrightarrow> queue_tail s i = None"
proof (rule ccontr)
  assume l: "t_next (tasks s i) = Some i" and "queue_tail s i \<noteq> None"
  then obtain r where "queue_tail s i = Some r" by auto
  then have "t_next (tasks s i) \<noteq> Some i"
    by (rule queue_tail.raw_induct [where P = "\<lambda>s i r. t_next (tasks s i) \<noteq> Some i", rotated])
      (auto split: option.splits)
  then show False using l by simp
qed

lemma append_current_chain:
  assumes "task_chain (tasks s) (ready_q s) q" "distinct q" "c \<notin> set q" "t_next (tasks s c) = None"
  shows "\<exists>s'. append_current c s = Some s' \<and> task_chain (tasks s') (ready_q s') (q @ [c]) \<and>
    current s' = current s \<and> sched_lock s' = sched_lock s \<and>
    (\<forall>i. tasks s' i = (tasks s i)\<lparr>t_next := t_next (tasks s' i)\<rparr>) \<and>
    (\<forall>i. i \<notin> set q \<longrightarrow> tasks s' i = tasks s i)"
proof (cases q rule: rev_cases)
  case Nil
  then show ?thesis using assms by (auto simp: append_current_def)
next
  case (snoc xs l)
  then obtain h where h: "ready_q s = Some h" using assms(1) by (cases xs) auto
  then have t: "queue_tail s h = Some l" using queue_tail_chain assms(1) snoc by simp
  have "task_chain ((tasks s)(l := (tasks s l)\<lparr>t_next := Some c\<rparr>)) (ready_q s) (xs @ [l, c])"
    using assms snoc by (intro task_chain_snoc) auto
  then show ?thesis using h t snoc by (auto simp: append_current_def)
qed

lemma yield_rotates:
  assumes ok: "sched_ok s (x # q)" and c: "current s = Some c"
  shows "\<exists>s'. sched_yield s = Some s' \<and> sched_ok s' (q @ [c]) \<and> current s' = Some x \<and>
    t_state (tasks s' x) = TASK_RUNNING \<and> t_state (tasks s' c) = TASK_READY"
proof -
  have ch: "task_chain (tasks s) (ready_q s) (x # q)" "distinct (x # q)" "c \<notin> set (x # q)"
    "locked (sched_lock s) = 0" "in_use (tasks s c)" "\<forall>i \<in> set (x # q). in_use (tasks s i)"
    using ok c by (auto simp: sched_ok_def)
  define s1 where "s1 = set_task c (\<lambda>k. k\<lparr>t_state := TASK_READY\<rparr>) (s\<lparr>sched_lock := (sched_lock s)\<lparr>locked := 1\<rparr>\<rparr>)"
  define s2 where "s2 = set_task c (\<lambda>k. k\<lparr>t_next := None\<rparr>) (s1\<lparr>ready_q := t_next (tasks s1 x)\<rparr>)"
  have t1: "tasks s1 i = (if i = c then (tasks s c)\<lparr>t_state := TASK_READY\<rparr> else tasks s i)" for i
    by (simp add: s1_def)
  have t2: "tasks s2 i = (if i = c then (tasks s c)\<lparr>t_state := TASK_READY, t_next := None\<rparr> else tasks s i)" for i
    by (simp add: s2_def t1)
  have "task_chain (tasks s2) (ready_q s2) q"
  proof -
    have "task_chain (tasks s2) p q = task_chain (tasks s) p q" for p
      by (rule task_chain_cong) (use ch(3) t2 in auto)
    moreover have "ready_q s2 = t_next (tasks s x)" using ch(3) t1 [of x] by (simp add: s2_def)
    ultimately show ?thesis using ch(1) by simp
  qed
  then obtain s3 where s3: "append_current c s2 = Some s3" "task_chain (tasks s3) (ready_q s3) (q @ [c])"
    "current s3 = current s2" "sched_lock s3 = sched_lock s2"
    "\<forall>i. tasks s3 i = (tasks s2 i)\<lparr>t_next := t_next (tasks s3 i)\<rparr>"
    using append_current_chain [of s2 q c] ch(2,3) t2 [of c] by auto
  define s4 where "s4 = set_task x (\<lambda>k. k\<lparr>t_state := TASK_RUNNING, t_next := None\<rparr>) (s3\<lparr>current := Some x\<rparr>)
    \<lparr>sched_lock := spin_unlock (sched_lock s3)\<rparr>"
  have "ready_q s = Some x" using ch(1) by simp
  then have "sched_yield s = Some s4"
    using c ch(4) s3(1) t1 [of c]
    by (simp add: sched_yield_def spin_lock_cases Let_def s1_def [symmetric] s2_def [symmetric] s4_def)
      (simp add: s1_def s2_def s4_def set_task_def)
  moreover have f3: "t_id (tasks s3 i) = t_id (tasks s2 i)" "t_state (tasks s3 i) = t_state (tasks s2 i)" for i
    by (subst s3(5) [rule_format], simp)+
  moreover have "task_chain (tasks s4) (ready_q s4) (q @ [c])"
  proof -
    have "task_chain (tasks s4) p (q @ [c]) = task_chain (tasks s3) p (q @ [c])" for p
      by (rule task_chain_cong) (use ch(2,3) in \<open>auto simp: s4_def\<close>)
    moreover have "ready_q s4 = ready_q s3" by (simp add: s4_def)
    ultimately show ?thesis using s3(2) by simp
  qed
  ultimately show ?thesis
    using ch t2 by (intro exI [of _ s4]) (auto simp: sched_ok_def s4_def in_use_def spin_unlock_def)
qed

lemma yield_alone:
  assumes ok: "sched_ok s []" and c: "current s = Some c"
  shows "\<exists>s'. sched_yield s = Some s' \<and> sched_ok s' [] \<and> current s' = Some c"
  using assms by (auto simp: sched_yield_def sched_ok_def spin_lock_cases spin_unlock_def in_use_def Let_def)

text \<open>A number of yields in a row.\<close>

primrec yields :: "nat \<Rightarrow> sched_state \<Rightarrow> sched_state option" where
  "yields 0 s = Some s"
| "yields (Suc n) s = (case sched_yield s of None \<Rightarrow> None | Some s' \<Rightarrow> yields n s')"

lemma yields_rotate:
  assumes "sched_ok s q" and "current s = Some c"
  shows "\<exists>s'. yields n s = Some s' \<and> current s' = Some (hd (rotate n (c # q))) \<and> sched_ok s' (tl (rotate n (c # q)))"
  using assms
proof (induction n arbitrary: s q c)
  case (Suc n)
  show ?case
  proof (cases q)
    case Nil
    then obtain s1 where "sched_yield s = Some s1" "sched_ok s1 []" "current s1 = Some c"
      using yield_alone Suc.prems by blast
    then show ?thesis using Suc.IH [of s1 "[]" c] Nil by simp
  next
    case (Cons x xs)
    then obtain s1 where s1: "sched_yield s = Some s1" "sched_ok s1 (xs @ [c])" "current s1 = Some x"
      using yield_rotates Suc.prems by blast
    have "rotate (Suc n) (c # q) = rotate n (x # xs @ [c])"
      using Cons by (simp add: rotate1_rotate_swap [symmetric] del: rotate_Suc) (simp add: rotate_def funpow_Suc_right del: funpow.simps)
    then show ?thesis using Suc.IH [OF s1(2,3)] s1(1) by simp
  qed
qed simp

text \<open>Creating a task.\<close>

lemma find_slot_spec:
  "(case find_slot s i of
      None \<Rightarrow> \<forall>j. i \<le> j \<longrightarrow> j < MAX_TASKS \<longrightarrow> in_use (tasks s j)
    | Some t \<Rightarrow> i \<le> t \<and> t < MAX_TASKS \<and> \<not> in_use (tasks s t) \<and> (\<forall>j. i \<le> j \<longrightarrow> j < t \<longrightarrow> in_use (tasks s j)))"
proof (induction s i rule: find_slot.induct)
  case (1 s i)
  show ?case
  proof (cases "i < MAX_TASKS \<and> in_use (tasks s i)")
    case True
    then have "find_slot s i = find_slot s (i + 1)" by (subst find_slot.simps) (auto simp: in_use_def)
    moreover have "i \<le> j \<longleftrightarrow> j = i \<or> i + 1 \<le> j" for j by auto
    ultimately show ?thesis using 1 True by (auto simp: in_use_def split: option.splits)
  next
    case False
    then show ?thesis by (subst find_slot.simps) (auto simp: in_use_def)
  qed
qed

section \<open>The states reached from start-up\<close>

definition new_task :: "u8 list option \<Rightarrow> addr \<Rightarrow> addr \<Rightarrow> sched_state \<Rightarrow> task_t" where
  "new_task name entry arg s = task_zero\<lparr>t_id := next_id s,
     t_name := strncpy_buf 31 (case name of None \<Rightarrow> bytes_of ''task'' | Some n \<Rightarrow> n) (replicate TASK_NAME 0),
     t_entry := entry, t_arg := arg, t_next := ready_q s\<rparr>"

lemma sched_create_eq:
  assumes "locked (sched_lock s) = 0"
  shows "sched_create name entry arg s = Some (case find_slot s 0 of None \<Rightarrow> (None, s)
     | Some t \<Rightarrow> (Some t, s\<lparr>tasks := (tasks s)(t := new_task name entry arg s), next_id := next_id s + 1, ready_q := Some t,
         task_count := task_count s + 1\<rparr>))"
  using assms by (simp add: sched_create_def spin_lock_cases spin_unlock_def Let_def set_task_def new_task_def task_zero_def TASK_NAME_def
      split: option.split)

inductive sched_reach :: "sched_state \<Rightarrow> bool" where
  init: "sched_init s0 = Some s \<Longrightarrow> sched_reach s"
| create: "sched_reach s \<Longrightarrow> sched_create name entry arg s = Some (t, s') \<Longrightarrow> sched_reach s'"
| yield: "sched_reach s \<Longrightarrow> sched_yield s = Some s' \<Longrightarrow> sched_reach s'"
| tick: "sched_reach s \<Longrightarrow> sched_reach (sched_tick s)"

text \<open>The first \<open>n\<close> slots are in use, the others have never been.\<close>

definition sched_table :: "nat \<Rightarrow> sched_state \<Rightarrow> bool" where
  "sched_table n s \<longleftrightarrow> 1 \<le> n \<and> n \<le> MAX_TASKS \<and> (\<forall>i < n. in_use (tasks s i)) \<and> (\<forall>i \<ge> n. t_id (tasks s i) = 0) \<and>
     task_count s = of_nat n \<and> locked (sched_lock s) = 0 \<and> next_id s = of_nat (Suc n)"

lemma sched_tableD:
  assumes "sched_table n s"
  shows "1 \<le> n" "n \<le> MAX_TASKS" "i < n \<Longrightarrow> in_use (tasks s i)" "\<not> i < n \<Longrightarrow> t_id (tasks s i) = 0" "task_count s = of_nat n"
    "locked (sched_lock s) = 0" "next_id s = of_nat (Suc n)"
  using assms by (auto simp: sched_table_def)

lemma sched_table_slot:
  assumes "sched_table n s"
  shows "find_slot s 0 = (if n < MAX_TASKS then Some n else None)"
proof -
  have use: "in_use (tasks s i) \<longleftrightarrow> i < n" for i using sched_tableD(3,4) [OF assms, of i] by (cases "i < n") (simp_all add: in_use_def)
  show ?thesis using find_slot_spec [where s = s and i = 0] sched_tableD(2) [OF assms]
    by (cases "find_slot s 0") (auto simp: use not_less, (metis le_neq_implies_less less_irrefl)+)
qed

lemma sched_table_create:
  assumes t: "sched_table n s" and n: "n < MAX_TASKS"
    and s': "s' = s\<lparr>tasks := (tasks s)(n := new_task name entry arg s), next_id := next_id s + 1, ready_q := Some n, task_count := task_count s + 1\<rparr>"
  shows "sched_table (Suc n) s'"
proof -
  have "of_nat (Suc n) \<noteq> (0 :: u32)" using n unat_of_nat [of "Suc n", where ?'a = 32] by (auto simp: MAX_TASKS_def)
  then show ?thesis using t n
    by (auto simp: sched_table_def s' new_task_def in_use_def task_zero_def less_Suc_eq add.commute)
qed

text \<open>
  Two phases. In the first one the idle task runs and all tasks are queued, the newest in front and the idle task at the end.
  In the second one another task runs, and the queue leads to the idle task, which is linked to itself.
\<close>

primrec leads_to_idle :: "(nat \<Rightarrow> task_t) \<Rightarrow> task_ptr \<Rightarrow> nat list \<Rightarrow> bool" where
  "leads_to_idle ts p [] \<longleftrightarrow> p = Some 0"
| "leads_to_idle ts p (x # xs) \<longleftrightarrow> p = Some x \<and> leads_to_idle ts (t_next (ts x)) xs"

definition sched_before :: "nat \<Rightarrow> sched_state \<Rightarrow> bool" where
  "sched_before n s \<longleftrightarrow> sched_table n s \<and> current s = Some 0 \<and> task_chain (tasks s) (ready_q s) (rev [0..<n])"

definition sched_after :: "nat \<Rightarrow> sched_state \<Rightarrow> bool" where
  "sched_after n s \<longleftrightarrow> sched_table n s \<and> t_next (tasks s 0) = Some 0 \<and>
     (\<exists>c q. current s = Some c \<and> 0 < c \<and> c < n \<and> leads_to_idle (tasks s) (ready_q s) q \<and> c \<notin> set q \<and> set q \<subseteq> {..<n})"

lemma leads_to_idle_cong:
  "(\<And>x. x \<in> set xs \<Longrightarrow> t_next (ts' x) = t_next (ts x)) \<Longrightarrow> leads_to_idle ts' p xs = leads_to_idle ts p xs"
  by (induction xs arbitrary: p) auto

lemma queue_tail_stuck:
  "leads_to_idle (tasks s) (Some i) q \<Longrightarrow> t_next (tasks s 0) = Some 0 \<Longrightarrow> queue_tail s i = None"
proof (induction q arbitrary: i)
  case Nil
  then show ?case using queue_tail_loop [of s 0] by simp
next
  case (Cons x q)
  then obtain j where j: "t_next (tasks s i) = Some j" by (cases q) auto
  then have "queue_tail s j = None" using Cons by simp
  then show ?case using j by (subst queue_tail.simps) simp
qed

lemma chain_leads: "task_chain ts p (xs @ [0]) \<Longrightarrow> distinct (xs @ [0]) \<Longrightarrow> leads_to_idle (ts(0 := k)) p xs"
proof (induction xs arbitrary: p)
  case (Cons x xs)
  then show ?case by auto
qed simp

lemma sched_init_before: "\<exists>s. sched_init s0 = Some s \<and> sched_before 1 s"
proof -
  define z where "z = s0\<lparr>tasks := (\<lambda>_. task_zero), sched_lock := spinlock_init (sched_lock s0),
      current := None, ready_q := None, next_id := 1, task_count := 0\<rparr>"
  have z: "locked (sched_lock z) = 0" "find_slot z 0 = Some 0"
    by (simp add: z_def spinlock_init_def) (subst find_slot.simps, simp add: z_def task_zero_def MAX_TASKS_def)
  show ?thesis
    using sched_create_eq [OF z(1)] z
    by (simp add: sched_init_def z_def [symmetric] Let_def)
      (simp add: z_def sched_before_def sched_table_def new_task_def task_zero_def in_use_def MAX_TASKS_def)
qed

lemma create_before:
  assumes b: "sched_before n s" and r: "sched_create name entry arg s = Some (t, s')"
  shows "sched_before (if n < MAX_TASKS then Suc n else n) s'"
proof -
  have t: "sched_table n s" using b by (simp add: sched_before_def)
  note eq = sched_create_eq [OF sched_tableD(6) [OF t]] sched_table_slot [OF t]
  show ?thesis
  proof (cases "n < MAX_TASKS")
    case True
    then have s': "s' = s\<lparr>tasks := (tasks s)(n := new_task name entry arg s), next_id := next_id s + 1, ready_q := Some n, task_count := task_count s + 1\<rparr>"
      using r eq by auto
    have "task_chain ((tasks s)(n := new_task name entry arg s)) p (rev [0..<n]) = task_chain (tasks s) p (rev [0..<n])" for p
      by (rule task_chain_cong) auto
    then show ?thesis using b sched_table_create [OF t True s'] True by (simp add: sched_before_def s' new_task_def)
  next
    case False
    then show ?thesis using b r eq by simp
  qed
qed

lemma create_after:
  assumes b: "sched_after n s" and r: "sched_create name entry arg s = Some (t, s')"
  shows "sched_after (if n < MAX_TASKS then Suc n else n) s'"
proof -
  have t: "sched_table n s" using b by (simp add: sched_after_def)
  note eq = sched_create_eq [OF sched_tableD(6) [OF t]] sched_table_slot [OF t]
  show ?thesis
  proof (cases "n < MAX_TASKS")
    case True
    then have s': "s' = s\<lparr>tasks := (tasks s)(n := new_task name entry arg s), next_id := next_id s + 1, ready_q := Some n, task_count := task_count s + 1\<rparr>"
      using r eq by auto
    obtain c q where c: "current s = Some c" "0 < c" "c < n" "leads_to_idle (tasks s) (ready_q s) q" "c \<notin> set q" "set q \<subseteq> {..<n}"
      using b by (auto simp: sched_after_def)
    have "leads_to_idle (tasks s') p q = leads_to_idle (tasks s) p q" for p
      by (rule leads_to_idle_cong) (use c(6) in \<open>auto simp: s'\<close>)
    then have "leads_to_idle (tasks s') (ready_q s') (n # q)" using c(4) by (simp add: s' new_task_def)
    moreover have "c \<notin> set (n # q)" "set (n # q) \<subseteq> {..<Suc n}" using c by auto
    ultimately show ?thesis using b c sched_table_create [OF t True s'] True
      by (auto simp: sched_after_def s' intro!: exI [of _ "n # q"])
  next
    case False
    then show ?thesis using b r eq by simp
  qed
qed

lemma yield_before:
  assumes b: "sched_before n s"
  shows "\<exists>s'. sched_yield s = Some s' \<and> current s' = Some (n - 1) \<and> (if n = 1 then sched_before n s' else sched_after n s')"
proof -
  have t: "sched_table n s" and cur: "current s = Some 0" and ch: "task_chain (tasks s) (ready_q s) (rev [0..<n])"
    using b by (auto simp: sched_before_def)
  have l: "locked (sched_lock s) = 0" and idle: "in_use (tasks s 0)" using sched_tableD(1,3,6) [OF t] by auto
  show ?thesis
  proof (cases "n = 1")
    case True
    then have q: "ready_q s = Some 0" "t_next (tasks s 0) = None" using ch by auto
    define s' where "s' = s\<lparr>ready_q := Some 0, current := Some 0, tasks := (tasks s)(0 := (tasks s 0)\<lparr>t_state := TASK_RUNNING, t_next := None\<rparr>),
      sched_lock := (sched_lock s)\<lparr>locked := 0\<rparr>\<rparr>"
    have "sched_yield s = Some s'" using cur q l
      by (simp add: sched_yield_def spin_lock_cases spin_unlock_def Let_def append_current_def s'_def set_task_def)
    moreover have "sched_before n s'" using b True idle by (auto simp: sched_before_def sched_table_def s'_def in_use_def)
    moreover have "current s' = Some (n - 1)" using cur True by (simp add: s'_def)
    ultimately show ?thesis using True by auto
  next
    case False
    define x where "x = n - 1"
    have n: "n = Suc x" "0 < x" using False sched_tableD(1) [OF t] by (auto simp: x_def)
    define xs where "xs = rev [1..<x]"
    have up: "[0..<x] = 0 # [1..<x]" using n(2) by (simp add: upt_conv_Cons)
    then have rest: "rev [0..<x] = xs @ [0]" by (simp add: xs_def)
    have q: "ready_q s = Some x" "task_chain (tasks s) (t_next (tasks s x)) (xs @ [0])" using ch n rest by simp_all
    define s1 where "s1 = set_task 0 (\<lambda>k. k\<lparr>t_next := None\<rparr>)
      ((set_task 0 (\<lambda>k. k\<lparr>t_state := TASK_READY\<rparr>) (s\<lparr>sched_lock := (sched_lock s)\<lparr>locked := 1\<rparr>\<rparr>))\<lparr>ready_q := t_next (tasks s x)\<rparr>)"
    have last: "t_next (tasks s 0) = None" if "task_chain (tasks s) p (ys @ [0])" for p ys
      using that by (induction ys arbitrary: p) auto
    have same: "t_next (tasks s1 i) = t_next (tasks s i)" for i using last [OF q(2)] by (simp add: s1_def)
    have ch1: "task_chain (tasks s1) (ready_q s1) (xs @ [0])" using q(2) task_chain_cong [of "xs @ [0]" "tasks s1" "tasks s"] same by (simp add: s1_def)
    obtain h where h: "ready_q s1 = Some h" using ch1 by (cases xs) auto
    have ap: "append_current 0 s1 = Some (set_task 0 (\<lambda>k. k\<lparr>t_next := Some 0\<rparr>) s1)"
      using h queue_tail_chain [of s1 h xs 0] ch1 by (simp add: append_current_def)
    define s2 where "s2 = set_task x (\<lambda>k. k\<lparr>t_state := TASK_RUNNING, t_next := None\<rparr>)
      ((set_task 0 (\<lambda>k. k\<lparr>t_next := Some 0\<rparr>) s1)\<lparr>current := Some x\<rparr>)"
    have y: "sched_yield s = Some (s2\<lparr>sched_lock := spin_unlock (sched_lock s2)\<rparr>)"
      using cur q(1) l n(2) ap
      by (simp add: sched_yield_def spin_lock_cases Let_def s1_def [symmetric] s2_def)
    let ?s = "s2\<lparr>sched_lock := spin_unlock (sched_lock s2)\<rparr>"
    have "leads_to_idle ((tasks s1)(0 := (tasks s1 0)\<lparr>t_next := Some 0\<rparr>)) (ready_q s1) xs"
      using ch1 n(2) by (intro chain_leads) (auto simp: xs_def)
    then have "leads_to_idle (tasks ?s) (ready_q ?s) xs"
      using leads_to_idle_cong [of xs "tasks ?s" "(tasks s1)(0 := (tasks s1 0)\<lparr>t_next := Some 0\<rparr>)"] by (auto simp: s2_def xs_def)
    moreover have "sched_table n ?s" using t n idle by (auto simp: sched_table_def s2_def s1_def in_use_def spin_unlock_def)
    moreover have "t_next (tasks ?s 0) = Some 0" "current ?s = Some x" using n(2) by (simp_all add: s2_def)
    ultimately have "sched_after n ?s" using n by (auto simp: sched_after_def xs_def intro!: exI [of _ xs])
    then show ?thesis using y False n(1) by (intro exI [of _ ?s]) (simp add: s2_def)
  qed
qed

lemma yield_after:
  assumes "sched_after n s"
  shows "sched_yield s = None"
proof -
  obtain c q where c: "current s = Some c" "0 < c" "c < n" "leads_to_idle (tasks s) (ready_q s) q" "c \<notin> set q" and loop: "t_next (tasks s 0) = Some 0"
    and t: "sched_table n s" using assms by (auto simp: sched_after_def)
  obtain x where x: "ready_q s = Some x" using c(4) by (cases q) auto
  define s1 where "s1 = set_task c (\<lambda>k. k\<lparr>t_next := None\<rparr>)
    ((set_task c (\<lambda>k. k\<lparr>t_state := TASK_READY\<rparr>) (s\<lparr>sched_lock := (sched_lock s)\<lparr>locked := 1\<rparr>\<rparr>))\<lparr>ready_q := t_next (tasks s x)\<rparr>)"
  have xc: "x \<noteq> c" using c x by (cases q) auto
  have "\<exists>q'. leads_to_idle (tasks s) (t_next (tasks s x)) q' \<and> c \<notin> set q'"
  proof (cases q)
    case Nil
    then show ?thesis using c(4) x loop by (intro exI [of _ "[]"]) simp
  next
    case (Cons y ys)
    then show ?thesis using c(4,5) x by (intro exI [of _ ys]) auto
  qed
  then obtain q' where q': "leads_to_idle (tasks s) (t_next (tasks s x)) q'" "c \<notin> set q'" by blast
  have "leads_to_idle (tasks s1) p q' = leads_to_idle (tasks s) p q'" for p
    by (rule leads_to_idle_cong) (use q'(2) in \<open>auto simp: s1_def\<close>)
  then have q1: "leads_to_idle (tasks s1) (ready_q s1) q'" using q'(1) by (simp add: s1_def)
  then obtain h where h: "ready_q s1 = Some h" by (cases q') auto
  have "t_next (tasks s1 0) = Some 0" using loop c(2) by (simp add: s1_def)
  then have "append_current c s1 = None" using h queue_tail_stuck [of s1 h q'] q1 by (simp add: append_current_def)
  then show ?thesis using c(1) x xc sched_tableD(6) [OF t]
    by (simp add: sched_yield_def spin_lock_cases Let_def s1_def [symmetric])
qed

lemma sched_reach_phase: "sched_reach s \<Longrightarrow> \<exists>n. sched_before n s \<or> sched_after n s"
proof (induction rule: sched_reach.induct)
  case (init s0 s)
  then show ?case using sched_init_before [of s0] by auto
next
  case (create s name entry arg t s')
  then show ?case using create_before create_after by blast
next
  case (yield s s')
  then obtain n where "sched_before n s \<or> sched_after n s" by blast
  then show ?case using yield_before [of n s] yield_after [of n s] yield.hyps(2) by (auto split: if_splits)
next
  case (tick s)
  then obtain n where n: "sched_before n s \<or> sched_after n s" by blast
  define s' where "s' = sched_tick s"
  have f: "t_next (tasks s' i) = t_next (tasks s i)" "in_use (tasks s' i) = in_use (tasks s i)" "t_id (tasks s' i) = t_id (tasks s i)"
    "current s' = current s" "ready_q s' = ready_q s" "task_count s' = task_count s" "sched_lock s' = sched_lock s" "next_id s' = next_id s" for i
    by (simp_all add: s'_def sched_tick_def in_use_def split: option.split)
  have "task_chain (tasks s') p xs = task_chain (tasks s) p xs" "leads_to_idle (tasks s') p xs = leads_to_idle (tasks s) p xs" for p xs
    by (rule task_chain_cong leads_to_idle_cong, simp add: f)+
  then show ?case using n unfolding s'_def [symmetric] by (intro exI [of _ n]) (simp add: sched_before_def sched_after_def sched_table_def f)
qed

section \<open>Properties\<close>

text \<open>
  What \<^verbatim>\<open>sched_yield\<close> does with a ready queue that is in order: if the running task is not itself in the queue, \<open>n\<close> calls return and
  rotate the running task and the queue by \<open>n\<close> places. No state that the kernel reaches from \<^verbatim>\<open>sched_init\<close> has such a queue, as the property
  of the reachable states below says; the theorem describes the algorithm of \<^verbatim>\<open>sched_yield\<close> alone.
\<close>

theorem sched_round_robin:
  assumes "sched_ok s q" and "current s = Some c"
  shows "\<exists>s'. yields n s = Some s' \<and> sched_current s' = Some ((c # q) ! (n mod Suc (length q))) \<and>
    sched_ok s' (tl (rotate n (c # q)))"
proof -
  have "hd (rotate n (c # q)) = (c # q) ! (n mod Suc (length q))"
    by (subst hd_rotate_conv_nth) simp_all
  then show ?thesis using yields_rotate [OF assms, of n] by (simp add: sched_current_def)
qed

text \<open>Task 0 runs, task 1 is queued.\<close>

definition sched_example :: sched_state where
  "sched_example = \<lparr>tasks = (\<lambda>i. task_zero\<lparr>t_id := of_nat i + 1\<rparr>)(0 := task_zero\<lparr>t_id := 1, t_state := TASK_RUNNING\<rparr>),
     current = Some 0, ready_q = Some 1, next_id = 3, task_count = 2, sched_lock = \<lparr>locked = 0\<rparr>\<rparr>"

lemma sched_example_ok: "sched_ok sched_example [1]" "current sched_example = Some 0"
  by (auto simp: sched_ok_def sched_example_def task_zero_def in_use_def)

theorem sched_round_robin_witness:
  "\<exists>s'. yields 1 sched_example = Some s' \<and> sched_current s' = Some 1"
  using sched_round_robin [OF sched_example_ok, of 1] by auto

text \<open>
  Creating a task. With the lock free and a non-zero next identifier, \<^verbatim>\<open>sched_create\<close>
  returns. It fails exactly when all 64 slots are in use and then changes nothing. Otherwise it
  takes the lowest slot that is not in use, initialises it with the next identifier, the name
  cut to 31 characters and the arguments, puts it in front of the queue, and leaves all other
  tasks and the running task alone.
\<close>

theorem sched_create_enqueues:
  assumes l: "locked (sched_lock s) = 0" and id: "next_id s \<noteq> 0" and nm: "0 \<notin> set name"
  shows "\<exists>t s'. sched_create (Some name) entry arg s = Some (t, s') \<and>
    (t = None \<longrightarrow> s' = s \<and> (\<forall>i < MAX_TASKS. in_use (tasks s i))) \<and>
    (\<forall>i. t = Some i \<longrightarrow> i < MAX_TASKS \<and> \<not> in_use (tasks s i) \<and> (\<forall>j<i. in_use (tasks s j)) \<and> in_use (tasks s' i) \<and>
       ready_q s' = Some i \<and> t_next (tasks s' i) = ready_q s \<and> t_id (tasks s' i) = next_id s \<and> cstr (t_name (tasks s' i)) = take 31 name \<and>
       t_entry (tasks s' i) = entry \<and> t_arg (tasks s' i) = arg \<and> t_state (tasks s' i) = TASK_READY \<and>
       (\<forall>j. j \<noteq> i \<longrightarrow> tasks s' j = tasks s j) \<and> current s' = current s \<and> locked (sched_lock s') = 0)"
proof (cases "find_slot s 0")
  case None
  then show ?thesis using sched_create_eq [OF l] find_slot_spec [where s = s and i = 0] by simp
next
  case (Some i)
  have "cstr (strncpy_buf 31 name (replicate 32 0)) = take 31 name" using cstr_strncpy_buf [OF nm, of 31 "replicate 32 0"] by simp
  then show ?thesis using sched_create_eq [OF l, of "Some name" entry arg] find_slot_spec [where s = s and i = 0] Some id l
    by (auto simp: new_task_def in_use_def task_zero_def TASK_NAME_def)
qed

theorem sched_create_enqueues_witness:
  "\<exists>t s'. sched_create (Some (bytes_of ''init'')) 0x1000 0 sched_example = Some (t, s') \<and>
     (t = None \<or> current s' = current sched_example)"
  using sched_create_enqueues [of sched_example "bytes_of ''init''" "0x1000" 0]
  by (auto simp: sched_example_def bytes_of_def of_char_def)

text \<open>
  (C14) All histories of the scheduler. In every state that calls of \<^verbatim>\<open>sched_create\<close>, \<^verbatim>\<open>sched_yield\<close> and \<^verbatim>\<open>sched_tick\<close> reach from
  \<^verbatim>\<open>sched_init\<close>, the tasks are in the slots 0 to \<open>n - 1\<close>, in the order of their creation; \<^verbatim>\<open>sched_create\<close> returns and takes slot \<open>n\<close>, or fails
  when all 64 are taken. While the idle task runs, \<^verbatim>\<open>sched_yield\<close> returns and switches to the task created last (to the idle task
  itself, if there is no other). Once another task runs, no call of \<^verbatim>\<open>sched_yield\<close> ever returns: the scheduler makes at most one switch.
\<close>

theorem sched_switches_once:
  assumes "sched_reach s"
  shows "\<exists>n c. 1 \<le> n \<and> n \<le> MAX_TASKS \<and> unat (sched_task_count s) = n \<and> c < n \<and> sched_current s = Some c \<and>
    (\<forall>i < MAX_TASKS. in_use (tasks s i) \<longleftrightarrow> i < n) \<and>
    (\<forall>name entry arg. \<exists>s'. sched_create name entry arg s = Some (if n < MAX_TASKS then Some n else None, s')) \<and>
    (if c = 0 then \<exists>s'. sched_yield s = Some s' \<and> sched_current s' = Some (n - 1) else sched_yield s = None)"
proof -
  obtain n where n: "sched_before n s \<or> sched_after n s" using sched_reach_phase [OF assms] by blast
  then have t: "sched_table n s" by (auto simp: sched_before_def sched_after_def)
  have cr: "\<exists>s'. sched_create name entry arg s = Some (if n < MAX_TASKS then Some n else None, s')" for name entry arg
    using sched_create_eq [of s name entry arg] sched_table_slot [OF t] sched_tableD(6) [OF t] by simp
  have use: "in_use (tasks s i) \<longleftrightarrow> i < n" for i using sched_tableD(3,4) [OF t, of i] by (cases "i < n") (simp_all add: in_use_def)
  have y: "\<exists>c < n. current s = Some c \<and>
      (if c = 0 then \<exists>s'. sched_yield s = Some s' \<and> current s' = Some (n - 1) else sched_yield s = None)"
    using n
  proof
    assume b: "sched_before n s"
    then show ?thesis using yield_before [OF b] sched_tableD(1) [OF t] by (auto simp: sched_before_def intro!: exI [of _ 0])
  next
    assume "sched_after n s"
    then show ?thesis using yield_after [of n s] by (auto simp: sched_after_def)
  qed
  have "unat (task_count s) = n" using sched_tableD(2,5) [OF t] by (simp add: MAX_TASKS_def unat_of_nat)
  then show ?thesis using y cr use sched_tableD(1,2) [OF t] by (auto simp: sched_current_def sched_task_count_def)
qed

text \<open>The idle task runs, and a task has been created.\<close>

theorem sched_switches_once_witness:
  "\<exists>s0 t s s'. sched_init sched_example = Some s0 \<and> sched_create None 0x1000 0 s0 = Some (t, s) \<and> sched_reach s \<and>
     sched_yield s = Some s' \<and> sched_current s' = Some 1 \<and> sched_yield s' = None"
proof -
  obtain s0 where s0: "sched_init sched_example = Some s0" "sched_before 1 s0" using sched_init_before by blast
  note r0 = sched_reach.init [OF s0(1)]
  have c0: "sched_current s0 = Some 0" using s0(2) by (simp add: sched_before_def sched_current_def)
  have n0: "sched_task_count s0 = 1" using s0(2) by (simp add: sched_before_def sched_table_def sched_task_count_def)
  have "\<forall>name entry arg. \<exists>s'. sched_create name entry arg s0 = Some (Some 1, s')"
    using sched_switches_once [OF r0] n0 by (auto simp: MAX_TASKS_def)
  then obtain s where s: "sched_create None 0x1000 0 s0 = Some (Some 1, s)" by blast
  have b: "sched_before 2 s" using create_before [OF s0(2) s] by (simp add: MAX_TASKS_def numeral_2_eq_2)
  note r = sched_reach.create [OF r0 s]
  obtain s' where s': "sched_yield s = Some s'" "sched_current s' = Some 1"
    using sched_switches_once [OF r] b by (auto simp: sched_before_def sched_table_def sched_task_count_def sched_current_def)
  have "sched_yield s' = None" using sched_switches_once [OF sched_reach.yield [OF r s'(1)]] s'(2) by auto
  then show ?thesis using s0(1) s s' r by blast
qed


end
