(* ===== verification/H3_Vfs.thy ===== *)
theory H3_Vfs
  imports H3_Heap
begin

text \<open>
  The RAM file system of \<^verbatim>\<open>filesystem/vfs/vfs.c\<close>. A node pointer is the index of a slot of the
  static array, \<open>None\<close> for \<^verbatim>\<open>NULL\<close>. A C string is the list of its bytes without the terminator; a
  character array of a node is the list of all its bytes. A write past the end of a stack or
  static array is the fault \<open>Overflow\<close>. File contents are blocks of the kernel heap.
\<close>

section \<open>State\<close>

definition VFS_NAME_MAX :: nat where
  "VFS_NAME_MAX = 128"

definition VFS_PATH_MAX :: nat where
  "VFS_PATH_MAX = 256"

definition VFS_MAX_NODES :: nat where
  "VFS_MAX_NODES = 256"

text \<open>The type field of a zeroed node is neither of the two.\<close>

datatype vfs_type_t = VFS_NONE | VFS_FILE | VFS_DIR

type_synonym node_ptr = "nat option"

record vfs_node_t =
  n_name :: "u8 list"
  n_type :: vfs_type_t
  n_mode :: u32
  n_uid :: u32
  n_gid :: u32
  n_size :: u64
  n_data :: addr
  n_parent :: node_ptr
  n_child :: node_ptr
  n_sibling :: node_ptr

record vfs_state =
  nodes :: "nat \<Rightarrow> vfs_node_t"
  node_count :: nat
  root :: node_ptr
  cwd :: "u8 list"
  v_heap :: heap_state

definition node_zero :: vfs_node_t where
  "node_zero = \<lparr>n_name = replicate VFS_NAME_MAX 0, n_type = VFS_NONE, n_mode = 0, n_uid = 0, n_gid = 0,
     n_size = 0, n_data = NULL, n_parent = None, n_child = None, n_sibling = None\<rparr>"

definition set_node :: "nat \<Rightarrow> (vfs_node_t \<Rightarrow> vfs_node_t) \<Rightarrow> vfs_state \<Rightarrow> vfs_state" where
  "set_node i f s = s\<lparr>nodes := (nodes s)(i := f (nodes s i))\<rparr>"

definition slash :: u8 where
  "slash = 0x2F"

section \<open>Nodes\<close>

definition alloc_node :: "u8 list \<Rightarrow> vfs_type_t \<Rightarrow> u32 \<Rightarrow> vfs_state \<Rightarrow> node_ptr \<times> vfs_state" where
  "alloc_node name ty mode s =
     (if node_count s \<ge> VFS_MAX_NODES then (None, s)
      else let n = node_count s in
        (Some n, (set_node n (\<lambda>_. node_zero\<lparr>n_name := strncpy_buf (VFS_NAME_MAX - 1) name (n_name node_zero),
                                         n_type := ty, n_mode := mode\<rparr>) s)\<lparr>node_count := n + 1\<rparr>))"

definition link_child :: "nat \<Rightarrow> nat \<Rightarrow> vfs_state \<Rightarrow> vfs_state" where
  "link_child parent child s =
     (let s = set_node child (\<lambda>k. k\<lparr>n_parent := Some parent\<rparr>) s;
          s = set_node child (\<lambda>k. k\<lparr>n_sibling := n_child (nodes s parent)\<rparr>) s
      in set_node parent (\<lambda>k. k\<lparr>n_child := Some child\<rparr>) s)"

partial_function (option) find_sibling :: "vfs_state \<Rightarrow> node_ptr \<Rightarrow> u8 list \<Rightarrow> node_ptr option" where
  "find_sibling s c name =
     (case c of
        None \<Rightarrow> Some None
      | Some i \<Rightarrow> if cstr (n_name (nodes s i)) = name then Some (Some i)
                  else find_sibling s (n_sibling (nodes s i)) name)"

definition find_child :: "vfs_state \<Rightarrow> nat \<Rightarrow> u8 list \<Rightarrow> node_ptr option" where
  "find_child s dir name = find_sibling s (n_child (nodes s dir)) name"

section \<open>Paths\<close>

definition normalize_path :: "u8 list \<Rightarrow> vfs_state \<Rightarrow> u8 list run" where
  "normalize_path path s =
     (if path \<noteq> [] \<and> hd path = slash then ret (take (VFS_PATH_MAX - 1) path)
      else if cwd s = [] then fail Overflow
      else let out = cwd s @ (if last (cwd s) \<noteq> slash then [slash] else []) @ path in
        if length out < VFS_PATH_MAX then ret out else fail Overflow)"

text \<open>
  One component: the characters up to the next slash, at most 127 of them, and the rest of the
  path after the slashes that follow.
\<close>

definition path_part :: "u8 list \<Rightarrow> u8 list" where
  "path_part p = take (VFS_NAME_MAX - 1) (takeWhile (\<lambda>c. c \<noteq> slash) p)"

definition path_rest :: "u8 list \<Rightarrow> u8 list" where
  "path_rest p = dropWhile (\<lambda>c. c = slash) (drop (length (path_part p)) p)"

lemma path_rest_shorter: "p \<noteq> [] \<Longrightarrow> length (path_rest p) < length p"
proof (cases "path_part p")
  case Nil
  assume "p \<noteq> []"
  then obtain c q where p: "p = c # q" by (cases p) auto
  then have "c = slash" using Nil by (auto simp: path_part_def VFS_NAME_MAX_def split: if_splits)
  then show ?thesis using p Nil length_dropWhile_le [of "\<lambda>c. c = slash" q] by (simp add: path_rest_def)
next
  case (Cons c q)
  assume "p \<noteq> []"
  have "length (path_rest p) \<le> length p - length (path_part p)"
    using length_dropWhile_le [of "\<lambda>c. c = slash" "drop (length (path_part p)) p"] by (simp add: path_rest_def)
  then show ?thesis using Cons \<open>p \<noteq> []\<close> by (cases p) auto
qed

function resolve_loop :: "vfs_state \<Rightarrow> nat \<Rightarrow> u8 list \<Rightarrow> node_ptr run" where
  "resolve_loop s cur p =
     (if p = [] then ret (Some cur)
      else let part = path_part p; p' = path_rest p in
        if part = [] then resolve_loop s cur p'
        else if part = bytes_of ''.'' then resolve_loop s cur p'
        else if part = bytes_of ''..'' then
          (case n_parent (nodes s cur) of
             Some q \<Rightarrow> resolve_loop s q p' | None \<Rightarrow> resolve_loop s cur p')
        else (case find_child s cur part of
                None \<Rightarrow> None
              | Some None \<Rightarrow> ret None
              | Some (Some c) \<Rightarrow> resolve_loop s c p'))"
  by pat_completeness auto
termination
  by (relation "measure (\<lambda>(s, cur, p). length p)") (auto simp: path_rest_shorter)

declare resolve_loop.simps [simp del]

text \<open>A dereference of a null \<^verbatim>\<open>root\<close> reads outside of any object.\<close>

definition vfs_resolve :: "u8 list \<Rightarrow> vfs_state \<Rightarrow> node_ptr run" where
  "vfs_resolve path s = run_bind (normalize_path path s) (\<lambda>full.
     if full = [slash] then ret (root s)
     else if full = [] then fail Overflow
     else if tl full = [] then ret (root s)
     else (case root s of None \<Rightarrow> fail Overflow | Some r \<Rightarrow> resolve_loop s r (tl full)))"

text \<open>The position of the last slash, 0 if there is none.\<close>

definition last_slash :: "u8 list \<Rightarrow> nat" where
  "last_slash full = foldl (\<lambda>l i. if full ! i = slash then i else l) 0 [0..<length full]"

definition copy_leaf :: "u8 list \<Rightarrow> u8 list run" where
  "copy_leaf src = (if length src < VFS_NAME_MAX then ret src else fail Overflow)"

definition ensure_parent :: "u8 list \<Rightarrow> vfs_state \<Rightarrow> (node_ptr \<times> u8 list) run" where
  "ensure_parent path s = run_bind (normalize_path path s) (\<lambda>full.
     if full = [] then fail Overflow
     else let l = last_slash full in
       if l = 0 then run_bind (copy_leaf (tl full)) (\<lambda>leaf. ret (root s, leaf))
       else run_bind (copy_leaf (drop (l + 1) full)) (\<lambda>leaf.
              run_bind (vfs_resolve (take l full) s) (\<lambda>parent. ret (parent, leaf))))"

definition make_node :: "vfs_type_t \<Rightarrow> u8 list \<Rightarrow> u32 \<Rightarrow> vfs_state \<Rightarrow> (node_ptr \<times> vfs_state) run" where
  "make_node ty path mode s = run_bind (ensure_parent path s) (\<lambda>(parent, leaf).
     case parent of
       None \<Rightarrow> ret (None, s)
     | Some d \<Rightarrow>
         if n_type (nodes s d) \<noteq> VFS_DIR \<or> leaf = [] then ret (None, s)
         else run_bind (run_of (find_child s d leaf)) (\<lambda>c.
           if c \<noteq> None then ret (c, s)
           else (case alloc_node leaf ty mode s of
                   (None, s') \<Rightarrow> ret (None, s')
                 | (Some n, s') \<Rightarrow> ret (Some n, link_child d n s'))))"

definition vfs_mkdir :: "u8 list \<Rightarrow> u32 \<Rightarrow> vfs_state \<Rightarrow> (node_ptr \<times> vfs_state) run" where
  "vfs_mkdir path mode s = make_node VFS_DIR path mode s"

definition vfs_create :: "u8 list \<Rightarrow> u32 \<Rightarrow> vfs_state \<Rightarrow> (node_ptr \<times> vfs_state) run" where
  "vfs_create path mode s = make_node VFS_FILE path mode s"

section \<open>File contents\<close>

definition vfs_write :: "node_ptr \<Rightarrow> addr \<Rightarrow> u64 \<Rightarrow> vfs_state \<Rightarrow> (i32 \<times> vfs_state) run" where
  "vfs_write node buf sz s =
     (case node of
        None \<Rightarrow> ret (- 1, s)
      | Some n \<Rightarrow>
          if n_type (nodes s n) \<noteq> VFS_FILE then ret (- 1, s)
          else run_bind (run_heap (kmalloc (sz + 1) (v_heap s))) (\<lambda>(data, h).
            if data = NULL then ret (- 1, s\<lparr>v_heap := h\<rparr>)
            else let m = snd (memcpy (heap_mem h) data buf sz);
                     h = h\<lparr>heap_mem := m(data + sz := 0)\<rparr>;
                     h = (if n_data (nodes s n) \<noteq> NULL then kfree (n_data (nodes s n)) h else h);
                     s = set_node n (\<lambda>k. k\<lparr>n_data := data, n_size := sz\<rparr>) (s\<lparr>v_heap := h\<rparr>)
                 in ret (ucast sz, s)))"

definition vfs_read :: "node_ptr \<Rightarrow> addr \<Rightarrow> u64 \<Rightarrow> addr \<Rightarrow> vfs_state \<Rightarrow> i32 \<times> vfs_state" where
  "vfs_read node buf mx out_size s =
     (case node of
        None \<Rightarrow> (- 1, s)
      | Some i \<Rightarrow>
          if n_type (nodes s i) \<noteq> VFS_FILE then (- 1, s)
          else let n = (if n_size (nodes s i) < mx then n_size (nodes s i) else mx);
                   m = heap_mem (v_heap s);
                   m = (if n \<noteq> 0 \<and> n_data (nodes s i) \<noteq> NULL then snd (memcpy m buf (n_data (nodes s i)) n) else m);
                   m = (if out_size \<noteq> NULL then store64 m out_size n else m)
               in (ucast n, s\<lparr>v_heap := (v_heap s)\<lparr>heap_mem := m\<rparr>\<rparr>))"

text \<open>The search for the predecessor in the list of siblings, and its update.\<close>

partial_function (option) unlink_loop :: "vfs_state \<Rightarrow> nat \<Rightarrow> node_ptr \<Rightarrow> vfs_state option" where
  "unlink_loop s n c =
     (case c of
        None \<Rightarrow> Some s
      | Some i \<Rightarrow> if n_sibling (nodes s i) = Some n
                  then Some (set_node i (\<lambda>k. k\<lparr>n_sibling := n_sibling (nodes s n)\<rparr>) s)
                  else unlink_loop s n (n_sibling (nodes s i)))"

definition vfs_unlink :: "u8 list \<Rightarrow> vfs_state \<Rightarrow> (i32 \<times> vfs_state) run" where
  "vfs_unlink path s = run_bind (vfs_resolve path s) (\<lambda>node.
     case node of
       None \<Rightarrow> ret (- 1, s)
     | Some n \<Rightarrow>
         if Some n = root s then ret (- 1, s)
         else (case n_parent (nodes s n) of
                 None \<Rightarrow> ret (- 1, s)
               | Some p \<Rightarrow>
                   run_bind (run_of (if n_child (nodes s p) = Some n
                       then Some (set_node p (\<lambda>k. k\<lparr>n_child := n_sibling (nodes s n)\<rparr>) s)
                       else unlink_loop s n (n_child (nodes s p)))) (\<lambda>s1.
                     let s2 = (if n_data (nodes s1 n) \<noteq> NULL
                               then set_node n (\<lambda>k. k\<lparr>n_data := NULL\<rparr>)
                                      (s1\<lparr>v_heap := kfree (n_data (nodes s1 n)) (v_heap s1)\<rparr>)
                               else s1)
                     in ret (0, set_node n (\<lambda>k. k\<lparr>n_size := 0, n_name := (n_name k)[0 := 0]\<rparr>) s2))))"

definition vfs_copy :: "u8 list \<Rightarrow> u8 list \<Rightarrow> vfs_state \<Rightarrow> (i32 \<times> vfs_state) run" where
  "vfs_copy src dst s = run_bind (vfs_resolve src s) (\<lambda>node.
     case node of
       None \<Rightarrow> ret (- 1, s)
     | Some n \<Rightarrow>
         if n_type (nodes s n) \<noteq> VFS_FILE then ret (- 1, s)
         else run_bind (vfs_create dst (if n_mode (nodes s n) \<noteq> 0 then n_mode (nodes s n) else 0x1A4) s) (\<lambda>(d, s1).
           if d = None then ret (- 1, s1)
           else if n_size (nodes s1 n) \<noteq> 0 \<and> n_data (nodes s1 n) \<noteq> NULL
           then vfs_write d (n_data (nodes s1 n)) (n_size (nodes s1 n)) s1
           else ret (0, s1)))"

definition vfs_rename :: "u8 list \<Rightarrow> u8 list \<Rightarrow> vfs_state \<Rightarrow> (i32 \<times> vfs_state) run" where
  "vfs_rename src dst s = run_bind (vfs_copy src dst s) (\<lambda>(r, s1).
     if r \<noteq> 0 then ret (- 1, s1) else vfs_unlink src s1)"

text \<open>The callback is a function of the node and the context it updates.\<close>

partial_function (option) list_loop :: "vfs_state \<Rightarrow> (nat \<Rightarrow> 'c \<Rightarrow> 'c) \<Rightarrow> node_ptr \<Rightarrow> 'c \<Rightarrow> 'c option" where
  "list_loop s cb c ctx =
     (case c of None \<Rightarrow> Some ctx | Some i \<Rightarrow> list_loop s cb (n_sibling (nodes s i)) (cb i ctx))"

definition vfs_list :: "vfs_state \<Rightarrow> node_ptr \<Rightarrow> (nat \<Rightarrow> 'c \<Rightarrow> 'c) \<Rightarrow> 'c \<Rightarrow> 'c option" where
  "vfs_list s dir cb ctx =
     (case dir of
        None \<Rightarrow> Some ctx
      | Some d \<Rightarrow> if n_type (nodes s d) \<noteq> VFS_DIR then Some ctx else list_loop s cb (n_child (nodes s d)) ctx)"

section \<open>The current directory\<close>

text \<open>
  The names from a node up to the root, innermost first. An entry of \<^verbatim>\<open>parts\<close> has room for a
  terminator only if the name is shorter than 127 characters.
\<close>

partial_function (option) chdir_parts :: "vfs_state \<Rightarrow> node_ptr \<Rightarrow> u8 list list \<Rightarrow> (fault + u8 list list) option" where
  "chdir_parts s cur parts =
     (case cur of
        None \<Rightarrow> Some (Inr parts)
      | Some i \<Rightarrow>
          if cur = root s then Some (Inr parts)
          else if length parts < 32
          then (if length (cstr (n_name (nodes s i))) < VFS_NAME_MAX - 1
                then chdir_parts s (n_parent (nodes s i)) (parts @ [cstr (n_name (nodes s i))])
                else Some (Inl Overflow))
          else chdir_parts s (n_parent (nodes s i)) parts)"

primrec chdir_build :: "u8 list list \<Rightarrow> u8 list \<Rightarrow> u8 list run" where
  "chdir_build [] path = ret path"
| "chdir_build (x # xs) path =
     (let path = path @ (if length path > 1 then [slash] else []) @ x in
      if length path < VFS_PATH_MAX then chdir_build xs path else fail Overflow)"

definition vfs_chdir :: "u8 list \<Rightarrow> vfs_state \<Rightarrow> (i32 \<times> vfs_state) run" where
  "vfs_chdir path s = run_bind (vfs_resolve path s) (\<lambda>node.
     case node of
       None \<Rightarrow> ret (- 1, s)
     | Some n \<Rightarrow>
         if n_type (nodes s n) \<noteq> VFS_DIR then ret (- 1, s)
         else run_bind (chdir_parts s node []) (\<lambda>parts.
           run_bind (chdir_build (rev parts) [slash]) (\<lambda>c. ret (0, s\<lparr>cwd := c\<rparr>))))"

section \<open>Initialisation\<close>

primrec seed_dirs :: "(string \<times> u32) list \<Rightarrow> vfs_state \<Rightarrow> vfs_state run" where
  "seed_dirs [] s = ret s"
| "seed_dirs (d # ds) s = run_bind (vfs_mkdir (bytes_of (fst d)) (snd d) s) (\<lambda>(_, s'). seed_dirs ds s')"

text \<open>A file whose contents are the string literal at address \<open>lit\<close>.\<close>

definition seed_file :: "string \<Rightarrow> addr \<Rightarrow> vfs_state \<Rightarrow> vfs_state run" where
  "seed_file path lit s = run_bind (vfs_create (bytes_of path) 0x1A4 s) (\<lambda>(n, s1).
     if n = None then ret s1
     else run_bind (run_of (strlen (heap_mem (v_heap s1)) lit)) (\<lambda>len.
       run_bind (vfs_write n lit len s1) (\<lambda>(_, s2). ret s2)))"

definition vfs_init :: "addr \<Rightarrow> addr \<Rightarrow> addr \<Rightarrow> vfs_state \<Rightarrow> vfs_state run" where
  "vfs_init motd release db s =
     (let s = s\<lparr>nodes := (\<lambda>_. node_zero), node_count := 0\<rparr>;
          (r, s) = alloc_node [slash] VFS_DIR 0x1ED s;
          s = s\<lparr>root := r, cwd := [slash]\<rparr> in
      run_bind (seed_dirs
        [(''/bin'', 0x1ED), (''/etc'', 0x1ED), (''/home'', 0x1ED), (''/home/user'', 0x1ED),
         (''/tmp'', 0x1FF), (''/var'', 0x1ED), (''/usr'', 0x1ED), (''/usr/share'', 0x1ED),
         (''/dev'', 0x1ED), (''/proc'', 0x1ED), (''/var/lib'', 0x1ED), (''/var/lib/h3pkg'', 0x1ED),
         (''/usr/share/packages'', 0x1ED)] s) (\<lambda>s.
      run_bind (seed_file ''/etc/motd'' motd s) (\<lambda>s.
      run_bind (seed_file ''/etc/h3os-release'' release s) (\<lambda>s.
      seed_file ''/var/lib/h3pkg/db'' db s))))"

definition vfs_root :: "vfs_state \<Rightarrow> node_ptr" where
  "vfs_root s = root s"

definition vfs_cwd :: "vfs_state \<Rightarrow> u8 list" where
  "vfs_cwd s = cwd s"

section \<open>The tree of nodes\<close>

abbreviation name_of :: "vfs_state \<Rightarrow> nat \<Rightarrow> u8 list" where
  "name_of s i \<equiv> cstr (n_name (nodes s i))"

primrec sib_chain :: "(nat \<Rightarrow> vfs_node_t) \<Rightarrow> node_ptr \<Rightarrow> nat list \<Rightarrow> bool" where
  "sib_chain ns p [] \<longleftrightarrow> p = None"
| "sib_chain ns p (x # xs) \<longleftrightarrow> p = Some x \<and> sib_chain ns (n_sibling (ns x)) xs"

text \<open>
  \<open>ch d\<close> is the list of children of node \<open>d\<close>. Every child of an allocated node points back to it,
  names in a directory are distinct and not empty, and only directories have children.
\<close>

definition tree_ok :: "vfs_state \<Rightarrow> (nat \<Rightarrow> nat list) \<Rightarrow> bool" where
  "tree_ok s ch \<longleftrightarrow> root s = Some 0 \<and> 0 < node_count s \<and> node_count s \<le> VFS_MAX_NODES \<and>
     n_parent (nodes s 0) = None \<and>
     (\<forall>d < node_count s. sib_chain (nodes s) (n_child (nodes s d)) (ch d) \<and> distinct (ch d) \<and>
        distinct (map (name_of s) (ch d)) \<and> (n_type (nodes s d) \<noteq> VFS_DIR \<longrightarrow> ch d = [])) \<and>
     (\<forall>d < node_count s. \<forall>c \<in> set (ch d). c < node_count s \<and> c \<noteq> 0 \<and> n_parent (nodes s c) = Some d \<and>
        name_of s c \<noteq> []) \<and>
     (\<forall>i. length (n_name (nodes s i)) = VFS_NAME_MAX)"

lemma tree_okD:
  assumes "tree_ok s ch"
  shows "root s = Some 0" "0 < node_count s" "n_parent (nodes s 0) = None"
    "d < node_count s \<Longrightarrow> sib_chain (nodes s) (n_child (nodes s d)) (ch d)"
    "d < node_count s \<Longrightarrow> distinct (ch d)"
    "d < node_count s \<Longrightarrow> distinct (map (name_of s) (ch d))"
    "d < node_count s \<Longrightarrow> c \<in> set (ch d) \<Longrightarrow> c < node_count s"
    "d < node_count s \<Longrightarrow> c \<in> set (ch d) \<Longrightarrow> c \<noteq> 0"
    "d < node_count s \<Longrightarrow> c \<in> set (ch d) \<Longrightarrow> n_parent (nodes s c) = Some d"
    "d < node_count s \<Longrightarrow> c \<in> set (ch d) \<Longrightarrow> name_of s c \<noteq> []"
    "length (n_name (nodes s i)) = VFS_NAME_MAX"
    "d < node_count s \<Longrightarrow> n_type (nodes s d) \<noteq> VFS_DIR \<Longrightarrow> ch d = []"
    "node_count s \<le> VFS_MAX_NODES"
  using assms by (auto simp: tree_ok_def)

lemma tree_okI:
  assumes "root s = Some 0" "0 < node_count s" "node_count s \<le> VFS_MAX_NODES" "n_parent (nodes s 0) = None"
    and "\<And>d. d < node_count s \<Longrightarrow> sib_chain (nodes s) (n_child (nodes s d)) (ch d)"
    and "\<And>d. d < node_count s \<Longrightarrow> distinct (ch d) \<and> distinct (map (name_of s) (ch d))"
    and "\<And>d. d < node_count s \<Longrightarrow> n_type (nodes s d) \<noteq> VFS_DIR \<longrightarrow> ch d = []"
    and "\<And>d c. d < node_count s \<Longrightarrow> c \<in> set (ch d) \<Longrightarrow>
      c < node_count s \<and> c \<noteq> 0 \<and> n_parent (nodes s c) = Some d \<and> name_of s c \<noteq> []"
    and "\<And>i. length (n_name (nodes s i)) = VFS_NAME_MAX"
  shows "tree_ok s ch"
  using assms unfolding tree_ok_def by blast

text \<open>The nodes that a path can lead to.\<close>

inductive reach :: "(nat \<Rightarrow> nat list) \<Rightarrow> nat \<Rightarrow> bool" for ch where
  reach_root: "reach ch 0"
| reach_child: "reach ch p \<Longrightarrow> c \<in> set (ch p) \<Longrightarrow> reach ch c"

lemma reach_valid: "reach ch i \<Longrightarrow> tree_ok s ch \<Longrightarrow> i < node_count s"
  by (induction rule: reach.induct) (auto simp: tree_okD)

lemma reach_parent:
  assumes "reach ch i" "tree_ok s ch" "n_parent (nodes s i) = Some p"
  shows "reach ch p \<and> i \<in> set (ch p)"
  using assms(1)
proof cases
  case reach_root
  then show ?thesis using assms tree_okD(3) by simp
next
  case (reach_child q)
  then have "n_parent (nodes s i) = Some q"
    using tree_okD(9) [OF assms(2) reach_valid [OF reach_child(1) assms(2)]] by simp
  then show ?thesis using assms(3) reach_child by simp
qed

lemma find_sibling_chain:
  "sib_chain (nodes s) p xs \<Longrightarrow> find_sibling s p name = Some (find (\<lambda>c. name_of s c = name) xs)"
proof (induction xs arbitrary: p)
  case Nil
  then show ?case by (subst find_sibling.simps) simp
next
  case (Cons x xs)
  then show ?case by (subst find_sibling.simps) simp
qed

lemma find_child_find:
  "tree_ok s ch \<Longrightarrow> d < node_count s \<Longrightarrow> find_child s d name = Some (find (\<lambda>c. name_of s c = name) (ch d))"
  by (simp add: find_child_def find_sibling_chain tree_okD(4))

lemma find_child_reach:
  assumes "tree_ok s ch" "reach ch d" "find_child s d name = Some (Some c)"
  shows "reach ch c" "c \<in> set (ch d)" "name_of s c = name"
proof -
  have "find (\<lambda>c. name_of s c = name) (ch d) = Some c"
    using find_child_find [OF assms(1) reach_valid [OF assms(2,1)]] assms(3) by simp
  then show "c \<in> set (ch d)" "name_of s c = name" by (auto simp: find_Some_iff)
  then show "reach ch c" using assms(2) reach_child by blast
qed

section \<open>Resolution of paths\<close>

lemma path_part_append: "path_part (q @ slash # l) = path_part q"
  by (auto simp: path_part_def takeWhile_append takeWhile_eq_all_conv [THEN iffD2])

lemma length_path_part: "length (path_part q) \<le> length q"
  using length_takeWhile_le [of "\<lambda>c. c \<noteq> slash" q] by (simp add: path_part_def)

lemma path_rest_append:
  assumes "l \<noteq> []" "hd l \<noteq> slash"
  shows "path_rest (q @ slash # l) = (if path_rest q = [] then l else path_rest q @ slash # l)"
proof -
  have "dropWhile (\<lambda>c. c = slash) l = l" using assms by (cases l) auto
  then show ?thesis
    using length_path_part [of q] by (auto simp: path_rest_def path_part_append dropWhile_append)
qed

lemma resolve_loop_append:
  assumes "l \<noteq> []" "hd l \<noteq> slash"
  shows "resolve_loop s cur (q @ slash # l) =
    run_bind (resolve_loop s cur q) (\<lambda>r. case r of None \<Rightarrow> ret None | Some d \<Rightarrow> resolve_loop s d l)"
proof (induction s cur q rule: resolve_loop.induct)
  case (1 s cur q)
  show ?case
  proof (cases "q = []")
    case True
    have "path_part (slash # l) = []" "path_rest (slash # l) = l"
      using path_part_append [of "[]" l] path_rest_append [OF assms, of "[]"]
      by (simp_all add: path_part_def path_rest_def)
    then show ?thesis using True by (simp add: resolve_loop.simps [of s cur "slash # l"] resolve_loop.simps [of s cur "[]"] Let_def)
  next
    case False
    have cont: "resolve_loop s x (path_rest (q @ slash # l)) =
        run_bind (resolve_loop s x (path_rest q)) (\<lambda>r. case r of None \<Rightarrow> ret None | Some d \<Rightarrow> resolve_loop s d l)"
      if "path_rest q \<noteq> [] \<Longrightarrow> resolve_loop s x (path_rest q @ slash # l) =
        run_bind (resolve_loop s x (path_rest q)) (\<lambda>r. case r of None \<Rightarrow> ret None | Some d \<Rightarrow> resolve_loop s d l)" for x
      using that path_rest_append [OF assms, of q] by (auto simp: resolve_loop.simps [of s x "[]"])
    show ?thesis
      using False 1 cont
      by (simp add: resolve_loop.simps [of s cur "q @ slash # l"] resolve_loop.simps [of s cur q]
          path_part_append Let_def split: option.split)
        (auto simp: run_bind_def)
  qed
qed

lemma last_slash_snoc: "last_slash (xs @ [c]) = (if c = slash then length xs else last_slash xs)"
proof -
  have "foldl (\<lambda>l i. if (xs @ [c]) ! i = slash then i else l) 0 [0..<length xs] =
      foldl (\<lambda>l i. if xs ! i = slash then i else l) 0 [0..<length xs]"
    by (rule foldl_cong) (auto simp: nth_append)
  then show ?thesis by (simp add: last_slash_def)
qed

lemma last_slash_append: "slash \<notin> set l \<Longrightarrow> last_slash (q @ slash # l) = length q"
proof (induction l rule: rev_induct)
  case Nil
  then show ?case by (simp add: last_slash_snoc)
next
  case (snoc c l)
  then show ?case using last_slash_snoc [of "q @ slash # l" c] by auto
qed

text \<open>
  An absolute path is its directory, a slash and its last component. \<open>dir_of\<close> resolves the first
  part.
\<close>

definition plain_leaf :: "u8 list \<Rightarrow> bool" where
  "plain_leaf l \<longleftrightarrow> l \<noteq> [] \<and> slash \<notin> set l \<and> length l < VFS_NAME_MAX \<and> l \<noteq> bytes_of ''.'' \<and> l \<noteq> bytes_of ''..'' \<and> 0 \<notin> set l"

definition dir_of :: "vfs_state \<Rightarrow> u8 list \<Rightarrow> node_ptr run" where
  "dir_of s q = (if q = [] then ret (root s) else vfs_resolve q s)"

lemma resolve_leaf:
  assumes "plain_leaf l"
  shows "resolve_loop s d l = run_of (find_child s d l)"
proof -
  have "path_part l = l" using assms unfolding plain_leaf_def path_part_def by (subst takeWhile_eq_all_conv [THEN iffD2]) auto
  moreover from this have "path_rest l = []" by (simp add: path_rest_def)
  ultimately show ?thesis
    using assms by (simp add: resolve_loop.simps [of s d l] resolve_loop.simps [of s _ "[]"] plain_leaf_def Let_def
        run_of_def ret_def split: option.split)
qed

lemma normalize_abs: "hd q = slash \<Longrightarrow> q \<noteq> [] \<Longrightarrow> length q < VFS_PATH_MAX \<Longrightarrow> normalize_path q s = ret q"
  by (simp add: normalize_path_def)

lemma normalize_cong: "cwd s' = cwd s \<Longrightarrow> normalize_path path s' = normalize_path path s"
  by (simp add: normalize_path_def)

lemma ensure_parent_abs:
  assumes "normalize_path path s = ret (q @ slash # l)" "q = [] \<or> hd q = slash" "plain_leaf l"
    and "length q + length l + 1 < VFS_PATH_MAX"
  shows "ensure_parent path s = run_bind (dir_of s q) (\<lambda>d. ret (d, l))"
  using assms by (auto simp: ensure_parent_def last_slash_append plain_leaf_def copy_leaf_def dir_of_def Let_def)

lemma resolve_abs:
  assumes "normalize_path path s = ret (q @ slash # l)" "q = [] \<or> hd q = slash" "plain_leaf l"
    and "length q + length l + 1 < VFS_PATH_MAX" and r: "root s = Some r"
  shows "vfs_resolve path s = run_bind (dir_of s q) (\<lambda>d. case d of None \<Rightarrow> ret None | Some d \<Rightarrow> run_of (find_child s d l))"
proof -
  have l: "l \<noteq> []" "hd l \<noteq> slash" using assms(3) by (cases l; auto simp: plain_leaf_def)+
  show ?thesis
  proof (cases q)
    case Nil
    then show ?thesis
      using assms(1) r l resolve_leaf [OF assms(3)] by (simp add: vfs_resolve_def dir_of_def)
  next
    case (Cons c q')
    then have q: "q = slash # q'" using assms(2) by simp
    have "vfs_resolve q s = resolve_loop s r q'"
      using normalize_abs [of q s] q assms(4) r by (auto simp: vfs_resolve_def resolve_loop.simps [of s r "[]"])
    moreover have "vfs_resolve path s = resolve_loop s r (q' @ slash # l)"
      using assms(1) r q by (simp add: vfs_resolve_def)
    ultimately show ?thesis
      using q resolve_loop_append [OF l, of s r q', unfolded resolve_leaf [OF assms(3)]] by (simp add: dir_of_def)
  qed
qed

text \<open>On a tree every resolution returns, and it returns a node of the tree.\<close>

lemma resolve_loop_total:
  assumes ok: "tree_ok s ch"
  shows "reach ch cur \<Longrightarrow> \<exists>r. resolve_loop s cur p = ret r \<and> (\<forall>x. r = Some x \<longrightarrow> reach ch x)"
proof (induction p arbitrary: cur rule: length_induct)
  case (1 p)
  show ?case
  proof (cases "p = []")
    case True
    then show ?thesis using "1.prems" by (simp add: resolve_loop.simps [of s cur "[]"])
  next
    case False
    have go: "\<exists>r. resolve_loop s x (path_rest p) = ret r \<and> (\<forall>y. r = Some y \<longrightarrow> reach ch y)" if "reach ch x" for x
      using "1.IH" path_rest_shorter [OF False] that by blast
    have fc: "find_child s cur nm = Some (find (\<lambda>c. name_of s c = nm) (ch cur))" for nm
      using find_child_find [OF ok reach_valid [OF "1.prems" ok]] by simp
    note step = resolve_loop.simps [of s cur p] False Let_def
    consider "path_part p = [] \<or> path_part p = bytes_of ''.''"
      | "path_part p = bytes_of ''..''" "path_part p \<noteq> []" "path_part p \<noteq> bytes_of ''.''"
      | "path_part p \<noteq> bytes_of ''..''" "path_part p \<noteq> []" "path_part p \<noteq> bytes_of ''.''"
      by blast
    then show ?thesis
    proof cases
      case 1
      then show ?thesis using go [OF "1.prems"] by (auto simp: step)
    next
      case 2
      then show ?thesis
        using go go [OF "1.prems"] reach_parent [OF "1.prems" ok] by (cases "n_parent (nodes s cur)") (auto simp: step)
    next
      case 3
      then show ?thesis
        using go find_child_reach(1) [OF ok "1.prems", of "path_part p"] fc [of "path_part p"]
        by (cases "find (\<lambda>c. name_of s c = path_part p) (ch cur)") (auto simp: step)
    qed
  qed
qed

lemma vfs_resolve_total:
  assumes "tree_ok s ch" "normalize_path path s = ret full" "full \<noteq> []"
  shows "\<exists>r. vfs_resolve path s = ret r \<and> (\<forall>x. r = Some x \<longrightarrow> reach ch x)"
  using resolve_loop_total [OF assms(1) reach_root, of "tl full"] assms reach_root
  by (auto simp: vfs_resolve_def tree_okD(1))

lemma resolve_normal:
  "vfs_resolve path s = ret (Some x) \<Longrightarrow> \<exists>full. normalize_path path s = ret full \<and> full \<noteq> []"
  by (auto simp: vfs_resolve_def run_bind_ret)

lemma resolve_loop_mono:
  assumes ok: "tree_ok s ch"
    and fc: "\<And>d nm c. reach ch d \<Longrightarrow> find_child s d nm = Some (Some c) \<Longrightarrow> find_child s' d nm = Some (Some c)"
    and par: "\<And>d. reach ch d \<Longrightarrow> n_parent (nodes s' d) = n_parent (nodes s d)"
  shows "reach ch cur \<Longrightarrow> resolve_loop s cur p = ret (Some x) \<Longrightarrow> resolve_loop s' cur p = ret (Some x)"
proof (induction p arbitrary: cur rule: length_induct)
  case (1 p)
  show ?case
  proof (cases "p = []")
    case True
    then show ?thesis using "1.prems" by (simp add: resolve_loop.simps)
  next
    case False
    have go: "resolve_loop s' y (path_rest p) = ret (Some x)"
      if "reach ch y" "resolve_loop s y (path_rest p) = ret (Some x)" for y
      using "1.IH" path_rest_shorter [OF False] that by blast
    from "1.prems"(2) show ?thesis
      using False go "1.prems"(1) reach_parent [OF "1.prems"(1) ok] find_child_reach [OF ok "1.prems"(1)]
        fc [OF "1.prems"(1)] par [OF "1.prems"(1)]
      by (subst (asm) resolve_loop.simps, subst resolve_loop.simps)
        (auto simp: Let_def ret_def split: option.splits if_splits)
  qed
qed

lemma vfs_resolve_mono:
  assumes ok: "tree_ok s ch" "root s' = root s" "cwd s' = cwd s"
    and "\<And>d nm c. reach ch d \<Longrightarrow> find_child s d nm = Some (Some c) \<Longrightarrow> find_child s' d nm = Some (Some c)"
    and "\<And>d. reach ch d \<Longrightarrow> n_parent (nodes s' d) = n_parent (nodes s d)"
    and r: "vfs_resolve path s = ret (Some x)"
  shows "vfs_resolve path s' = ret (Some x)"
proof -
  note n = normalize_cong [OF ok(3)]
  note m = resolve_loop_mono [OF ok(1) assms(4,5) reach_root]
  show ?thesis
    using r ok(2) tree_okD(1) [OF ok(1)] m unfolding vfs_resolve_def n
    by (auto simp: run_bind_ret split: if_splits)
qed

section \<open>New nodes\<close>

text \<open>The state after a node has been allocated and linked into directory \<open>d\<close>.\<close>

definition add_node :: "nat \<Rightarrow> u8 list \<Rightarrow> vfs_type_t \<Rightarrow> u32 \<Rightarrow> vfs_state \<Rightarrow> vfs_state" where
  "add_node d l ty mode s = link_child d (node_count s) (snd (alloc_node l ty mode s))"

lemma add_node_fields:
  assumes "node_count s < VFS_MAX_NODES" "d < node_count s"
  shows "root (add_node d l ty mode s) = root s" "cwd (add_node d l ty mode s) = cwd s"
    "v_heap (add_node d l ty mode s) = v_heap s" "node_count (add_node d l ty mode s) = Suc (node_count s)"
    "nodes (add_node d l ty mode s) (node_count s) =
       node_zero\<lparr>n_name := strncpy_buf (VFS_NAME_MAX - 1) l (n_name node_zero), n_type := ty, n_mode := mode,
         n_parent := Some d, n_sibling := n_child (nodes s d)\<rparr>"
    "nodes (add_node d l ty mode s) d = (nodes s d)\<lparr>n_child := Some (node_count s)\<rparr>"
    "x \<noteq> node_count s \<Longrightarrow> x \<noteq> d \<Longrightarrow> nodes (add_node d l ty mode s) x = nodes s x"
  using assms by (auto simp: add_node_def alloc_node_def link_child_def set_node_def Let_def)

lemma sib_chain_cong:
  "(\<And>x. x \<in> set xs \<Longrightarrow> n_sibling (ns' x) = n_sibling (ns x)) \<Longrightarrow> sib_chain ns' p xs = sib_chain ns p xs"
  by (induction xs arbitrary: p) auto

lemma new_name: "plain_leaf l \<Longrightarrow> cstr (strncpy_buf (VFS_NAME_MAX - 1) l (n_name node_zero)) = l"
  by (subst cstr_strncpy_buf) (auto simp: plain_leaf_def VFS_NAME_MAX_def node_zero_def)

lemma add_node_name:
  assumes "node_count s < VFS_MAX_NODES" "d < node_count s" "plain_leaf l"
  shows "name_of (add_node d l ty mode s) x = (if x = node_count s then l else name_of s x)"
    and "n_parent (nodes (add_node d l ty mode s) x) = (if x = node_count s then Some d else n_parent (nodes s x))"
proof -
  note f = add_node_fields [OF assms(1,2), where l = l and ty = ty and mode = mode]
  consider "x = node_count s" | "x = d" "x \<noteq> node_count s" | "x \<noteq> node_count s" "x \<noteq> d" by blast
  then have "name_of (add_node d l ty mode s) x = (if x = node_count s then l else name_of s x) \<and>
    n_parent (nodes (add_node d l ty mode s) x) = (if x = node_count s then Some d else n_parent (nodes s x))"
    using new_name [OF assms(3)] by cases (simp_all add: f(5-7))
  then show "name_of (add_node d l ty mode s) x = (if x = node_count s then l else name_of s x)"
    and "n_parent (nodes (add_node d l ty mode s) x) = (if x = node_count s then Some d else n_parent (nodes s x))"
    by blast+
qed

lemma add_node_tree:
  assumes ok: "tree_ok s ch" and d: "d < node_count s" "n_type (nodes s d) = VFS_DIR" and l: "plain_leaf l"
    and n: "node_count s < VFS_MAX_NODES" and fresh: "find_child s d l = Some None"
  shows "tree_ok (add_node d l ty mode s) (ch(d := node_count s # ch d, node_count s := []))"
proof -
  let ?n = "node_count s" and ?s = "add_node d l ty mode s"
  let ?ch = "ch(d := ?n # ch d, ?n := [])"
  note f = add_node_fields [OF n d(1), where l = l and ty = ty and mode = mode] add_node_name [OF n d(1) l, where ty = ty and mode = mode]
  have old: "c < ?n" if "e < ?n" "c \<in> set (ch e)" for c e using tree_okD(7) [OF ok that] .
  have chain: "sib_chain (nodes ?s) p (ch e) = sib_chain (nodes s) p (ch e)" if "e < ?n" for e p
  proof (rule sib_chain_cong)
    fix x assume "x \<in> set (ch e)"
    then have "x \<noteq> ?n" using old [OF that] by blast
    then show "n_sibling (nodes ?s x) = n_sibling (nodes s x)" by (cases "x = d") (simp_all add: f)
  qed
  have names: "map (name_of ?s) (ch e) = map (name_of s) (ch e)" if "e < ?n" for e
    using old [OF that] f(8) by auto
  have nl: "l \<notin> set (map (name_of s) (ch d))"
    using fresh find_child_find [OF ok d(1)] by (auto simp: find_None_iff)
  have ty: "n_type (nodes ?s e) = n_type (nodes s e)" if "e < ?n" for e
    using that by (cases "e = d") (simp_all add: f)
  have A: "sib_chain (nodes ?s) (n_child (nodes ?s e)) (?ch e) \<and> distinct (?ch e) \<and>
        distinct (map (name_of ?s) (?ch e)) \<and> (n_type (nodes ?s e) \<noteq> VFS_DIR \<longrightarrow> ?ch e = [])" if en: "e < Suc ?n" for e
  proof -
    consider "e = ?n" | "e = d" | "e < ?n" "e \<noteq> d" using en d(1) by linarith
    then show ?thesis
    proof cases
      case 1
      then show ?thesis by (simp add: f(5) node_zero_def)
    next
      case 2
      have "distinct (map (name_of ?s) (?n # ch d))" using tree_okD(6) [OF ok d(1)] nl f(8) [of ?n] by (simp only: list.map names [OF d(1)] if_True distinct.simps simp_thms)
      moreover have "?n \<notin> set (ch d)" using old [OF d(1)] by blast
      moreover have "sib_chain (nodes ?s) (n_child (nodes ?s d)) (?n # ch d)"
        using chain [OF d(1)] tree_okD(4) [OF ok d(1)] by (simp add: f(5,6))
      ultimately show ?thesis using 2 d tree_okD(5) [OF ok d(1)] ty [OF d(1)] by simp
    next
      case 3
      then show ?thesis
        using ok tree_okD(6) [OF ok 3(1), folded names [OF 3(1)]] chain [OF 3(1)] f(7) [of e] by (simp add: tree_ok_def)
    qed
  qed
  have B: "c < Suc ?n \<and> c \<noteq> 0 \<and> n_parent (nodes ?s c) = Some e \<and> name_of ?s c \<noteq> []"
    if "e < Suc ?n" "c \<in> set (?ch e)" for e c
  proof (cases "c = ?n")
    case True
    then have "e = d" using that old [of e c] by (auto split: if_splits)
    then show ?thesis using True f(8,9) [of ?n] l d(1) by (simp add: plain_leaf_def)
  next
    case False
    then have c: "c \<in> set (ch e)" "e < ?n" using that by (auto split: if_splits)
    then show ?thesis using tree_okD(7-10) [OF ok c(2,1)] f(8,9) [of c] False by simp
  qed
  have C: "length (n_name (nodes ?s i)) = VFS_NAME_MAX" for i
  proof -
    consider "i = ?n" | "i = d" "i \<noteq> ?n" | "i \<noteq> ?n" "i \<noteq> d" by blast
    then show ?thesis
      using tree_okD(11) [OF ok] by cases (simp_all add: f(5-7) node_zero_def VFS_NAME_MAX_def)
  qed
  show ?thesis
    using A B C tree_okD(1-3) [OF ok] n f(1,4) f(9) [of 0] unfolding tree_ok_def by auto
qed

lemma add_node_find:
  assumes ok: "tree_ok s ch" and d: "d < node_count s" "n_type (nodes s d) = VFS_DIR" and l: "plain_leaf l"
    and n: "node_count s < VFS_MAX_NODES" and fresh: "find_child s d l = Some None" and e: "e < node_count s"
  shows "find_child (add_node d l ty mode s) e nm = (if e = d \<and> nm = l then Some (Some (node_count s)) else find_child s e nm)"
proof -
  let ?n = "node_count s" and ?s = "add_node d l ty mode s"
  note t = add_node_tree [OF ok d l n fresh, where ty = ty and mode = mode]
  note f = add_node_fields [OF n d(1), where l = l and ty = ty and mode = mode] add_node_name [OF n d(1) l, where ty = ty and mode = mode]
  have "find (\<lambda>c. name_of ?s c = nm) (ch e) = find (\<lambda>c. name_of s c = nm) (ch e)"
    using tree_okD(7) [OF ok e] f(8) by (intro find_cong) auto
  then show ?thesis
    using find_child_find [OF t, of e nm] find_child_find [OF ok e] e f(4) f(8) [of ?n] by auto
qed

text \<open>What \<^verbatim>\<open>vfs_create\<close> and \<^verbatim>\<open>vfs_mkdir\<close> achieve on a path with directory \<open>q\<close> and last component \<open>l\<close>.\<close>

definition made :: "vfs_type_t \<Rightarrow> u8 list \<Rightarrow> u8 list \<Rightarrow> u8 list \<Rightarrow> u32 \<Rightarrow> vfs_state \<Rightarrow> node_ptr \<Rightarrow> vfs_state \<Rightarrow> bool" where
  "made ty path q l mode s r s' \<longleftrightarrow>
     (\<forall>p x. vfs_resolve p s = ret (Some x) \<longrightarrow> vfs_resolve p s' = ret (Some x)) \<and>
     v_heap s' = v_heap s \<and> (\<forall>i < node_count s. nodes s' i = (nodes s i)\<lparr>n_child := n_child (nodes s' i)\<rparr>) \<and>
     (case r of
        None \<Rightarrow> s' = s \<and> (node_count s = VFS_MAX_NODES \<or> (\<forall>d. dir_of s q = ret (Some d) \<longrightarrow> n_type (nodes s d) \<noteq> VFS_DIR))
      | Some n \<Rightarrow> vfs_resolve path s' = ret (Some n) \<and>
          (if vfs_resolve path s = ret (Some n) then s' = s
           else vfs_resolve path s = ret None \<and> n = node_count s \<and> name_of s' n = l \<and> n_type (nodes s' n) = ty \<and>
             n_mode (nodes s' n) = mode \<and> n_size (nodes s' n) = 0 \<and> n_data (nodes s' n) = NULL))"

lemma make_node_spec:
  assumes ok: "tree_ok s ch" and nm: "normalize_path path s = ret (q @ slash # l)" "q = [] \<or> hd q = slash"
    and l: "plain_leaf l" and len: "length q + length l + 1 < VFS_PATH_MAX"
  shows "\<exists>r s' ch'. make_node ty path mode s = ret (r, s') \<and> tree_ok s' ch' \<and> made ty path q l mode s r s'"
proof -
  have "\<exists>r. dir_of s q = ret r \<and> (\<forall>x. r = Some x \<longrightarrow> reach ch x)"
    using vfs_resolve_total [OF ok, of q q] normalize_abs [of q s] nm(2) len tree_okD(1) [OF ok] reach_root
    by (auto simp: dir_of_def)
  then obtain r where r: "dir_of s q = ret r" and rx: "\<And>d. r = Some d \<Longrightarrow> reach ch d" by blast
  have mk: "make_node ty path mode s = (case r of None \<Rightarrow> ret (None, s) | Some d \<Rightarrow>
      if n_type (nodes s d) \<noteq> VFS_DIR then ret (None, s)
      else run_bind (run_of (find_child s d l)) (\<lambda>c. if c \<noteq> None then ret (c, s)
         else (case alloc_node l ty mode s of (None, s') \<Rightarrow> ret (None, s') | (Some n, s') \<Rightarrow> ret (Some n, link_child d n s'))))"
    using ensure_parent_abs [OF nm l len] r l by (auto simp: make_node_def plain_leaf_def split: option.split)
  have res: "vfs_resolve path s = (case r of None \<Rightarrow> ret None | Some d \<Rightarrow> run_of (find_child s d l))"
    using resolve_abs [OF nm l len tree_okD(1) [OF ok]] r by simp
  show ?thesis
  proof (cases "\<exists>d. r = Some d \<and> n_type (nodes s d) = VFS_DIR")
    case False
    then show ?thesis using ok mk r by (intro exI [of _ None] exI [of _ s] exI [of _ ch]) (auto simp: made_def split: option.split)
  next
    case True
    then obtain d where d: "r = Some d" "n_type (nodes s d) = VFS_DIR" by blast
    have dv: "reach ch d" "d < node_count s" using rx d(1) reach_valid [OF _ ok] by blast+
    have le: "node_count s \<le> VFS_MAX_NODES" using ok by (simp add: tree_ok_def)
    obtain c where c: "find_child s d l = Some c" using find_child_find [OF ok dv(2)] by blast
    consider (old) n where "c = Some n" | (full) "c = None" "node_count s = VFS_MAX_NODES"
      | (new) "c = None" "node_count s < VFS_MAX_NODES" using le by (cases c) (auto simp: le_less)
    then show ?thesis
    proof cases
      case old
      then show ?thesis using ok mk d c res by (intro exI [of _ c] exI [of _ s] exI [of _ ch]) (auto simp: made_def)
    next
      case full
      then show ?thesis using ok mk d c
        by (intro exI [of _ None] exI [of _ s] exI [of _ ch]) (auto simp: made_def alloc_node_def)
    next
      case new
      let ?s = "add_node d l ty mode s"
      have fresh: "find_child s d l = Some None" using c new(1) by simp
      note f = add_node_fields [OF new(2) dv(2), where l = l and ty = ty and mode = mode]
        add_node_name [OF new(2) dv(2) l, where ty = ty and mode = mode]
      note fc = add_node_find [OF ok dv(2) d(2) l new(2) fresh, where ty = ty and mode = mode]
      note t = add_node_tree [OF ok dv(2) d(2) l new(2) fresh, where ty = ty and mode = mode]
      have mono: "vfs_resolve p ?s = ret (Some x)" if "vfs_resolve p s = ret (Some x)" for p x
        using ok f(1,2) _ _ that
      proof (rule vfs_resolve_mono)
        show "find_child ?s e nm = Some (Some c)" if "reach ch e" "find_child s e nm = Some (Some c)" for e nm c
          using fc [OF reach_valid [OF that(1) ok]] that(2) fresh by auto
        show "n_parent (nodes ?s e) = n_parent (nodes s e)" if "reach ch e" for e
          using f(9) [of e] reach_valid [OF that ok] by simp
      qed
      have "dir_of ?s q = ret (Some d)"
        using r d(1) mono [of q d] f(1) by (auto simp: dir_of_def split: if_splits)
      moreover have "normalize_path path ?s = ret (q @ slash # l)" using nm(1) normalize_cong [OF f(2)] by simp
      ultimately have "vfs_resolve path ?s = ret (Some (node_count s))"
        using resolve_abs [of path ?s q l, OF _ nm(2) l len, of 0] f(1) tree_okD(1) [OF ok] fc [OF dv(2), of l] by simp
      moreover have "make_node ty path mode s = ret (Some (node_count s), ?s)"
        using mk d c new by (simp add: alloc_node_def add_node_def Let_def)
      moreover have "vfs_resolve path s = ret None" using res d c new by simp
      moreover have "nodes ?s i = (nodes s i)\<lparr>n_child := n_child (nodes ?s i)\<rparr>" if "i < node_count s" for i
        using that by (cases "i = d") (simp_all add: f(6,7))
      ultimately show ?thesis
        using t mono f(3,5) f(8) [of "node_count s"]
        by (intro exI [of _ "Some (node_count s)"] exI [of _ ?s] exI) (auto simp: made_def node_zero_def)
    qed
  qed
qed

section \<open>Removed nodes\<close>

lemma unlink_loop_chain:
  assumes "sib_chain (nodes s) p xs" "distinct xs" "n \<in> set xs" "hd xs \<noteq> n"
  shows "\<exists>i \<in> set xs. unlink_loop s n p = Some (set_node i (\<lambda>k. k\<lparr>n_sibling := n_sibling (nodes s n)\<rparr>) s) \<and>
    sib_chain (nodes (set_node i (\<lambda>k. k\<lparr>n_sibling := n_sibling (nodes s n)\<rparr>) s)) p (remove1 n xs)"
  using assms
proof (induction xs arbitrary: p)
  case (Cons x xs)
  then obtain y ys where xs: "xs = y # ys" by (cases xs) auto
  have p: "p = Some x" "n_sibling (nodes s x) = Some y" "x \<noteq> n" using Cons.prems xs by auto
  show ?case
  proof (cases "y = n")
    case True
    define s' where "s' = set_node x (\<lambda>k. k\<lparr>n_sibling := n_sibling (nodes s n)\<rparr>) s"
    have "sib_chain (nodes s') q ys = sib_chain (nodes s) q ys" for q
      using Cons.prems(2) xs by (intro sib_chain_cong) (auto simp: set_node_def s'_def)
    moreover have "n_sibling (nodes s' x) = n_sibling (nodes s n)" by (simp add: s'_def set_node_def)
    moreover have "unlink_loop s n p = Some s'"
      using p True by (simp add: unlink_loop.simps [of s n "Some x"] s'_def)
    ultimately show ?thesis
      unfolding s'_def [symmetric] using Cons.prems(1) p xs True by (intro bexI [of _ x]) (auto simp: s'_def [symmetric])
  next
    case False
    then obtain i where i: "i \<in> set xs" "unlink_loop s n (Some y) = Some (set_node i (\<lambda>k. k\<lparr>n_sibling := n_sibling (nodes s n)\<rparr>) s)"
      "sib_chain (nodes (set_node i (\<lambda>k. k\<lparr>n_sibling := n_sibling (nodes s n)\<rparr>) s)) (Some y) (remove1 n xs)"
      using Cons.IH [of "Some y"] Cons.prems xs p by auto
    define s' where "s' = set_node i (\<lambda>k. k\<lparr>n_sibling := n_sibling (nodes s n)\<rparr>) s"
    have "i \<noteq> x" using i(1) Cons.prems(2) by auto
    then have "n_sibling (nodes s' x) = Some y" using p(2) by (simp add: s'_def set_node_def)
    moreover have "unlink_loop s n p = Some s'"
      using p False i(2) by (simp add: unlink_loop.simps [of s n "Some x"] s'_def)
    ultimately show ?thesis
      using p i(1) i(3) [folded s'_def] by (intro bexI [of _ i]) (auto simp: s'_def [symmetric])
  qed
qed simp

text \<open>A change of the links only.\<close>

definition relinked :: "vfs_state \<Rightarrow> vfs_state \<Rightarrow> bool" where
  "relinked s s1 \<longleftrightarrow> (\<exists>ns. s1 = s\<lparr>nodes := ns\<rparr> \<and>
     (\<forall>i. ns i = (nodes s i)\<lparr>n_child := n_child (ns i), n_sibling := n_sibling (ns i)\<rparr>))"

lemma detach:
  assumes ok: "tree_ok s ch" and p: "p < node_count s" "n \<in> set (ch p)"
  shows "\<exists>s1. (if n_child (nodes s p) = Some n
        then Some (set_node p (\<lambda>k. k\<lparr>n_child := n_sibling (nodes s n)\<rparr>) s)
        else unlink_loop s n (n_child (nodes s p))) = Some s1 \<and> relinked s s1 \<and>
      (\<forall>e < node_count s. sib_chain (nodes s1) (n_child (nodes s1 e)) ((ch(p := remove1 n (ch p))) e))"
proof -
  note ch = tree_okD(4) [OF ok] and D = tree_okD(5) [OF ok p(1)]
  have only: "e = p" if "e < node_count s" "c \<in> set (ch e)" "c \<in> set (ch p)" for c e
    using tree_okD(9) [OF ok that(1,2)] tree_okD(9) [OF ok p(1) that(3)] by simp
  show ?thesis
  proof (cases "n_child (nodes s p) = Some n")
    case True
    let ?s = "set_node p (\<lambda>k. k\<lparr>n_child := n_sibling (nodes s n)\<rparr>) s"
    have "sib_chain (nodes ?s) q xs = sib_chain (nodes s) q xs" for q xs
      by (rule sib_chain_cong) (simp add: set_node_def)
    moreover have "ch p = n # remove1 n (ch p)" using ch [OF p(1)] True p(2) by (cases "ch p") auto
    then have "sib_chain (nodes s) (n_sibling (nodes s n)) (remove1 n (ch p))" using ch [OF p(1)] True
      by (metis sib_chain.simps(2))
    ultimately show ?thesis
      using True ch by (intro exI [of _ ?s]) (auto simp: relinked_def set_node_def)
  next
    case False
    have "hd (ch p) \<noteq> n" using False ch [OF p(1)] p(2) by (cases "ch p") auto
    then obtain i where i: "i \<in> set (ch p)"
      "unlink_loop s n (n_child (nodes s p)) = Some (set_node i (\<lambda>k. k\<lparr>n_sibling := n_sibling (nodes s n)\<rparr>) s)"
      "sib_chain (nodes (set_node i (\<lambda>k. k\<lparr>n_sibling := n_sibling (nodes s n)\<rparr>) s)) (n_child (nodes s p)) (remove1 n (ch p))"
      using unlink_loop_chain [OF ch [OF p(1)] D p(2)] by blast
    let ?s = "set_node i (\<lambda>k. k\<lparr>n_sibling := n_sibling (nodes s n)\<rparr>) s"
    have cn: "n_child (nodes ?s e) = n_child (nodes s e)" for e by (simp add: set_node_def)
    have "sib_chain (nodes ?s) q (ch e) = sib_chain (nodes s) q (ch e)" if "e < node_count s" "e \<noteq> p" for e q
      using only [OF that(1) _ i(1)] that(2) by (intro sib_chain_cong) (auto simp: set_node_def)
    then show ?thesis
      using False i ch cn by (intro exI [of _ ?s]) (auto simp: relinked_def set_node_def)
  qed
qed

text \<open>The node after it has been removed.\<close>

definition cleared :: "nat \<Rightarrow> vfs_state \<Rightarrow> vfs_state" where
  "cleared n s = (let s2 = (if n_data (nodes s n) \<noteq> NULL
       then set_node n (\<lambda>k. k\<lparr>n_data := NULL\<rparr>) (s\<lparr>v_heap := kfree (n_data (nodes s n)) (v_heap s)\<rparr>) else s)
     in set_node n (\<lambda>k. k\<lparr>n_size := 0, n_name := (n_name k)[0 := 0]\<rparr>) s2)"

lemma cleared_fields:
  "root (cleared n s) = root s" "cwd (cleared n s) = cwd s" "node_count (cleared n s) = node_count s"
  "v_heap (cleared n s) = (if n_data (nodes s n) \<noteq> NULL then kfree (n_data (nodes s n)) (v_heap s) else v_heap s)"
  "x \<noteq> n \<Longrightarrow> nodes (cleared n s) x = nodes s x"
  "nodes (cleared n s) n = (nodes s n)\<lparr>n_data := NULL, n_size := 0, n_name := (n_name (nodes s n))[0 := 0]\<rparr>"
  by (auto simp: cleared_def set_node_def Let_def)

lemma relinked_fields:
  assumes "relinked s s1"
  shows "root s1 = root s" "cwd s1 = cwd s" "node_count s1 = node_count s" "v_heap s1 = v_heap s"
    "n_name (nodes s1 i) = n_name (nodes s i)" "n_type (nodes s1 i) = n_type (nodes s i)"
    "n_parent (nodes s1 i) = n_parent (nodes s i)" "n_data (nodes s1 i) = n_data (nodes s i)"
    "n_size (nodes s1 i) = n_size (nodes s i)"
proof -
  from assms obtain ns where ns: "s1 = s\<lparr>nodes := ns\<rparr>"
    "\<And>i. ns i = (nodes s i)\<lparr>n_child := n_child (ns i), n_sibling := n_sibling (ns i)\<rparr>"
    by (auto simp: relinked_def)
  show "root s1 = root s" "cwd s1 = cwd s" "node_count s1 = node_count s" "v_heap s1 = v_heap s"
    using ns(1) by simp_all
  show "n_name (nodes s1 i) = n_name (nodes s i)" "n_type (nodes s1 i) = n_type (nodes s i)"
    "n_parent (nodes s1 i) = n_parent (nodes s i)" "n_data (nodes s1 i) = n_data (nodes s i)"
    "n_size (nodes s1 i) = n_size (nodes s i)"
    by (simp add: ns(1), subst ns(2), simp)+
qed

lemma unlink_tree:
  assumes ok: "tree_ok s ch" and p: "p < node_count s" "n \<in> set (ch p)" and rl: "relinked s s1"
    and chains: "\<And>e. e < node_count s \<Longrightarrow> sib_chain (nodes s1) (n_child (nodes s1 e)) ((ch(p := remove1 n (ch p))) e)"
  shows "tree_ok (cleared n s1) (ch(p := remove1 n (ch p)))"
proof -
  let ?s = "cleared n s1" and ?ch = "ch(p := remove1 n (ch p))"
  note f = cleared_fields [where n = n and s = s1] relinked_fields [OF rl]
  have sub: "c \<in> set (ch e)" "c \<noteq> n" if "e < node_count s" "c \<in> set (?ch e)" for c e
    using that tree_okD(5) [OF ok p(1)] tree_okD(9) [OF ok that(1)] tree_okD(9) [OF ok p]
    by (auto split: if_splits)
  have link: "n_sibling (nodes ?s i) = n_sibling (nodes s1 i)" "n_child (nodes ?s i) = n_child (nodes s1 i)"
    "n_parent (nodes ?s i) = n_parent (nodes s i)" "n_type (nodes ?s i) = n_type (nodes s i)" for i
    by (cases "i = n"; simp add: f)+
  have nm: "name_of ?s c = name_of s c" if "c \<noteq> n" for c using that by (simp add: f)
  have "sib_chain (nodes ?s) q xs = sib_chain (nodes s1) q xs" for q xs by (rule sib_chain_cong) (rule link)
  then have A: "sib_chain (nodes ?s) (n_child (nodes ?s e)) (?ch e)" if "e < node_count s" for e
    using chains [OF that] link(2) by simp
  have B: "distinct (?ch e) \<and> distinct (map (name_of ?s) (?ch e))" if "e < node_count s" for e
  proof -
    have "distinct (map (name_of s) (?ch e))" "distinct (?ch e)"
      using tree_okD(5,6) [OF ok that] by (auto simp: distinct_map intro: inj_on_subset)
    moreover have "map (name_of ?s) (?ch e) = map (name_of s) (?ch e)" using sub(2) [OF that] nm by (intro map_cong) auto
    ultimately show ?thesis by presburger
  qed
  have C: "n_type (nodes ?s e) \<noteq> VFS_DIR \<longrightarrow> ?ch e = []" if "e < node_count s" for e
    using tree_okD(12) [OF ok that] link(4) [of e] by auto
  have D: "c < node_count s \<and> c \<noteq> 0 \<and> n_parent (nodes ?s c) = Some e \<and> name_of ?s c \<noteq> []"
    if "e < node_count s" "c \<in> set (?ch e)" for e c
    using tree_okD(7-10) [OF ok that(1) sub(1) [OF that]] nm [OF sub(2) [OF that]] link(3) by simp
  have E: "length (n_name (nodes ?s i)) = VFS_NAME_MAX" for i
    using tree_okD(11) [OF ok] by (cases "i = n") (simp_all add: f)
  have nc: "node_count ?s = node_count s" by (simp only: f)
  show ?thesis
  proof (rule tree_okI)
    show "root ?s = Some 0" "0 < node_count ?s" "node_count ?s \<le> VFS_MAX_NODES" "n_parent (nodes ?s 0) = None"
      using tree_okD(1-3,13) [OF ok] link(3) [of 0] by (simp_all only: f)
  qed (use A B C D E in \<open>simp_all only: nc simp_thms\<close>)
qed

lemma unlink_spec:
  assumes ok: "tree_ok s ch" and res: "vfs_resolve path s = ret (Some n)" and n: "n \<noteq> 0"
  shows "\<exists>s' p. vfs_unlink path s = ret (0, s') \<and> n \<in> set (ch p) \<and> tree_ok s' (ch(p := remove1 n (ch p))) \<and>
    v_heap s' = (if n_data (nodes s n) \<noteq> NULL then kfree (n_data (nodes s n)) (v_heap s) else v_heap s) \<and>
    vfs_resolve path s' = ret None \<and>
    (\<forall>q x. vfs_resolve q s' = ret (Some x) \<longrightarrow> vfs_resolve q s = ret (Some x) \<and> x \<noteq> n)"
proof -
  obtain full where full: "normalize_path path s = ret full" "full \<noteq> []"
    using resolve_normal [OF res] by blast
  have "reach ch n" using vfs_resolve_total [OF ok full] res by auto
  then obtain p where p: "reach ch p" "n \<in> set (ch p)" using n by (auto elim: reach.cases)
  have pv: "p < node_count s" using reach_valid [OF p(1) ok] .
  obtain s1 where s1: "(if n_child (nodes s p) = Some n
        then Some (set_node p (\<lambda>k. k\<lparr>n_child := n_sibling (nodes s n)\<rparr>) s)
        else unlink_loop s n (n_child (nodes s p))) = Some s1" "relinked s s1"
    "\<And>e. e < node_count s \<Longrightarrow> sib_chain (nodes s1) (n_child (nodes s1 e)) ((ch(p := remove1 n (ch p))) e)"
    using detach [OF ok pv p(2)] by blast
  let ?s = "cleared n s1" and ?ch = "ch(p := remove1 n (ch p))"
  note f = cleared_fields [where n = n and s = s1] relinked_fields [OF s1(2)]
  have par: "n_parent (nodes s n) = Some p" "root s = Some 0" using tree_okD(1,9) [OF ok] pv p(2) by auto
  have un: "vfs_unlink path s = ret (0, ?s)"
    using res n par s1(1) unfolding vfs_unlink_def by (simp add: cleared_def Let_def)
  note t = unlink_tree [OF ok pv p(2) s1(2,3)]
  have D: "distinct (ch p)" using tree_okD(5) [OF ok pv] .
  have gone: "\<not> reach ?ch n"
  proof
    assume "reach ?ch n"
    then obtain e where e: "reach ?ch e" "n \<in> set (?ch e)" using n by (auto elim: reach.cases)
    have "e < node_count s" using reach_valid [OF e(1) t] f(3,9) by simp
    then have "e = p" using e(2) tree_okD(9) [OF ok, of e n] par(1) by (auto split: if_splits)
    then show False using e(2) D by simp
  qed
  have sub: "find_child s e nm = Some (Some c)" if e: "reach ?ch e" "find_child ?s e nm = Some (Some c)" for e nm c
  proof -
    have ev: "e < node_count s" using reach_valid [OF e(1) t] f(3,9) by simp
    have "reach ?ch c" "c \<in> set (?ch e)" "name_of ?s c = nm" using find_child_reach [OF t e] by auto
    moreover from this have "c \<noteq> n" using gone by auto
    ultimately have c: "c \<in> set (ch e)" "name_of s c = nm" by (auto simp: f split: if_splits dest: notin_set_remove1)
    then have "find (\<lambda>c. name_of s c = nm) (ch e) = Some c"
      using tree_okD(6) [OF ok ev] by (auto simp: find_Some_iff in_set_conv_nth distinct_conv_nth)
    then show ?thesis using find_child_find [OF ok ev] by simp
  qed
  have pareq: "n_parent (nodes s e) = n_parent (nodes ?s e)" for e by (cases "e = n") (simp_all add: f)
  have bk: "vfs_resolve q s = ret (Some x) \<and> x \<noteq> n" if q: "vfs_resolve q ?s = ret (Some x)" for q x
  proof
    show "vfs_resolve q s = ret (Some x)"
      using t _ _ sub pareq q by (rule vfs_resolve_mono) (simp_all add: f)
    obtain full where "normalize_path q ?s = ret full" "full \<noteq> []"
      using resolve_normal [OF q] by blast
    from vfs_resolve_total [OF t this] show "x \<noteq> n" using q gone by auto
  qed
  have "normalize_path path ?s = ret full" using full(1) normalize_cong [of ?s s] f by simp
  from vfs_resolve_total [OF t this full(2)] obtain r where "vfs_resolve path ?s = ret r" by blast
  then have "vfs_resolve path ?s = ret None" using bk [of path] res by (cases r) auto
  then show ?thesis using un p(2) t bk f(4,10,14) by (intro exI [of _ ?s] exI [of _ p]) auto
qed

section \<open>File contents and the heap\<close>

lemma peek_same:
  assumes "\<And>x. in_range x q k \<Longrightarrow> m' x = m x" "n \<le> k" "k \<le> 18446744073709551616"
  shows "peek m' q n = peek m q n"
  using assms by (intro nth_equalityI) (auto intro!: assms(1) in_range_le [of _ _ n] simp: in_range_offset)

text \<open>
  The heap work of a write: a fresh block, filled from \<open>buf\<close> and terminated, after which the old
  block is released.
\<close>

definition replaced :: "addr \<Rightarrow> addr \<Rightarrow> addr \<Rightarrow> u64 \<Rightarrow> heap_state \<Rightarrow> heap_state" where
  "replaced old p buf sz h =
     (let h = h\<lparr>heap_mem := (snd (memcpy (heap_mem h) p buf sz))(p + sz := 0)\<rparr>
      in if old \<noteq> NULL then kfree old h else h)"

lemma fill_block:
  assumes ok: "heap_ok h bs" and al: "(p, l) \<in> allocated h bs" "(buf, k) \<in> allocated h bs" "buf \<noteq> p"
    and sz: "sz < l" "sz \<le> k" and m: "m = (snd (memcpy (heap_mem h) p buf sz))(p + sz := 0)"
  shows "\<And>x. \<not> in_range x p (unat l) \<Longrightarrow> m x = heap_mem h x"
    and "peek m p (unat sz) = peek (heap_mem h) buf (unat sz)"
proof -
  have l: "unat sz < unat l" using sz(1) by (simp add: word_less_nat_alt)
  have sep: "disjoint_ranges p (unat l) buf (unat k)" using allocated_disjoint [OF ok al(1,2)] al(3) by simp
  have "unat sz \<le> unat (p - buf)"
  proof (rule ccontr)
    assume "\<not> ?thesis"
    then have "in_range p buf (unat k)" using sz(2) by (simp add: in_range_def word_le_nat_alt)
    moreover have "in_range p p (unat l)" using l by (intro in_range_self) simp
    ultimately show False using sep by (auto simp: disjoint_ranges_def)
  qed
  then have mc: "m = (poke (heap_mem h) p (peek (heap_mem h) buf (unat sz)))(p + sz := 0)"
    using memcpy_poke [of p buf sz "heap_mem h"] m by simp
  have last: "in_range (p + sz) p (unat l)" using l by (simp add: in_range_def)
  show "m x = heap_mem h x" if "\<not> in_range x p (unat l)" for x
  proof -
    have "x \<noteq> p + sz" using that last by auto
    then show ?thesis using that l poke_in_payload [of "peek (heap_mem h) buf (unat sz)" l x p] by (simp add: mc)
  qed
  have "peek m p (unat sz) = peek (poke (heap_mem h) p (peek (heap_mem h) buf (unat sz))) p (unat sz)"
    by (rule peek_same [OF _ order_refl]) (auto simp: mc in_range_def less_imp_le)
  then show "peek m p (unat sz) = peek (heap_mem h) buf (unat sz)"
    using peek_poke_same [of "peek (heap_mem h) buf (unat sz)" "heap_mem h" p] by simp
qed

lemma replaced_spec:
  assumes ok: "heap_ok h bs" and buf: "(buf, k) \<in> allocated h bs" and sz: "sz \<le> k" "unat sz < 2147483648"
    and km: "kmalloc (sz + 1) h = Some (Inr (p, h1))" "p \<noteq> NULL"
    and old: "old = NULL \<or> (old, j) \<in> allocated h bs \<and> contiguous (hdr h) bs \<and> heap_pmm h1 = heap_pmm h"
  shows "\<exists>bs' l. heap_ok (replaced old p buf sz h1) bs' \<and> sz < l \<and> p \<notin> fst ` allocated h bs \<and>
    allocated (replaced old p buf sz h1) bs' = insert (p, l) {x \<in> allocated h bs. fst x \<noteq> old \<or> old = NULL} \<and>
    peek (heap_mem (replaced old p buf sz h1)) p (unat sz) = peek (heap_mem h) buf (unat sz) \<and>
    (\<forall>(q, i) \<in> allocated h bs. q \<noteq> old \<or> old = NULL \<longrightarrow>
      (\<forall>x. in_range x q (unat i) \<longrightarrow> heap_mem (replaced old p buf sz h1) x = heap_mem h x))"
proof -
  have u: "unat (sz + 1) = unat sz + 1" using sz(2) unat_add_u64 [of sz 1] by simp
  then have "0 < sz + 1" "unat (sz + 1) \<le> 4611686018427387904" using sz(2) by (auto simp: word_less_nat_alt)
  then obtain bs1 where "kmalloc_post (sz + 1) h bs p h1 bs1" using kmalloc_spec [OF ok] km(1) by fastforce
  then obtain l where l: "sz + 1 \<le> l" "(p, l) \<notin> allocated h bs" "allocated h1 bs1 = insert (p, l) (allocated h bs)"
    and ok1: "heap_ok h1 bs1" and kept: "payloads_kept h bs h1"
    and cont: "contiguous (hdr h) bs \<Longrightarrow> heap_pmm h1 = heap_pmm h \<Longrightarrow> contiguous (hdr h1) bs1"
    using km(2) by (auto simp: kmalloc_post_def)
  have al: "(p, l) \<in> allocated h1 bs1" "(buf, k) \<in> allocated h1 bs1" using l(3) buf by auto
  have fresh: "q \<noteq> p" if "(q, i) \<in> allocated h bs" for q i
    using that l(2,3) allocated_functional [of p i h1 bs1 l] al(1) by auto
  have sl: "sz < l" using l(1) u by (simp add: word_less_nat_alt word_le_nat_alt)
  define m where "m = (snd (memcpy (heap_mem h1) p buf sz))(p + sz := 0)"
  note fb = fill_block [OF ok1 al fresh [OF buf] sl sz(1) m_def]
  let ?h2 = "h1\<lparr>heap_mem := m\<rparr>"
  note cw = client_write [OF ok1 al(1) fb(1)]
  have bytes: "m x = heap_mem h x" if "(q, i) \<in> allocated h bs" "in_range x q (unat i)" for q i x
  proof -
    have "disjoint_ranges q (unat i) p (unat l)"
      using allocated_disjoint [OF ok1, of q i p l] that(1) l(3) fresh [OF that(1)] by auto
    then show ?thesis using fb(1) [of x] payloads_keptD [OF kept that] that(2) by (auto simp: disjoint_ranges_def)
  qed
  have src: "peek m p (unat sz) = peek (heap_mem h) buf (unat sz)"
    using fb(2) payloads_keptD [OF kept buf] sz(1)
    by (auto simp: word_le_nat_alt less_imp_le intro!: peek_same [where k = "unat k"])
  have pn: "p \<notin> fst ` allocated h bs" using fresh by force
  show ?thesis
  proof (cases "old = NULL")
    case True
    then have r: "replaced old p buf sz h1 = ?h2" by (simp add: replaced_def m_def)
    have "allocated ?h2 bs1 = insert (p, l) (allocated h bs)" using cw(3) l(3) by simp
    then show ?thesis
      unfolding r using True cw(1) sl pn src bytes by (intro exI [of _ bs1] exI [of _ l]) auto
  next
    case False
    then have o: "(old, j) \<in> allocated h bs" "contiguous (hdr h) bs" "heap_pmm h1 = heap_pmm h" using old by auto
    have r: "replaced old p buf sz h1 = kfree old ?h2" using False by (simp add: replaced_def m_def)
    have o2: "(old, j) \<in> allocated ?h2 bs1" using o(1) cw(3) l(3) by simp
    have "contiguous (hdr ?h2) bs1" using cw(4) cont o by simp
    from kfree_spec [OF cw(1) this o2] obtain bs' where f: "heap_ok (kfree old ?h2) bs'"
      "allocated (kfree old ?h2) bs' = allocated ?h2 bs1 - {(old, j)}"
      "\<And>q i x. (q, i) \<in> allocated ?h2 bs1 - {(old, j)} \<Longrightarrow> in_range x q (unat i) \<Longrightarrow> heap_mem (kfree old ?h2) x = m x"
      by auto
    have uniq: "(old, i) \<in> allocated h bs \<Longrightarrow> i = j" for i using o(1) allocated_functional by blast
    have "allocated (kfree old ?h2) bs' = insert (p, l) {x \<in> allocated h bs. fst x \<noteq> old \<or> old = NULL}"
    proof -
      have "{x \<in> allocated h bs. fst x \<noteq> old \<or> old = NULL} = allocated h bs - {(old, j)}"
      proof (rule set_eqI)
        fix x
        show "x \<in> {x \<in> allocated h bs. fst x \<noteq> old \<or> old = NULL} \<longleftrightarrow> x \<in> allocated h bs - {(old, j)}"
          using uniq [of "snd x"] False by (cases x) auto
      qed
      moreover have "insert (p, l) (allocated h bs) - {(old, j)} = insert (p, l) (allocated h bs - {(old, j)})"
        using fresh [OF o(1)] by blast
      ultimately show ?thesis using f(2) cw(3) l(3) by simp
    qed
    moreover have "peek (heap_mem (kfree old ?h2)) p (unat sz) = peek m p (unat sz)"
      using f(3) [of p l] cw(3) al(1) fresh [OF o(1)] sl
      by (intro peek_same [where k = "unat l"]) (auto simp: word_less_nat_alt less_imp_le)
    moreover have "heap_mem (kfree old ?h2) x = heap_mem h x"
      if "(q, i) \<in> allocated h bs" "q \<noteq> old" "in_range x q (unat i)" for q i x
      using f(3) [of q i x] that bytes [of q i x] cw(3) l(3) by auto
    ultimately show ?thesis
      unfolding r using f(1) sl pn src False by (intro exI [of _ bs'] exI [of _ l]) auto
  qed
qed

text \<open>
  The contents of a file, and the ownership invariant: the data of every allocated node is an
  allocated block of its own, longer than the file.
\<close>

definition contents :: "vfs_state \<Rightarrow> nat \<Rightarrow> u8 list" where
  "contents s i = peek (heap_mem (v_heap s)) (n_data (nodes s i)) (unat (n_size (nodes s i)))"

definition files_ok :: "vfs_state \<Rightarrow> addr list \<Rightarrow> bool" where
  "files_ok s bs \<longleftrightarrow> heap_ok (v_heap s) bs \<and>
     (\<forall>i < node_count s. (if n_data (nodes s i) = NULL then n_size (nodes s i) = 0
        else \<exists>k. (n_data (nodes s i), k) \<in> allocated (v_heap s) bs \<and> n_size (nodes s i) < k)) \<and>
     (\<forall>i < node_count s. \<forall>j < node_count s. n_data (nodes s i) = n_data (nodes s j) \<longrightarrow> n_data (nodes s i) \<noteq> NULL \<longrightarrow> i = j)"

lemma files_okD:
  assumes "files_ok s bs" "i < node_count s"
  shows "heap_ok (v_heap s) bs" "n_data (nodes s i) = NULL \<Longrightarrow> n_size (nodes s i) = 0"
    "n_data (nodes s i) \<noteq> NULL \<Longrightarrow> \<exists>k. (n_data (nodes s i), k) \<in> allocated (v_heap s) bs \<and> n_size (nodes s i) < k"
    "j < node_count s \<Longrightarrow> n_data (nodes s i) = n_data (nodes s j) \<Longrightarrow> n_data (nodes s i) \<noteq> NULL \<Longrightarrow> i = j"
  using assms by (auto simp: files_ok_def)

lemma vfs_write_cases:
  assumes "heap_ok (v_heap s) bs" "n_type (nodes s n) = VFS_FILE" "unat sz < 2147483648"
  obtains p h where "kmalloc (sz + 1) (v_heap s) = Some (Inr (p, h))"
    "vfs_write (Some n) buf sz s = ret (if p = NULL then (- 1, s) else
       (ucast sz, set_node n (\<lambda>k. k\<lparr>n_data := p, n_size := sz\<rparr>) (s\<lparr>v_heap := replaced (n_data (nodes s n)) p buf sz h\<rparr>)))"
proof -
  have u: "unat (sz + 1) = unat sz + 1" using assms(3) unat_add_u64 [of sz 1] by simp
  then have "0 < sz + 1" "unat (sz + 1) \<le> 4611686018427387904" using assms(3) by (auto simp: word_less_nat_alt)
  then obtain p h bs' where km: "kmalloc (sz + 1) (v_heap s) = Some (Inr (p, h))" "kmalloc_post (sz + 1) (v_heap s) bs p h bs'"
    using kmalloc_spec [OF assms(1)] by blast
  have "s\<lparr>v_heap := v_heap s\<rparr> = s" by simp
  then have "vfs_write (Some n) buf sz s = ret (if p = NULL then (- 1, s) else
       (ucast sz, set_node n (\<lambda>k. k\<lparr>n_data := p, n_size := sz\<rparr>) (s\<lparr>v_heap := replaced (n_data (nodes s n)) p buf sz h\<rparr>)))"
    using km assms(2) by (auto simp: vfs_write_def replaced_def Let_def kmalloc_post_def)
  with km(1) show ?thesis by (rule that)
qed

lemma vfs_read_copies:
  assumes ok: "files_ok s bs" and n: "n < node_count s" "n_type (nodes s n) = VFS_FILE"
    and out: "(out, j) \<in> allocated (v_heap s) bs" "out \<noteq> n_data (nodes s n)" "mx \<le> j"
  shows "\<exists>s'. vfs_read (Some n) out mx NULL s = (ucast (min (n_size (nodes s n)) mx), s') \<and> nodes s' = nodes s \<and>
    peek (heap_mem (v_heap s')) out (unat (min (n_size (nodes s n)) mx)) = take (unat mx) (contents s n)"
proof -
  define k where "k = (if n_size (nodes s n) < mx then n_size (nodes s n) else mx)"
  have mn: "min (n_size (nodes s n)) mx = k" by (auto simp: k_def min_def word_le_nat_alt word_less_nat_alt word_unat_eq_iff)
  have kl: "unat k \<le> unat (n_size (nodes s n))" "unat k \<le> unat mx" "unat k = min (unat mx) (unat (n_size (nodes s n)))"
    by (auto simp: k_def word_less_nat_alt)
  define m where "m = heap_mem (v_heap s)"
  define m' where "m' = (if k \<noteq> 0 \<and> n_data (nodes s n) \<noteq> NULL then snd (memcpy m out (n_data (nodes s n)) k) else m)"
  have vr: "vfs_read (Some n) out mx NULL s = (ucast k, s\<lparr>v_heap := (v_heap s)\<lparr>heap_mem := m'\<rparr>\<rparr>)"
    using n(2) by (simp add: vfs_read_def k_def m'_def m_def Let_def)
  have tk: "take (unat mx) (contents s n) = peek m (n_data (nodes s n)) (unat k)"
    by (simp add: contents_def peek_def take_map m_def kl(3) min_def)
  have "peek m' out (unat k) = peek m (n_data (nodes s n)) (unat k)"
  proof (cases "k = 0")
    case True
    then show ?thesis by (simp add: peek_def)
  next
    case False
    then have nz: "n_data (nodes s n) \<noteq> NULL" using files_okD(2) [OF ok n(1)] kl(1) by (auto simp: unat_eq_zero)
    then obtain l where l: "(n_data (nodes s n), l) \<in> allocated (v_heap s) bs" "n_size (nodes s n) < l"
      using files_okD(3) [OF ok n(1)] by blast
    have "disjoint_ranges out (unat j) (n_data (nodes s n)) (unat l)"
      using allocated_disjoint [OF files_okD(1) [OF ok n(1)] out(1) l(1) out(2)] .
    moreover have "in_range out out (unat j)"
    proof (rule in_range_self)
      have "0 < unat k" using False by (simp add: unat_gt_0)
      then show "0 < unat j" using kl(2) out(3) by (simp add: word_le_nat_alt)
    qed
    ultimately have "\<not> in_range out (n_data (nodes s n)) (unat l)" by (auto simp: disjoint_ranges_def)
    then have "unat k \<le> unat (out - n_data (nodes s n))" using kl(1) l(2) by (simp add: in_range_def word_less_nat_alt)
    then have "m' = poke m out (peek m (n_data (nodes s n)) (unat k))"
      using memcpy_poke [of out "n_data (nodes s n)" k m] False nz by (simp add: m'_def)
    then show ?thesis using peek_poke_same [of "peek m (n_data (nodes s n)) (unat k)" m out] by simp
  qed
  then show ?thesis using vr tk mn by simp
qed

lemma write_keeps_files:
  assumes ok: "files_ok s bs" and n: "n < node_count s" and buf: "(buf, k) \<in> allocated (v_heap s) bs"
    and sz: "sz \<le> k" "unat sz < 2147483648" and km: "kmalloc (sz + 1) (v_heap s) = Some (Inr (p, h))" "p \<noteq> NULL"
    and quiet: "n_data (nodes s n) \<noteq> NULL \<Longrightarrow> contiguous (hdr (v_heap s)) bs \<and> heap_pmm h = heap_pmm (v_heap s)"
    and s': "s' = set_node n (\<lambda>k. k\<lparr>n_data := p, n_size := sz\<rparr>) (s\<lparr>v_heap := replaced (n_data (nodes s n)) p buf sz h\<rparr>)"
  shows "\<exists>bs'. files_ok s' bs' \<and> contents s' n = peek (heap_mem (v_heap s)) buf (unat sz) \<and>
    (\<forall>i < node_count s. i \<noteq> n \<longrightarrow> contents s' i = contents s i) \<and> n_data (nodes s' n) \<notin> fst ` allocated (v_heap s) bs \<and>
    (\<forall>q i. (q, i) \<in> allocated (v_heap s) bs \<longrightarrow> q \<noteq> n_data (nodes s n) \<longrightarrow> (q, i) \<in> allocated (v_heap s') bs')"
proof -
  let ?old = "n_data (nodes s n)"
  have hok: "heap_ok (v_heap s) bs" using files_okD(1) [OF ok n] .
  have "\<exists>j. ?old = NULL \<or> (?old, j) \<in> allocated (v_heap s) bs \<and> contiguous (hdr (v_heap s)) bs \<and> heap_pmm h = heap_pmm (v_heap s)"
    using files_okD(3) [OF ok n] quiet by blast
  then obtain j where old: "?old = NULL \<or> (?old, j) \<in> allocated (v_heap s) bs \<and> contiguous (hdr (v_heap s)) bs \<and> heap_pmm h = heap_pmm (v_heap s)" ..
  let ?h = "replaced ?old p buf sz h"
  obtain bs' l where r: "heap_ok ?h bs'" "sz < l" "p \<notin> fst ` allocated (v_heap s) bs"
    "allocated ?h bs' = insert (p, l) {x \<in> allocated (v_heap s) bs. fst x \<noteq> ?old \<or> ?old = NULL}"
    "peek (heap_mem ?h) p (unat sz) = peek (heap_mem (v_heap s)) buf (unat sz)"
    "\<And>q i x. (q, i) \<in> allocated (v_heap s) bs \<Longrightarrow> q \<noteq> ?old \<or> ?old = NULL \<Longrightarrow> in_range x q (unat i) \<Longrightarrow>
      heap_mem ?h x = heap_mem (v_heap s) x"
    using replaced_spec [OF hok buf sz km old] by blast
  have f: "v_heap s' = ?h" "node_count s' = node_count s" "n_data (nodes s' n) = p" "n_size (nodes s' n) = sz"
    "\<And>i. i \<noteq> n \<Longrightarrow> nodes s' i = nodes s i"
    by (simp_all add: s' set_node_def)
  have other: "\<exists>i. (n_data (nodes s e), i) \<in> allocated (v_heap s) bs \<and> n_size (nodes s e) < i \<and>
      (n_data (nodes s e), i) \<in> allocated ?h bs' \<and> n_data (nodes s e) \<noteq> p \<and> (n_data (nodes s e) \<noteq> ?old \<or> ?old = NULL)"
    if e: "e < node_count s" "e \<noteq> n" "n_data (nodes s e) \<noteq> NULL" for e
  proof -
    obtain i where i: "(n_data (nodes s e), i) \<in> allocated (v_heap s) bs" "n_size (nodes s e) < i"
      using files_okD(3) [OF ok e(1,3)] by blast
    have "n_data (nodes s e) \<noteq> ?old" using files_okD(4) [OF ok e(1) n] e(2,3) by blast
    moreover have "n_data (nodes s e) \<noteq> p" using r(3) i(1) by force
    ultimately show ?thesis using i r(4) by auto
  qed
  have "files_ok s' bs'"
    unfolding files_ok_def f(1,2)
  proof (intro conjI allI impI)
    show "heap_ok ?h bs'" by (rule r(1))
    fix e assume e: "e < node_count s"
    show "if n_data (nodes s' e) = NULL then n_size (nodes s' e) = 0
        else \<exists>k. (n_data (nodes s' e), k) \<in> allocated ?h bs' \<and> n_size (nodes s' e) < k"
    proof (cases "e = n")
      case True
      then show ?thesis using f km(2) r(2,4) by auto
    next
      case False
      then show ?thesis using other [OF e False] files_okD(2) [OF ok e] f(5) [OF False] by auto
    qed
    fix i assume i: "i < node_count s" "n_data (nodes s' e) = n_data (nodes s' i)" "n_data (nodes s' e) \<noteq> NULL"
    show "e = i"
    proof (cases "e = n \<or> i = n")
      case True
      then show ?thesis using i other [OF e] other [OF i(1)] f(3) f(5) by metis
    next
      case False
      then show ?thesis using i f(5) files_okD(4) [OF ok e i(1)] by simp
    qed
  qed
  moreover have "contents s' n = peek (heap_mem (v_heap s)) buf (unat sz)" using r(5) f by (simp add: contents_def)
  moreover have "contents s' i = contents s i" if i: "i < node_count s" "i \<noteq> n" for i
  proof (cases "n_data (nodes s i) = NULL")
    case True
    then show ?thesis using files_okD(2) [OF ok i(1)] f(5) [OF i(2)] by (simp add: contents_def peek_def)
  next
    case False
    from other [OF i False] obtain k where "(n_data (nodes s i), k) \<in> allocated (v_heap s) bs" "n_size (nodes s i) < k"
      "n_data (nodes s i) \<noteq> ?old \<or> ?old = NULL" by blast
    then show ?thesis
      unfolding contents_def f(1) f(5) [OF i(2)]
      using r(6) [of "n_data (nodes s i)" k] by (intro peek_same [where k = "unat k"]) (auto simp: word_less_nat_alt less_imp_le)
  qed
  moreover have "n_data (nodes s' n) \<notin> fst ` allocated (v_heap s) bs" using r(3) f(3) by simp
  moreover have "(q, i) \<in> allocated (v_heap s') bs'" if "(q, i) \<in> allocated (v_heap s) bs" "q \<noteq> ?old" for q i
    using that r(4) f(1) by simp
  ultimately show ?thesis by blast
qed

section \<open>Properties\<close>

text \<open>A change that touches neither links nor names nor types keeps the tree and all resolutions.\<close>

definition same_links :: "vfs_state \<Rightarrow> vfs_state \<Rightarrow> bool" where
  "same_links s s' \<longleftrightarrow> root s' = root s \<and> cwd s' = cwd s \<and> node_count s' = node_count s \<and>
     (\<forall>i. n_name (nodes s' i) = n_name (nodes s i) \<and> n_type (nodes s' i) = n_type (nodes s i) \<and>
        n_parent (nodes s' i) = n_parent (nodes s i) \<and> n_child (nodes s' i) = n_child (nodes s i) \<and>
        n_sibling (nodes s' i) = n_sibling (nodes s i))"

lemma same_links_tree:
  assumes "same_links s s'" "tree_ok s ch"
  shows "tree_ok s' ch"
proof -
  have "sib_chain (nodes s') q xs = sib_chain (nodes s) q xs" for q xs
    using assms(1) by (intro sib_chain_cong) (simp add: same_links_def)
  then show ?thesis using assms by (simp add: tree_ok_def same_links_def)
qed

lemma same_links_resolve:
  assumes sl: "same_links s s'" and ok: "tree_ok s ch" and r: "vfs_resolve path s = ret (Some x)"
  shows "vfs_resolve path s' = ret (Some x)"
  using ok _ _ _ _ r
proof (rule vfs_resolve_mono)
  have ok': "tree_ok s' ch" by (rule same_links_tree [OF sl ok])
  have n: "name_of s' c = name_of s c" for c using sl by (simp add: same_links_def)
  show "find_child s' d nm = Some (Some c)" if "reach ch d" "find_child s d nm = Some (Some c)" for d nm c
    using that find_child_find [OF ok reach_valid [OF that(1) ok]] find_child_find [OF ok' reach_valid [OF that(1) ok']]
    by (simp add: n)
qed (use sl in \<open>simp_all add: same_links_def\<close>)

lemma vfs_write_links:
  assumes "heap_ok (v_heap s) bs" "unat sz < 2147483648"
  shows "\<exists>r s'. vfs_write (Some n) buf sz s = ret (r, s') \<and> same_links s s' \<and> (r = - 1 \<or> r = ucast sz)"
proof (cases "n_type (nodes s n) = VFS_FILE")
  case True
  obtain p h where "vfs_write (Some n) buf sz s = ret (if p = NULL then (- 1, s) else
       (ucast sz, set_node n (\<lambda>k. k\<lparr>n_data := p, n_size := sz\<rparr>) (s\<lparr>v_heap := replaced (n_data (nodes s n)) p buf sz h\<rparr>)))"
    by (rule vfs_write_cases [OF assms(1) True assms(2)])
  then show ?thesis by (cases "p = NULL") (auto simp: same_links_def set_node_def)
next
  case False
  then show ?thesis by (simp add: vfs_write_def same_links_def)
qed

text \<open>
  (C7) Creating files and directories. On a well-formed tree, for a path whose last component is
  not empty, not \<open>.\<close> or \<open>..\<close> and shorter than 128 characters, \<^verbatim>\<open>vfs_create\<close> and \<^verbatim>\<open>vfs_mkdir\<close>
  return without an overflow and the tree stays well-formed. Every path that led to a node still
  leads to it, and nothing but the list of children changes of an existing node. A node that is returned is the one the path leads to from now on; it is a new
  empty node of the requested type unless the path led to it already. \<^verbatim>\<open>NULL\<close> leaves the state as
  it was, and is returned only if the node table is full or the parent is not a directory.
\<close>

theorem vfs_create_resolves:
  assumes "(f, ty) \<in> {(vfs_create, VFS_FILE), (vfs_mkdir, VFS_DIR)}" and "tree_ok s ch"
    and "normalize_path path s = ret (q @ slash # l)" "q = [] \<or> hd q = slash" "plain_leaf l"
    and "length q + length l + 1 < VFS_PATH_MAX"
  shows "\<exists>r s' ch'. f path mode s = ret (r, s') \<and> tree_ok s' ch' \<and> made ty path q l mode s r s'"
  using assms(1) make_node_spec [OF assms(2-6)] by (auto simp: vfs_create_def vfs_mkdir_def)

text \<open>The state of \<^verbatim>\<open>vfs_init\<close> before the first directory is made.\<close>

definition root_fs :: vfs_state where
  "root_fs = (snd (alloc_node [slash] VFS_DIR 0x1ED
     \<lparr>nodes = (\<lambda>_. node_zero), node_count = 0, root = None, cwd = [], v_heap = boot_heap\<rparr>))\<lparr>root := Some 0, cwd := [slash]\<rparr>"

lemma root_tree:
  assumes "nodes s = (\<lambda>_. node_zero)(0 := node_zero\<lparr>n_name := strncpy_buf (VFS_NAME_MAX - 1) [slash] (n_name node_zero), n_type := VFS_DIR, n_mode := 0x1ED\<rparr>)"
    and "node_count s = 1" "root s = Some 0"
  shows "tree_ok s (\<lambda>_. [])"
  using assms by (simp add: tree_ok_def node_zero_def VFS_MAX_NODES_def VFS_NAME_MAX_def)

lemma root_fs_tree: "tree_ok root_fs (\<lambda>_. [])"
  by (rule root_tree) (simp_all add: root_fs_def alloc_node_def set_node_def VFS_MAX_NODES_def Let_def)

lemma root_fs_files: "files_ok root_fs [0x10000]"
  using boot_heap_ok(1)
  by (auto simp: files_ok_def root_fs_def alloc_node_def set_node_def VFS_MAX_NODES_def Let_def node_zero_def)

theorem vfs_create_resolves_witness:
  "\<exists>r s' ch'. vfs_mkdir (bytes_of ''/etc'') 0x1ED root_fs = ret (r, s') \<and> tree_ok s' ch' \<and>
     made VFS_DIR (bytes_of ''/etc'') [] (bytes_of ''etc'') 0x1ED root_fs r s'"
proof -
  have "normalize_path (bytes_of ''/etc'') root_fs = ret ([] @ slash # bytes_of ''etc'')"
    by (simp add: normalize_path_def bytes_of_def slash_def VFS_PATH_MAX_def)
  moreover have "plain_leaf (bytes_of ''etc'')"
    by (simp add: plain_leaf_def bytes_of_def slash_def VFS_NAME_MAX_def)
  ultimately show ?thesis
    using vfs_create_resolves [OF _ root_fs_tree, of vfs_mkdir VFS_DIR "bytes_of ''/etc''" "[]" "bytes_of ''etc''" "0x1ED"]
    by (simp add: VFS_PATH_MAX_def bytes_of_def)
qed

text \<open>
  (C9) Removing. If a path leads to a node other than the root of a well-formed tree,
  \<^verbatim>\<open>vfs_unlink\<close> returns 0, takes exactly this node from the children of its directory and releases
  its data. The path leads nowhere afterwards, and every path that still leads to a node led to
  the same node before.
\<close>

theorem vfs_unlink_removes:
  assumes "tree_ok s ch" and "vfs_resolve path s = ret (Some n)" and "n \<noteq> 0"
  shows "\<exists>s' p. vfs_unlink path s = ret (0, s') \<and> n \<in> set (ch p) \<and> tree_ok s' (ch(p := remove1 n (ch p))) \<and>
    v_heap s' = (if n_data (nodes s n) \<noteq> NULL then kfree (n_data (nodes s n)) (v_heap s) else v_heap s) \<and>
    vfs_resolve path s' = ret None \<and>
    (\<forall>q x. vfs_resolve q s' = ret (Some x) \<longrightarrow> vfs_resolve q s = ret (Some x) \<and> x \<noteq> n)"
  using assms by (rule unlink_spec)

text \<open>A tree with the node \<open>/etc\<close> in slot 1.\<close>

lemma etc_fs:
  fixes ty
  obtains s ch where "make_node ty (bytes_of ''/etc'') 0x1ED root_fs = ret (Some 1, s)" "tree_ok s ch"
    "vfs_resolve (bytes_of ''/etc'') s = ret (Some 1)" "n_type (nodes s 1) = ty" "cwd s = [slash]"
proof -
  have n: "normalize_path (bytes_of ''/etc'') root_fs = ret ([] @ slash # bytes_of ''etc'')"
    by (simp add: normalize_path_def bytes_of_def slash_def VFS_PATH_MAX_def)
  have l: "plain_leaf (bytes_of ''etc'')"
    by (simp add: plain_leaf_def bytes_of_def slash_def VFS_NAME_MAX_def)
  obtain r s ch where r: "make_node ty (bytes_of ''/etc'') 0x1ED root_fs = ret (r, s)" "tree_ok s ch"
    "made ty (bytes_of ''/etc'') [] (bytes_of ''etc'') 0x1ED root_fs r s"
    using make_node_spec [OF root_fs_tree n _ l, of ty "0x1ED"] by (auto simp: VFS_PATH_MAX_def bytes_of_def)
  have f: "node_count root_fs = 1" "root root_fs = Some 0" "n_type (nodes root_fs 0) = VFS_DIR" "n_child (nodes root_fs 0) = None"
    by (simp_all add: root_fs_def alloc_node_def set_node_def VFS_MAX_NODES_def Let_def node_zero_def)
  have "find_child root_fs 0 (bytes_of ''etc'') = Some None"
    using find_child_find [OF root_fs_tree, of 0] f(1) by simp
  then have mk: "make_node ty (bytes_of ''/etc'') 0x1ED root_fs =
      ret (Some 1, add_node 0 (bytes_of ''etc'') ty 0x1ED root_fs)"
    using ensure_parent_abs [OF n _ l] f l
    by (simp add: make_node_def VFS_PATH_MAX_def bytes_of_def dir_of_def plain_leaf_def alloc_node_def VFS_MAX_NODES_def
        add_node_def Let_def)
  with r(1) have e: "r = Some 1" "s = add_node 0 (bytes_of ''etc'') ty 0x1ED root_fs" by simp_all
  have "vfs_resolve (bytes_of ''/etc'') s = ret (Some 1)" using r(3) e(1) by (simp add: made_def)
  moreover have "n_type (nodes s 1) = ty" "cwd s = [slash]"
    using add_node_fields(2,5) [of root_fs 0 "bytes_of ''etc''" ty "0x1ED"] f(1) e(2) by (simp_all add: VFS_MAX_NODES_def root_fs_def)
  ultimately show ?thesis using that r(2) e mk by simp
qed

theorem vfs_unlink_removes_witness:
  "\<exists>s s'. vfs_mkdir (bytes_of ''/etc'') 0x1ED root_fs = ret (Some 1, s) \<and>
     vfs_unlink (bytes_of ''/etc'') s = ret (0, s') \<and> vfs_resolve (bytes_of ''/etc'') s' = ret None"
proof -
  obtain s ch where s: "make_node VFS_DIR (bytes_of ''/etc'') 0x1ED root_fs = ret (Some 1, s)" "tree_ok s ch"
    "vfs_resolve (bytes_of ''/etc'') s = ret (Some 1)" by (rule etc_fs)
  from vfs_unlink_removes [OF s(2,3)] s(1) show ?thesis by (auto simp: vfs_mkdir_def)
qed

text \<open>
  (C8) Writing and reading. Let every file own its block of a well-formed heap, and let the buffer be a payload of the heap that holds at
  least \<open>sz\<close> bytes, with \<open>sz\<close> below 2 GiB; if the file has a block already, which \<^verbatim>\<open>vfs_write\<close> releases, let the heap's blocks lie back to back
  and let the call's allocation be served without growing the heap. Then \<^verbatim>\<open>vfs_write\<close> returns. It returns -1 exactly if the allocation
  fails, and has then changed nothing; otherwise it returns \<open>sz\<close> and the file has exactly the bytes of the buffer. Ownership, all links, the
  contents of all other files and all payloads but the file's old block are kept, and a later \<^verbatim>\<open>vfs_read\<close> into another payload of
  at least \<open>mx \<ge> sz\<close> bytes returns \<open>sz\<close> and delivers these bytes.
\<close>

theorem vfs_write_then_read:
  assumes ok: "files_ok s bs" and n: "n < node_count s" "n_type (nodes s n) = VFS_FILE"
    and buf: "(buf, k) \<in> allocated (v_heap s) bs" and sz: "sz \<le> k" "unat sz < 2147483648"
    and quiet: "n_data (nodes s n) \<noteq> NULL \<Longrightarrow> contiguous (hdr (v_heap s)) bs \<and>
      (\<forall>p h. kmalloc (sz + 1) (v_heap s) = Some (Inr (p, h)) \<longrightarrow> heap_pmm h = heap_pmm (v_heap s))"
  shows "\<exists>r s' bs'. vfs_write (Some n) buf sz s = ret (r, s') \<and> files_ok s' bs' \<and> same_links s s' \<and>
    (if \<exists>h. kmalloc (sz + 1) (v_heap s) = Some (Inr (NULL, h)) then r = - 1 \<and> s' = s
     else r = ucast sz \<and> contents s' n = peek (heap_mem (v_heap s)) buf (unat sz) \<and> n_data (nodes s' n) \<notin> fst ` allocated (v_heap s) bs \<and>
       (\<forall>out j mx. (out, j) \<in> allocated (v_heap s') bs' \<longrightarrow> out \<noteq> n_data (nodes s' n) \<longrightarrow> sz \<le> mx \<longrightarrow> mx \<le> j \<longrightarrow>
         (\<exists>s2. vfs_read (Some n) out mx NULL s' = (ucast sz, s2) \<and> nodes s2 = nodes s' \<and>
           peek (heap_mem (v_heap s2)) out (unat sz) = peek (heap_mem (v_heap s)) buf (unat sz)))) \<and>
    (\<forall>i < node_count s. i \<noteq> n \<longrightarrow> contents s' i = contents s i) \<and>
    (\<forall>q i. (q, i) \<in> allocated (v_heap s) bs \<longrightarrow> q \<noteq> n_data (nodes s n) \<longrightarrow> (q, i) \<in> allocated (v_heap s') bs')"
proof -
  obtain p h where km: "kmalloc (sz + 1) (v_heap s) = Some (Inr (p, h))" and
    w: "vfs_write (Some n) buf sz s = ret (if p = NULL then (- 1, s) else
       (ucast sz, set_node n (\<lambda>k. k\<lparr>n_data := p, n_size := sz\<rparr>) (s\<lparr>v_heap := replaced (n_data (nodes s n)) p buf sz h\<rparr>)))"
    by (rule vfs_write_cases [OF files_okD(1) [OF ok n(1)] n(2) sz(2)])
  have fails: "(\<exists>h. kmalloc (sz + 1) (v_heap s) = Some (Inr (NULL, h))) \<longleftrightarrow> p = NULL" using km by auto
  show ?thesis
  proof (cases "p = NULL")
    case True
    then show ?thesis using w ok unfolding fails by (intro exI [of _ "- 1"] exI [of _ s] exI [of _ bs]) (simp add: same_links_def)
  next
    case False
    define s' where "s' = set_node n (\<lambda>k. k\<lparr>n_data := p, n_size := sz\<rparr>) (s\<lparr>v_heap := replaced (n_data (nodes s n)) p buf sz h\<rparr>)"
    obtain bs' where f: "files_ok s' bs'" "contents s' n = peek (heap_mem (v_heap s)) buf (unat sz)"
      "\<And>i. i < node_count s \<Longrightarrow> i \<noteq> n \<Longrightarrow> contents s' i = contents s i" "n_data (nodes s' n) \<notin> fst ` allocated (v_heap s) bs"
      "\<And>q i. (q, i) \<in> allocated (v_heap s) bs \<Longrightarrow> q \<noteq> n_data (nodes s n) \<Longrightarrow> (q, i) \<in> allocated (v_heap s') bs'"
      using write_keeps_files [OF ok n(1) buf sz km False _ s'_def] quiet km by blast
    have g: "node_count s' = node_count s" "n_type (nodes s' n) = VFS_FILE" "n_size (nodes s' n) = sz" "same_links s s'"
      using n(2) by (simp_all add: s'_def set_node_def same_links_def)
    have rd: "\<exists>s2. vfs_read (Some n) out mx NULL s' = (ucast sz, s2) \<and> nodes s2 = nodes s' \<and>
        peek (heap_mem (v_heap s2)) out (unat sz) = peek (heap_mem (v_heap s)) buf (unat sz)"
      if o: "(out, j) \<in> allocated (v_heap s') bs'" "out \<noteq> n_data (nodes s' n)" "sz \<le> mx" "mx \<le> j" for out j mx
    proof -
      have "take (unat mx) (contents s' n) = contents s' n" using o(3) g(3) by (simp add: contents_def word_le_nat_alt)
      then show ?thesis
        using vfs_read_copies [OF f(1) _ g(2) o(1,2,4)] n(1) g(1,3) f(2) o(3) by (simp add: min_def)
    qed
    show ?thesis
      using w False f g(4) rd unfolding s'_def [symmetric] fails
      by (intro exI [of _ "ucast sz"] exI [of _ s'] exI [of _ bs']) auto
  qed
qed

text \<open>The boot heap with three payloads in use: a buffer, the block of a file and a second buffer.\<close>

lemma three_payloads:
  obtains h bs p i d j q k where "heap_ok h bs" "contiguous (hdr h) bs" "spare h bs 500000" "distinct [p, d, q]" "d \<noteq> NULL"
    "(p, i) \<in> allocated h bs" "(d, j) \<in> allocated h bs" "(q, k) \<in> allocated h bs" "100 \<le> i" "100 \<le> j" "100 \<le> k"
proof -
  have sp: "spare boot_heap [0x10000] 524248" using boot_heap_ok(4,5) by (auto simp: spare_def)
  have z: "unat (kmalloc_size 100) = 112" by (simp add: kmalloc_size_def H3OS_ALIGN_UP_def HEAP_ALIGN_def HEAP_MIN_def)
  obtain p i h1 b1 where 1: "heap_ok h1 b1" "contiguous (hdr h1) b1" "allocated h1 b1 = insert (p, i) (allocated boot_heap [0x10000])" "100 \<le> i"
    "spare h1 b1 (524248 - 112 - 40)" using kmalloc_spare [OF boot_heap_ok(1) _ _ _ sp, of 100] boot_heap_ok(2) z by auto
  obtain d j h2 b2 where 2: "heap_ok h2 b2" "contiguous (hdr h2) b2" "allocated h2 b2 = insert (d, j) (allocated h1 b1)" "100 \<le> j" "d \<noteq> NULL"
    "(d, j) \<notin> allocated h1 b1" "spare h2 b2 (524248 - 112 - 40 - 112 - 40)" using kmalloc_spare [OF 1(1) _ _ _ 1(5), of 100] 1(2) z by auto
  obtain q k h3 b3 where 3: "heap_ok h3 b3" "contiguous (hdr h3) b3" "allocated h3 b3 = insert (q, k) (allocated h2 b2)" "100 \<le> k"
    "(q, k) \<notin> allocated h2 b2" "spare h3 b3 (524248 - 112 - 40 - 112 - 40 - 112 - 40)" using kmalloc_spare [OF 2(1) _ _ _ 2(7), of 100] 2(2) z by auto
  have u: "a = b" if "(x, a) \<in> allocated h3 b3" "(x, b) \<in> allocated h3 b3" for x a b using that by (rule allocated_functional)
  have "d \<noteq> p" using u [of d i j] 1(3) 2(3,6) 3(3) by auto
  moreover have "q \<noteq> p" "q \<noteq> d" using u [of q i k] u [of q j k] 1(3) 2(3) 3(3,5) by auto
  ultimately show ?thesis using that [of h3 b3 p d q i j k] 1 2 3 spare_mono [OF 3(6), of 500000] by auto
qed

theorem vfs_write_then_read_witness:
  "\<exists>s s' s2 buf out. n_data (nodes s 0) \<noteq> NULL \<and> n_size (nodes s 0) = 10 \<and> vfs_write (Some 0) buf 50 s = ret (50, s') \<and>
     contents s' 0 = peek (heap_mem (v_heap s)) buf 50 \<and> vfs_read (Some 0) out 80 NULL s' = (50, s2) \<and>
     peek (heap_mem (v_heap s2)) out 50 = peek (heap_mem (v_heap s)) buf 50"
proof -
  obtain h bs p i d j q k where h: "heap_ok h bs" "contiguous (hdr h) bs" "spare h bs 500000" "distinct [p, d, q]" "d \<noteq> NULL"
    "(p, i) \<in> allocated h bs" "(d, j) \<in> allocated h bs" "(q, k) \<in> allocated h bs" "100 \<le> i" "100 \<le> j" "100 \<le> k" by (rule three_payloads)
  let ?s = "root_fs\<lparr>nodes := (\<lambda>_. node_zero\<lparr>n_type := VFS_FILE, n_data := d, n_size := 10\<rparr>), v_heap := h\<rparr>"
  have one: "node_count ?s = 1" by (simp add: root_fs_def alloc_node_def set_node_def Let_def VFS_MAX_NODES_def)
  have le: "(10 :: u64) < j" "(50 :: u64) \<le> i" "(80 :: u64) \<le> k" using h(9-11) by (auto simp: word_le_nat_alt word_less_nat_alt)
  have ok: "files_ok ?s bs" using h(1,5,7) le(1) one by (auto simp: files_ok_def)
  have z: "unat (kmalloc_size 51) = 64" by (simp add: kmalloc_size_def H3OS_ALIGN_UP_def HEAP_ALIGN_def HEAP_MIN_def)
  obtain a h' where km: "kmalloc 51 h = Some (Inr (a, h'))" "a \<noteq> NULL" "heap_pmm h' = heap_pmm h"
    using kmalloc_spare [OF h(1) _ _ _ h(3), of 51] z by auto
  have g: "0 < node_count ?s" "n_type (nodes ?s 0) = VFS_FILE" "(p, i) \<in> allocated (v_heap ?s) bs" "unat (50 :: u64) < 2147483648"
    using one h(6) by simp_all
  have quiet: "contiguous (hdr (v_heap ?s)) bs \<and> (\<forall>p h. kmalloc (50 + 1) (v_heap ?s) = Some (Inr (p, h)) \<longrightarrow> heap_pmm h = heap_pmm (v_heap ?s))"
    using h(2) km by simp
  have "\<not> (\<exists>h. kmalloc (50 + 1) (v_heap ?s) = Some (Inr (NULL, h)))" using km by simp
  note w = vfs_write_then_read [OF ok g(1,2,3) le(2) g(4) quiet, unfolded if_not_P [OF this]]
  have "\<exists>s' bs'. vfs_write (Some 0) p 50 ?s = ret (50, s') \<and> contents s' 0 = peek (heap_mem h) p 50 \<and> n_data (nodes s' 0) \<notin> fst ` allocated h bs \<and>
      (\<forall>q i. (q, i) \<in> allocated h bs \<longrightarrow> q \<noteq> d \<longrightarrow> (q, i) \<in> allocated (v_heap s') bs') \<and>
      (\<forall>out j mx. (out, j) \<in> allocated (v_heap s') bs' \<longrightarrow> out \<noteq> n_data (nodes s' 0) \<longrightarrow> 50 \<le> mx \<longrightarrow> mx \<le> j \<longrightarrow>
         (\<exists>s2. vfs_read (Some 0) out mx NULL s' = (50, s2) \<and> nodes s2 = nodes s' \<and> peek (heap_mem (v_heap s2)) out 50 = peek (heap_mem h) p 50))"
    using w by (elim exE conjE) (rule exI, rule exI, intro conjI, simp_all)
  then obtain s' bs' where s': "vfs_write (Some 0) p 50 ?s = ret (50, s')"
    "contents s' 0 = peek (heap_mem h) p 50" "n_data (nodes s' 0) \<notin> fst ` allocated h bs"
    "\<And>q i. (q, i) \<in> allocated h bs \<Longrightarrow> q \<noteq> d \<Longrightarrow> (q, i) \<in> allocated (v_heap s') bs'"
    "\<And>out j mx. (out, j) \<in> allocated (v_heap s') bs' \<Longrightarrow> out \<noteq> n_data (nodes s' 0) \<Longrightarrow> 50 \<le> mx \<Longrightarrow> mx \<le> j \<Longrightarrow>
       (\<exists>s2. vfs_read (Some 0) out mx NULL s' = (50, s2) \<and> nodes s2 = nodes s' \<and> peek (heap_mem (v_heap s2)) out 50 = peek (heap_mem h) p 50)" by blast
  have "q \<noteq> n_data (nodes s' 0)" using s'(3) h(8) by force
  then obtain s2 where "vfs_read (Some 0) q 80 NULL s' = (50, s2)" "peek (heap_mem (v_heap s2)) q 50 = peek (heap_mem h) p 50"
    using s'(5) [of q k 80] s'(4) [OF h(8)] h(4) le(3) by auto
  then show ?thesis using s'(1,2) h(5) by (intro exI [of _ ?s] exI [of _ s'] exI [of _ s2] exI [of _ p] exI [of _ q]) simp
qed

text \<open>
  (C19) Renaming a file that is not empty never succeeds. \<^verbatim>\<open>vfs_copy\<close> returns the number of bytes
  it has copied, and \<^verbatim>\<open>vfs_rename\<close> takes every result but 0 for a failure: it returns -1 and the
  source path still leads to the file.
\<close>

theorem vfs_rename_nonempty_fails:
  assumes ok: "tree_ok s ch" and h: "heap_ok (v_heap s) bs"
    and src: "vfs_resolve src s = ret (Some n)" "n_type (nodes s n) = VFS_FILE" "n_data (nodes s n) \<noteq> NULL"
    and sz: "0 < unat (n_size (nodes s n))" "unat (n_size (nodes s n)) < 2147483648"
    and dst: "normalize_path dst s = ret (q @ slash # l)" "q = [] \<or> hd q = slash" "plain_leaf l"
      "length q + length l + 1 < VFS_PATH_MAX"
  shows "\<exists>s'. vfs_rename src dst s = ret (- 1, s') \<and> vfs_resolve src s' = ret (Some n)"
proof -
  define mode where "mode = (if n_mode (nodes s n) \<noteq> 0 then n_mode (nodes s n) else 0x1A4)"
  obtain r s1 ch1 where c: "vfs_create dst mode s = ret (r, s1)" "tree_ok s1 ch1" "made VFS_FILE dst q l mode s r s1"
    using make_node_spec [OF ok dst, of VFS_FILE mode] by (auto simp: vfs_create_def)
  obtain full where "normalize_path src s = ret full" "full \<noteq> []" using resolve_normal [OF src(1)] by blast
  then have "n < node_count s" using vfs_resolve_total [OF ok] src(1) reach_valid [OF _ ok] by fastforce
  then have fr: "nodes s1 n = (nodes s n)\<lparr>n_child := n_child (nodes s1 n)\<rparr>" using c(3) by (simp add: made_def)
  have same: "n_size (nodes s1 n) = n_size (nodes s n)" "n_data (nodes s1 n) = n_data (nodes s n)"
    using arg_cong [OF fr, of n_size] arg_cong [OF fr, of n_data] by simp_all
  have r1: "vfs_resolve src s1 = ret (Some n)" "v_heap s1 = v_heap s" using c(3) src(1) by (auto simp: made_def)
  show ?thesis
  proof (cases r)
    case None
    then have "vfs_copy src dst s = ret (- 1, s1)"
      using src c(1) by (simp add: vfs_copy_def mode_def)
    then show ?thesis using r1 by (simp add: vfs_rename_def)
  next
    case (Some d)
    obtain r' s2 where w: "vfs_write (Some d) (n_data (nodes s n)) (n_size (nodes s n)) s1 = ret (r', s2)" "same_links s1 s2"
      "r' = - 1 \<or> r' = ucast (n_size (nodes s n))"
      using vfs_write_links [of s1 bs "n_size (nodes s n)" d "n_data (nodes s n)"] h r1(2) sz(2) by auto
    have "ucast (n_size (nodes s n)) \<noteq> (0 :: u32)"
    proof
      assume "ucast (n_size (nodes s n)) = (0 :: u32)"
      then have "unat (ucast (n_size (nodes s n)) :: u32) = 0" by simp
      then show False using sz by (simp add: unsigned_ucast_eq take_bit_eq_mod)
    qed
    then have nz: "r' \<noteq> 0" using w(3) by auto
    have "n_size (nodes s n) \<noteq> 0" using sz(1) by auto
    then have "vfs_copy src dst s = ret (r', s2)"
      using src c(1) Some same w(1) by (simp add: vfs_copy_def mode_def)
    then show ?thesis
      using nz same_links_resolve [OF w(2) c(2) r1(1)] by (simp add: vfs_rename_def)
  qed
qed

theorem vfs_rename_nonempty_fails_witness:
  "\<exists>s s'. vfs_resolve (bytes_of ''/etc'') s = ret (Some 1) \<and> n_type (nodes s 1) = VFS_FILE \<and>
     vfs_rename (bytes_of ''/etc'') (bytes_of ''/x'') s = ret (- 1, s') \<and> vfs_resolve (bytes_of ''/etc'') s' = ret (Some 1)"
proof -
  obtain t ch where t: "tree_ok t ch" "vfs_resolve (bytes_of ''/etc'') t = ret (Some 1)"
    "n_type (nodes t 1) = VFS_FILE" "cwd t = [slash]" by (rule etc_fs [where ty = VFS_FILE])
  obtain p h k bs where h: "heap_ok h bs" "p \<noteq> NULL" by (rule boot_heap_alloc)
  let ?s = "set_node 1 (\<lambda>k. k\<lparr>n_data := p, n_size := 5\<rparr>) (t\<lparr>v_heap := h\<rparr>)"
  have sl: "same_links t ?s" by (simp add: same_links_def set_node_def)
  have "normalize_path (bytes_of ''/x'') ?s = ret ([] @ slash # bytes_of ''x'')"
    by (simp add: normalize_path_def bytes_of_def slash_def VFS_PATH_MAX_def)
  moreover have "plain_leaf (bytes_of ''x'')" by (simp add: plain_leaf_def bytes_of_def slash_def VFS_NAME_MAX_def)
  moreover have r: "vfs_resolve (bytes_of ''/etc'') ?s = ret (Some 1)" by (rule same_links_resolve [OF sl t(1,2)])
  moreover have n: "n_type (nodes ?s 1) = VFS_FILE" "n_data (nodes ?s 1) = p" "n_size (nodes ?s 1) = 5" "v_heap ?s = h"
    using t(3) by (simp_all add: set_node_def)
  ultimately have "\<exists>s'. vfs_rename (bytes_of ''/etc'') (bytes_of ''/x'') ?s = ret (- 1, s') \<and>
      vfs_resolve (bytes_of ''/etc'') s' = ret (Some 1)"
    using h by (intro vfs_rename_nonempty_fails [OF same_links_tree [OF sl t(1)], of bs]) (simp_all only: n, simp_all add: VFS_PATH_MAX_def bytes_of_def)
  then show ?thesis using r n(1) by blast
qed

text \<open>
  Names and paths that are too long. An absolute path with a last component of 128 characters
  or more makes \<^verbatim>\<open>vfs_create\<close> and \<^verbatim>\<open>vfs_mkdir\<close> write past the end of the array \<^verbatim>\<open>leaf\<close>, and a relative
  path that does not fit behind the current directory makes every operation write past the end
  of the array \<^verbatim>\<open>full\<close>.
\<close>

theorem vfs_long_names_overflow:
  assumes "f \<in> {vfs_create, vfs_mkdir}"
  shows "(slash \<notin> set l \<and> VFS_NAME_MAX \<le> length l \<and> length q + length l + 1 < VFS_PATH_MAX \<and> hd (q @ [slash]) = slash \<longrightarrow>
      f (q @ slash # l) mode s = fail Overflow) \<and>
    ((p = [] \<or> hd p \<noteq> slash) \<and> cwd s \<noteq> [] \<and> VFS_PATH_MAX \<le> length (cwd s) + length p \<longrightarrow>
      f p mode s = fail Overflow \<and> vfs_resolve p s = fail Overflow \<and> vfs_unlink p s = fail Overflow \<and> vfs_chdir p s = fail Overflow)"
proof (intro conjI impI)
  assume l: "slash \<notin> set l \<and> VFS_NAME_MAX \<le> length l \<and> length q + length l + 1 < VFS_PATH_MAX \<and> hd (q @ [slash]) = slash"
  then have "normalize_path (q @ slash # l) s = ret (q @ slash # l)"
    by (cases q) (auto simp: normalize_path_def)
  moreover have "copy_leaf l = fail Overflow" using l by (simp add: copy_leaf_def)
  ultimately have "ensure_parent (q @ slash # l) s = fail Overflow"
    using l by (auto simp: ensure_parent_def last_slash_append Let_def)
  then show "f (q @ slash # l) mode s = fail Overflow"
    using assms by (auto simp: vfs_create_def vfs_mkdir_def make_node_def)
next
  assume "(p = [] \<or> hd p \<noteq> slash) \<and> cwd s \<noteq> [] \<and> VFS_PATH_MAX \<le> length (cwd s) + length p"
  then have "normalize_path p s = fail Overflow" by (auto simp: normalize_path_def Let_def)
  then show "f p mode s = fail Overflow" "vfs_resolve p s = fail Overflow" "vfs_unlink p s = fail Overflow" "vfs_chdir p s = fail Overflow"
    using assms by (auto simp: vfs_create_def vfs_mkdir_def make_node_def ensure_parent_def vfs_resolve_def vfs_unlink_def vfs_chdir_def)
qed

theorem vfs_long_names_overflow_witness:
  "vfs_create (slash # replicate 128 0x61) 0 root_fs = fail Overflow"
  using vfs_long_names_overflow [of vfs_create "replicate 128 0x61" "[]" 0 root_fs]
  by (simp add: slash_def VFS_NAME_MAX_def VFS_PATH_MAX_def)

end
