(* ===== verification/H3_Fb.thy ===== *)
theory H3_Fb
  imports H3_Pmm H3_String
begin

text \<open>
  The software renderer of \<^verbatim>\<open>drivers/framebuffer/framebuffer.c\<close>. The surface lies in the byte memory;
  every drawing routine is a function of the framebuffer descriptor and the memory. A string is
  the list of its bytes without the terminator.
\<close>

section \<open>Model\<close>

record fb_t =
  fb_pixels :: addr
  fb_width :: u32
  fb_height :: u32
  fb_pitch :: u32
  fb_bpp :: u8
  fb_double :: bool
  fb_back :: addr

definition font8x8_basic :: "u8 list list" where
  "font8x8_basic =
  [[0x00, 0x00, 0x00, 0x00, 0x00, 0x00, 0x00, 0x00],
   [0x18, 0x3C, 0x3C, 0x18, 0x18, 0x00, 0x18, 0x00],
   [0x36, 0x36, 0x00, 0x00, 0x00, 0x00, 0x00, 0x00],
   [0x36, 0x36, 0x7F, 0x36, 0x7F, 0x36, 0x36, 0x00],
   [0x0C, 0x3E, 0x03, 0x1E, 0x30, 0x1F, 0x0C, 0x00],
   [0x00, 0x63, 0x33, 0x18, 0x0C, 0x66, 0x63, 0x00],
   [0x1C, 0x36, 0x1C, 0x6E, 0x3B, 0x33, 0x6E, 0x00],
   [0x06, 0x06, 0x03, 0x00, 0x00, 0x00, 0x00, 0x00],
   [0x18, 0x0C, 0x06, 0x06, 0x06, 0x0C, 0x18, 0x00],
   [0x06, 0x0C, 0x18, 0x18, 0x18, 0x0C, 0x06, 0x00],
   [0x00, 0x66, 0x3C, 0xFF, 0x3C, 0x66, 0x00, 0x00],
   [0x00, 0x0C, 0x0C, 0x3F, 0x0C, 0x0C, 0x00, 0x00],
   [0x00, 0x00, 0x00, 0x00, 0x00, 0x0C, 0x0C, 0x06],
   [0x00, 0x00, 0x00, 0x3F, 0x00, 0x00, 0x00, 0x00],
   [0x00, 0x00, 0x00, 0x00, 0x00, 0x0C, 0x0C, 0x00],
   [0x60, 0x30, 0x18, 0x0C, 0x06, 0x03, 0x01, 0x00],
   [0x3E, 0x63, 0x73, 0x7B, 0x6F, 0x67, 0x3E, 0x00],
   [0x0C, 0x0E, 0x0C, 0x0C, 0x0C, 0x0C, 0x3F, 0x00],
   [0x1E, 0x33, 0x30, 0x1C, 0x06, 0x33, 0x3F, 0x00],
   [0x1E, 0x33, 0x30, 0x1C, 0x30, 0x33, 0x1E, 0x00],
   [0x38, 0x3C, 0x36, 0x33, 0x7F, 0x30, 0x78, 0x00],
   [0x3F, 0x03, 0x1F, 0x30, 0x30, 0x33, 0x1E, 0x00],
   [0x1C, 0x06, 0x03, 0x1F, 0x33, 0x33, 0x1E, 0x00],
   [0x3F, 0x33, 0x30, 0x18, 0x0C, 0x0C, 0x0C, 0x00],
   [0x1E, 0x33, 0x33, 0x1E, 0x33, 0x33, 0x1E, 0x00],
   [0x1E, 0x33, 0x33, 0x3E, 0x30, 0x18, 0x0E, 0x00],
   [0x00, 0x0C, 0x0C, 0x00, 0x00, 0x0C, 0x0C, 0x00],
   [0x00, 0x0C, 0x0C, 0x00, 0x00, 0x0C, 0x0C, 0x06],
   [0x18, 0x0C, 0x06, 0x03, 0x06, 0x0C, 0x18, 0x00],
   [0x00, 0x00, 0x3F, 0x00, 0x00, 0x3F, 0x00, 0x00],
   [0x06, 0x0C, 0x18, 0x30, 0x18, 0x0C, 0x06, 0x00],
   [0x1E, 0x33, 0x30, 0x18, 0x0C, 0x00, 0x0C, 0x00],
   [0x3E, 0x63, 0x7B, 0x7B, 0x7B, 0x03, 0x1E, 0x00],
   [0x0C, 0x1E, 0x33, 0x33, 0x3F, 0x33, 0x33, 0x00],
   [0x3F, 0x66, 0x66, 0x3E, 0x66, 0x66, 0x3F, 0x00],
   [0x3C, 0x66, 0x03, 0x03, 0x03, 0x66, 0x3C, 0x00],
   [0x1F, 0x36, 0x66, 0x66, 0x66, 0x36, 0x1F, 0x00],
   [0x7F, 0x06, 0x06, 0x3E, 0x06, 0x06, 0x7F, 0x00],
   [0x7F, 0x06, 0x06, 0x3E, 0x06, 0x06, 0x06, 0x00],
   [0x3C, 0x66, 0x03, 0x03, 0x73, 0x66, 0x7C, 0x00],
   [0x33, 0x33, 0x33, 0x3F, 0x33, 0x33, 0x33, 0x00],
   [0x1E, 0x0C, 0x0C, 0x0C, 0x0C, 0x0C, 0x1E, 0x00],
   [0x78, 0x30, 0x30, 0x30, 0x33, 0x33, 0x1E, 0x00],
   [0x67, 0x66, 0x36, 0x1E, 0x36, 0x66, 0x67, 0x00],
   [0x06, 0x06, 0x06, 0x06, 0x06, 0x06, 0x7F, 0x00],
   [0x63, 0x77, 0x7F, 0x6B, 0x63, 0x63, 0x63, 0x00],
   [0x63, 0x67, 0x6F, 0x7B, 0x73, 0x63, 0x63, 0x00],
   [0x1C, 0x36, 0x63, 0x63, 0x63, 0x36, 0x1C, 0x00],
   [0x3F, 0x66, 0x66, 0x3E, 0x06, 0x06, 0x06, 0x00],
   [0x1E, 0x33, 0x33, 0x33, 0x3B, 0x1E, 0x38, 0x00],
   [0x3F, 0x66, 0x66, 0x3E, 0x36, 0x66, 0x67, 0x00],
   [0x1E, 0x33, 0x07, 0x0E, 0x38, 0x33, 0x1E, 0x00],
   [0x3F, 0x2D, 0x0C, 0x0C, 0x0C, 0x0C, 0x1E, 0x00],
   [0x33, 0x33, 0x33, 0x33, 0x33, 0x33, 0x3F, 0x00],
   [0x33, 0x33, 0x33, 0x33, 0x33, 0x1E, 0x0C, 0x00],
   [0x63, 0x63, 0x63, 0x6B, 0x7F, 0x77, 0x63, 0x00],
   [0x63, 0x63, 0x36, 0x1C, 0x1C, 0x36, 0x63, 0x00],
   [0x33, 0x33, 0x33, 0x1E, 0x0C, 0x0C, 0x1E, 0x00],
   [0x7F, 0x63, 0x31, 0x18, 0x4C, 0x66, 0x7F, 0x00],
   [0x1E, 0x06, 0x06, 0x06, 0x06, 0x06, 0x1E, 0x00],
   [0x03, 0x06, 0x0C, 0x18, 0x30, 0x60, 0x40, 0x00],
   [0x1E, 0x18, 0x18, 0x18, 0x18, 0x18, 0x1E, 0x00],
   [0x08, 0x1C, 0x36, 0x63, 0x00, 0x00, 0x00, 0x00],
   [0x00, 0x00, 0x00, 0x00, 0x00, 0x00, 0x00, 0xFF],
   [0x0C, 0x0C, 0x18, 0x00, 0x00, 0x00, 0x00, 0x00],
   [0x00, 0x00, 0x1E, 0x30, 0x3E, 0x33, 0x6E, 0x00],
   [0x07, 0x06, 0x06, 0x3E, 0x66, 0x66, 0x3B, 0x00],
   [0x00, 0x00, 0x1E, 0x33, 0x03, 0x33, 0x1E, 0x00],
   [0x38, 0x30, 0x30, 0x3e, 0x33, 0x33, 0x6E, 0x00],
   [0x00, 0x00, 0x1E, 0x33, 0x3f, 0x03, 0x1E, 0x00],
   [0x1C, 0x36, 0x06, 0x0f, 0x06, 0x06, 0x0f, 0x00],
   [0x00, 0x00, 0x6E, 0x33, 0x33, 0x3E, 0x30, 0x1F],
   [0x07, 0x06, 0x36, 0x6E, 0x66, 0x66, 0x67, 0x00],
   [0x0C, 0x00, 0x0E, 0x0C, 0x0C, 0x0C, 0x1E, 0x00],
   [0x30, 0x00, 0x30, 0x30, 0x30, 0x33, 0x33, 0x1E],
   [0x07, 0x06, 0x66, 0x36, 0x1E, 0x36, 0x67, 0x00],
   [0x0E, 0x0C, 0x0C, 0x0C, 0x0C, 0x0C, 0x1E, 0x00],
   [0x00, 0x00, 0x33, 0x7F, 0x7F, 0x6B, 0x63, 0x00],
   [0x00, 0x00, 0x1F, 0x33, 0x33, 0x33, 0x33, 0x00],
   [0x00, 0x00, 0x1E, 0x33, 0x33, 0x33, 0x1E, 0x00],
   [0x00, 0x00, 0x3B, 0x66, 0x66, 0x3E, 0x06, 0x0F],
   [0x00, 0x00, 0x6E, 0x33, 0x33, 0x3E, 0x30, 0x78],
   [0x00, 0x00, 0x3B, 0x6E, 0x66, 0x06, 0x0F, 0x00],
   [0x00, 0x00, 0x3E, 0x03, 0x1E, 0x30, 0x1F, 0x00],
   [0x08, 0x0C, 0x3E, 0x0C, 0x0C, 0x2C, 0x18, 0x00],
   [0x00, 0x00, 0x33, 0x33, 0x33, 0x33, 0x6E, 0x00],
   [0x00, 0x00, 0x33, 0x33, 0x33, 0x1E, 0x0C, 0x00],
   [0x00, 0x00, 0x63, 0x6B, 0x7F, 0x7F, 0x36, 0x00],
   [0x00, 0x00, 0x63, 0x36, 0x1C, 0x36, 0x63, 0x00],
   [0x00, 0x00, 0x33, 0x33, 0x33, 0x3E, 0x30, 0x1F],
   [0x00, 0x00, 0x3F, 0x19, 0x0C, 0x26, 0x3F, 0x00],
   [0x38, 0x0C, 0x0C, 0x07, 0x0C, 0x0C, 0x38, 0x00],
   [0x18, 0x18, 0x18, 0x00, 0x18, 0x18, 0x18, 0x00],
   [0x07, 0x0C, 0x0C, 0x38, 0x0C, 0x0C, 0x07, 0x00],
   [0x6E, 0x3B, 0x00, 0x00, 0x00, 0x00, 0x00, 0x00],
   [0x00, 0x00, 0x00, 0x00, 0x00, 0x00, 0x00, 0x00]]"

text \<open>A loop \<^verbatim>\<open>for (i32 i = 0; i < n; i++)\<close>.\<close>

definition for_i32 :: "i32 \<Rightarrow> (i32 \<Rightarrow> 's \<Rightarrow> 's) \<Rightarrow> 's \<Rightarrow> 's" where
  "for_i32 n f s = fold (\<lambda>i. f (of_nat i)) [0..<nat (sint n)] s"

definition MB2_TAG_FRAMEBUFFER :: u32 where
  "MB2_TAG_FRAMEBUFFER = 8"

partial_function (option) fb_mb2_loop :: "mem \<Rightarrow> addr \<Rightarrow> addr \<Rightarrow> u32 \<Rightarrow> addr option" where
  "fb_mb2_loop m ptr e ty =
     (if ptr < e then
        (if load32 m ptr = 0 then Some NULL
         else if load32 m ptr = ty then Some ptr
         else fb_mb2_loop m (ptr + ucast ((load32 m (ptr + 4) + 7) AND NOT 7)) e ty)
      else Some NULL)"

definition fb_mb2_find :: "mem \<Rightarrow> addr \<Rightarrow> u32 \<Rightarrow> addr option" where
  "fb_mb2_find m info ty =
     (if info = NULL then Some NULL
      else fb_mb2_loop m (info + 8) (info + ucast (load32 m info)) ty)"

definition fb_zero :: fb_t where
  "fb_zero = \<lparr>fb_pixels = NULL, fb_width = 0, fb_height = 0, fb_pitch = 0, fb_bpp = 0, fb_double = False, fb_back = NULL\<rparr>"

text \<open>The front surface: the one the boot loader reports, or pages of our own; \<open>fallback\<close> is the address of \<^verbatim>\<open>g_fallback\<close>.\<close>

definition fb_front :: "addr \<Rightarrow> addr \<Rightarrow> mem \<Rightarrow> pmm_state \<Rightarrow> (fb_t \<times> pmm_state) option" where
  "fb_front fallback tag m p =
     (if tag \<noteq> NULL \<and> m (tag + 29) = 1 \<and> m (tag + 28) = 32
      then Some (fb_zero\<lparr>fb_pixels := load64 m (tag + 8), fb_width := load32 m (tag + 20), fb_height := load32 m (tag + 24),
                        fb_pitch := load32 m (tag + 16), fb_bpp := m (tag + 28)\<rparr>, p)
      else let g = fb_zero\<lparr>fb_width := 1280, fb_height := 720, fb_pitch := 1280 * 4, fb_bpp := 32\<rparr>;
               pages = H3OS_ALIGN_UP (ucast (fb_pitch g * fb_height g)) PAGE_SIZE div PAGE_SIZE
           in (case pmm_alloc_pages pages p of
                 None \<Rightarrow> None
               | Some (a, p') \<Rightarrow> Some (g\<lparr>fb_pixels := if a \<noteq> 0 then a else fallback\<rparr>, p')))"

definition fb_init :: "addr \<Rightarrow> addr \<Rightarrow> mem \<Rightarrow> pmm_state \<Rightarrow> (fb_t \<times> mem \<times> pmm_state) option" where
  "fb_init fallback mb2 m p =
     (case fb_mb2_find m mb2 MB2_TAG_FRAMEBUFFER of
        None \<Rightarrow> None
      | Some tag \<Rightarrow>
          (case fb_front fallback tag m p of
             None \<Rightarrow> None
           | Some (g, p1) \<Rightarrow>
               let bytes = ucast (fb_pitch g) * ucast (fb_height g) :: u64;
                   pages = H3OS_ALIGN_UP bytes PAGE_SIZE div PAGE_SIZE
               in (case pmm_alloc_pages pages p1 of
                     None \<Rightarrow> None
                   | Some (back, p2) \<Rightarrow>
                       if back \<noteq> 0
                       then Some (g\<lparr>fb_back := back, fb_double := True\<rparr>, snd (memset m back 0 bytes), p2)
                       else Some (g\<lparr>fb_back := fb_pixels g, fb_double := False\<rparr>, m, p2))))"

definition fb_base :: "fb_t \<Rightarrow> addr" where
  "fb_base g = (if fb_double g then fb_back g else fb_pixels g)"

definition fb_row :: "fb_t \<Rightarrow> i32 \<Rightarrow> addr" where
  "fb_row g y = fb_base g + scast y * ucast (fb_pitch g)"

definition fb_put_pixel :: "fb_t \<Rightarrow> i32 \<Rightarrow> i32 \<Rightarrow> u32 \<Rightarrow> mem \<Rightarrow> mem" where
  "fb_put_pixel g x y color m =
     (if x \<ge> fb_width g \<or> y \<ge> fb_height g then m else store32 m (fb_row g y + 4 * scast x) color)"

definition fb_get_pixel :: "fb_t \<Rightarrow> mem \<Rightarrow> i32 \<Rightarrow> i32 \<Rightarrow> u32" where
  "fb_get_pixel g m x y =
     (if x \<ge> fb_width g \<or> y \<ge> fb_height g then 0 else load32 m (fb_row g y + 4 * scast x))"

definition fb_clear :: "fb_t \<Rightarrow> u32 \<Rightarrow> mem \<Rightarrow> mem" where
  "fb_clear g color m =
     fold (\<lambda>y. let row = fb_row g (of_nat y) in
              fold (\<lambda>x m. store32 m (row + 4 * of_nat x) color) [0..<unat (fb_width g)])
       [0..<unat (fb_height g)] m"

definition fb_fill_rect :: "fb_t \<Rightarrow> i32 \<Rightarrow> i32 \<Rightarrow> i32 \<Rightarrow> i32 \<Rightarrow> u32 \<Rightarrow> mem \<Rightarrow> mem" where
  "fb_fill_rect g x y w h color =
     for_i32 h (\<lambda>j. for_i32 w (\<lambda>i. fb_put_pixel g (x + i) (y + j) color))"

definition fb_draw_rect :: "fb_t \<Rightarrow> i32 \<Rightarrow> i32 \<Rightarrow> i32 \<Rightarrow> i32 \<Rightarrow> u32 \<Rightarrow> mem \<Rightarrow> mem" where
  "fb_draw_rect g x y w h color m =
     (let m = for_i32 w (\<lambda>i m. fb_put_pixel g (x + i) (y + h - 1) color (fb_put_pixel g (x + i) y color m)) m
      in for_i32 h (\<lambda>j m. fb_put_pixel g (x + w - 1) (y + j) color (fb_put_pixel g x (y + j) color m)) m)"

partial_function (option) line_loop ::
    "fb_t \<Rightarrow> i32 \<Rightarrow> i32 \<Rightarrow> i32 \<Rightarrow> i32 \<Rightarrow> i32 \<Rightarrow> i32 \<Rightarrow> u32 \<Rightarrow> i32 \<Rightarrow> i32 \<Rightarrow> i32 \<Rightarrow> mem \<Rightarrow> mem option" where
  "line_loop g x1 y1 dx sx dy sy color x0 y0 err m =
     (let m = fb_put_pixel g x0 y0 color m in
      if x0 = x1 \<and> y0 = y1 then Some m
      else let e2 = 2 * err;
               (err', x0') = (if dy \<le>s e2 then (err + dy, x0 + sx) else (err, x0));
               (err', y0') = (if e2 \<le>s dx then (err' + dx, y0 + sy) else (err', y0))
           in line_loop g x1 y1 dx sx dy sy color x0' y0' err' m)"

definition fb_draw_line :: "fb_t \<Rightarrow> i32 \<Rightarrow> i32 \<Rightarrow> i32 \<Rightarrow> i32 \<Rightarrow> u32 \<Rightarrow> mem \<Rightarrow> mem option" where
  "fb_draw_line g x0 y0 x1 y1 color m =
     (let dx = (if x0 <s x1 then x1 - x0 else x0 - x1);
          sx = (if x0 <s x1 then 1 else - 1);
          dy = (if y0 <s y1 then y0 - y1 else y1 - y0);
          sy = (if y0 <s y1 then 1 else - 1)
      in line_loop g x1 y1 dx sx dy sy color x0 y0 (dx + dy) m)"

definition in_rounded_corner :: "i32 \<Rightarrow> i32 \<Rightarrow> i32 \<Rightarrow> i32 \<Rightarrow> i32 \<Rightarrow> i32 \<Rightarrow> i32 \<Rightarrow> bool" where
  "in_rounded_corner px py x y w h r =
     (let near = (\<lambda>cx cy. let dx = px - cx; dy = py - cy in dx * dx + dy * dy \<le>s r * r) in
      if px <s x + r \<and> py <s y + r then near (x + r) (y + r)
      else if x + w - r \<le>s px \<and> py <s y + r then near (x + w - r - 1) (y + r)
      else if px <s x + r \<and> y + h - r \<le>s py then near (x + r) (y + h - r - 1)
      else if x + w - r \<le>s px \<and> y + h - r \<le>s py then near (x + w - r - 1) (y + h - r - 1)
      else True)"

definition fb_fill_rounded_rect :: "fb_t \<Rightarrow> i32 \<Rightarrow> i32 \<Rightarrow> i32 \<Rightarrow> i32 \<Rightarrow> i32 \<Rightarrow> u32 \<Rightarrow> mem \<Rightarrow> mem" where
  "fb_fill_rounded_rect g x y w h r color =
     (if r \<le>s 0 then fb_fill_rect g x y w h color
      else for_i32 h (\<lambda>j. for_i32 w (\<lambda>i m.
             if in_rounded_corner (x + i) (y + j) x y w h r then fb_put_pixel g (x + i) (y + j) color m else m)))"

definition fb_draw_rounded_rect :: "fb_t \<Rightarrow> i32 \<Rightarrow> i32 \<Rightarrow> i32 \<Rightarrow> i32 \<Rightarrow> i32 \<Rightarrow> u32 \<Rightarrow> mem \<Rightarrow> mem" where
  "fb_draw_rounded_rect g x y w h r color = fb_draw_rect g x y w h color"

definition fb_blit :: "fb_t \<Rightarrow> i32 \<Rightarrow> i32 \<Rightarrow> i32 \<Rightarrow> i32 \<Rightarrow> addr \<Rightarrow> i32 \<Rightarrow> mem \<Rightarrow> mem" where
  "fb_blit g x y w h src src_stride =
     for_i32 h (\<lambda>j. for_i32 w (\<lambda>i m.
       fb_put_pixel g (x + i) (y + j) (load32 m (src + 4 * scast (j * src_stride + i))) m))"

text \<open>Bit \<open>col\<close> of row \<open>row\<close> of the glyph of a character; characters outside the font print as a question mark.\<close>

definition glyph_bit :: "u8 \<Rightarrow> nat \<Rightarrow> nat \<Rightarrow> bool" where
  "glyph_bit c row col = (let c = (if c < 32 \<or> 127 < c then 63 else c) in bit (font8x8_basic ! unat (c - 32) ! row) col)"

definition fb_draw_char :: "fb_t \<Rightarrow> i32 \<Rightarrow> i32 \<Rightarrow> u8 \<Rightarrow> u32 \<Rightarrow> u32 \<Rightarrow> mem \<Rightarrow> mem" where
  "fb_draw_char g x y c fg bg =
     fold (\<lambda>row. fold (\<lambda>col m.
       let color = (if glyph_bit c row col then fg else bg) in
       if bg \<noteq> 0xFFFFFFFF \<or> glyph_bit c row col then fb_put_pixel g (x + of_nat col) (y + of_nat row) color m else m)
       [0..<8]) [0..<8]"

primrec draw_string_loop :: "fb_t \<Rightarrow> i32 \<Rightarrow> u8 list \<Rightarrow> u32 \<Rightarrow> u32 \<Rightarrow> i32 \<Rightarrow> i32 \<Rightarrow> mem \<Rightarrow> mem" where
  "draw_string_loop g x [] fg bg cx y m = m"
| "draw_string_loop g x (c # s) fg bg cx y m =
     (if c = 10 then draw_string_loop g x s fg bg x (y + 10) m
      else draw_string_loop g x s fg bg (cx + 8) y (fb_draw_char g cx y c fg bg m))"

definition fb_draw_string :: "fb_t \<Rightarrow> i32 \<Rightarrow> i32 \<Rightarrow> u8 list \<Rightarrow> u32 \<Rightarrow> u32 \<Rightarrow> mem \<Rightarrow> mem" where
  "fb_draw_string g x y s fg bg m = draw_string_loop g x s fg bg x y m"

definition fb_swap :: "fb_t \<Rightarrow> mem \<Rightarrow> mem" where
  "fb_swap g m =
     (if \<not> fb_double g then m
      else snd (memcpy m (fb_pixels g) (fb_back g) (ucast (fb_pitch g) * ucast (fb_height g))))"

section \<open>The surface\<close>

text \<open>
  A usable framebuffer: a row holds its pixels, the surface does not wrap around the end of the
  address space, and the dimensions are positive signed integers.
\<close>

definition fb_ok :: "fb_t \<Rightarrow> bool" where
  "fb_ok g \<longleftrightarrow> 4 * unat (fb_width g) \<le> unat (fb_pitch g) \<and>
     unat (fb_base g) + unat (fb_pitch g) * unat (fb_height g) \<le> 18446744073709551616 \<and>
     unat (fb_width g) \<le> 2147483648 \<and> unat (fb_height g) \<le> 2147483648"

definition fb_visible :: "fb_t \<Rightarrow> i32 \<Rightarrow> i32 \<Rightarrow> bool" where
  "fb_visible g x y \<longleftrightarrow> x < fb_width g \<and> y < fb_height g"

text \<open>The memory differs only inside the surface.\<close>

definition fb_outside :: "fb_t \<Rightarrow> mem \<Rightarrow> mem \<Rightarrow> bool" where
  "fb_outside g m m' \<longleftrightarrow> (\<forall>a. \<not> in_range a (fb_base g) (unat (fb_pitch g) * unat (fb_height g)) \<longrightarrow> m' a = m a)"

definition pixel_addr :: "fb_t \<Rightarrow> i32 \<Rightarrow> i32 \<Rightarrow> addr" where
  "pixel_addr g x y = fb_row g y + 4 * scast x"

lemma unat_mult_u64: "unat a * unat b < 18446744073709551616 \<Longrightarrow> unat (a * b :: u64) = unat a * unat b"
  using unat_mult_lem [of a b] by simp

lemma scast_nonneg: "unat (x :: i32) < 2147483648 \<Longrightarrow> unat (scast x :: u64) = unat x"
proof -
  assume "unat x < 2147483648"
  then have "sint x = int (unat x)" by (simp add: sint_i32)
  then have "(scast x :: u64) = of_nat (unat x)" by (metis of_int_of_nat_eq scast_eq)
  then show ?thesis using unat_u32_bound [of x] by (simp add: unat_of_nat_u64)
qed

lemma pixel_offset:
  assumes "fb_ok g" "fb_visible g x y"
  shows "unat y * unat (fb_pitch g) + 4 * unat x + 4 \<le> unat (fb_pitch g) * unat (fb_height g)"
proof -
  have "Suc (unat y) \<le> unat (fb_height g)" "Suc (unat x) \<le> unat (fb_width g)"
    using assms(2) by (auto simp: fb_visible_def word_less_nat_alt)
  then have "Suc (unat y) * unat (fb_pitch g) \<le> unat (fb_height g) * unat (fb_pitch g)" "4 * unat x + 4 \<le> unat (fb_pitch g)"
    using assms(1) mult_le_mono1 [of "Suc (unat y)"] by (simp_all add: fb_ok_def)
  then show ?thesis by (simp add: mult.commute)
qed

lemma unat_pixel:
  assumes "fb_ok g" "fb_visible g x y"
  shows "unat (pixel_addr g x y) = unat (fb_base g) + unat y * unat (fb_pitch g) + 4 * unat x"
proof -
  note o = pixel_offset [OF assms]
  have small: "unat x < 2147483648" "unat y < 2147483648"
    using assms by (auto simp: fb_ok_def fb_visible_def word_less_nat_alt)
  have b: "unat (fb_base g) + unat (fb_pitch g) * unat (fb_height g) \<le> 18446744073709551616"
    using assms(1) by (simp add: fb_ok_def)
  have m: "unat (scast y * ucast (fb_pitch g) :: u64) = unat y * unat (fb_pitch g)"
    using o b scast_nonneg [OF small(2)] unat_mult_u64 [of "scast y" "ucast (fb_pitch g)"] by simp
  have r: "unat (fb_row g y) = unat (fb_base g) + unat y * unat (fb_pitch g)"
    using o b m unat_add_u64 [of "fb_base g" "scast y * ucast (fb_pitch g)"] by (simp add: fb_row_def)
  have "unat (4 * scast x :: u64) = 4 * unat x"
    using scast_nonneg [OF small(1)] small(1) unat_mult_u64 [of 4 "scast x"] by simp
  then show ?thesis
    using o b r unat_add_u64 [of "fb_row g y" "4 * scast x"] by (simp add: pixel_addr_def)
qed

lemma pixels_disjoint:
  assumes "fb_ok g" "fb_visible g x y" "fb_visible g u v" "(x, y) \<noteq> (u, v)"
  shows "disjoint_ranges (pixel_addr g u v) 4 (pixel_addr g x y) 4"
proof -
  have b: "unat (fb_base g) + unat (fb_pitch g) * unat (fb_height g) \<le> 18446744073709551616"
    using assms(1) by (simp add: fb_ok_def)
  have w: "4 * unat x + 4 \<le> unat (fb_pitch g)" "4 * unat u + 4 \<le> unat (fb_pitch g)"
    using assms(1-3) by (auto simp: fb_ok_def fb_visible_def word_less_nat_alt)
  have step: "unat i * unat (fb_pitch g) + unat (fb_pitch g) \<le> unat j * unat (fb_pitch g)" if "unat i < unat j" for i j :: i32
    using mult_le_mono1 [of "Suc (unat i)" "unat j" "unat (fb_pitch g)"] that by simp
  have "unat (pixel_addr g u v) + 4 \<le> unat (pixel_addr g x y) \<or> unat (pixel_addr g x y) + 4 \<le> unat (pixel_addr g u v)"
  proof (cases "y = v")
    case True
    then have "unat x \<noteq> unat u" using assms(4) by (simp add: word_unat_eq_iff)
    then show ?thesis using True unat_pixel [OF assms(1,2)] unat_pixel [OF assms(1,3)] by auto
  next
    case False
    then have "unat y < unat v \<or> unat v < unat y" by (auto simp: linorder_neq_iff word_less_nat_alt)
    then show ?thesis using step [of y v] step [of v y] w unat_pixel [OF assms(1,2)] unat_pixel [OF assms(1,3)] by auto
  qed
  then show ?thesis
    using unat_pixel [OF assms(1,2)] unat_pixel [OF assms(1,3)] pixel_offset [OF assms(1,2)] pixel_offset [OF assms(1,3)] b
    by (intro disjoint_ranges_nat) auto
qed

lemma put_pixel_cases:
  "fb_put_pixel g x y c m = (if fb_visible g x y then store32 m (pixel_addr g x y) c else m)"
  "fb_get_pixel g m x y = (if fb_visible g x y then load32 m (pixel_addr g x y) else 0)"
  by (auto simp: fb_put_pixel_def fb_get_pixel_def fb_visible_def pixel_addr_def)

section \<open>The contract of a surface\<close>

text \<open>
  What the drawing routines rely on: a pixel that is put can be read back and no other pixel
  changes, and nothing outside the surface changes.
\<close>

locale canvas =
  fixes ok :: "'g \<Rightarrow> bool" and visible :: "'g \<Rightarrow> i32 \<Rightarrow> i32 \<Rightarrow> bool"
    and put :: "'g \<Rightarrow> i32 \<Rightarrow> i32 \<Rightarrow> u32 \<Rightarrow> 'm \<Rightarrow> 'm" and get :: "'g \<Rightarrow> 'm \<Rightarrow> i32 \<Rightarrow> i32 \<Rightarrow> u32"
    and outside :: "'g \<Rightarrow> 'm \<Rightarrow> 'm \<Rightarrow> bool"
  assumes get_put: "ok g \<Longrightarrow> get g (put g x y c m) u v = (if visible g u v \<and> u = x \<and> v = y then c else get g m u v)"
    and outside_put: "ok g \<Longrightarrow> outside g m (put g x y c m)"
    and outside_refl: "outside g m m"
    and outside_trans: "outside g m m' \<Longrightarrow> outside g m' m'' \<Longrightarrow> outside g m m''"
begin

lemma get_paint:
  "ok g \<Longrightarrow> get g (fold (\<lambda>(x, y). put g x y c) ps m) u v = (if (u, v) \<in> set ps \<and> visible g u v then c else get g m u v)"
proof (induction ps arbitrary: m)
  case (Cons p ps)
  then show ?case by (cases p) (auto simp: get_put)
qed simp

lemma outside_fold:
  "(\<And>x m. x \<in> set xs \<Longrightarrow> outside g m (f x m)) \<Longrightarrow> outside g m (fold f xs m)"
proof (induction xs arbitrary: m)
  case (Cons x xs)
  then have "outside g m (f x m)" "outside g (f x m) (fold f xs (f x m))" by simp_all
  then show ?case by (simp add: outside_trans)
qed (simp add: outside_refl)

lemma outside_for: "(\<And>i m. outside g m (f i m)) \<Longrightarrow> outside g m (for_i32 n f m)"
  unfolding for_i32_def by (rule outside_fold) simp

lemma outside_put2: "ok g \<Longrightarrow> outside g m (put g x y c (put g u v d m))"
  using outside_put outside_trans by blast

end

interpretation fb: canvas fb_ok fb_visible fb_put_pixel fb_get_pixel fb_outside
proof
  fix g x y c u v and m m' m'' :: mem
  assume ok: "fb_ok g"
  show "fb_get_pixel g (fb_put_pixel g x y c m) u v = (if fb_visible g u v \<and> u = x \<and> v = y then c else fb_get_pixel g m u v)"
  proof (cases "fb_visible g x y \<and> fb_visible g u v \<and> (x, y) \<noteq> (u, v)")
    case True
    then show ?thesis
      using cell32.load_store_disjoint [OF pixels_disjoint [OF ok, of x y u v]] by (auto simp: put_pixel_cases)
  qed (auto simp: put_pixel_cases cell32.load_store)
  show "fb_outside g m (fb_put_pixel g x y c m)"
  proof (cases "fb_visible g x y")
    case True
    have b: "unat (fb_base g) + unat (fb_pitch g) * unat (fb_height g) \<le> 18446744073709551616"
      using ok by (simp add: fb_ok_def)
    have "in_range a (fb_base g) (unat (fb_pitch g) * unat (fb_height g))" if "in_range a (pixel_addr g x y) 4" for a
      using that unat_pixel [OF ok True] pixel_offset [OF ok True] b by (auto simp: in_range_nat)
    then show ?thesis using True by (auto simp: fb_outside_def put_pixel_cases intro: cell32.store_frame)
  qed (simp add: fb_outside_def put_pixel_cases)
qed (auto simp: fb_outside_def)

lemma fold_grid:
  "fold (\<lambda>j. fold (\<lambda>i. P (X i) (Y j)) is) js m = fold (\<lambda>(u, v). P u v) (concat (map (\<lambda>j. map (\<lambda>i. (X i, Y j)) is) js)) m"
proof (induction js arbitrary: m)
  case (Cons j js)
  have "fold (\<lambda>(u, v). P u v) (map (\<lambda>i. (X i, Y j)) is) m = fold (\<lambda>i. P (X i) (Y j)) is m"
    by (induction "is" arbitrary: m) simp_all
  then show ?case using Cons by simp
qed simp

lemma offset_in_loop: "(\<exists>i \<in> {0..<nat (sint n)}. u = x + of_nat i) \<longleftrightarrow> 0 \<le> sint (u - x) \<and> sint (u - x :: i32) < sint (n :: i32)"
proof
  assume "\<exists>i \<in> {0..<nat (sint n)}. u = x + of_nat i"
  then obtain i where "i < nat (sint n)" "u = x + of_nat i" by auto
  then have i: "int i < sint n" "u - x = of_nat i" by auto
  have "sint n < 2147483648" using sint_lt [of n] by simp
  then have "sint (of_nat i :: i32) = int i" using i(1) by (simp add: sint_i32 unat_of_nat)
  then show "0 \<le> sint (u - x) \<and> sint (u - x) < sint n" using i by simp
next
  assume a: "0 \<le> sint (u - x) \<and> sint (u - x) < sint n"
  then have "sint (u - x) = int (unat (u - x))" using sint_i32 [of "u - x"] unat_u32_bound [of "u - x"] by (simp only: split: if_splits; linarith)
  then have "int (unat (u - x)) < sint n" using a by linarith
  then have "unat (u - x) < nat (sint n)" by (simp only: zless_nat_eq_int_zless)
  then show "\<exists>i \<in> {0..<nat (sint n)}. u = x + of_nat i" by (intro bexI [of _ "unat (u - x)"]) simp_all
qed

section \<open>Properties\<close>

text \<open>
  Filling a rectangle. On a usable framebuffer exactly the visible pixels of the rectangle
  have the colour afterwards, and every other pixel has the colour it had.
\<close>

theorem fb_fill_rect_paints:
  assumes "fb_ok g"
  shows "fb_get_pixel g (fb_fill_rect g x y w h c m) u v =
    (if fb_visible g u v \<and> 0 \<le> sint (u - x) \<and> sint (u - x) < sint w \<and> 0 \<le> sint (v - y) \<and> sint (v - y) < sint h
     then c else fb_get_pixel g m u v)"
proof -
  let ?ps = "concat (map (\<lambda>j. map (\<lambda>i. (x + of_nat i, y + of_nat j)) [0..<nat (sint w)]) [0..<nat (sint h)])"
  have "fb_fill_rect g x y w h c m = fold (\<lambda>(u, v). fb_put_pixel g u v c) ?ps m"
    unfolding fb_fill_rect_def for_i32_def
    using fold_grid [where P = "\<lambda>u v. fb_put_pixel g u v c" and X = "\<lambda>i. x + of_nat i" and Y = "\<lambda>j. y + of_nat j"] by simp
  moreover have "(u, v) \<in> set ?ps \<longleftrightarrow> (\<exists>i \<in> {0..<nat (sint w)}. u = x + of_nat i) \<and> (\<exists>j \<in> {0..<nat (sint h)}. v = y + of_nat j)"
    by auto
  ultimately show ?thesis using fb.get_paint [OF assms] unfolding offset_in_loop by auto
qed

text \<open>A surface of 4 by 3 pixels.\<close>

definition small_fb :: fb_t where
  "small_fb = fb_zero\<lparr>fb_pixels := 0x1000, fb_width := 4, fb_height := 3, fb_pitch := 16, fb_bpp := 32\<rparr>"

lemma small_fb_ok: "fb_ok small_fb"
  by (simp add: fb_ok_def small_fb_def fb_zero_def fb_base_def)

theorem fb_fill_rect_paints_witness:
  "fb_get_pixel small_fb (fb_fill_rect small_fb 1 1 9 9 7 (\<lambda>_. 0)) 3 2 = 7 \<and>
   fb_get_pixel small_fb (fb_fill_rect small_fb 1 1 9 9 7 (\<lambda>_. 0)) 0 2 = fb_get_pixel small_fb (\<lambda>_. 0) 0 2"
  unfolding fb_fill_rect_paints [OF small_fb_ok] by (simp add: fb_visible_def small_fb_def)

lemma draw_char_outside: "fb_ok g \<Longrightarrow> fb_outside g m (fb_draw_char g x y ch fg bg m)"
  unfolding fb_draw_char_def
  by (intro fb.outside_fold) (auto simp: Let_def fb.outside_put fb.outside_refl)

lemma draw_string_outside: "fb_ok g \<Longrightarrow> fb_outside g m (draw_string_loop g x s fg bg cx y m)"
proof (induction s arbitrary: cx y m)
  case (Cons ch s)
  have "fb_outside g m (draw_string_loop g x s fg bg (cx + 8) y (fb_draw_char g cx y ch fg bg m))"
    using fb.outside_trans [OF draw_char_outside [OF Cons.prems] Cons.IH [OF Cons.prems]] .
  then show ?case using Cons by simp
qed (simp add: fb.outside_refl)

lemma line_outside:
  assumes "line_loop g x1 y1 dx sx dy sy c x0 y0 err m = Some m'" "fb_ok g"
  shows "fb_outside g m m'"
proof -
  have "fb_ok g \<longrightarrow> fb_outside g m m'"
    using assms(1)
    by (rule line_loop.raw_induct [where P = "\<lambda>g x1 y1 dx sx dy sy c x0 y0 err m m'. fb_ok g \<longrightarrow> fb_outside g m m'", rotated])
      (auto simp: Let_def split: if_splits intro: fb.outside_put; blast intro: fb.outside_trans fb.outside_put)
  then show ?thesis using assms(2) by simp
qed

text \<open>
  \<^verbatim>\<open>fb_clear\<close> writes rows without the check of \<^verbatim>\<open>fb_put_pixel\<close>; on a usable framebuffer its stores are those of
  putting every pixel once.
\<close>

lemma row_pixel:
  assumes "fb_ok g" "x < unat (fb_width g)"
  shows "fb_row g (of_nat y) + 4 * of_nat x = pixel_addr g (of_nat x) (of_nat y)"
proof -
  have x: "x < 2147483648" using assms by (simp add: fb_ok_def)
  then have "unat (scast (of_nat x :: i32) :: u64) = x" using scast_nonneg [of "of_nat x"] by (simp add: unat_of_nat)
  then have "(scast (of_nat x :: i32) :: u64) = of_nat x" using x by (simp add: word_unat_eq_iff unat_of_nat_u64)
  then show ?thesis by (simp add: pixel_addr_def)
qed

lemma visible_of_nat:
  "x < unat (fb_width g) \<Longrightarrow> y < unat (fb_height g) \<Longrightarrow> fb_visible g (of_nat x) (of_nat y)"
  by (auto simp: fb_visible_def word_less_nat_alt unat_of_nat intro: le_less_trans [OF mod_less_eq_dividend])

lemma fb_clear_puts:
  assumes "fb_ok g"
  shows "fb_clear g c m = fold (\<lambda>j. fold (\<lambda>i. fb_put_pixel g (of_nat i) (of_nat j) c) [0..<unat (fb_width g)]) [0..<unat (fb_height g)] m"
proof -
  have "fold (\<lambda>x m. store32 m (fb_row g (of_nat y) + 4 * of_nat x) c) [0..<unat (fb_width g)] m =
      fold (\<lambda>i. fb_put_pixel g (of_nat i) (of_nat y) c) [0..<unat (fb_width g)] m" if "y < unat (fb_height g)" for y m
    using that by (intro fold_cong ext) (auto simp: put_pixel_cases visible_of_nat row_pixel [OF assms])
  then show ?thesis unfolding fb_clear_def Let_def by (intro fold_cong ext) auto
qed

lemma fb_clear_paints:
  assumes "fb_ok g"
  shows "fb_get_pixel g (fb_clear g c m) u v = (if fb_visible g u v then c else 0)"
proof -
  let ?ps = "concat (map (\<lambda>j. map (\<lambda>i. (of_nat i, of_nat j)) [0..<unat (fb_width g)]) [0..<unat (fb_height g)]) :: (i32 \<times> i32) list"
  have "fb_clear g c m = fold (\<lambda>(u, v). fb_put_pixel g u v c) ?ps m"
    unfolding fb_clear_puts [OF assms]
    using fold_grid [where P = "\<lambda>u v. fb_put_pixel g u v c" and X = of_nat and Y = of_nat] by simp
  moreover have "(u, v) \<in> set ?ps" if "fb_visible g u v"
    using that by (force simp: fb_visible_def word_less_nat_alt intro!: bexI [of _ "unat u"] bexI [of _ "unat v"])
  ultimately show ?thesis using fb.get_paint [OF assms] by (auto simp: put_pixel_cases)
qed

lemma clear_outside: "fb_ok g \<Longrightarrow> fb_outside g m (fb_clear g c m)"
  unfolding fb_clear_puts by (intro fb.outside_fold fb.outside_put)

lemma copy_up_frame: "\<not> in_range a d (unat n) \<Longrightarrow> copy_up m d s n a = m a"
proof (induction m d s n rule: copy_up.induct)
  case (1 m d s n)
  show ?case
  proof (cases "n = 0")
    case False
    then have n: "unat n = Suc (unat (n - 1))" by (rule unat_pred)
    have "a \<noteq> d" using 1(2) n by (auto simp: in_range_def)
    moreover have "\<not> in_range a (d + 1) (unat (n - 1))"
    proof
      assume "in_range a (d + 1) (unat (n - 1))"
      then have "unat (a - d - 1) < unat (n - 1)" by (simp add: in_range_def diff_diff_eq)
      moreover have "unat (a - d) = Suc (unat (a - d - 1))" using \<open>a \<noteq> d\<close> by (intro unat_pred) simp
      ultimately show False using 1(2) n by (simp add: in_range_def)
    qed
    ultimately show ?thesis using 1(1) [OF False] False unfolding copy_up.simps [of m d] by (simp add: fun_upd_def)
  qed (simp add: copy_up.simps [of m])
qed

lemma swap_frame:
  assumes "\<not> in_range a (fb_pixels g) (unat (fb_pitch g) * unat (fb_height g))"
  shows "fb_swap g m a = m a"
proof -
  have "unat (fb_pitch g) * unat (fb_height g) < 4294967296 * 4294967296"
    using unat_u32_bound [of "fb_pitch g"] unat_u32_bound [of "fb_height g"] by (intro mult_strict_mono) auto
  then have "unat (ucast (fb_pitch g) * ucast (fb_height g) :: u64) = unat (fb_pitch g) * unat (fb_height g)"
    using unat_mult_u64 [of "ucast (fb_pitch g)" "ucast (fb_height g)"] by simp
  then show ?thesis using assms by (simp add: fb_swap_def memcpy_def copy_up_frame)
qed

text \<open>
  (C22) On a usable framebuffer (a row holds its pixels, the surface does not wrap around the end of the address space, width and height are at most
  \<open>2 ^ 31\<close>) no drawing routine writes outside the drawing surface, whatever the coordinates, sizes and strings are: putting a pixel, clearing, filling and outlining
  rectangles and rounded rectangles, blitting, drawing characters, strings and lines. Clearing, which writes its rows without a check, gives every visible
  pixel the colour, and \<^verbatim>\<open>fb_swap\<close> writes only the front surface.
\<close>

theorem fb_drawing_confined:
  assumes "fb_ok g"
  shows "fb_outside g m (fb_put_pixel g x y c m) \<and> fb_outside g m (fb_fill_rect g x y w h c m) \<and>
    fb_outside g m (fb_draw_rect g x y w h c m) \<and> fb_outside g m (fb_fill_rounded_rect g x y w h r c m) \<and>
    fb_outside g m (fb_draw_rounded_rect g x y w h r c m) \<and> fb_outside g m (fb_blit g x y w h src stride m) \<and>
    fb_outside g m (fb_draw_char g x y ch fg bg m) \<and>
    fb_outside g m (fb_draw_string g x y s fg bg m) \<and> (fb_draw_line g x y w h c m = Some m' \<longrightarrow> fb_outside g m m') \<and>
    fb_outside g m (fb_clear g c m) \<and> (\<forall>u v. fb_get_pixel g (fb_clear g c m) u v = (if fb_visible g u v then c else 0)) \<and>
    (\<forall>a. \<not> in_range a (fb_pixels g) (unat (fb_pitch g) * unat (fb_height g)) \<longrightarrow> fb_swap g m a = m a)"
proof -
  have fill: "fb_outside g m (fb_fill_rect g x y w h c m)" for w h
    unfolding fb_fill_rect_def by (intro fb.outside_for fb.outside_put assms)
  have rect: "fb_outside g m (fb_draw_rect g x y w h c m)"
    unfolding fb_draw_rect_def Let_def
    by (intro fb.outside_trans [OF fb.outside_for fb.outside_for] fb.outside_put2 assms)
  have rounded: "fb_outside g m (fb_fill_rounded_rect g x y w h r c m)"
  proof (cases "r \<le>s 0")
    case False
    have "fb_outside g m (for_i32 h (\<lambda>j. for_i32 w (\<lambda>i m.
        if in_rounded_corner (x + i) (y + j) x y w h r then fb_put_pixel g (x + i) (y + j) c m else m)) m)"
      using assms by (intro fb.outside_for) (simp add: fb.outside_put fb.outside_refl)
    then show ?thesis using False by (simp add: fb_fill_rounded_rect_def)
  qed (simp add: fb_fill_rounded_rect_def fill)
  have blit: "fb_outside g m (fb_blit g x y w h src stride m)"
    unfolding fb_blit_def by (intro fb.outside_for fb.outside_put assms)
  show ?thesis
    using fb.outside_put [OF assms] fill rect rounded blit draw_string_outside [OF assms] draw_char_outside [OF assms] clear_outside [OF assms] fb_clear_paints [OF assms]
      swap_frame line_outside [OF _ assms]
    by (auto simp: fb_draw_rounded_rect_def fb_draw_string_def fb_draw_line_def Let_def)
qed

theorem fb_drawing_confined_witness:
  "fb_outside small_fb (\<lambda>_. 0) (fb_draw_string small_fb 100 (- 5) (bytes_of ''H3'') 1 2 (\<lambda>_. 0)) \<and>
   fb_outside small_fb (\<lambda>_. 0) (fb_clear small_fb 7 (\<lambda>_. 0)) \<and> fb_get_pixel small_fb (fb_clear small_fb 7 (\<lambda>_. 0)) 3 2 = 7"
  using fb_drawing_confined [OF small_fb_ok, where m = "\<lambda>_. 0" and x = 100 and y = "- 5" and s = "bytes_of ''H3''" and fg = 1 and bg = 2 and c = 7]
  by (simp add: fb_visible_def small_fb_def)

section \<open>Lines\<close>

text \<open>
  The line algorithm over the integers: \<open>i\<close> steps of \<open>dx\<close> and \<open>j\<close> steps of \<open>- dy\<close> have been made
  in the two directions. A step in a direction that is finished is never taken, and each round
  takes at least one step.
\<close>

lemma line_step_x:
  fixes D E i j :: int
  assumes "2 * ((j + 1) * D - (i + 1) * E) \<ge> - E" "i \<le> D" "0 \<le> j" "0 \<le> D" "0 \<le> E" "i < D \<or> j < E"
  shows "i < D"
proof (rule ccontr)
  assume "\<not> i < D"
  then have i: "i = D" "j < E" using assms(2,6) by auto
  have "(j + 1) * D \<le> E * D" using i(2) assms(4) by (intro mult_right_mono) auto
  moreover have "2 * ((j + 1) * D) \<ge> 2 * (D * E) + E" using assms(1) i(1) by (simp add: algebra_simps)
  ultimately have "E \<le> 0" by (simp add: mult.commute)
  then show False using i(2) assms(3) by simp
qed

lemma line_step_y:
  fixes D E i j :: int
  assumes "2 * ((j + 1) * D - (i + 1) * E) \<le> D" "j \<le> E" "0 \<le> i" "0 \<le> D" "0 \<le> E" "i < D \<or> j < E"
  shows "j < E"
proof -
  have "- D \<le> 2 * ((i + 1) * E - (j + 1) * D)" using assms(1) by (simp add: algebra_simps)
  then show ?thesis using line_step_x [where D = E and E = D and i = j and j = i] assms by blast
qed

lemma sint_add_bounded:
  fixes x y :: i32
  assumes "- 2147483648 \<le> sint x + sint y" "sint x + sint y < 2147483648"
  shows "sint (x + y) = sint x + sint y"
proof -
  have "sint (x + y) = signed_take_bit 31 (sint x + sint y)" by (simp add: sint_word_ariths)
  then show ?thesis using assms by (simp add: signed_take_bit_int_eq_self)
qed

lemma sint_diff_bounded:
  fixes x y :: i32
  assumes "- 2147483648 \<le> sint x - sint y" "sint x - sint y < 2147483648"
  shows "sint (x - y) = sint x - sint y"
proof -
  have "sint (x - y) = signed_take_bit 31 (sint x - sint y)" by (simp add: sint_word_ariths)
  then show ?thesis using assms by (simp add: signed_take_bit_int_eq_self)
qed

lemma sint_i32_eq: "(x :: i32) = y \<longleftrightarrow> sint x = sint y"
  by (auto intro: signed_word_eqI)

text \<open>The state of the loop after \<open>i\<close> and \<open>j\<close> steps, and the points it still visits.\<close>

definition adjacent :: "i32 \<times> i32 \<Rightarrow> i32 \<times> i32 \<Rightarrow> bool" where
  "adjacent p q \<longleftrightarrow> p \<noteq> q \<and> fst q - fst p \<in> {- 1, 0, 1} \<and> snd q - snd p \<in> {- 1, 0, 1}"

definition line_path :: "(i32 \<times> i32) list \<Rightarrow> i32 \<times> i32 \<Rightarrow> i32 \<times> i32 \<Rightarrow> bool" where
  "line_path ps p q \<longleftrightarrow> ps \<noteq> [] \<and> hd ps = p \<and> last ps = q \<and> successively adjacent ps"

lemma line_path_Cons: "line_path ps p' q \<Longrightarrow> adjacent p p' \<Longrightarrow> line_path (p # ps) p q"
  by (cases ps) (auto simp: line_path_def)

lemma line_loop_path:
  fixes D E i j :: int
  assumes D: "0 \<le> D" "D \<le> 20000" "sint dx = D" and E: "0 \<le> E" "E \<le> 20000" "sint dy = - E"
    and s: "sx \<in> {1, - 1}" "sy \<in> {1, - 1}"
    and i: "0 \<le> i" "i \<le> D" "sint x1 = sint x0 + sint sx * (D - i)"
    and j: "0 \<le> j" "j \<le> E" "sint y1 = sint y0 + sint sy * (E - j)"
    and b: "\<bar>sint x1\<bar> \<le> 10000" "\<bar>sint y1\<bar> \<le> 10000"
    and err: "sint err = (j + 1) * D - (i + 1) * E"
  shows "\<exists>ps. line_path ps (x0, y0) (x1, y1) \<and>
    line_loop g x1 y1 dx sx dy sy c x0 y0 err m = Some (fold (\<lambda>(u, v). fb_put_pixel g u v c) ps m)"
  using i j err
proof (induction "nat (D - i + (E - j))" arbitrary: i j x0 y0 err m rule: less_induct)
  case less
  note i = less.prems(1-3) and j = less.prems(4-6) and err = less.prems(7)
  define m1 where "m1 = fb_put_pixel g x0 y0 c m"
  show ?case
  proof (cases "x0 = x1 \<and> y0 = y1")
    case True
    then show ?thesis
      by (intro exI [of _ "[(x0, y0)]"]) (simp add: line_path_def, subst line_loop.simps, simp)
  next
    case False
    have ss: "sint sx \<in> {1, - 1}" "sint sy \<in> {1, - 1}" using s by auto
    have more: "i < D \<or> j < E"
    proof (rule ccontr)
      assume "\<not> ?thesis"
      then have "sint x1 = sint x0" "sint y1 = sint y0" using i j by auto
      then show False using False by (simp add: sint_i32_eq)
    qed
    have pb: "0 \<le> (j + 1) * D" "0 \<le> (i + 1) * E" "(j + 1) * D \<le> 20001 * 20000" "(i + 1) * E \<le> 20001 * 20000"
    proof -
      show "0 \<le> (j + 1) * D" "0 \<le> (i + 1) * E" using D(1) E(1) i(1) j(1) by simp_all
      show "(j + 1) * D \<le> 20001 * 20000" using D(1,2) E(2) j(1,2) by (intro mult_mono) auto
      show "(i + 1) * E \<le> 20001 * 20000" using E(1,2) D(2) i(1,2) by (intro mult_mono) auto
    qed
    have eb: "\<bar>sint err\<bar> \<le> 400020000" using err pb by linarith
    then have e2: "sint (2 * err) = 2 * sint err" using sint_add_bounded [of err err] by simp
    define tx where "tx \<longleftrightarrow> dy \<le>s 2 * err"
    define ty where "ty \<longleftrightarrow> 2 * err \<le>s dx"
    have tx: "tx \<longleftrightarrow> - E \<le> 2 * ((j + 1) * D - (i + 1) * E)" and ty: "ty \<longleftrightarrow> 2 * ((j + 1) * D - (i + 1) * E) \<le> D"
      using e2 err D(3) E(3) by (simp_all add: tx_def ty_def word_sle_eq)
    have txD: "tx \<Longrightarrow> i < D" using line_step_x [of E j D i] tx i j D E more by blast
    have tyE: "ty \<Longrightarrow> j < E" using line_step_y [of j D i E] ty i j D E more by blast
    have one: "tx \<or> ty" using tx ty D(1) E(1) by linarith
    define x0' y0' err' where "x0' = (if tx then x0 + sx else x0)" and "y0' = (if ty then y0 + sy else y0)"
      and "err' = (if tx then err + dy else err) + (if ty then dx else 0)"
    define i' j' where "i' = i + of_bool tx" and "j' = j + of_bool ty"
    have loop: "line_loop g x1 y1 dx sx dy sy c x0 y0 err m = line_loop g x1 y1 dx sx dy sy c x0' y0' err' m1"
      using False by (subst line_loop.simps) (auto simp: Let_def m1_def x0'_def y0'_def err'_def tx_def ty_def)
    have ab: "\<bar>sint x0\<bar> \<le> 30000" "\<bar>sint y0\<bar> \<le> 30000" using i j b D(2) E(2) ss by auto
    have "sint (x0 + sx) = sint x0 + sint sx" "sint (y0 + sy) = sint y0 + sint sy"
      using ab ss by (auto intro!: sint_add_bounded)
    then have pos: "sint x1 = sint x0' + sint sx * (D - i')" "sint y1 = sint y0' + sint sy * (E - j')"
      using i(3) j(3) by (auto simp: x0'_def y0'_def i'_def j'_def algebra_simps)
    have "sint (err + dy) = sint err - E" using sint_add_bounded [of err dy] eb D E by simp
    moreover have "sint (err + dx) = sint err + D" using sint_add_bounded [of err dx] eb D E by simp
    moreover have "sint (err + dy + dx) = sint err - E + D"
      using sint_add_bounded [of "err + dy" dx] calculation(1) eb D E by simp
    ultimately have err': "sint err' = (j' + 1) * D - (i' + 1) * E"
      using err by (auto simp: err'_def i'_def j'_def algebra_simps)
    have adj: "adjacent (x0, y0) (x0', y0')"
      using one s by (auto simp: adjacent_def x0'_def y0'_def)
    have "nat (D - i' + (E - j')) < nat (D - i + (E - j))" "0 \<le> i'" "i' \<le> D" "0 \<le> j'" "j' \<le> E"
      using one txD tyE i j by (auto simp: i'_def j'_def)
    from less.hyps [OF this(1-3) pos(1) this(4,5) pos(2) err'] obtain ps where
      ps: "line_path ps (x0', y0') (x1, y1)"
        "line_loop g x1 y1 dx sx dy sy c x0' y0' err' m1 = Some (fold (\<lambda>(u, v). fb_put_pixel g u v c) ps m1)"
      by blast
    then show ?thesis
      using loop line_path_Cons [OF ps(1) adj] by (intro exI [of _ "(x0, y0) # ps"]) (simp add: m1_def)
  qed
qed

text \<open>
  (C23) Drawing a line always ends. For end points with coordinates between -10000 and 10000 the
  loop of \<^verbatim>\<open>fb_draw_line\<close> returns, and it has put the pixels of a path from one end point to the
  other in which every point is one of the eight neighbours of its predecessor.
\<close>

theorem fb_draw_line_path:
  assumes "\<bar>sint x0\<bar> \<le> 10000" "\<bar>sint y0\<bar> \<le> 10000" "\<bar>sint x1\<bar> \<le> 10000" "\<bar>sint y1\<bar> \<le> 10000"
  shows "\<exists>ps. line_path ps (x0, y0) (x1, y1) \<and>
    fb_draw_line g x0 y0 x1 y1 c m = Some (fold (\<lambda>(u, v). fb_put_pixel g u v c) ps m)"
proof -
  define dx sx where "dx = (if x0 <s x1 then x1 - x0 else x0 - x1)" and "sx = (if x0 <s x1 then 1 else - 1 :: i32)"
  define dy sy where "dy = (if y0 <s y1 then y0 - y1 else y1 - y0)" and "sy = (if y0 <s y1 then 1 else - 1 :: i32)"
  have d: "sint (x1 - x0) = sint x1 - sint x0" "sint (x0 - x1) = sint x0 - sint x1"
    "sint (y1 - y0) = sint y1 - sint y0" "sint (y0 - y1) = sint y0 - sint y1"
    using assms by (auto intro!: sint_diff_bounded)
  have dx: "0 \<le> sint dx" "sint dx \<le> 20000" "sint x1 = sint x0 + sint sx * (sint dx - 0)" "sx \<in> {1, - 1}"
    using assms d by (auto simp: dx_def sx_def word_sless_alt)
  have dy: "0 \<le> - sint dy" "- sint dy \<le> 20000" "sint y1 = sint y0 + sint sy * (- sint dy - 0)" "sy \<in> {1, - 1}"
    using assms d by (auto simp: dy_def sy_def word_sless_alt)
  have err: "sint (dx + dy) = (0 + 1) * sint dx - (0 + 1) * (- sint dy)"
    using sint_add_bounded [of dx dy] dx(1,2) dy(1,2) by simp
  show ?thesis
    using line_loop_path [OF dx(1,2) refl dy(1,2) _ dx(4) dy(4) order_refl dx(1) dx(3) order_refl dy(1) dy(3) assms(3,4) err]
    by (simp add: fb_draw_line_def Let_def dx_def sx_def dy_def sy_def)
qed

theorem fb_draw_line_path_witness:
  "\<exists>ps. line_path ps (0, 0) (3, 2) \<and>
     fb_draw_line small_fb 0 0 3 2 5 (\<lambda>_. 0) = Some (fold (\<lambda>(u, v). fb_put_pixel small_fb u v 5) ps (\<lambda>_. 0))"
  by (rule fb_draw_line_path) simp_all

text \<open>
  The fallback surface is too small. If the boot loader reports no framebuffer and the page
  allocator has no run of 900 pages, \<^verbatim>\<open>fb_init\<close> takes the array \<^verbatim>\<open>g_fallback\<close> of 8000 bytes as a surface
  of 1280 by 720 pixels: every pixel from the second row on that is put lies behind the array.
\<close>

theorem fb_fallback_too_small:
  assumes "pmm_alloc_pages 900 p = Some (0, p)" and "unat fallback + 3686400 \<le> 18446744073709551616"
  shows "\<exists>g. fb_init fallback NULL m p = Some (g, m, p) \<and> fb_pixels g = fallback \<and> fb_width g = 1280 \<and> fb_height g = 720 \<and>
    (\<forall>x y. fb_visible g x y \<longrightarrow> 2 \<le> y \<longrightarrow>
      fb_put_pixel g x y c m' = store32 m' (pixel_addr g x y) c \<and> \<not> in_range (pixel_addr g x y) fallback 8000)"
proof -
  let ?g = "\<lparr>fb_pixels = fallback, fb_width = 1280, fb_height = 720, fb_pitch = 5120, fb_bpp = 32, fb_double = False, fb_back = fallback\<rparr>"
  have "fb_init fallback NULL m p = Some (?g, m, p)"
    using assms(1) by (simp add: fb_init_def fb_mb2_find_def fb_front_def fb_zero_def H3OS_ALIGN_UP_def PAGE_SIZE_def Let_def)
  moreover have ok: "fb_ok ?g" using assms(2) by (simp add: fb_ok_def fb_base_def)
  moreover have "\<not> in_range (pixel_addr ?g x y) fallback 8000" if "fb_visible ?g x y" "2 \<le> y" for x y
  proof -
    have "unat y * 5120 \<ge> 2 * 5120" using that(2) by (simp add: word_le_nat_alt)
    then show ?thesis
      using unat_pixel [OF ok that(1)] assms(2) by (simp add: in_range_nat fb_base_def)
  qed
  ultimately show ?thesis by (intro exI [of _ ?g]) (simp add: put_pixel_cases)
qed

theorem fb_fallback_too_small_witness:
  "\<exists>g. fb_init 0x10000 NULL (\<lambda>_. 0) \<lparr>page_bitmap = (\<lambda>_. 0), total_pages = 0, used_pages = 0, highest_page = 0\<rparr> =
      Some (g, \<lambda>_. 0, \<lparr>page_bitmap = (\<lambda>_. 0), total_pages = 0, used_pages = 0, highest_page = 0\<rparr>) \<and> fb_pixels g = 0x10000 \<and>
     \<not> in_range (pixel_addr g 0 2) 0x10000 8000"
proof -
  let ?p = "\<lparr>page_bitmap = (\<lambda>_. 0), total_pages = 0, used_pages = 0, highest_page = 0\<rparr>"
  have "pmm_alloc_pages 900 ?p = Some (0, ?p)"
    by (simp add: pmm_alloc_pages_def alloc_run_loop.simps [of 0])
  from fb_fallback_too_small [OF this, where fallback = "0x10000" and m = "\<lambda>_. 0" and c = 0 and m' = "\<lambda>_. 0"] obtain g where
    "fb_init 0x10000 NULL (\<lambda>_. 0) ?p = Some (g, \<lambda>_. 0, ?p)" "fb_pixels g = 0x10000" "fb_width g = 1280" "fb_height g = 720"
    "\<And>x y. fb_visible g x y \<Longrightarrow> 2 \<le> y \<Longrightarrow> \<not> in_range (pixel_addr g x y) 0x10000 8000"
    by auto
  then show ?thesis by (intro exI [of _ g]) (simp add: fb_visible_def)
qed

end
