(* ===== verification/H3_Ports.thy ===== *)
theory H3_Ports
  imports H3_Prelude
begin

text \<open>
  Port input and output, and the interrupt layer of \<^verbatim>\<open>kernel/arch/x86_64/idt.c\<close>. The hardware behind
  the ports is not part of the repository: it is a parameter, a \<open>bus\<close> that answers reads and takes
  writes on a state \<open>'d\<close> of its own. An interrupt handler is a function pointer; what a call of it
  does to the rest of the machine is a parameter too.
\<close>

section \<open>Ports\<close>

record 'd bus =
  inb :: "u16 \<Rightarrow> 'd \<Rightarrow> u8 \<times> 'd"
  outb :: "u16 \<Rightarrow> u8 \<Rightarrow> 'd \<Rightarrow> 'd"
  outw :: "u16 \<Rightarrow> u16 \<Rightarrow> 'd \<Rightarrow> 'd"
  inl :: "u16 \<Rightarrow> 'd \<Rightarrow> u32 \<times> 'd"
  outl :: "u16 \<Rightarrow> u32 \<Rightarrow> 'd \<Rightarrow> 'd"

text \<open>A sequence of \<^verbatim>\<open>outb\<close> instructions.\<close>

definition outbs :: "'d bus \<Rightarrow> (u16 \<times> u8) list \<Rightarrow> 'd \<Rightarrow> 'd" where
  "outbs B ws = fold (\<lambda>(p, v). outb B p v) ws"

section \<open>The interrupt descriptor table\<close>

record idt_entry_t =
  offset_low :: u16
  selector :: u16
  ist :: u8
  type_attr :: u8
  offset_mid :: u16
  offset_high :: u32
  idt_reserved :: u32

record interrupt_frame_t =
  f_r15 :: u64
  f_r14 :: u64
  f_r13 :: u64
  f_r12 :: u64
  f_r11 :: u64
  f_r10 :: u64
  f_r9 :: u64
  f_r8 :: u64
  f_rbp :: u64
  f_rdi :: u64
  f_rsi :: u64
  f_rdx :: u64
  f_rcx :: u64
  f_rbx :: u64
  f_rax :: u64
  int_no :: u64
  err_code :: u64
  f_rip :: u64
  f_cs :: u64
  f_rflags :: u64
  f_rsp :: u64
  f_ss :: u64

record irq_state =
  idt :: "u8 \<Rightarrow> idt_entry_t"
  idt_limit :: u16
  idt_base :: addr
  irq_handlers :: "nat \<Rightarrow> addr"

definition idt_zero :: idt_entry_t where
  "idt_zero = \<lparr>offset_low = 0, selector = 0, ist = 0, type_attr = 0, offset_mid = 0, offset_high = 0, idt_reserved = 0\<rparr>"

definition idt_set :: "u8 \<Rightarrow> addr \<Rightarrow> u8 \<Rightarrow> irq_state \<Rightarrow> irq_state" where
  "idt_set vec handler attr s = s\<lparr>idt := (idt s)(vec :=
     \<lparr>offset_low = ucast (handler AND 0xFFFF), selector = 8, ist = 0, type_attr = attr,
      offset_mid = ucast (drop_bit 16 handler AND 0xFFFF), offset_high = ucast (drop_bit 32 handler AND 0xFFFFFFFF),
      idt_reserved = 0\<rparr>)\<rparr>"

definition pic_init :: "'d bus \<Rightarrow> 'd \<Rightarrow> 'd" where
  "pic_init B = outbs B
     [(0x20, 0x11), (0xA0, 0x11), (0x21, 0x20), (0xA1, 0x28), (0x21, 0x04), (0xA1, 0x02), (0x21, 0x01), (0xA1, 0x01),
      (0x21, 0xFC), (0xA1, 0xFF)]"

definition irq_ack :: "'d bus \<Rightarrow> u8 \<Rightarrow> 'd \<Rightarrow> 'd" where
  "irq_ack B irq d = (let d = (if irq \<ge> 8 then outb B 0xA0 0x20 d else d) in outb B 0x20 0x20 d)"

definition irq_install :: "'d bus \<Rightarrow> u8 \<Rightarrow> addr \<Rightarrow> irq_state \<Rightarrow> 'd \<Rightarrow> irq_state \<times> 'd" where
  "irq_install B irq handler s d =
     (if irq < 16 then
        let s = s\<lparr>irq_handlers := (irq_handlers s)(unat irq := handler)\<rparr> in
        if irq < 8
        then let (v, d) = inb B 0x21 d in (s, outb B 0x21 (v AND NOT (push_bit (unat irq) 1)) d)
        else let (v, d) = inb B 0xA1 d in (s, outb B 0xA1 (v AND NOT (push_bit (unat (irq - 8)) 1)) d)
      else (s, d))"

text \<open>\<open>stub\<close> is the table of the assembly entry points, \<open>base\<close> the address of the array \<^verbatim>\<open>idt\<close>.\<close>

definition idt_init :: "'d bus \<Rightarrow> (nat \<Rightarrow> addr) \<Rightarrow> addr \<Rightarrow> irq_state \<Rightarrow> 'd \<Rightarrow> irq_state \<times> 'd" where
  "idt_init B stub base s d =
     (let s = s\<lparr>idt := (\<lambda>_. idt_zero), irq_handlers := (\<lambda>_. NULL)\<rparr>;
          s = fold (\<lambda>i. idt_set (of_nat i) (stub i) 0x8E) [0..<256] s;
          s = s\<lparr>idt_limit := 256 * 16 - 1, idt_base := base\<rparr>
      in (s, pic_init B d))"

definition exceptions :: "string list" where
  "exceptions =
     [''Divide Error'', ''Debug'', ''NMI'', ''Breakpoint'',
      ''Overflow'', ''Bound Range'', ''Invalid Opcode'', ''Device Not Available'',
      ''Double Fault'', ''Coprocessor Segment'', ''Invalid TSS'', ''Segment Not Present'',
      ''Stack Fault'', ''General Protection'', ''Page Fault'', ''Reserved'',
      ''x87 FP'', ''Alignment Check'', ''Machine Check'', ''SIMD FP'',
      ''Virtualization'', ''Control Protection'', ''Reserved'', ''Reserved'',
      ''Reserved'', ''Reserved'', ''Reserved'', ''Reserved'',
      ''Hypervisor Injection'', ''VMM Communication'', ''Security'', ''Reserved'']"

text \<open>A call of the handler at an address is the parameter \<open>call\<close>.\<close>

definition isr_dispatch ::
    "'d bus \<Rightarrow> (addr \<Rightarrow> interrupt_frame_t \<Rightarrow> 'd \<Rightarrow> 'd) \<Rightarrow> irq_state \<Rightarrow> interrupt_frame_t \<Rightarrow> 'd \<Rightarrow> 'd run" where
  "isr_dispatch B call s frame d =
     (if int_no frame < 32 then
        let name = exceptions ! unat (int_no frame) in
        if int_no frame = 14 then fail (Panic (''Page Fault '' @ name)) else fail (Panic (''Exception '' @ name))
      else if int_no frame \<ge> 32 \<and> int_no frame < 48 then
        let irq = ucast (int_no frame - 32) :: u8;
            h = irq_handlers s (unat irq);
            d = (if h \<noteq> NULL then call h frame d else d)
        in ret (irq_ack B irq d)
      else ret d)"

section \<open>Properties\<close>

text \<open>The address that the processor takes from an entry.\<close>

definition idt_target :: "idt_entry_t \<Rightarrow> addr" where
  "idt_target e = ucast (offset_low e) OR push_bit 16 (ucast (offset_mid e)) OR push_bit 32 (ucast (offset_high e))"

lemma split_address:
  "ucast (ucast (h AND mask 16 :: u64) :: u16) OR push_bit 16 (ucast (ucast (drop_bit 16 h AND mask 16) :: u16)) OR
     push_bit 32 (ucast (ucast (drop_bit 32 h AND mask 32) :: u32)) = h" (is "?w = h")
proof (rule bit_word_eqI)
  fix n
  assume n: "n < LENGTH(64)"
  consider "n < 16" | "16 \<le> n" "n < 32" | "32 \<le> n" by linarith
  then show "bit ?w n = bit h n" using n by cases (simp_all add: bit_simps less_diff_conv2)
qed

lemma idt_set_target: "idt_target (idt (idt_set v h a s) v) = h"
proof -
  have "(0xFFFF :: u64) = mask 16" "(0xFFFFFFFF :: u64) = mask 32" by (simp_all add: mask_eq_exp_minus_1)
  then show ?thesis using split_address [of h] by (simp add: idt_target_def idt_set_def)
qed

lemma idt_set_other: "v \<noteq> w \<Longrightarrow> idt (idt_set w h a s) v = idt s v"
  by (simp add: idt_set_def)

lemma idt_fold:
  "k \<le> 256 \<Longrightarrow> unat v < k \<Longrightarrow>
     idt (fold (\<lambda>i. idt_set (of_nat i) (stub i) a) [0..<k] s) v = idt (idt_set v (stub (unat v)) a s) v"
proof (induction k)
  case (Suc k)
  show ?case
  proof (cases "unat v = k")
    case True
    then have "of_nat k = v" by auto
    then show ?thesis using True by (simp add: idt_set_def)
  next
    case False
    then have "of_nat k \<noteq> v" using Suc.prems by (auto simp: unat_of_nat)
    then show ?thesis using Suc False by (simp add: idt_set_other)
  qed
qed simp

text \<open>
  The interrupt table. After \<^verbatim>\<open>idt_init\<close> every one of the 256 vectors is a present interrupt gate
  of the kernel code segment that leads to the stub of this vector, and no device handler is
  installed.
\<close>

theorem idt_init_vectors:
  "\<exists>s' d'. idt_init B stub base s d = (s', d') \<and> idt_base s' = base \<and> idt_limit s' = 4095 \<and> irq_handlers s' = (\<lambda>_. NULL) \<and>
     (\<forall>v. idt_target (idt s' v) = stub (unat v) \<and> selector (idt s' v) = 8 \<and> type_attr (idt s' v) = 0x8E \<and> ist (idt s' v) = 0)"
proof -
  let ?s0 = "s\<lparr>idt := (\<lambda>_. idt_zero), irq_handlers := (\<lambda>_. NULL)\<rparr>"
  let ?s1 = "fold (\<lambda>i. idt_set (of_nat i) (stub i) 0x8E) [0..<256] ?s0"
  have "irq_handlers (fold (\<lambda>i. idt_set (of_nat i) (stub i) 0x8E) xs t) = irq_handlers t" for xs t
    by (induction xs arbitrary: t) (simp_all add: idt_set_def)
  then have h: "irq_handlers ?s1 = (\<lambda>_. NULL)" by simp
  have e: "idt ?s1 v = idt (idt_set v (stub (unat v)) 0x8E ?s0) v" for v
    using unsigned_less [of v, where ?'a = nat] by (intro idt_fold) simp_all
  have "idt_target (idt ?s1 v) = stub (unat v) \<and> selector (idt ?s1 v) = 8 \<and> type_attr (idt ?s1 v) = 0x8E \<and> ist (idt ?s1 v) = 0" for v
    unfolding e by (simp add: idt_set_target) (simp add: idt_set_def)
  then show ?thesis using h by (simp add: idt_init_def Let_def)
qed

text \<open>
  Dispatch. A handler installed with \<^verbatim>\<open>irq_install\<close> is the one that runs when its interrupt
  arrives, followed by the acknowledgement; the handlers of other interrupts are kept. A
  processor exception never returns, and a vector above the hardware interrupts does nothing.
\<close>

theorem irq_install_dispatch:
  assumes "irq < 16"
  shows "\<exists>s' d'. irq_install B irq h s d = (s', d') \<and>
    (\<forall>k. k \<noteq> unat irq \<longrightarrow> irq_handlers s' k = irq_handlers s k) \<and>
    (\<forall>call frame e. int_no frame = 32 + ucast irq \<longrightarrow>
       isr_dispatch B call s' frame e = ret (irq_ack B irq (if h \<noteq> NULL then call h frame e else e))) \<and>
    (\<forall>call frame e. int_no frame < 32 \<longrightarrow> (\<exists>msg. isr_dispatch B call s' frame e = fail (Panic msg))) \<and>
    (\<forall>call frame e. 48 \<le> int_no frame \<longrightarrow> isr_dispatch B call s' frame e = ret e)"
proof -
  obtain s' d' where i: "irq_install B irq h s d = (s', d')" by (cases "irq_install B irq h s d")
  then have s': "irq_handlers s' = (irq_handlers s)(unat irq := h)"
    using assms by (auto simp: irq_install_def Let_def split: if_splits prod.splits)
  have "unat irq < 16" using assms by (simp add: word_less_nat_alt)
  then have "(32 + ucast irq :: u64) \<ge> 32" "(32 + ucast irq :: u64) < 48"
    using unat_add_u64 [of 32 "ucast irq"] by (auto simp: word_le_nat_alt word_less_nat_alt)
  moreover from this have "\<not> (32 + ucast irq :: u64) < 32" by simp
  moreover have "(ucast (32 + ucast irq - 32 :: u64) :: u8) = irq" by (simp, rule bit_word_eqI) (simp add: bit_simps)
  ultimately have "isr_dispatch B call s' frame e = ret (irq_ack B irq (if h \<noteq> NULL then call h frame e else e))"
    if "int_no frame = 32 + ucast irq" for call frame e
    using that s' by (simp add: isr_dispatch_def Let_def)
  moreover have "\<exists>msg. isr_dispatch B call s' frame e = fail (Panic msg)" if "int_no frame < 32" for call frame e
    using that unfolding isr_dispatch_def Let_def by (auto simp del: append.simps)
  moreover have "isr_dispatch B call s' frame e = ret e" if "48 \<le> int_no frame" for call frame e
    using that by (auto simp: isr_dispatch_def Let_def word_le_nat_alt word_less_nat_alt)
  ultimately show ?thesis using i s' by simp
qed

text \<open>A concrete pair of controllers: the number of initialisation words still expected, and the mask, of each.\<close>

definition pic_dev :: "(nat \<times> u8 \<times> nat \<times> u8) bus" where
  "pic_dev = \<lparr>inb = (\<lambda>p (i, m, j, n). (if p = 0x21 then m else if p = 0xA1 then n else 0, (i, m, j, n))),
     outb = (\<lambda>p v (i, m, j, n).
       if p = 0x20 then (if bit v 4 then (3, m, j, n) else (i, m, j, n))
       else if p = 0xA0 then (if bit v 4 then (i, m, 3, n) else (i, m, j, n))
       else if p = 0x21 then (if i > 0 then (i - 1, m, j, n) else (i, v, j, n))
       else if p = 0xA1 then (if j > 0 then (i, m, j - 1, n) else (i, m, j, v))
       else (i, m, j, n)),
     outw = (\<lambda>_ _ d. d), inl = (\<lambda>_ d. (0, d)), outl = (\<lambda>_ _ d. d)\<rparr>"

theorem irq_install_dispatch_witness:
  "\<exists>s' d'. irq_install pic_dev 1 0x200 \<lparr>idt = (\<lambda>_. idt_zero), idt_limit = 0, idt_base = 0, irq_handlers = (\<lambda>_. NULL)\<rparr> (0, 0, 0, 0) = (s', d') \<and>
     (\<forall>call frame e. int_no frame = 33 \<longrightarrow> isr_dispatch pic_dev call s' frame e = ret (irq_ack pic_dev 1 (call 0x200 frame e)))"
proof -
  have "(0x200 :: addr) \<noteq> NULL" "(32 :: u64) + ucast (1 :: u8) = 33" by (simp_all add: NULL_def)
  then show ?thesis
    using irq_install_dispatch [of 1 pic_dev "0x200" "\<lparr>idt = (\<lambda>_. idt_zero), idt_limit = 0, idt_base = 0, irq_handlers = (\<lambda>_. NULL)\<rparr>" "(0, 0, 0, 0)"]
    by auto
qed

section \<open>The cascade line\<close>

text \<open>
  What the code relies on of the 8259 pair: after the initialisation sequence a write to a data
  port replaces the mask of this controller, a read returns it, and other writes to the ports of
  the kernel do not touch it. A line of the second controller reaches the processor only
  through line 2 of the first.
\<close>

definition pic_masks :: "'d bus \<Rightarrow> ('d \<Rightarrow> u8) \<Rightarrow> ('d \<Rightarrow> u8) \<Rightarrow> ('d \<Rightarrow> bool) \<Rightarrow> bool" where
  "pic_masks B master slave ready \<longleftrightarrow>
     (\<forall>d. ready (pic_init B d) \<and> master (pic_init B d) = 0xFC \<and> slave (pic_init B d) = 0xFF) \<and>
     (\<forall>d v. ready d \<longrightarrow> ready (outb B 0x21 v d) \<and> master (outb B 0x21 v d) = v \<and> slave (outb B 0x21 v d) = slave d) \<and>
     (\<forall>d v. ready d \<longrightarrow> ready (outb B 0xA1 v d) \<and> slave (outb B 0xA1 v d) = v \<and> master (outb B 0xA1 v d) = master d) \<and>
     (\<forall>d. ready d \<longrightarrow> inb B 0x21 d = (master d, d) \<and> inb B 0xA1 d = (slave d, d))"

definition deliverable :: "u8 \<Rightarrow> u8 \<Rightarrow> nat \<Rightarrow> bool" where
  "deliverable master slave irq \<longleftrightarrow>
     (if irq < 8 then \<not> bit master irq else \<not> bit master 2 \<and> \<not> bit slave (irq - 8))"

text \<open>
  The mouse interrupt never arrives. \<^verbatim>\<open>irq_install\<close> clears the mask bit of the line it is called
  for, but nobody clears the mask bit of the cascade line 2 that \<^verbatim>\<open>pic_init\<close> has set: after the
  kernel has installed its three handlers, the timer and the keyboard can interrupt, and the
  mouse on line 12 cannot, although its own mask bit is clear.
\<close>

theorem mouse_irq_masked:
  assumes pic: "pic_masks B master slave ready"
  shows "\<exists>s1 d1 s2 d2 s3 d3. irq_install B 0 timer s (pic_init B d) = (s1, d1) \<and> irq_install B 1 keyboard s1 d1 = (s2, d2) \<and>
    irq_install B 12 mouse s2 d2 = (s3, d3) \<and> deliverable (master d3) (slave d3) 0 \<and> deliverable (master d3) (slave d3) 1 \<and>
    \<not> bit (slave d3) 4 \<and> \<not> deliverable (master d3) (slave d3) 12"
proof -
  let ?d0 = "pic_init B d"
  have d0: "ready ?d0" "master ?d0 = 0xFC" "slave ?d0 = 0xFF" using pic by (auto simp: pic_masks_def)
  have m: "ready e \<Longrightarrow> inb B 0x21 e = (master e, e)" "ready e \<Longrightarrow> inb B 0xA1 e = (slave e, e)" for e
    using pic by (auto simp: pic_masks_def)
  have w: "ready e \<Longrightarrow> ready (outb B 0x21 v e) \<and> master (outb B 0x21 v e) = v \<and> slave (outb B 0x21 v e) = slave e"
    "ready e \<Longrightarrow> ready (outb B 0xA1 v e) \<and> slave (outb B 0xA1 v e) = v \<and> master (outb B 0xA1 v e) = master e" for e v
    using pic by (auto simp: pic_masks_def)
  show ?thesis
    by (simp add: irq_install_def Let_def m w d0 deliverable_def)
qed

lemma pic_dev_masks:
  "pic_masks pic_dev (\<lambda>(i, m, j, n). m) (\<lambda>(i, m, j, n). n) (\<lambda>(i, m, j, n). i = 0 \<and> j = 0)"
  by (simp add: pic_masks_def pic_dev_def pic_init_def outbs_def split: prod.splits)

theorem mouse_irq_masked_witness:
  "\<exists>s1 d1 s2 d2 s3 d3.
     irq_install pic_dev 0 0x100 \<lparr>idt = (\<lambda>_. idt_zero), idt_limit = 0, idt_base = 0, irq_handlers = (\<lambda>_. NULL)\<rparr>
       (pic_init pic_dev (0, 0, 0, 0)) = (s1, d1) \<and> irq_install pic_dev 1 0x200 s1 d1 = (s2, d2) \<and>
     irq_install pic_dev 12 0x300 s2 d2 = (s3, d3) \<and> \<not> deliverable (fst (snd d3)) (snd (snd (snd d3))) 12"
  using mouse_irq_masked [OF pic_dev_masks] by (fastforce simp: split_beta)

end
