(* ===== verification/H3_Input.thy ===== *)
theory H3_Input
  imports H3_Ports H3_Fb
begin

text \<open>
  The PS/2 drivers: the keyboard of \<^verbatim>\<open>drivers/keyboard/keyboard.c\<close> with its ring buffer, and the mouse of
  \<^verbatim>\<open>drivers/mouse/mouse.c\<close>. Both read their device through the ports of a \<open>bus\<close>.
\<close>

section \<open>Keyboard\<close>

definition KBD_BUF_SIZE :: u32 where
  "KBD_BUF_SIZE = 256"

record kbd_state =
  kbd_buf :: "u8 list"
  kbd_head :: u32
  kbd_tail :: u32
  shift :: bool
  caps :: bool
  ctrl :: bool

text \<open>The entries that the initialisers leave out are 0.\<close>

definition scancode_map :: "u8 list" where
  "scancode_map =
     [0, 27, 49, 50, 51, 52, 53, 54, 55, 56, 57, 48, 45, 61, 8, 9,
      113, 119, 101, 114, 116, 121, 117, 105, 111, 112, 91, 93, 10, 0, 97, 115,
      100, 102, 103, 104, 106, 107, 108, 59, 39, 96, 0, 92, 122, 120, 99, 118,
      98, 110, 109, 44, 46, 47, 0, 42, 0, 32, 0] @ replicate 69 0"

definition scancode_map_shift :: "u8 list" where
  "scancode_map_shift =
     [0, 27, 33, 64, 35, 36, 37, 94, 38, 42, 40, 41, 95, 43, 8, 9,
      81, 87, 69, 82, 84, 89, 85, 73, 79, 80, 123, 125, 10, 0, 65, 83,
      68, 70, 71, 72, 74, 75, 76, 58, 34, 126, 0, 124, 90, 88, 67, 86,
      66, 78, 77, 60, 62, 63, 0, 42, 0, 32, 0] @ replicate 69 0"

definition kbd_push :: "u8 \<Rightarrow> kbd_state \<Rightarrow> kbd_state" where
  "kbd_push c k =
     (let nxt = (kbd_head k + 1) mod KBD_BUF_SIZE in
      if nxt = kbd_tail k then k
      else k\<lparr>kbd_buf := (kbd_buf k)[unat (kbd_head k) := c], kbd_head := nxt\<rparr>)"

text \<open>What the handler does with a scancode, and the handler.\<close>

definition kbd_char :: "u8 \<Rightarrow> kbd_state \<Rightarrow> u8" where
  "kbd_char sc k =
     (if sc < 128 then
        let upper = (shift k \<noteq> caps k);
            c = (if upper then scancode_map_shift ! unat sc else scancode_map ! unat sc);
            c = (if \<not> shift k \<and> caps k \<and> c \<ge> 97 \<and> c \<le> 122 then c - 32 else c)
        in (if shift k \<and> caps k \<and> c \<ge> 65 \<and> c \<le> 90 then c + 32 else c)
      else 0)"

definition kbd_scancode :: "u8 \<Rightarrow> kbd_state \<Rightarrow> kbd_state" where
  "kbd_scancode sc k =
     (if sc = 0x1D then k\<lparr>ctrl := True\<rparr>
      else if sc = 0x9D then k\<lparr>ctrl := False\<rparr>
      else if sc = 0x2A \<or> sc = 0x36 then k\<lparr>shift := True\<rparr>
      else if sc = 0xAA \<or> sc = 0xB6 then k\<lparr>shift := False\<rparr>
      else if sc = 0x3A then k\<lparr>caps := \<not> caps k\<rparr>
      else if sc AND 0x80 \<noteq> 0 then k
      else let c = kbd_char sc k in
        if c = 0 then k
        else let base = (if c \<ge> 65 \<and> c \<le> 90 then c - 65 + 97 else c) in
          if ctrl k \<and> base \<ge> 97 \<and> base \<le> 122 then kbd_push (base - 97 + 1) k
          else kbd_push c k)"

definition keyboard_irq :: "'d bus \<Rightarrow> kbd_state \<Rightarrow> 'd \<Rightarrow> kbd_state \<times> 'd" where
  "keyboard_irq B k d = (let (sc, d) = inb B 0x60 d in (kbd_scancode sc k, d))"

definition keyboard_init :: "'d bus \<Rightarrow> addr \<Rightarrow> kbd_state \<Rightarrow> irq_state \<Rightarrow> 'd \<Rightarrow> kbd_state \<times> irq_state \<times> 'd" where
  "keyboard_init B irq_fn k s d =
     (k\<lparr>kbd_head := 0, kbd_tail := 0, shift := False, caps := False, ctrl := False\<rparr>, irq_install B 1 irq_fn s d)"

definition keyboard_has_char :: "kbd_state \<Rightarrow> bool" where
  "keyboard_has_char k \<longleftrightarrow> kbd_head k \<noteq> kbd_tail k"

definition keyboard_try_read :: "kbd_state \<Rightarrow> u8 option \<times> kbd_state" where
  "keyboard_try_read k =
     (if kbd_head k = kbd_tail k then (None, k)
      else (Some (kbd_buf k ! unat (kbd_tail k)), k\<lparr>kbd_tail := (kbd_tail k + 1) mod KBD_BUF_SIZE\<rparr>))"

definition keyboard_read_char :: "kbd_state \<Rightarrow> u8 \<times> kbd_state" where
  "keyboard_read_char k = (case keyboard_try_read k of (None, k) \<Rightarrow> (0, k) | (Some c, k) \<Rightarrow> (c, k))"

section \<open>Mouse\<close>

record mouse_state_t =
  m_x :: i32
  m_y :: i32
  m_dx :: i32
  m_dy :: i32
  m_left :: bool
  m_right :: bool
  m_middle :: bool
  m_left_pressed :: bool
  m_left_released :: bool
  m_right_pressed :: bool
  m_right_released :: bool

record mouse_drv =
  g_mouse :: mouse_state_t
  prev_left :: bool
  prev_right :: bool
  cycle :: u8
  packet :: "u8 list"

primrec wait_port :: "'d bus \<Rightarrow> (u8 \<Rightarrow> bool) \<Rightarrow> nat \<Rightarrow> 'd \<Rightarrow> 'd" where
  "wait_port B ready 0 d = d"
| "wait_port B ready (Suc n) d = (let (v, d) = inb B 0x64 d in if ready v then d else wait_port B ready n d)"

definition mouse_wait_write :: "'d bus \<Rightarrow> 'd \<Rightarrow> 'd" where
  "mouse_wait_write B = wait_port B (\<lambda>v. v AND 2 = 0) 100000"

definition mouse_wait_read :: "'d bus \<Rightarrow> 'd \<Rightarrow> 'd" where
  "mouse_wait_read B = wait_port B (\<lambda>v. v AND 1 \<noteq> 0) 100000"

definition mouse_write :: "'d bus \<Rightarrow> u8 \<Rightarrow> 'd \<Rightarrow> 'd" where
  "mouse_write B v d = outb B 0x60 v (mouse_wait_write B (outb B 0x64 0xD4 (mouse_wait_write B d)))"

definition mouse_read :: "'d bus \<Rightarrow> 'd \<Rightarrow> u8 \<times> 'd" where
  "mouse_read B d = inb B 0x60 (mouse_wait_read B d)"

text \<open>A complete packet. \<^verbatim>\<open>(i32)(i8)\<close> is a sign extension.\<close>

definition clamp_mouse :: "fb_t \<Rightarrow> mouse_state_t \<Rightarrow> mouse_state_t" where
  "clamp_mouse g m =
     (if fb_width g \<noteq> 0 \<and> fb_height g \<noteq> 0 then
        let m = (if m_x m <s 0 then m\<lparr>m_x := 0\<rparr> else m);
            m = (if m_y m <s 0 then m\<lparr>m_y := 0\<rparr> else m);
            m = (if fb_width g \<le>s m_x m then m\<lparr>m_x := fb_width g - 1\<rparr> else m)
        in (if fb_height g \<le>s m_y m then m\<lparr>m_y := fb_height g - 1\<rparr> else m)
      else m)"

definition mouse_packet :: "fb_t \<Rightarrow> mouse_drv \<Rightarrow> mouse_drv" where
  "mouse_packet g s =
     (let dx = scast (packet s ! 1) :: i32; dy = - scast (packet s ! 2) :: i32 in
      if packet s ! 0 AND 0xC0 \<noteq> 0 then s
      else let m = g_mouse s;
               m = clamp_mouse g (m\<lparr>m_dx := dx, m_dy := dy, m_x := m_x m + dx, m_y := m_y m + dy\<rparr>);
               left = (packet s ! 0 AND 1 \<noteq> 0); right = (packet s ! 0 AND 2 \<noteq> 0);
               m = m\<lparr>m_middle := (packet s ! 0 AND 4 \<noteq> 0)\<rparr>;
               m = (if left \<and> \<not> prev_left s then m\<lparr>m_left_pressed := True\<rparr> else m);
               m = (if \<not> left \<and> prev_left s then m\<lparr>m_left_released := True\<rparr> else m);
               m = (if right \<and> \<not> prev_right s then m\<lparr>m_right_pressed := True\<rparr> else m);
               m = (if \<not> right \<and> prev_right s then m\<lparr>m_right_released := True\<rparr> else m)
           in s\<lparr>g_mouse := m\<lparr>m_left := left, m_right := right\<rparr>, prev_left := left, prev_right := right\<rparr>)"

text \<open>A byte from the device; a write to \<^verbatim>\<open>packet\<close> behind its three bytes is an overflow.\<close>

definition mouse_byte :: "fb_t \<Rightarrow> u8 \<Rightarrow> mouse_drv \<Rightarrow> mouse_drv run" where
  "mouse_byte g data s =
     (if cycle s = 0 \<and> data AND 0x08 = 0 then ret s
      else if cycle s \<ge> 3 then fail Overflow
      else let s = s\<lparr>packet := (packet s)[unat (cycle s) := data], cycle := cycle s + 1\<rparr> in
        if cycle s < 3 then ret s else ret (mouse_packet g (s\<lparr>cycle := 0\<rparr>)))"

definition mouse_irq :: "'d bus \<Rightarrow> fb_t \<Rightarrow> mouse_drv \<Rightarrow> 'd \<Rightarrow> (mouse_drv \<times> 'd) run" where
  "mouse_irq B g s d =
     (let (data, d) = inb B 0x60 d in run_bind (mouse_byte g data s) (\<lambda>s. ret (s, d)))"

definition mouse_zero :: mouse_state_t where
  "mouse_zero = \<lparr>m_x = 0, m_y = 0, m_dx = 0, m_dy = 0, m_left = False, m_right = False, m_middle = False,
     m_left_pressed = False, m_left_released = False, m_right_pressed = False, m_right_released = False\<rparr>"

definition mouse_init :: "'d bus \<Rightarrow> addr \<Rightarrow> mouse_drv \<Rightarrow> irq_state \<Rightarrow> 'd \<Rightarrow> mouse_drv \<times> irq_state \<times> 'd" where
  "mouse_init B irq_fn s q d =
     (let s = s\<lparr>g_mouse := mouse_zero\<lparr>m_x := 640, m_y := 360\<rparr>, cycle := 0, prev_left := False, prev_right := False\<rparr>;
          d = outb B 0x64 0xA8 (mouse_wait_write B d);
          d = mouse_wait_read B (outb B 0x64 0x20 (mouse_wait_write B d));
          (status, d) = inb B 0x60 d;
          status = (status OR 0x02) AND NOT 0x20;
          d = outb B 0x64 0x60 (mouse_wait_write B d);
          d = outb B 0x60 status (mouse_wait_write B d);
          (_, d) = mouse_read B (mouse_write B 0xF6 d);
          (_, d) = mouse_read B (mouse_write B 0xF4 d)
      in (s, irq_install B 12 irq_fn q d))"

definition mouse_get :: "mouse_drv \<Rightarrow> mouse_state_t" where
  "mouse_get s = g_mouse s"

definition mouse_poll_frame :: "mouse_drv \<Rightarrow> mouse_drv" where
  "mouse_poll_frame s = s\<lparr>g_mouse := (g_mouse s)\<lparr>m_left_pressed := False, m_left_released := False,
     m_right_pressed := False, m_right_released := False, m_dx := 0, m_dy := 0\<rparr>\<rparr>"

definition mouse_draw_cursor :: "fb_t \<Rightarrow> mouse_drv \<Rightarrow> mem \<Rightarrow> mem option" where
  "mouse_draw_cursor g s m =
     (let x = m_x (g_mouse s); y = m_y (g_mouse s);
          m = fold (\<lambda>i m.
                fold (\<lambda>j. fb_put_pixel g (x + of_nat j) (y + of_nat i) 0xFFF5FBFD)
                  [0..<min 9 (Suc (if i < 10 then i else 14 - i))]
                  (fb_put_pixel g x (y + of_nat i) 0xFF2EC4B6 m)) [0..<14] m
      in fb_draw_line g x y (x + 5) (y + 12) 0xFF061018 m)"

section \<open>The contract of a bounded queue\<close>

text \<open>
  Any interleaving of pushes (\<open>Some x\<close>) and reads (\<open>None\<close>) on a queue, with the results of the reads,
  and the same on a list of at most \<open>cap\<close> elements, where a push on a full list is dropped.
\<close>

primrec queue_run :: "('a \<Rightarrow> 'q \<Rightarrow> 'q) \<Rightarrow> ('q \<Rightarrow> 'a option \<times> 'q) \<Rightarrow> 'a option list \<Rightarrow> 'q \<Rightarrow> 'a option list \<times> 'q" where
  "queue_run push pop [] q = ([], q)"
| "queue_run push pop (e # es) q =
     (case e of
        Some x \<Rightarrow> queue_run push pop es (push x q)
      | None \<Rightarrow> (let (r, q) = pop q; (rs, q) = queue_run push pop es q in (r # rs, q)))"

primrec queue_spec :: "nat \<Rightarrow> 'a option list \<Rightarrow> 'a list \<Rightarrow> 'a option list \<times> 'a list" where
  "queue_spec cap [] xs = ([], xs)"
| "queue_spec cap (e # es) xs =
     (case e of
        Some x \<Rightarrow> queue_spec cap es (if length xs < cap then xs @ [x] else xs)
      | None \<Rightarrow> (let (rs, ys) = queue_spec cap es (tl xs) in ((if xs = [] then None else Some (hd xs)) # rs, ys)))"

text \<open>\<open>abs\<close> is the list of the queued elements, oldest first.\<close>

locale bounded_queue =
  fixes inv :: "'q \<Rightarrow> bool" and abs :: "'q \<Rightarrow> 'a list" and cap :: nat
    and push :: "'a \<Rightarrow> 'q \<Rightarrow> 'q" and pop :: "'q \<Rightarrow> 'a option \<times> 'q"
  assumes inv_push: "inv q \<Longrightarrow> inv (push x q)" and inv_pop: "inv q \<Longrightarrow> inv (snd (pop q))"
    and abs_push: "inv q \<Longrightarrow> abs (push x q) = (if length (abs q) < cap then abs q @ [x] else abs q)"
    and pop_result: "inv q \<Longrightarrow> fst (pop q) = (if abs q = [] then None else Some (hd (abs q)))"
    and abs_pop: "inv q \<Longrightarrow> abs (snd (pop q)) = tl (abs q)"
    and abs_cap: "inv q \<Longrightarrow> length (abs q) \<le> cap"
begin

lemma run_refines:
  "inv q \<Longrightarrow> inv (snd (queue_run push pop es q)) \<and>
     queue_spec cap es (abs q) = (fst (queue_run push pop es q), abs (snd (queue_run push pop es q)))"
proof (induction es arbitrary: q)
  case (Cons e es)
  show ?case
  proof (cases e)
    case None
    obtain r q' where q': "pop q = (r, q')" by (cases "pop q")
    then have "inv q'" "abs q' = tl (abs q)" "r = (if abs q = [] then None else Some (hd (abs q)))"
      using inv_pop [OF Cons.prems] abs_pop [OF Cons.prems] pop_result [OF Cons.prems] by auto
    then show ?thesis using Cons.IH [of q'] None q' by (auto simp: Let_def split: prod.splits)
  next
    case (Some x)
    then show ?thesis using Cons.IH [OF inv_push [OF Cons.prems], of x] abs_push [OF Cons.prems, of x] by simp
  qed
qed simp

end

definition kbd_inv :: "kbd_state \<Rightarrow> bool" where
  "kbd_inv k \<longleftrightarrow> length (kbd_buf k) = 256 \<and> kbd_head k < 256 \<and> kbd_tail k < 256"

definition kbd_abs :: "kbd_state \<Rightarrow> u8 list" where
  "kbd_abs k = map (\<lambda>i. kbd_buf k ! ((unat (kbd_tail k) + i) mod 256)) [0..<(unat (kbd_head k) + 256 - unat (kbd_tail k)) mod 256]"

lemma ring_succ: "h < 256 \<Longrightarrow> unat ((h + 1) mod 256 :: u32) = (unat h + 1) mod 256"
  by (simp add: unat_mod unat_word_ariths word_less_nat_alt)

lemma ring_length: "h < 256 \<Longrightarrow> t < 256 \<Longrightarrow> (h + 1) mod 256 \<noteq> t \<Longrightarrow>
    ((h + 1) mod 256 + 256 - t) mod 256 = Suc ((h + 256 - t) mod (256 :: nat)) \<and> (t + (h + 256 - t) mod 256) mod 256 = h"
  by (cases "t \<le> h"; cases "h = 255") (auto simp: mod_if)

lemma ring_full: "h < 256 \<Longrightarrow> t < 256 \<Longrightarrow> (h + 1) mod 256 = t \<Longrightarrow> (h + 256 - t) mod (256 :: nat) = 255"
  by (cases "h = 255") (auto simp: mod_if)

lemma ring_index_inj:
  fixes t i n :: nat
  assumes "i < n" "n < 256" "(t + i) mod 256 = (t + n) mod 256"
  shows False
proof -
  have "256 dvd (t + n) - (t + i)" using assms by (intro mod_eq_dvd_iff_nat [THEN iffD1]) simp_all
  then have "256 dvd n - i" by simp
  then show False using assms(1,2) by (auto dest: dvd_imp_le)
qed

lemma kbd_push_abs:
  assumes "kbd_inv k"
  shows "kbd_abs (kbd_push c k) = (if length (kbd_abs k) < 255 then kbd_abs k @ [c] else kbd_abs k)"
proof -
  let ?h = "unat (kbd_head k)" and ?t = "unat (kbd_tail k)"
  have b: "?h < 256" "?t < 256" "length (kbd_buf k) = 256" using assms by (auto simp: kbd_inv_def word_less_nat_alt)
  let ?n = "(?h + 256 - ?t) mod 256"
  have len: "length (kbd_abs k) = ?n" by (simp add: kbd_abs_def)
  have nxt: "unat ((kbd_head k + 1) mod 256) = (?h + 1) mod 256" using assms by (intro ring_succ) (simp add: kbd_inv_def)
  show ?thesis
  proof (cases "(kbd_head k + 1) mod 256 = kbd_tail k")
    case True
    then have "(?h + 1) mod 256 = ?t" using nxt by simp
    then have "?n = 255" using ring_full [OF b(1,2)] by simp
    then show ?thesis using True len by (simp add: kbd_push_def KBD_BUF_SIZE_def Let_def)
  next
    case False
    then have "(?h + 1) mod 256 \<noteq> ?t" using nxt by (auto simp: word_unat_eq_iff)
    then have r: "((?h + 1) mod 256 + 256 - ?t) mod 256 = Suc ?n" "(?t + ?n) mod 256 = ?h"
      using ring_length [OF b(1,2)] by auto
    have n: "?n < 255"
    proof -
      have "((?h + 1) mod 256 + 256 - ?t) mod 256 < 256" by simp
      then show ?thesis using r(1) by linarith
    qed
    have p: "kbd_push c k = k\<lparr>kbd_buf := (kbd_buf k)[?h := c], kbd_head := (kbd_head k + 1) mod 256\<rparr>"
      using False by (simp add: kbd_push_def KBD_BUF_SIZE_def Let_def)
    have "kbd_abs (kbd_push c k) = map (\<lambda>i. (kbd_buf k)[?h := c] ! ((?t + i) mod 256)) [0..<Suc ?n]"
      unfolding kbd_abs_def p using r(1) nxt by simp
    also have "\<dots> = kbd_abs k @ [c]"
    proof -
      have "(kbd_buf k)[?h := c] ! ((?t + i) mod 256) = kbd_buf k ! ((?t + i) mod 256)" if "i < ?n" for i
        using ring_index_inj [OF that, of ?t] n r(2) by (intro nth_list_update_neq) auto
      then have "map (\<lambda>i. (kbd_buf k)[?h := c] ! ((?t + i) mod 256)) [0..<?n] = kbd_abs k" by (auto simp: kbd_abs_def)
      then show ?thesis using r(2) b by simp
    qed
    finally show ?thesis using n len by simp
  qed
qed

lemma kbd_read_abs:
  assumes "kbd_inv k"
  shows "fst (keyboard_try_read k) = (if kbd_abs k = [] then None else Some (hd (kbd_abs k)))"
    and "kbd_abs (snd (keyboard_try_read k)) = tl (kbd_abs k)"
proof -
  let ?h = "unat (kbd_head k)" and ?t = "unat (kbd_tail k)"
  let ?n = "(?h + 256 - ?t) mod 256"
  have b: "?h < 256" "?t < 256" using assms by (auto simp: kbd_inv_def word_less_nat_alt)
  have "fst (keyboard_try_read k) = (if kbd_abs k = [] then None else Some (hd (kbd_abs k))) \<and>
    kbd_abs (snd (keyboard_try_read k)) = tl (kbd_abs k)"
  proof (cases "kbd_head k = kbd_tail k")
    case True
    then show ?thesis by (simp add: keyboard_try_read_def kbd_abs_def)
  next
    case False
    then have ne: "?h \<noteq> ?t" by (simp add: word_unat_eq_iff)
    have nxt: "unat ((kbd_tail k + 1) mod 256) = (?t + 1) mod 256" using assms by (intro ring_succ) (simp add: kbd_inv_def)
    have n: "?n = Suc ((?h + 256 - (?t + 1) mod 256) mod 256)"
      using b ne by (cases "?t \<le> ?h"; cases "?t = 255") (auto simp: mod_if)
    have "(?t + Suc i) mod 256 = ((?t + 1) mod 256 + i) mod 256" for i by (simp add: mod_simps)
    then have "kbd_abs k = kbd_buf k ! ?t # kbd_abs (k\<lparr>kbd_tail := (kbd_tail k + 1) mod 256\<rparr>)"
      unfolding kbd_abs_def n by (subst upt_conv_Cons) (simp_all add: map_Suc_upt [symmetric] nxt b del: upt_Suc)
    then show ?thesis using False by (simp add: keyboard_try_read_def KBD_BUF_SIZE_def)
  qed
  then show "fst (keyboard_try_read k) = (if kbd_abs k = [] then None else Some (hd (kbd_abs k)))"
    "kbd_abs (snd (keyboard_try_read k)) = tl (kbd_abs k)" by blast+
qed

interpretation kbd: bounded_queue kbd_inv kbd_abs 255 kbd_push keyboard_try_read
proof
  fix k c assume k: "kbd_inv k"
  have m: "(x :: u32) mod 256 < 256" for x by (simp add: word_less_nat_alt unat_mod)
  show "kbd_inv (kbd_push c k)" "kbd_inv (snd (keyboard_try_read k))"
    using k m by (simp_all add: kbd_inv_def kbd_push_def keyboard_try_read_def KBD_BUF_SIZE_def Let_def)
  show "length (kbd_abs k) \<le> 255" by (simp add: kbd_abs_def less_Suc_eq_le [symmetric])
qed (auto simp: kbd_push_abs kbd_read_abs)

section \<open>Properties\<close>

text \<open>
  (C21) The keyboard buffer is a queue. However the interrupt handler's pushes and the reads of
  \<^verbatim>\<open>keyboard_try_read\<close> follow each other, the reads deliver what a first-in first-out queue of at most
  255 characters delivers that drops characters while it is full.
\<close>

theorem keyboard_refines_queue:
  assumes "kbd_inv k"
  shows "\<exists>rs k'. queue_run kbd_push keyboard_try_read es k = (rs, k') \<and> kbd_inv k' \<and> length (kbd_abs k') \<le> 255 \<and>
    queue_spec 255 es (kbd_abs k) = (rs, kbd_abs k')"
  using kbd.run_refines [OF assms, of es] kbd.abs_cap by (cases "queue_run kbd_push keyboard_try_read es k") auto

definition kbd_empty :: kbd_state where
  "kbd_empty = \<lparr>kbd_buf = replicate 256 0, kbd_head = 0, kbd_tail = 0, shift = False, caps = False, ctrl = False\<rparr>"

theorem keyboard_refines_queue_witness:
  "\<exists>k'. queue_run kbd_push keyboard_try_read [Some 7, Some 8, None, None, None] kbd_empty = ([Some 7, Some 8, None], k')"
proof -
  have "kbd_inv kbd_empty" "kbd_abs kbd_empty = []" by (simp_all add: kbd_inv_def kbd_empty_def kbd_abs_def)
  then show ?thesis using keyboard_refines_queue [of kbd_empty "[Some 7, Some 8, None, None, None]"] by auto
qed

text \<open>
  Caps lock acts on every key. With caps lock on, a key delivers the character of the shifted
  layout exactly if shift is up, for digits and punctuation as for letters: the key \<open>1\<close> gives \<open>!\<close>,
  and together with shift it gives \<open>1\<close>.
\<close>

theorem caps_lock_shifts_all_keys:
  assumes "caps k" "sc < 128"
  shows "kbd_char sc k = (if shift k then scancode_map ! unat sc else scancode_map_shift ! unat sc) \<and>
    kbd_char 2 k = (if shift k then 49 else 33)"
proof -
  have c: "scancode_map_shift ! n = x \<Longrightarrow> \<not> (97 \<le> x \<and> x \<le> 122)" "scancode_map ! n = x \<Longrightarrow> \<not> (65 \<le> x \<and> x \<le> 90)" if "n < 128" for n x
  proof -
    have "\<forall>x \<in> set scancode_map_shift. \<not> (97 \<le> x \<and> x \<le> 122)" "\<forall>x \<in> set scancode_map. \<not> (65 \<le> x \<and> x \<le> 90)"
      by (simp_all add: scancode_map_shift_def scancode_map_def)
    moreover have "length scancode_map_shift = 128" "length scancode_map = 128"
      by (simp_all add: scancode_map_shift_def scancode_map_def)
    ultimately show "scancode_map_shift ! n = x \<Longrightarrow> \<not> (97 \<le> x \<and> x \<le> 122)" "scancode_map ! n = x \<Longrightarrow> \<not> (65 \<le> x \<and> x \<le> 90)"
      using that by (metis nth_mem)+
  qed
  have "unat sc < 128" using assms(2) by (simp add: word_less_nat_alt)
  then have "kbd_char sc k = (if shift k then scancode_map ! unat sc else scancode_map_shift ! unat sc)"
    using assms c [of "unat sc"] by (auto simp: kbd_char_def Let_def)
  moreover have "kbd_char 2 k = (if shift k then 49 else 33)"
    using assms(1) by (simp add: kbd_char_def Let_def scancode_map_def scancode_map_shift_def)
  ultimately show ?thesis by simp
qed

theorem caps_lock_shifts_all_keys_witness: "kbd_char 2 (kbd_empty\<lparr>caps := True\<rparr>) = 33"
  using caps_lock_shifts_all_keys [of "kbd_empty\<lparr>caps := True\<rparr>" 2, THEN conjunct2] by (simp add: kbd_empty_def)

text \<open>
  The state between two bytes: the next byte has its place in the packet and the pointer is on
  the screen.
\<close>

definition screen_ok :: "fb_t \<Rightarrow> bool" where
  "screen_ok g \<longleftrightarrow> 0 < unat (fb_width g) \<and> unat (fb_width g) \<le> 2147483520 \<and> 0 < unat (fb_height g) \<and> unat (fb_height g) \<le> 2147483520"

definition on_screen :: "fb_t \<Rightarrow> mouse_state_t \<Rightarrow> bool" where
  "on_screen g m \<longleftrightarrow> 0 \<le> sint (m_x m) \<and> sint (m_x m) < sint (fb_width g) \<and> 0 \<le> sint (m_y m) \<and> sint (m_y m) < sint (fb_height g)"

definition mouse_ok :: "fb_t \<Rightarrow> mouse_drv \<Rightarrow> bool" where
  "mouse_ok g s \<longleftrightarrow> cycle s < 3 \<and> length (packet s) = 3 \<and> on_screen g (g_mouse s)"

definition clamp :: "int \<Rightarrow> int \<Rightarrow> int" where
  "clamp n v = max 0 (min (n - 1) v)"

lemma clamp_range: "0 < n \<Longrightarrow> (0 \<le> clamp n v) = True" "0 < n \<Longrightarrow> (clamp n v < n) = True"
  by (auto simp: clamp_def)

lemma screen_sint:
  assumes "screen_ok g"
  shows "0 < sint (fb_width g)" "sint (fb_width g) \<le> 2147483520" "0 < sint (fb_height g)" "sint (fb_height g) \<le> 2147483520"
    "fb_width g \<noteq> 0" "fb_height g \<noteq> 0"
proof -
  have w: "sint (fb_width g) = int (unat (fb_width g))" "sint (fb_height g) = int (unat (fb_height g))"
    using assms sint_i32 [of "fb_width g"] sint_i32 [of "fb_height g"] by (simp_all only: screen_ok_def split: if_splits) auto
  show "0 < sint (fb_width g)" "sint (fb_width g) \<le> 2147483520" "0 < sint (fb_height g)" "sint (fb_height g) \<le> 2147483520"
    using assms unfolding w screen_ok_def by linarith+
  show "fb_width g \<noteq> 0" "fb_height g \<noteq> 0" using assms by (auto simp: screen_ok_def)
qed

lemma sint_pred: "0 < sint w \<Longrightarrow> sint (w - 1 :: i32) = sint w - 1"
  using sint_lt [of w] by (subst sint_diff_bounded) simp_all

lemma sint_byte_bounds: "- 128 \<le> sint (b :: u8)" "sint b \<le> 127"
  using sint_ge [of b] sint_lt [of b] by simp_all

lemma sint_scast_byte: "sint (scast (b :: u8) :: i32) = sint b"
  by (simp add: signed_scast_eq signed_take_bit_int_eq_self sint_byte_bounds order_trans [OF _ sint_byte_bounds(1)]
      le_less_trans [OF sint_byte_bounds(2)])

lemma clamp_mouse_coords:
  assumes "screen_ok g"
  shows "sint (m_x (clamp_mouse g m)) = clamp (sint (fb_width g)) (sint (m_x m))"
    and "sint (m_y (clamp_mouse g m)) = clamp (sint (fb_height g)) (sint (m_y m))"
  using screen_sint [OF assms] sint_pred [of "fb_width g"] sint_pred [of "fb_height g"]
  by (auto simp: clamp_mouse_def clamp_def Let_def word_sless_alt word_sle_eq)

lemma clamp_mouse_fields:
  "m_left_pressed (clamp_mouse g m) = m_left_pressed m" "m_left_released (clamp_mouse g m) = m_left_released m"
  "m_right_pressed (clamp_mouse g m) = m_right_pressed m" "m_right_released (clamp_mouse g m) = m_right_released m"
  by (auto simp: clamp_mouse_def Let_def)

text \<open>What a complete packet does to the pointer and the buttons.\<close>

definition moved :: "fb_t \<Rightarrow> u8 \<Rightarrow> u8 \<Rightarrow> u8 \<Rightarrow> mouse_drv \<Rightarrow> mouse_drv \<Rightarrow> bool" where
  "moved g b0 b1 b2 s s' \<longleftrightarrow> (let m = g_mouse s; m' = g_mouse s' in
     sint (m_x m') = clamp (sint (fb_width g)) (sint (m_x m) + sint b1) \<and>
     sint (m_y m') = clamp (sint (fb_height g)) (sint (m_y m) - sint b2) \<and>
     m_left m' = bit b0 0 \<and> m_right m' = bit b0 1 \<and> m_middle m' = bit b0 2 \<and>
     m_left_pressed m' = (m_left_pressed m \<or> bit b0 0 \<and> \<not> prev_left s) \<and>
     m_left_released m' = (m_left_released m \<or> \<not> bit b0 0 \<and> prev_left s) \<and>
     m_right_pressed m' = (m_right_pressed m \<or> bit b0 1 \<and> \<not> prev_right s) \<and>
     m_right_released m' = (m_right_released m \<or> \<not> bit b0 1 \<and> prev_right s) \<and>
     prev_left s' = bit b0 0 \<and> prev_right s' = bit b0 1)"

lemma byte_bits: "(b AND 1 \<noteq> 0) = bit b 0" "(b AND 2 \<noteq> 0) = bit b 1" "(b AND 4 \<noteq> 0) = bit (b :: u8) 2"
  using and_exp_eq_0_iff_not_bit [of b 0] and_exp_eq_0_iff_not_bit [of b 1] and_exp_eq_0_iff_not_bit [of b 2] by simp_all

lemma three_bytes: "length xs = 3 \<Longrightarrow> \<exists>a b c. xs = [a, b, c]"
  by (cases xs; cases "tl xs"; cases "tl (tl xs)") auto

lemma packet_moves:
  assumes g: "screen_ok g" and on: "on_screen g (g_mouse s)" and p: "packet s = [b0, b1, b2]" and v: "b0 AND 0xC0 = 0"
  shows "moved g b0 b1 b2 s (mouse_packet g s)"
proof -
  let ?m = "g_mouse s"
  have "sint (m_x ?m + scast b1) = sint (m_x ?m) + sint b1"
    using on screen_sint(2) [OF g] sint_byte_bounds [of b1]
    by (subst sint_add_bounded) (auto simp: on_screen_def sint_scast_byte)
  moreover have "sint (m_y ?m - scast b2) = sint (m_y ?m) - sint b2"
    using on screen_sint(4) [OF g] sint_byte_bounds [of b2]
    by (subst sint_diff_bounded) (auto simp: on_screen_def sint_scast_byte)
  ultimately show ?thesis
    using v p by (simp add: moved_def mouse_packet_def Let_def byte_bits clamp_mouse_coords [OF g] clamp_mouse_fields)
qed

lemma packet_on_screen:
  assumes "screen_ok g" "on_screen g (g_mouse s)" "length (packet s) = 3"
  shows "on_screen g (g_mouse (mouse_packet g s))" "length (packet (mouse_packet g s)) = 3" "cycle (mouse_packet g s) = cycle s"
proof -
  obtain b0 b1 b2 where p: "packet s = [b0, b1, b2]" using three_bytes [OF assms(3)] by blast
  show "on_screen g (g_mouse (mouse_packet g s))"
  proof (cases "b0 AND 0xC0 = 0")
    case True
    note mv = packet_moves [OF assms(1,2) p True, unfolded moved_def Let_def]
    show ?thesis
      unfolding on_screen_def using mv [THEN conjunct1] mv [THEN conjunct2, THEN conjunct1] screen_sint [OF assms(1)]
      by (simp only: clamp_range simp_thms)
  next
    case False
    then show ?thesis using p assms(2) by (simp add: mouse_packet_def Let_def)
  qed
  show "length (packet (mouse_packet g s)) = 3" "cycle (mouse_packet g s) = cycle s"
    using assms(3) by (simp_all add: mouse_packet_def Let_def)
qed

lemma mouse_byte_keeps:
  assumes "screen_ok g" "mouse_ok g s"
  shows "\<exists>s'. mouse_byte g b s = ret s' \<and> mouse_ok g s'"
proof -
  let ?s = "s\<lparr>packet := (packet s)[unat (cycle s) := b], cycle := 0\<rparr>"
  have "on_screen g (g_mouse ?s)" "length (packet ?s) = 3" using assms(2) by (simp_all add: mouse_ok_def)
  note po = packet_on_screen [OF assms(1) this]
  have "cycle s < 3" using assms(2) by (simp add: mouse_ok_def)
  then have "\<not> cycle s \<ge> 3" by simp
  then show ?thesis
    using assms(2) po by (auto simp: mouse_byte_def Let_def mouse_ok_def)
qed

primrec mouse_bytes :: "fb_t \<Rightarrow> u8 list \<Rightarrow> mouse_drv \<Rightarrow> mouse_drv run" where
  "mouse_bytes g [] s = ret s"
| "mouse_bytes g (b # bs) s = run_bind (mouse_byte g b s) (mouse_bytes g bs)"

text \<open>
  (C24) The mouse driver on any stream of bytes. Whatever bytes the device sends, the handler never
  writes outside the packet array, and the pointer stays on the screen. If it stands between two
  packets, a packet without overflow bits moves the pointer by the signed offsets, clamped to the
  screen, and records the buttons and their changes.
\<close>

theorem mouse_stream_safe:
  assumes "screen_ok g" "mouse_ok g s"
  shows "(\<exists>s'. mouse_bytes g bs s = ret s' \<and> mouse_ok g s') \<and>
    (cycle s = 0 \<and> b0 AND 8 \<noteq> 0 \<and> b0 AND 0xC0 = 0 \<longrightarrow>
      (\<exists>s'. mouse_bytes g [b0, b1, b2] s = ret s' \<and> cycle s' = 0 \<and> moved g b0 b1 b2 s s'))"
proof (intro conjI impI)
  show "\<exists>s'. mouse_bytes g bs s = ret s' \<and> mouse_ok g s'"
    using assms(2)
  proof (induction bs arbitrary: s)
    case (Cons b bs)
    obtain s1 where "mouse_byte g b s = ret s1" "mouse_ok g s1" using mouse_byte_keeps [OF assms(1) Cons.prems] by blast
    then show ?case using Cons.IH by simp
  qed simp
next
  assume a: "cycle s = 0 \<and> b0 AND 8 \<noteq> 0 \<and> b0 AND 0xC0 = 0"
  obtain x y z where p: "packet s = [x, y, z]" using three_bytes [of "packet s"] assms(2) by (auto simp: mouse_ok_def)
  let ?s = "s\<lparr>packet := [b0, b1, b2], cycle := 0\<rparr>"
  have "mouse_bytes g [b0, b1, b2] s = ret (mouse_packet g ?s)"
    using a p by (simp add: mouse_byte_def Let_def word_le_nat_alt word_less_nat_alt)
  moreover have "moved g b0 b1 b2 ?s (mouse_packet g ?s)"
    using a assms by (intro packet_moves) (simp_all add: mouse_ok_def)
  ultimately show "\<exists>s'. mouse_bytes g [b0, b1, b2] s = ret s' \<and> cycle s' = 0 \<and> moved g b0 b1 b2 s s'"
    by (intro exI [of _ "mouse_packet g ?s"]) (simp add: moved_def mouse_packet_def Let_def)
qed

definition mouse_idle :: mouse_drv where
  "mouse_idle = \<lparr>g_mouse = mouse_zero, prev_left = False, prev_right = False, cycle = 0, packet = [0, 0, 0]\<rparr>"

theorem mouse_stream_safe_witness:
  "\<exists>s'. mouse_bytes small_fb [9, 2, 0xFF] mouse_idle = ret s' \<and> sint (m_x (g_mouse s')) = 2 \<and> sint (m_y (g_mouse s')) = 1 \<and>
     m_left_pressed (g_mouse s')"
proof -
  have "screen_ok small_fb" "mouse_ok small_fb mouse_idle"
    by (simp_all add: screen_ok_def small_fb_def mouse_ok_def mouse_idle_def on_screen_def mouse_zero_def)
  from mouse_stream_safe [OF this, of "[]" 9 2 "0xFF"] show ?thesis
    by (auto simp: moved_def Let_def clamp_def mouse_idle_def mouse_zero_def small_fb_def)
qed

end
