(* ===== verification/H3_Clock.thy ===== *)
theory H3_Clock
  imports H3_Ports
begin

text \<open>
  The interval timer of \<^verbatim>\<open>drivers/timer/timer.c\<close> and the real-time clock of \<^verbatim>\<open>drivers/rtc/rtc.c\<close>.
\<close>

section \<open>Interval timer\<close>

record timer_state =
  g_ticks :: u64
  g_freq :: u32

definition timer_irq :: "timer_state \<Rightarrow> timer_state" where
  "timer_irq t = t\<lparr>g_ticks := g_ticks t + 1\<rparr>"

definition timer_init :: "'d bus \<Rightarrow> addr \<Rightarrow> u32 \<Rightarrow> irq_state \<Rightarrow> 'd \<Rightarrow> timer_state \<times> irq_state \<times> 'd" where
  "timer_init B irq_fn hz s d =
     (let hz = (if hz < 18 then 18 else hz);
          hz = (if hz > 1000 then 1000 else hz);
          divisor = 1193182 div hz;
          d = outb B 0x43 0x36 d;
          d = outb B 0x40 (ucast (divisor AND 0xFF)) d;
          d = outb B 0x40 (ucast (drop_bit 8 divisor AND 0xFF)) d
      in (\<lparr>g_ticks = 0, g_freq = hz\<rparr>, irq_install B 0 irq_fn s d))"

definition timer_ticks :: "timer_state \<Rightarrow> u64" where
  "timer_ticks t = g_ticks t"

definition timer_uptime_ms :: "timer_state \<Rightarrow> u64" where
  "timer_uptime_ms t = g_ticks t * 1000 div ucast (g_freq t)"

text \<open>
  \<^verbatim>\<open>timer_sleep_ms\<close> and the interrupt handler interleave: \<open>irqs i\<close> is the number of timer interrupts, each of which runs \<^verbatim>\<open>timer_irq\<close>,
  that arrive before the \<open>i\<close>-th reading of the clock in the loop and after the reading in front of it. The result is the number of the reading that ended
  the loop and the state of the timer then.
\<close>

partial_function (option) sleep_loop :: "(nat \<Rightarrow> nat) \<Rightarrow> u64 \<Rightarrow> nat \<Rightarrow> timer_state \<Rightarrow> (nat \<times> timer_state) option" where
  "sleep_loop irqs target i t =
     (let t = (timer_irq ^^ irqs i) t in
      if timer_uptime_ms t < target then sleep_loop irqs target (i + 1) t else Some (i, t))"

definition timer_sleep_ms :: "(nat \<Rightarrow> nat) \<Rightarrow> u64 \<Rightarrow> timer_state \<Rightarrow> (nat \<times> timer_state) option" where
  "timer_sleep_ms irqs ms t = sleep_loop irqs (timer_uptime_ms t + ms) 0 t"

section \<open>Real-time clock\<close>

record rtc_time_t =
  second :: u8
  minute :: u8
  hour :: u8
  day :: u8
  month :: u8
  year :: u16

definition cmos_read :: "'d bus \<Rightarrow> u8 \<Rightarrow> 'd \<Rightarrow> u8 \<times> 'd" where
  "cmos_read B reg d = inb B 0x71 (outb B 0x70 reg d)"

definition bcd_to_bin :: "u8 \<Rightarrow> u8" where
  "bcd_to_bin v = (v AND 0x0F) + drop_bit 4 v * 10"

partial_function (option) rtc_wait :: "'d bus \<Rightarrow> 'd \<Rightarrow> 'd option" where
  "rtc_wait B d = (let (v, d) = cmos_read B 0x0A d in if v AND 0x80 \<noteq> 0 then rtc_wait B d else Some d)"

definition rtc_year :: "u8 \<Rightarrow> u8 \<Rightarrow> u16" where
  "rtc_year cent yr = (let y = ucast (ucast cent * 100 + ucast yr :: u32) in if y < 2000 then y + 2000 else y)"

definition rtc_read :: "'d bus \<Rightarrow> 'd \<Rightarrow> (rtc_time_t \<times> 'd) option" where
  "rtc_read B d = (case rtc_wait B d of
     None \<Rightarrow> None
   | Some d \<Rightarrow>
       let (sec, d) = cmos_read B 0x00 d; (min, d) = cmos_read B 0x02 d; (hr, d) = cmos_read B 0x04 d;
           (dy, d) = cmos_read B 0x07 d; (mon, d) = cmos_read B 0x08 d; (yr, d) = cmos_read B 0x09 d;
           (cent, d) = cmos_read B 0x32 d; (regb, d) = cmos_read B 0x0B d;
           f = (if regb AND 0x04 = 0 then bcd_to_bin else (\<lambda>x. x))
       in Some (\<lparr>second = f sec, minute = f min, hour = f hr, day = f dy, month = f mon, year = rtc_year (f cent) (f yr)\<rparr>, d))"

section \<open>Properties\<close>

lemma unat_div_u32: "unat (a div b :: u32) = unat a div unat b"
  by (rule unat_div)

lemma low_byte: "unat (ucast (x AND 0xFF :: u32) :: u8) = unat x mod 256"
proof -
  have "(ucast (x AND mask 8) :: u8) = ucast x" by (rule bit_word_eqI) (simp add: bit_simps)
  moreover have "(0xFF :: u32) = mask 8" by (simp add: mask_eq_exp_minus_1)
  ultimately have "(ucast (x AND 0xFF) :: u8) = ucast x" by (simp only:)
  then show ?thesis by (simp add: unsigned_ucast_eq take_bit_eq_mod)
qed

text \<open>
  The rate of the timer. For a requested frequency between 19 and 1000 Hz the two bytes written
  to the channel are the divisor 1193182 / f; at 18 Hz and below the divisor does not fit into two
  bytes, and the value programmed is 751, a rate of more than 1500 Hz. The driver always
  believes in a frequency between 18 and 1000.
\<close>

theorem timer_init_divisor:
  "\<exists>lo hi s' d'. timer_init B fn hz s d = (\<lparr>g_ticks = 0, g_freq = max 18 (min 1000 hz)\<rparr>, s', d') \<and>
     (s', d') = irq_install B 0 fn s (outb B 0x40 hi (outb B 0x40 lo (outb B 0x43 0x36 d))) \<and>
     unat lo + 256 * unat hi = (if hz \<le> 18 then 751 else 1193182 div min 1000 (unat hz))"
proof -
  define f where "f = max 18 (min 1000 hz)"
  have clamp: "(if (if hz < 18 then 18 else hz) > 1000 then 1000 else if hz < 18 then 18 else hz) = f"
    by (auto simp: f_def max_def min_def word_le_nat_alt word_less_nat_alt word_unat_eq_iff)
  let ?q = "1193182 div f :: u32"
  have q: "unat ?q = 1193182 div unat f" by (simp add: unat_div_u32)
  have "unat (ucast (?q AND 0xFF) :: u8) + 256 * unat (ucast (drop_bit 8 ?q AND 0xFF) :: u8) = unat ?q mod 65536"
  proof -
    have "unat (drop_bit 8 ?q) = unat ?q div 256" by (simp only: unat_drop_bit_eq) (simp add: drop_bit_eq_div)
    then have "unat (ucast (?q AND 0xFF) :: u8) + 256 * unat (ucast (drop_bit 8 ?q AND 0xFF) :: u8) = unat ?q mod 256 + 256 * (unat ?q div 256 mod 256)"
      by (simp only: low_byte)
    then show ?thesis using mod_mult2_eq [of "unat ?q" 256 256] by simp
  qed
  moreover have "unat ?q mod 65536 = (if hz \<le> 18 then 751 else 1193182 div min 1000 (unat hz))"
  proof (cases "hz \<le> 18")
    case True
    then have "f = 18" by (auto simp: f_def max_def min_def word_le_nat_alt word_unat_eq_iff)
    then show ?thesis using True by (simp add: q)
  next
    case False
    then have u: "unat f = min 1000 (unat hz)" "19 \<le> unat f"
      by (auto simp: f_def max_def min_def word_le_nat_alt)
    have "1193182 div unat f \<le> 1193182 div 19" using u(2) by (intro div_le_mono2) auto
    then show ?thesis using False q u(1) by simp
  qed
  ultimately have sum: "unat (ucast (?q AND 0xFF) :: u8) + 256 * unat (ucast (drop_bit 8 ?q AND 0xFF) :: u8) =
      (if hz \<le> 18 then 751 else 1193182 div min 1000 (unat hz))" by simp
  obtain s' d' where i: "irq_install B 0 fn s
      (outb B 0x40 (ucast (drop_bit 8 ?q AND 0xFF)) (outb B 0x40 (ucast (?q AND 0xFF)) (outb B 0x43 0x36 d))) = (s', d')"
    by fastforce
  then have "timer_init B fn hz s d = (\<lparr>g_ticks = 0, g_freq = f\<rparr>, s', d')" unfolding timer_init_def Let_def clamp by simp
  with i sum show ?thesis unfolding f_def [symmetric] by (intro exI conjI) auto
qed

text \<open>What a number of interrupts does to the clock.\<close>

lemma timer_irqs: "(timer_irq ^^ k) t = t\<lparr>g_ticks := g_ticks t + of_nat k\<rparr>"
  by (induction k) (simp_all add: timer_irq_def algebra_simps)

lemma sleep_loop_stuck:
  assumes "\<And>j. i \<le> j \<Longrightarrow> timer_uptime_ms ((timer_irq ^^ sum irqs {i..j}) t) < target"
  shows "sleep_loop irqs target i t = None"
proof (rule ccontr)
  assume "sleep_loop irqs target i t \<noteq> None"
  then obtain r where "sleep_loop irqs target i t = Some r" by auto
  then have "\<exists>j \<ge> i. \<not> timer_uptime_ms ((timer_irq ^^ sum irqs {i..j}) t) < target"
  proof (rule sleep_loop.raw_induct [rotated])
    fix f :: "(nat \<Rightarrow> nat) \<Rightarrow> u64 \<Rightarrow> nat \<Rightarrow> timer_state \<Rightarrow> (nat \<times> timer_state) option" and irqs target i t r
    assume IH: "\<And>irqs target i t r. f irqs target i t = Some r \<Longrightarrow> \<exists>j \<ge> i. \<not> timer_uptime_ms ((timer_irq ^^ sum irqs {i..j}) t) < target"
      and eq: "(let t = (timer_irq ^^ irqs i) t in if timer_uptime_ms t < target then f irqs target (i + 1) t else Some (i, t)) = Some r"
    show "\<exists>j \<ge> i. \<not> timer_uptime_ms ((timer_irq ^^ sum irqs {i..j}) t) < target"
    proof (cases "timer_uptime_ms ((timer_irq ^^ irqs i) t) < target")
      case True
      then have "f irqs target (i + 1) ((timer_irq ^^ irqs i) t) = Some r" using eq by (simp add: Let_def)
      from IH [OF this] obtain j where j: "i + 1 \<le> j" "\<not> timer_uptime_ms ((timer_irq ^^ sum irqs {i + 1..j}) ((timer_irq ^^ irqs i) t)) < target"
        by blast
      have "sum irqs {i..j} = sum irqs {i + 1..j} + irqs i" using j(1) by (simp add: sum.atLeast_Suc_atMost)
      then show ?thesis using j by (intro exI [of _ j]) (simp add: funpow_add)
    next
      case False
      then show ?thesis by (intro exI [of _ i]) simp
    qed
  qed
  then show False using assms by auto
qed

lemma sleep_loop_first:
  assumes "\<And>j. i \<le> j \<Longrightarrow> j < n \<Longrightarrow> timer_uptime_ms ((timer_irq ^^ sum irqs {i..j}) t) < target"
    and "\<not> timer_uptime_ms ((timer_irq ^^ sum irqs {i..n}) t) < target" "i \<le> n"
  shows "sleep_loop irqs target i t = Some (n, (timer_irq ^^ sum irqs {i..n}) t)"
  using assms
proof (induction "n - i" arbitrary: i t)
  case 0
  then show ?case by (subst sleep_loop.simps) simp
next
  case (Suc k)
  have sum: "(timer_irq ^^ sum irqs {i..j}) t = (timer_irq ^^ sum irqs {i + 1..j}) ((timer_irq ^^ irqs i) t)" if "i + 1 \<le> j" for j
  proof -
    have "sum irqs {i..j} = sum irqs {i + 1..j} + irqs i" using that by (simp add: sum.atLeast_Suc_atMost)
    then show ?thesis by (simp add: funpow_add)
  qed
  have i: "i + 1 \<le> n" using Suc by simp
  have "timer_uptime_ms ((timer_irq ^^ irqs i) t) < target" using Suc.prems(1) [of i] i by simp
  moreover have "timer_uptime_ms ((timer_irq ^^ sum irqs {i + 1..j}) ((timer_irq ^^ irqs i) t)) < target" if "i + 1 \<le> j" "j < n" for j
    using Suc.prems(1) [of j] that unfolding sum [OF that(1)] by simp
  then have "sleep_loop irqs target (i + 1) ((timer_irq ^^ irqs i) t) = Some (n, (timer_irq ^^ sum irqs {i..n}) t)"
    unfolding sum [OF i] using Suc.hyps(2) Suc.prems(2) [unfolded sum [OF i]] i by (intro Suc.hyps(1)) simp_all
  ultimately show ?case by (subst sleep_loop.simps) (simp add: Let_def)
qed

text \<open>The clock after \<open>k\<close> interrupts, as long as the product of ticks and 1000 fits into 64 bits.\<close>

lemma uptime_after:
  assumes "0 < unat (g_freq t)" "(unat (g_ticks t) + k) * 1000 < 18446744073709551616"
  shows "timer_uptime_ms ((timer_irq ^^ k) t) < target \<longleftrightarrow> (unat (g_ticks t) + k) * 1000 < unat target * unat (g_freq t)"
    and "unat (timer_uptime_ms ((timer_irq ^^ k) t)) = (unat (g_ticks t) + k) * 1000 div unat (g_freq t)"
proof -
  have "unat (g_ticks t + of_nat k) = unat (g_ticks t) + k"
    using assms(2) unat_add_u64 [of "g_ticks t" "of_nat k"] by (simp add: unat_of_nat_u64)
  then have "unat ((g_ticks t + of_nat k) * 1000) = (unat (g_ticks t) + k) * 1000"
    using assms(2) unat_mult_lem [of "g_ticks t + of_nat k" 1000] by simp
  then show u: "unat (timer_uptime_ms ((timer_irq ^^ k) t)) = (unat (g_ticks t) + k) * 1000 div unat (g_freq t)"
    by (simp add: timer_uptime_ms_def timer_irqs unat_div)
  show "timer_uptime_ms ((timer_irq ^^ k) t) < target \<longleftrightarrow> (unat (g_ticks t) + k) * 1000 < unat target * unat (g_freq t)"
    using assms(1) by (simp add: word_less_nat_alt u div_less_iff_less_mult)
qed

text \<open>
  (C25) Sleeping while timer interrupts arrive. Let \<open>a\<close> be the ticks and \<open>f\<close> the frequency at the call, \<open>T\<close> the target time in milliseconds and \<open>S n\<close> the number of
  interrupts up to the \<open>n\<close>-th reading of the clock; let \<open>f\<close> not be 0, at most \<open>2 ^ 32\<close> interrupts arrive between two readings, and the tick counter
  be far enough from the end of its range. \<^verbatim>\<open>timer_sleep_ms\<close> returns at the first reading where the interrupts have moved the clock to the target, with the
  counter advanced by exactly the interrupts that have arrived, which stand for more than \<open>ms - 1\<close> milliseconds. It returns whenever interrupts keep arriving, and
  never returns exactly if they stay below the target for ever, for example because interrupts are off.
\<close>

theorem timer_sleep_liveness:
  fixes t :: timer_state and irqs :: "nat \<Rightarrow> nat" and ms :: u64
  defines "a \<equiv> unat (g_ticks t)" and "f \<equiv> unat (g_freq t)" and "S \<equiv> \<lambda>n. sum irqs {0..n}"
  defines "T \<equiv> a * 1000 div f + unat ms"
  assumes f: "0 < f" and burst: "\<And>i. irqs i \<le> 4294967296" and range: "(T + 1) * f + 4294967296000 < 18446744073709551616"
  shows "(timer_sleep_ms irqs ms t = Some (n, t') \<longleftrightarrow>
      T * f \<le> (a + S n) * 1000 \<and> (\<forall>i < n. (a + S i) * 1000 < T * f) \<and> t' = t\<lparr>g_ticks := g_ticks t + of_nat (S n)\<rparr>) \<and>
    (timer_sleep_ms irqs ms t = Some (n, t') \<longrightarrow> unat ms * f < S n * 1000 + f) \<and>
    (timer_sleep_ms irqs ms t = None \<longleftrightarrow> (\<forall>i. (a + S i) * 1000 < T * f)) \<and>
    ((\<forall>k. \<exists>i. k \<le> S i) \<longrightarrow> (\<exists>n t'. timer_sleep_ms irqs ms t = Some (n, t')))"
proof -
  have a: "a * 1000 < (a * 1000 div f + 1) * f" using f dividend_less_div_times [of f "a * 1000"] by (simp add: add.commute)
  also have "\<dots> \<le> (T + 1) * f" unfolding T_def by (rule mult_right_mono) simp_all
  finally have at: "a * 1000 < (T + 1) * f" .
  have "T * 1 \<le> T * f" using f by (intro mult_le_mono2) simp
  then have TT: "T \<le> (T + 1) * f" "T * f \<le> (T + 1) * f" unfolding add_mult_distrib by linarith+
  have "unat (timer_uptime_ms t) = a * 1000 div f" using uptime_after(2) [of t 0] f at range by (simp add: a_def f_def)
  then have target: "unat (timer_uptime_ms t + ms) = T"
    using TT(1) range unat_add_u64 [of "timer_uptime_ms t" ms] by (simp add: T_def)
  define below where "below i \<longleftrightarrow> (a + S i) * 1000 < T * f" for i
  have fits: "(a + S n) * 1000 < 18446744073709551616" if "\<forall>i < n. below i" for n
  proof (cases n)
    case 0
    then show ?thesis using at range burst [of 0] by (simp add: S_def add_mult_distrib)
  next
    case (Suc m)
    then have "(a + S m) * 1000 < T * f" using that by (simp add: below_def)
    then show ?thesis using Suc TT(2) range burst [of n] by (simp add: S_def add_mult_distrib)
  qed
  have read: "timer_uptime_ms ((timer_irq ^^ S n) t) < timer_uptime_ms t + ms \<longleftrightarrow> below n" if "\<forall>i < n. below i" for n
    using uptime_after(1) [of t "S n"] fits [OF that] f target by (simp add: below_def a_def f_def)
  have never: "timer_sleep_ms irqs ms t = None" if "\<forall>i. below i"
    unfolding timer_sleep_ms_def by (rule sleep_loop_stuck) (use that read in \<open>auto simp: S_def\<close>)
  have first: "timer_sleep_ms irqs ms t = Some (k, (timer_irq ^^ S k) t)" if "\<not> below k" "\<forall>i < k. below i" for k
    unfolding timer_sleep_ms_def S_def by (rule sleep_loop_first) (use that read in \<open>auto simp: S_def\<close>)
  have low: "unat ms * f < S n * 1000 + f" if "\<not> below n" for n
    using that a by (simp add: below_def T_def add_mult_distrib)
  have least: "\<exists>k. \<not> below k \<and> (\<forall>i < k. below i)" if "\<not> (\<forall>i. below i)"
    using that exists_least_iff [of "\<lambda>k. \<not> below k"] by auto
  have uniq: "k = n" if "\<not> below k" "\<forall>i < k. below i" "\<not> below n" "\<forall>i < n. below i" for k
    using that by (meson linorder_neqE_nat)
  have some: "timer_sleep_ms irqs ms t = Some (n, t') \<longleftrightarrow> \<not> below n \<and> (\<forall>i < n. below i) \<and> t' = (timer_irq ^^ S n) t"
  proof (cases "\<forall>i. below i")
    case False
    then obtain k where k: "\<not> below k" "\<forall>i < k. below i" using least by blast
    then show ?thesis using first [OF k] uniq [OF k] by auto
  qed (use never in auto)
  have none: "timer_sleep_ms irqs ms t = None \<longleftrightarrow> (\<forall>i. below i)" using never least first by fastforce
  have "\<not> (\<forall>i. below i)" if arrive: "\<forall>k. \<exists>i. k \<le> S i"
  proof -
    obtain i where "T * f \<le> S i" using arrive by blast
    then have "\<not> below i" by (simp add: below_def not_less)
    then show ?thesis by blast
  qed
  then have live: "(\<forall>k. \<exists>i. k \<le> S i) \<longrightarrow> (\<exists>n t'. timer_sleep_ms irqs ms t = Some (n, t'))" using none by auto
  show ?thesis using some none low live by (simp add: below_def not_less timer_irqs)
qed

text \<open>At 100 Hz, with one interrupt before every reading, 20 milliseconds end at the second reading.\<close>

theorem timer_sleep_liveness_witness:
  "timer_sleep_ms (\<lambda>_. 1) 20 \<lparr>g_ticks = 7, g_freq = 100\<rparr> = Some (1, \<lparr>g_ticks = 9, g_freq = 100\<rparr>)"
proof -
  have "i < 1 \<Longrightarrow> i = 0" for i :: nat by simp
  then show ?thesis
    using timer_sleep_liveness [where t = "\<lparr>g_ticks = 7, g_freq = 100\<rparr>" and irqs = "\<lambda>_. 1" and ms = 20 and n = 1 and t' = "\<lparr>g_ticks = 9, g_freq = 100\<rparr>"]
    by simp
qed

text \<open>
  What the code relies on of the clock chip: the registers hold still while they are read, in
  states where no update is in progress.
\<close>

definition cmos_holds :: "'d bus \<Rightarrow> (u8 \<Rightarrow> u8) \<Rightarrow> ('d \<Rightarrow> bool) \<Rightarrow> bool" where
  "cmos_holds B reg ok \<longleftrightarrow> (\<forall>d r. ok d \<longrightarrow> (\<exists>d'. ok d' \<and> cmos_read B r d = (reg r, d')))"

definition bcd :: "nat \<Rightarrow> u8" where
  "bcd n = of_nat (n div 10 * 16 + n mod 10)"

lemma bcd_to_bin_bcd:
  assumes "n < 100"
  shows "bcd_to_bin (bcd n) = of_nat n"
proof -
  have "\<forall>n \<in> set [0..<100]. bcd_to_bin (bcd n) = of_nat n" unfolding bcd_to_bin_def bcd_def by code_simp
  then show ?thesis using assms by simp
qed

text \<open>
  Reading the clock. If the registers hold still, no update is in progress and the chip is in
  BCD mode, \<^verbatim>\<open>rtc_read\<close> returns and delivers exactly the numbers that the registers encode; the year is
  century and year together, except that every year before 2000 is moved by 2000, so that 1999
  is read as 3999.
\<close>

theorem rtc_read_bcd:
  assumes chip: "cmos_holds B reg ok" "ok d" and idle: "reg 0x0A AND 0x80 = 0" and mode: "reg 0x0B AND 0x04 = 0"
    and regs: "reg 0x00 = bcd s" "reg 0x02 = bcd mi" "reg 0x04 = bcd h" "reg 0x07 = bcd da" "reg 0x08 = bcd mo" "reg 0x09 = bcd y" "reg 0x32 = bcd c"
    and digits: "s < 100" "mi < 100" "h < 100" "da < 100" "mo < 100" "y < 100" "c < 100"
  shows "\<exists>t d'. rtc_read B d = Some (t, d') \<and> unat (second t) = s \<and> unat (minute t) = mi \<and> unat (hour t) = h \<and>
    unat (day t) = da \<and> unat (month t) = mo \<and> unat (year t) = (if c * 100 + y < 2000 then c * 100 + y + 2000 else c * 100 + y)"
proof -
  have rd: "\<exists>e'. ok e' \<and> cmos_read B r e = (reg r, e')" if "ok e" for e r using chip(1) that by (auto simp: cmos_holds_def)
  obtain d0 where d0: "ok d0" "cmos_read B 0x0A d = (reg 0x0A, d0)" using rd [OF chip(2)] by blast
  obtain d1 where d1: "ok d1" "cmos_read B 0x00 d0 = (reg 0x00, d1)" using rd [OF d0(1)] by blast
  obtain d2 where d2: "ok d2" "cmos_read B 0x02 d1 = (reg 0x02, d2)" using rd [OF d1(1)] by blast
  obtain d3 where d3: "ok d3" "cmos_read B 0x04 d2 = (reg 0x04, d3)" using rd [OF d2(1)] by blast
  obtain d4 where d4: "ok d4" "cmos_read B 0x07 d3 = (reg 0x07, d4)" using rd [OF d3(1)] by blast
  obtain d5 where d5: "ok d5" "cmos_read B 0x08 d4 = (reg 0x08, d5)" using rd [OF d4(1)] by blast
  obtain d6 where d6: "ok d6" "cmos_read B 0x09 d5 = (reg 0x09, d6)" using rd [OF d5(1)] by blast
  obtain d7 where d7: "ok d7" "cmos_read B 0x32 d6 = (reg 0x32, d7)" using rd [OF d6(1)] by blast
  obtain d8 where d8: "ok d8" "cmos_read B 0x0B d7 = (reg 0x0B, d8)" using rd [OF d7(1)] by blast
  have "rtc_wait B d = Some d0" using d0(2) idle by (subst rtc_wait.simps) simp
  moreover have b: "unat (bcd_to_bin (bcd n)) = n" if "n < 100" for n
    using that bcd_to_bin_bcd [OF that] by (simp add: unat_of_nat)
  moreover have "unat (rtc_year (bcd_to_bin (bcd c)) (bcd_to_bin (bcd y))) = (if c * 100 + y < 2000 then c * 100 + y + 2000 else c * 100 + y)"
  proof -
    have "unat (ucast (bcd_to_bin (bcd c)) * 100 + ucast (bcd_to_bin (bcd y)) :: u32) = c * 100 + y"
      using digits(6,7) b by (simp add: unat_word_ariths)
    then have "unat (ucast (ucast (bcd_to_bin (bcd c)) * 100 + ucast (bcd_to_bin (bcd y)) :: u32) :: u16) = c * 100 + y"
      using digits(6,7) by (simp add: unsigned_ucast_eq take_bit_eq_mod)
    then show ?thesis using digits(6,7) by (simp add: rtc_year_def Let_def word_less_nat_alt unat_word_ariths)
  qed
  ultimately show ?thesis
    unfolding rtc_read_def using mode regs digits d1(2) d2(2) d3(2) d4(2) d5(2) d6(2) d7(2) d8(2) by (simp add: Let_def)
qed

text \<open>A chip that holds 23:59:58 on 31 December 1999.\<close>

definition cmos_dev :: "(u8 \<Rightarrow> u8) \<Rightarrow> u8 bus" where
  "cmos_dev reg = \<lparr>inb = (\<lambda>p d. (if p = 0x71 then reg d else 0, d)), outb = (\<lambda>p v d. if p = 0x70 then v else d),
     outw = (\<lambda>_ _ d. d), inl = (\<lambda>_ d. (0, d)), outl = (\<lambda>_ _ d. d)\<rparr>"

theorem rtc_read_bcd_witness:
  "\<exists>t d'. rtc_read (cmos_dev ((\<lambda>_. 0)(0 := 0x58, 2 := 0x59, 4 := 0x23, 7 := 0x31, 8 := 0x12, 9 := 0x99, 0x32 := 0x19))) 0 = Some (t, d') \<and>
     unat (year t) = 3999 \<and> unat (hour t) = 23"
proof -
  let ?reg = "(\<lambda>_. 0)(0 := 0x58, 2 := 0x59, 4 := 0x23, 7 := 0x31, 8 := 0x12, 9 := 0x99, 0x32 := 0x19) :: u8 \<Rightarrow> u8"
  have "cmos_holds (cmos_dev ?reg) ?reg (\<lambda>_. True)" by (simp add: cmos_holds_def cmos_read_def cmos_dev_def)
  from rtc_read_bcd [OF this, where d = 0 and s = 58 and mi = 59 and h = 23 and da = 31 and mo = 12 and y = 99 and c = 19]
  show ?thesis by (fastforce simp: bcd_def)
qed

end
