(* ===== verification/H3_Cpu.thy ===== *)
theory H3_Cpu
  imports H3_Pmm H3_String
begin

text \<open>
  Processor detection (\<^verbatim>\<open>kernel/arch/x86_64/cpu.c\<close>), the segment table (\<^verbatim>\<open>gdt.c\<close>) and the performance profile
  (\<^verbatim>\<open>kernel/core/adaptive.c\<close>). The \<^verbatim>\<open>cpuid\<close> instruction is a parameter: a function of the leaf and the
  sub-leaf with four results.
\<close>

section \<open>Processor detection\<close>

type_synonym cpuid_fn = "u32 \<Rightarrow> u32 \<Rightarrow> u32 \<times> u32 \<times> u32 \<times> u32"

record cpu_info_t =
  vendor :: "u8 list"
  brand :: "u8 list"
  family :: u32
  model :: u32
  stepping :: u32
  max_basic :: u32
  max_ext :: u32
  has_fpu :: bool
  has_sse :: bool
  has_sse2 :: bool
  has_sse3 :: bool
  has_ssse3 :: bool
  has_sse41 :: bool
  has_sse42 :: bool
  has_avx :: bool
  has_avx2 :: bool
  has_aes :: bool
  has_rdrand :: bool
  has_nx :: bool
  has_huge_pages :: bool
  has_tsc :: bool
  has_apic :: bool
  has_x2apic :: bool
  has_vmx :: bool
  has_svm :: bool
  logical_cpus :: u32
  core_count :: u32
  l1_cache_kb :: u32
  l2_cache_kb :: u32
  l3_cache_kb :: u32

definition cpu_zero :: cpu_info_t where
  "cpu_zero = \<lparr>vendor = replicate 13 0, brand = replicate 49 0, family = 0, model = 0, stepping = 0, max_basic = 0, max_ext = 0,
     has_fpu = False, has_sse = False, has_sse2 = False, has_sse3 = False, has_ssse3 = False, has_sse41 = False,
     has_sse42 = False, has_avx = False, has_avx2 = False, has_aes = False, has_rdrand = False, has_nx = False,
     has_huge_pages = False, has_tsc = False, has_apic = False, has_x2apic = False, has_vmx = False, has_svm = False,
     logical_cpus = 0, core_count = 0, l1_cache_kb = 0, l2_cache_kb = 0, l3_cache_kb = 0\<rparr>"

text \<open>The parts of \<^verbatim>\<open>cpu_detect\<close>: leaf 1, leaf 7, the extended features, the brand string and the caches.\<close>

definition cpu_leaf1 :: "cpuid_fn \<Rightarrow> cpu_info_t \<Rightarrow> cpu_info_t" where
  "cpu_leaf1 cpuid i =
     (if max_basic i \<ge> 1 then
        let (a, b, c, d) = cpuid 1 0;
            i = i\<lparr>stepping := a AND 0xF, model := drop_bit 4 a AND 0xF, family := drop_bit 8 a AND 0xF\<rparr>;
            i = (if family i = 0xF then i\<lparr>family := family i + (drop_bit 20 a AND 0xFF),
                     model := model i + push_bit 4 (drop_bit 16 a AND 0xF)\<rparr> else i);
            i = i\<lparr>has_fpu := bit d 0, has_tsc := bit d 4, has_apic := bit d 9, has_sse := bit d 25, has_sse2 := bit d 26,
                  has_sse3 := bit c 0, has_ssse3 := bit c 9, has_sse41 := bit c 19, has_sse42 := bit c 20, has_aes := bit c 25,
                  has_avx := bit c 28, has_rdrand := bit c 30, has_x2apic := bit c 21, has_vmx := bit c 5\<rparr>;
            n = drop_bit 16 b AND 0xFF;
            n = (if n = 0 then 1 else n)
        in i\<lparr>logical_cpus := n, core_count := n\<rparr>
      else i)"

definition cpu_leaf7 :: "cpuid_fn \<Rightarrow> cpu_info_t \<Rightarrow> cpu_info_t" where
  "cpu_leaf7 cpuid i =
     (if max_basic i \<ge> 7 then let (a, b, c, d) = cpuid 7 0 in i\<lparr>has_avx2 := bit b 5\<rparr> else i)"

definition cpu_ext1 :: "cpuid_fn \<Rightarrow> cpu_info_t \<Rightarrow> cpu_info_t" where
  "cpu_ext1 cpuid i =
     (if max_ext i \<ge> 0x80000001 then
        let (a, b, c, d) = cpuid 0x80000001 0 in i\<lparr>has_nx := bit d 20, has_huge_pages := bit d 26, has_svm := bit c 2\<rparr>
      else i)"

definition cpuid_bytes :: "u32 \<times> u32 \<times> u32 \<times> u32 \<Rightarrow> u8 list" where
  "cpuid_bytes r = (case r of (a, b, c, d) \<Rightarrow> bytes_of_word 4 a @ bytes_of_word 4 b @ bytes_of_word 4 c @ bytes_of_word 4 d)"

text \<open>The brand string fills the first 48 bytes; \<^verbatim>\<open>strcpy\<close> of the default writes the string and its terminator.\<close>

definition cpu_brand :: "cpuid_fn \<Rightarrow> cpu_info_t \<Rightarrow> cpu_info_t" where
  "cpu_brand cpuid i =
     (if max_ext i \<ge> 0x80000004
      then i\<lparr>brand := cpuid_bytes (cpuid 0x80000002 0) @ cpuid_bytes (cpuid 0x80000003 0) @ cpuid_bytes (cpuid 0x80000004 0) @ [0]\<rparr>
      else i\<lparr>brand := bytes_of ''Unknown CPU'' @ [0] @ drop 12 (brand i)\<rparr>)"

definition cpu_cache :: "cpuid_fn \<Rightarrow> cpu_info_t \<Rightarrow> cpu_info_t" where
  "cpu_cache cpuid i =
     (if max_ext i \<ge> 0x80000006 then
        let (a, b, c, d) = cpuid 0x80000006 0 in
        i\<lparr>l2_cache_kb := drop_bit 16 c AND 0xFFFF, l3_cache_kb := (drop_bit 18 d AND 0x3FFF) * 512\<rparr>
      else i)"

definition cpu_detect :: "cpuid_fn \<Rightarrow> cpu_info_t" where
  "cpu_detect cpuid =
     (let (a, b, c, d) = cpuid 0 0;
          i = cpu_zero\<lparr>max_basic := a, vendor := bytes_of_word 4 b @ bytes_of_word 4 d @ bytes_of_word 4 c @ [0]\<rparr>;
          i = cpu_leaf7 cpuid (cpu_leaf1 cpuid i);
          (a, b, c, d) = cpuid 0x80000000 0;
          i = cpu_ext1 cpuid (i\<lparr>max_ext := a\<rparr>)
      in cpu_cache cpuid (cpu_brand cpuid i))"

section \<open>Segment table\<close>

record gdt_entry_t =
  limit_low :: u16
  base_low :: u16
  base_mid :: u8
  access :: u8
  granularity :: u8
  base_high :: u8

definition gdt_entry :: "u32 \<Rightarrow> u32 \<Rightarrow> u8 \<Rightarrow> u8 \<Rightarrow> gdt_entry_t" where
  "gdt_entry base limit acc gran =
     \<lparr>limit_low = ucast (limit AND 0xFFFF), base_low = ucast (base AND 0xFFFF), base_mid = ucast (drop_bit 16 base AND 0xFF),
      access = acc, granularity = ucast (drop_bit 16 limit AND 0x0F) OR (gran AND 0xF0), base_high = ucast (drop_bit 24 base AND 0xFF)\<rparr>"

definition gdt_set :: "nat \<Rightarrow> u32 \<Rightarrow> u32 \<Rightarrow> u8 \<Rightarrow> u8 \<Rightarrow> gdt_entry_t list \<Rightarrow> gdt_entry_t list" where
  "gdt_set i base limit acc gran gdt = gdt[i := gdt_entry base limit acc gran]"

text \<open>The table and the limit that is loaded; the reload of the segment registers is assembly.\<close>

definition gdt_init :: "gdt_entry_t list \<times> u16" where
  "gdt_init =
     (let g = replicate 5 \<lparr>limit_low = 0, base_low = 0, base_mid = 0, access = 0, granularity = 0, base_high = 0\<rparr>;
          g = gdt_set 0 0 0 0 0 g;
          g = gdt_set 1 0 0 0x9A 0x20 g;
          g = gdt_set 2 0 0 0x92 0x00 g;
          g = gdt_set 3 0 0 0xFA 0x20 g;
          g = gdt_set 4 0 0 0xF2 0x00 g
      in (g, 5 * 8 - 1))"

section \<open>Performance profile\<close>

datatype perf_profile_t = PERF_LOW | PERF_BALANCED | PERF_HIGH

record perf_settings_t =
  profile :: perf_profile_t
  animations :: bool
  blur :: bool
  shadows :: bool
  transparency :: bool
  target_fps :: u32
  max_windows :: u32

definition adaptive_init :: "pmm_stats_t \<Rightarrow> cpu_info_t \<Rightarrow> perf_settings_t" where
  "adaptive_init stats cpu =
     (let mem_mb = st_total_bytes stats div (1024 * 1024) in
      if mem_mb < 512 \<or> logical_cpus cpu \<le> 1 \<or> \<not> has_sse2 cpu
      then \<lparr>profile = PERF_LOW, animations = False, blur = False, shadows = False, transparency = False,
            target_fps = 30, max_windows = 4\<rparr>
      else if mem_mb < 2048 \<or> logical_cpus cpu < 4
      then \<lparr>profile = PERF_BALANCED, animations = True, blur = False, shadows = True, transparency = True,
            target_fps = 60, max_windows = 12\<rparr>
      else \<lparr>profile = PERF_HIGH, animations = True, blur = True, shadows = True, transparency = True,
            target_fps = 60, max_windows = 32\<rparr>)"

definition adaptive_profile_name :: "perf_settings_t \<Rightarrow> string" where
  "adaptive_profile_name p =
     (case profile p of
        PERF_LOW \<Rightarrow> ''Low-End / Lightweight''
      | PERF_BALANCED \<Rightarrow> ''Balanced''
      | PERF_HIGH \<Rightarrow> ''High-End / Enhanced'')"

section \<open>Properties\<close>

text \<open>The strings of the result fill their arrays and end with a terminator, whatever the processor answers.\<close>

lemma cpu_parts_keep:
  "vendor (cpu_leaf1 cpuid i) = vendor i" "brand (cpu_leaf1 cpuid i) = brand i"
  "vendor (cpu_leaf7 cpuid i) = vendor i" "brand (cpu_leaf7 cpuid i) = brand i"
  "vendor (cpu_ext1 cpuid i) = vendor i" "brand (cpu_ext1 cpuid i) = brand i"
  "vendor (cpu_brand cpuid i) = vendor i" "vendor (cpu_cache cpuid i) = vendor i" "brand (cpu_cache cpuid i) = brand i"
  by (simp_all add: cpu_leaf1_def cpu_leaf7_def cpu_ext1_def cpu_brand_def cpu_cache_def split_beta Let_def)

lemma cpuid_bytes_length: "length (cpuid_bytes r) = 16"
  by (cases r) (simp add: cpuid_bytes_def)

theorem cpu_detect_strings:
  "length (vendor (cpu_detect cpuid)) = 13" "last (vendor (cpu_detect cpuid)) = 0"
  "length (brand (cpu_detect cpuid)) = 49" "last (brand (cpu_detect cpuid)) = 0"
proof -
  obtain a b c d where r: "cpuid 0 0 = (a, b, c, d)" by (rule prod_cases4)
  let ?i = "cpu_ext1 cpuid ((cpu_leaf7 cpuid (cpu_leaf1 cpuid (cpu_zero\<lparr>max_basic := a,
    vendor := bytes_of_word 4 b @ bytes_of_word 4 d @ bytes_of_word 4 c @ [0]\<rparr>)))\<lparr>max_ext := fst (cpuid 0x80000000 0)\<rparr>)"
  have i: "cpu_detect cpuid = cpu_cache cpuid (cpu_brand cpuid ?i)" by (simp add: cpu_detect_def r split_beta Let_def)
  have v: "vendor ?i = bytes_of_word 4 b @ bytes_of_word 4 d @ bytes_of_word 4 c @ [0]" "brand ?i = replicate 49 0"
    by (simp_all add: cpu_parts_keep cpu_zero_def)
  then show "length (vendor (cpu_detect cpuid)) = 13" "last (vendor (cpu_detect cpuid)) = 0" by (simp_all add: i cpu_parts_keep)
  have "length (brand (cpu_brand cpuid ?i)) = 49 \<and> last (brand (cpu_brand cpuid ?i)) = 0"
    by (cases "max_ext ?i \<ge> 0x80000004") (simp_all add: cpu_brand_def cpuid_bytes_length v(2) bytes_of_def)
  then show "length (brand (cpu_detect cpuid)) = 49" "last (brand (cpu_detect cpuid)) = 0" by (simp_all add: i cpu_parts_keep)
qed

text \<open>The base and the low 20 bits of the limit of a descriptor can be read back from its scattered fields.\<close>

definition gdt_base :: "gdt_entry_t \<Rightarrow> u32" where
  "gdt_base e = ucast (base_low e) OR push_bit 16 (ucast (base_mid e)) OR push_bit 24 (ucast (base_high e))"

definition gdt_limit :: "gdt_entry_t \<Rightarrow> u32" where
  "gdt_limit e = ucast (limit_low e) OR push_bit 16 (ucast (granularity e) AND 0x0F)"

theorem gdt_entry_decodes:
  "gdt_base (gdt_entry base limit acc gran) = base"
  "gdt_limit (gdt_entry base limit acc gran) = limit AND 0xFFFFF"
  "access (gdt_entry base limit acc gran) = acc"
  "granularity (gdt_entry base limit acc gran) AND 0xF0 = gran AND 0xF0"
proof -
  have m: "(0xFFFF :: u32) = mask 16" "(0xFF :: u32) = mask 8" "(0xFFFFF :: u32) = mask 20" "(0xF :: u32) = mask 4" by (simp_all add: mask_eq_exp_minus_1)
  have e: "(0xF0 :: u8) = push_bit 4 (mask 4)" "(0xF0 :: u32) = push_bit 4 (mask 4)" by (simp_all add: mask_eq_exp_minus_1 push_bit_eq_mult)
  have f: "bit (0xF0 :: u8) n \<longleftrightarrow> 4 \<le> n \<and> n < 8" "bit (0xF0 :: u32) n \<longleftrightarrow> 4 \<le> n \<and> n < 8" for n
    unfolding e bit_push_bit_iff bit_mask_iff by auto
  show "gdt_base (gdt_entry base limit acc gran) = base"
    unfolding gdt_base_def gdt_entry_def m
  proof (rule bit_word_eqI, goal_cases)
    case (1 n)
    then show ?case by (cases "n < 24") (auto simp: bit_or_iff bit_and_iff bit_ucast_iff bit_push_bit_iff bit_drop_bit_eq bit_mask_iff)
  qed
  show "gdt_limit (gdt_entry base limit acc gran) = limit AND 0xFFFFF"
    unfolding gdt_limit_def gdt_entry_def m
    by (rule bit_word_eqI) (auto simp: bit_or_iff bit_and_iff bit_ucast_iff bit_push_bit_iff bit_drop_bit_eq bit_mask_iff f simp del: bit_numeral_word_iff)
  show "granularity (gdt_entry base limit acc gran) AND 0xF0 = gran AND 0xF0"
    unfolding gdt_entry_def m
    by (rule bit_word_eqI) (auto simp: bit_or_iff bit_and_iff bit_ucast_iff bit_drop_bit_eq bit_mask_iff f simp del: bit_numeral_word_iff)
qed (simp add: gdt_entry_def)

text \<open>A stronger machine never gets a weaker profile.\<close>

primrec profile_rank :: "perf_profile_t \<Rightarrow> nat" where
  "profile_rank PERF_LOW = 0"
| "profile_rank PERF_BALANCED = 1"
| "profile_rank PERF_HIGH = 2"

theorem adaptive_monotone:
  assumes "st_total_bytes a \<le> st_total_bytes b" "logical_cpus c \<le> logical_cpus d" "has_sse2 c \<longrightarrow> has_sse2 d"
  shows "profile_rank (profile (adaptive_init a c)) \<le> profile_rank (profile (adaptive_init b d))"
    and "max_windows (adaptive_init a c) \<le> max_windows (adaptive_init b d)"
proof -
  have "st_total_bytes a div (1024 * 1024) \<le> st_total_bytes b div (1024 * 1024)"
    using assms(1) by (simp add: word_le_nat_alt unat_div div_le_mono)
  then have low: "\<not> st_total_bytes a div (1024 * 1024) < k \<Longrightarrow> \<not> st_total_bytes b div (1024 * 1024) < k" for k by auto
  have cpus: "\<not> logical_cpus c \<le> 1 \<Longrightarrow> \<not> logical_cpus d \<le> 1" "\<not> logical_cpus c < 4 \<Longrightarrow> \<not> logical_cpus d < 4" using assms(2) by auto
  show "profile_rank (profile (adaptive_init a c)) \<le> profile_rank (profile (adaptive_init b d))"
    "max_windows (adaptive_init a c) \<le> max_windows (adaptive_init b d)"
    using low [of 512] low [of 2048] cpus assms(3) by (auto simp: adaptive_init_def Let_def)
qed

text \<open>
  The extended model bits are added only for family 15. Processors of family 6, where the model has eight bits too, are shown
  with the low four bits of their model.
\<close>

theorem family_6_model_truncated:
  assumes "fst (cpuid 1 0) = a" "drop_bit 8 a AND 0xF = 6" "1 \<le> max_basic i"
  shows "family (cpu_leaf1 cpuid i) = 6" "model (cpu_leaf1 cpuid i) = drop_bit 4 a AND 0xF"
  using assms by (auto simp: cpu_leaf1_def split_beta Let_def)

end
