(* ===== verification/H3_Wm.thy ===== *)
theory H3_Wm
  imports H3_Cpu H3_Input
begin

text \<open>
  The window manager of \<^verbatim>\<open>window_manager/wm.c\<close>. A window pointer is the index of a slot of the static
  array, \<open>None\<close> for \<^verbatim>\<open>NULL\<close>. Drawing and key callbacks of the applications are function pointers; what
  a call of them does is a parameter.
\<close>

section \<open>State\<close>

definition WM_MAX_WINDOWS :: nat where
  "WM_MAX_WINDOWS = 32"

definition WM_TITLE_LEN :: nat where
  "WM_TITLE_LEN = 64"

definition TASKBAR_H :: i32 where
  "TASKBAR_H = 48"

datatype win_state_t = WIN_NORMAL | WIN_MAXIMIZED | WIN_MINIMIZED | WIN_FULLSCREEN

record window_t =
  active :: bool
  title :: "u8 list"
  wx :: i32
  wy :: i32
  ww :: i32
  wh :: i32
  restore_x :: i32
  restore_y :: i32
  restore_w :: i32
  restore_h :: i32
  bg :: u32
  accent :: u32
  wstate :: win_state_t
  always_on_top :: bool
  wfocused :: bool
  wdraw :: addr
  on_key :: addr
  user :: addr

type_synonym win_ptr = "nat option"

record wm_state =
  windows :: "nat \<Rightarrow> window_t"
  focused :: win_ptr
  win_count :: u32
  drag_win :: win_ptr
  drag_off_x :: i32
  drag_off_y :: i32
  dragging :: bool

definition window_zero :: window_t where
  "window_zero = \<lparr>active = False, title = replicate WM_TITLE_LEN 0, wx = 0, wy = 0, ww = 0, wh = 0, restore_x = 0, restore_y = 0,
     restore_w = 0, restore_h = 0, bg = 0, accent = 0, wstate = WIN_NORMAL, always_on_top = False, wfocused = False,
     wdraw = NULL, on_key = NULL, user = NULL\<rparr>"

definition set_win :: "nat \<Rightarrow> (window_t \<Rightarrow> window_t) \<Rightarrow> wm_state \<Rightarrow> wm_state" where
  "set_win i f s = s\<lparr>windows := (windows s)(i := f (windows s i))\<rparr>"

section \<open>Operations\<close>

definition wm_taskbar_height :: i32 where
  "wm_taskbar_height = TASKBAR_H"

definition wm_init :: "wm_state \<Rightarrow> wm_state" where
  "wm_init s = s\<lparr>windows := (\<lambda>_. window_zero), focused := None, win_count := 0\<rparr>"

definition wm_focus :: "win_ptr \<Rightarrow> wm_state \<Rightarrow> wm_state" where
  "wm_focus win s =
     (let s = s\<lparr>windows := (\<lambda>i. if i < WM_MAX_WINDOWS then (windows s i)\<lparr>wfocused := False\<rparr> else windows s i)\<rparr> in
      case win of
        None \<Rightarrow> s
      | Some w \<Rightarrow>
          let s = (set_win w (\<lambda>k. k\<lparr>wfocused := True\<rparr>) s)\<lparr>focused := Some w\<rparr> in
          if wstate (windows s w) = WIN_MINIMIZED then set_win w (\<lambda>k. k\<lparr>wstate := WIN_NORMAL\<rparr>) s else s)"

definition wm_create :: "perf_settings_t \<Rightarrow> u8 list option \<Rightarrow> i32 \<Rightarrow> i32 \<Rightarrow> i32 \<Rightarrow> i32 \<Rightarrow> wm_state \<Rightarrow> win_ptr \<times> wm_state" where
  "wm_create p ttl x y w h s =
     (if win_count s \<ge> max_windows p then (None, s)
      else case find (\<lambda>i. \<not> active (windows s i)) [0..<WM_MAX_WINDOWS] of
        None \<Rightarrow> (None, s)
      | Some i \<Rightarrow>
          let name = (case ttl of Some t \<Rightarrow> t | None \<Rightarrow> bytes_of ''Untitled'');
              s = set_win i (\<lambda>_. window_zero\<lparr>active := True, title := strncpy_buf (WM_TITLE_LEN - 1) name (title window_zero),
                    wx := x, wy := y, ww := w, wh := h, restore_x := x, restore_y := y, restore_w := w, restore_h := h,
                    bg := 0xFF0E1A22, accent := 0xFF2EC4B6, wstate := WIN_NORMAL\<rparr>) s;
              s = s\<lparr>win_count := win_count s + 1\<rparr>
          in (Some i, wm_focus (Some i) s))"

definition wm_destroy :: "win_ptr \<Rightarrow> wm_state \<Rightarrow> wm_state" where
  "wm_destroy win s =
     (case win of
        None \<Rightarrow> s
      | Some w \<Rightarrow>
          if \<not> active (windows s w) then s
          else let s = set_win w (\<lambda>k. k\<lparr>active := False\<rparr>) s;
                   s = (if focused s = Some w then s\<lparr>focused := None\<rparr> else s)
               in s\<lparr>win_count := win_count s - 1\<rparr>)"

definition wm_restore_or_focus :: "win_ptr \<Rightarrow> wm_state \<Rightarrow> wm_state" where
  "wm_restore_or_focus win s =
     (case win of
        None \<Rightarrow> s
      | Some w \<Rightarrow>
          if wfocused (windows s w) \<and> wstate (windows s w) \<noteq> WIN_MINIMIZED
          then (set_win w (\<lambda>k. k\<lparr>wstate := WIN_MINIMIZED\<rparr>) s)\<lparr>focused := None\<rparr>
          else wm_focus win s)"

definition wm_move :: "win_ptr \<Rightarrow> i32 \<Rightarrow> i32 \<Rightarrow> wm_state \<Rightarrow> wm_state" where
  "wm_move win x y s = (case win of None \<Rightarrow> s | Some w \<Rightarrow> set_win w (\<lambda>k. k\<lparr>wx := x, wy := y\<rparr>) s)"

definition wm_resize :: "win_ptr \<Rightarrow> i32 \<Rightarrow> i32 \<Rightarrow> wm_state \<Rightarrow> wm_state" where
  "wm_resize win w h s =
     (case win of
        None \<Rightarrow> s
      | Some i \<Rightarrow>
          let w = (if w <s 160 then 160 else w); h = (if h <s 100 then 100 else h)
          in set_win i (\<lambda>k. k\<lparr>ww := w, wh := h\<rparr>) s)"

definition save_geometry :: "window_t \<Rightarrow> window_t" where
  "save_geometry k = k\<lparr>restore_x := wx k, restore_y := wy k, restore_w := ww k, restore_h := wh k\<rparr>"

definition wm_set_state :: "fb_t \<Rightarrow> win_ptr \<Rightarrow> win_state_t \<Rightarrow> wm_state \<Rightarrow> wm_state" where
  "wm_set_state g win st s =
     (case win of
        None \<Rightarrow> s
      | Some w \<Rightarrow> set_win w (\<lambda>k.
          let k = (if st = WIN_MAXIMIZED \<and> wstate k \<noteq> WIN_MAXIMIZED
                   then (save_geometry k)\<lparr>wx := 0, wy := 0, ww := fb_width g, wh := fb_height g - TASKBAR_H\<rparr>
                   else if st = WIN_NORMAL \<and> wstate k = WIN_MAXIMIZED
                   then k\<lparr>wx := restore_x k, wy := restore_y k, ww := restore_w k, wh := restore_h k\<rparr>
                   else k)
          in k\<lparr>wstate := st\<rparr>) s)"

text \<open>Signed division by 2, which rounds towards 0.\<close>

definition half :: "i32 \<Rightarrow> i32" where
  "half v = (if v <s 0 then - ((- v) div 2) else v div 2)"

definition snap_geometry :: "fb_t \<Rightarrow> i32 \<Rightarrow> window_t \<Rightarrow> window_t" where
  "snap_geometry g layout k =
     (let W = fb_width g; H = fb_height g - TASKBAR_H; hw = half W; hh = half H in
      if layout = 0 then k\<lparr>wx := 0, wy := 0, ww := hw, wh := H\<rparr>
      else if layout = 1 then k\<lparr>wx := hw, wy := 0, ww := W - hw, wh := H\<rparr>
      else if layout = 2 then k\<lparr>wx := 0, wy := 0, ww := hw, wh := hh\<rparr>
      else if layout = 3 then k\<lparr>wx := hw, wy := 0, ww := W - hw, wh := hh\<rparr>
      else if layout = 4 then k\<lparr>wx := 0, wy := hh, ww := hw, wh := H - hh\<rparr>
      else if layout = 5 then k\<lparr>wx := hw, wy := hh, ww := W - hw, wh := H - hh\<rparr>
      else k)"

definition wm_snap :: "fb_t \<Rightarrow> win_ptr \<Rightarrow> i32 \<Rightarrow> wm_state \<Rightarrow> wm_state" where
  "wm_snap g win layout s =
     (case win of
        None \<Rightarrow> s
      | Some w \<Rightarrow>
          let s = (if wstate (windows s w) \<noteq> WIN_MAXIMIZED \<and> layout \<noteq> 6 then set_win w save_geometry s else s) in
          if layout = 6 then wm_set_state g win WIN_MAXIMIZED s
          else set_win w (\<lambda>k. (snap_geometry g layout k)\<lparr>wstate := WIN_NORMAL\<rparr>) s)"

section \<open>Drawing\<close>

definition draw_caption_btn :: "fb_t \<Rightarrow> i32 \<Rightarrow> i32 \<Rightarrow> u32 \<Rightarrow> string \<Rightarrow> mem \<Rightarrow> mem" where
  "draw_caption_btn g x y fill glyph m =
     fb_draw_string g (x + 18) (y + 12) (bytes_of glyph) 0xFFFFFFFF 0xFFFFFFFF (fb_fill_rect g x y 46 32 fill m)"

definition draw_window_chrome ::
    "fb_t \<Rightarrow> perf_settings_t \<Rightarrow> (addr \<Rightarrow> nat \<Rightarrow> mem \<Rightarrow> mem run) \<Rightarrow> wm_state \<Rightarrow> nat \<Rightarrow> mem \<Rightarrow> mem run" where
  "draw_window_chrome g p call_draw s i m =
     (let win = windows s i; x = wx win; y = wy win; w = ww win; h = wh win;
          m = (if shadows p \<and> wstate win \<noteq> WIN_MAXIMIZED then fb_fill_rect g (x + 6) (y + 6) w h 0x55000000 m else m);
          m = fb_fill_rect g x y w h (bg win) m;
          m = fb_fill_rect g x y w 32 (if wfocused win then 0xFF15232E else 0xFF101B24) m;
          m = fb_draw_string g (x + 14) (y + 12) (cstr (title win)) 0xFFF3F7FA 0xFFFFFFFF m;
          m = draw_caption_btn g (x + w - 138) y 0xFF1A2A35 ''_'' m;
          m = draw_caption_btn g (x + w - 92) y 0xFF1A2A35 ''O'' m;
          m = draw_caption_btn g (x + w - 46) y (if wfocused win then 0xFFE81123 else 0xFF3A2030) ''X'' m;
          m = (if wfocused win then fb_fill_rect g x (y + 31) w 2 (accent win) m else fb_draw_rect g x y w h 0xFF2A4552 m)
      in if wdraw win \<noteq> NULL then call_draw (wdraw win) i m else ret m)"

text \<open>The windows in the order in which \<^verbatim>\<open>wm_render\<close> draws them.\<close>

definition render_order :: "wm_state \<Rightarrow> nat list" where
  "render_order s =
     filter (\<lambda>i. active (windows s i) \<and> \<not> wfocused (windows s i) \<and> wstate (windows s i) \<noteq> WIN_MINIMIZED) [0..<WM_MAX_WINDOWS] @
     (case focused s of
        Some f \<Rightarrow> if active (windows s f) \<and> wstate (windows s f) \<noteq> WIN_MINIMIZED then [f] else []
      | None \<Rightarrow> [])"

definition wm_render :: "fb_t \<Rightarrow> perf_settings_t \<Rightarrow> (addr \<Rightarrow> nat \<Rightarrow> mem \<Rightarrow> mem run) \<Rightarrow> wm_state \<Rightarrow> mem \<Rightarrow> mem run" where
  "wm_render g p call_draw s m = run_fold (draw_window_chrome g p call_draw s) (render_order s) m"

section \<open>Queries and input\<close>

definition wm_handle_key :: "(addr \<Rightarrow> nat \<Rightarrow> u8 \<Rightarrow> 's \<Rightarrow> 's run) \<Rightarrow> u8 \<Rightarrow> wm_state \<Rightarrow> 's \<Rightarrow> 's run" where
  "wm_handle_key call_key c wm s =
     (case focused wm of
        Some f \<Rightarrow> if on_key (windows wm f) \<noteq> NULL then call_key (on_key (windows wm f)) f c s else ret s
      | None \<Rightarrow> ret s)"

definition wm_focused :: "wm_state \<Rightarrow> win_ptr" where
  "wm_focused s = focused s"

definition wm_count :: "wm_state \<Rightarrow> u32" where
  "wm_count s = win_count s"

text \<open>The loop of \<^verbatim>\<open>wm_get\<close> over the slots, with the counter \<open>n\<close>.\<close>

primrec get_loop :: "wm_state \<Rightarrow> u32 \<Rightarrow> nat list \<Rightarrow> u32 \<Rightarrow> win_ptr" where
  "get_loop s idx [] n = None"
| "get_loop s idx (i # is) n =
     (if \<not> active (windows s i) then get_loop s idx is n
      else if n = idx then Some i else get_loop s idx is (n + 1))"

definition wm_get :: "u32 \<Rightarrow> wm_state \<Rightarrow> win_ptr" where
  "wm_get idx s = get_loop s idx [0..<WM_MAX_WINDOWS] 0"

definition contains :: "window_t \<Rightarrow> i32 \<Rightarrow> i32 \<Rightarrow> bool" where
  "contains k x y \<longleftrightarrow> wx k \<le>s x \<and> x <s wx k + ww k \<and> wy k \<le>s y \<and> y <s wy k + wh k"

definition wm_at :: "i32 \<Rightarrow> i32 \<Rightarrow> wm_state \<Rightarrow> win_ptr" where
  "wm_at x y s =
     (let scan = find (\<lambda>i. active (windows s i) \<and> wstate (windows s i) \<noteq> WIN_MINIMIZED \<and> contains (windows s i) x y)
                   (rev [0..<WM_MAX_WINDOWS]) in
      case focused s of
        Some f \<Rightarrow> if active (windows s f) \<and> wstate (windows s f) \<noteq> WIN_MINIMIZED \<and> contains (windows s f) x y
                  then Some f else scan
      | None \<Rightarrow> scan)"

text \<open>The two halves of \<^verbatim>\<open>wm_handle_mouse\<close>: a drag in progress, and a press on a window.\<close>

definition drag_step :: "fb_t \<Rightarrow> mouse_state_t \<Rightarrow> nat \<Rightarrow> wm_state \<Rightarrow> wm_state" where
  "drag_step g m w s =
     (if m_left m then
        let s = (if wstate (windows s w) = WIN_MAXIMIZED
                 then (let s = wm_set_state g (Some w) WIN_NORMAL s in s\<lparr>drag_off_x := half (ww (windows s w)), drag_off_y := 16\<rparr>)
                 else s)
        in wm_move (Some w) (m_x m - drag_off_x s) (m_y m - drag_off_y s) s
      else
        let s = (if m_x m \<le>s 12 then wm_snap g (Some w) 0 s
                 else if fb_width g - 12 \<le>s m_x m then wm_snap g (Some w) 1 s
                 else if m_y m \<le>s 8 then wm_snap g (Some w) 6 s
                 else s)
        in s\<lparr>dragging := False, drag_win := None\<rparr>)"

definition press_step :: "fb_t \<Rightarrow> mouse_state_t \<Rightarrow> nat \<Rightarrow> wm_state \<Rightarrow> wm_state" where
  "press_step g m w s =
     (let s = wm_focus (Some w) s; k = windows s w; tx = wx k; ty = wy k; tw = ww k in
      if ty \<le>s m_y m \<and> m_y m <s ty + 32 then
        (if tx + tw - 46 \<le>s m_x m \<and> m_x m <s tx + tw then wm_destroy (Some w) s
         else if tx + tw - 92 \<le>s m_x m \<and> m_x m <s tx + tw - 46
         then wm_set_state g (Some w) (if wstate k = WIN_MAXIMIZED then WIN_NORMAL else WIN_MAXIMIZED) s
         else if tx + tw - 138 \<le>s m_x m \<and> m_x m <s tx + tw - 92
         then (let s = set_win w (\<lambda>k. k\<lparr>wstate := WIN_MINIMIZED\<rparr>) s in if focused s = Some w then s\<lparr>focused := None\<rparr> else s)
         else s\<lparr>dragging := True, drag_win := Some w, drag_off_x := m_x m - tx, drag_off_y := m_y m - ty\<rparr>)
      else s)"

definition wm_handle_mouse :: "fb_t \<Rightarrow> mouse_drv \<Rightarrow> wm_state \<Rightarrow> wm_state" where
  "wm_handle_mouse g drv s =
     (let m = mouse_get drv;
          press = (if \<not> m_left_pressed m then s
                   else (case wm_at (m_x m) (m_y m) s of None \<Rightarrow> s | Some hit \<Rightarrow> press_step g m hit s)) in
      case drag_win s of
        Some w \<Rightarrow> if dragging s \<and> active (windows s w) then drag_step g m w s else press
      | None \<Rightarrow> press)"

section \<open>The invariant of the window table\<close>

text \<open>The windows in use, and those that are to be seen.\<close>

definition live :: "wm_state \<Rightarrow> nat set" where
  "live s = {i. i < WM_MAX_WINDOWS \<and> active (windows s i)}"

definition shown :: "wm_state \<Rightarrow> nat \<Rightarrow> bool" where
  "shown s i \<longleftrightarrow> active (windows s i) \<and> wstate (windows s i) \<noteq> WIN_MINIMIZED"

text \<open>
  The counter agrees with the table and the limit of the profile, the focus pointer names a visible window that has the focus flag, and
  no two windows have the flag. The parameter \<open>b\<close> is the stronger form: a visible window with the flag is the focused one,
  and a window that is being dragged is visible.
\<close>

definition wm_ok :: "bool \<Rightarrow> perf_settings_t \<Rightarrow> wm_state \<Rightarrow> bool" where
  "wm_ok b p s \<longleftrightarrow>
     unat (win_count s) = card (live s) \<and> win_count s \<le> max_windows p \<and>
     (\<forall>f. focused s = Some f \<longrightarrow> f < WM_MAX_WINDOWS \<and> shown s f \<and> wfocused (windows s f)) \<and>
     (\<forall>i < WM_MAX_WINDOWS. b \<and> shown s i \<and> wfocused (windows s i) \<longrightarrow> focused s = Some i) \<and>
     (\<forall>w. dragging s \<and> drag_win s = Some w \<longrightarrow>
        w < WM_MAX_WINDOWS \<and> (b \<and> active (windows s w) \<longrightarrow> wstate (windows s w) \<noteq> WIN_MINIMIZED)) \<and>
     (\<forall>i < WM_MAX_WINDOWS. \<forall>j < WM_MAX_WINDOWS. wfocused (windows s i) \<and> wfocused (windows s j) \<longrightarrow> i = j)"

lemma wm_okD:
  assumes "wm_ok b p s"
  shows "unat (win_count s) = card (live s)" and "win_count s \<le> max_windows p"
    and "focused s = Some f \<Longrightarrow> f < WM_MAX_WINDOWS \<and> shown s f \<and> wfocused (windows s f)"
    and "\<lbrakk>b; i < WM_MAX_WINDOWS; shown s i; wfocused (windows s i)\<rbrakk> \<Longrightarrow> focused s = Some i"
    and "\<lbrakk>dragging s; drag_win s = Some w\<rbrakk> \<Longrightarrow> w < WM_MAX_WINDOWS \<and> (b \<and> active (windows s w) \<longrightarrow> wstate (windows s w) \<noteq> WIN_MINIMIZED)"
    and "\<lbrakk>i < WM_MAX_WINDOWS; j < WM_MAX_WINDOWS; wfocused (windows s i); wfocused (windows s j)\<rbrakk> \<Longrightarrow> i = j"
  using assms unfolding wm_ok_def by blast+

lemma wm_okI:
  assumes "unat (win_count s) = card (live s)" "win_count s \<le> max_windows p"
    and "\<And>f. focused s = Some f \<Longrightarrow> f < WM_MAX_WINDOWS \<and> shown s f \<and> wfocused (windows s f)"
    and "\<And>i. \<lbrakk>b; i < WM_MAX_WINDOWS; shown s i; wfocused (windows s i)\<rbrakk> \<Longrightarrow> focused s = Some i"
    and "\<And>w. \<lbrakk>dragging s; drag_win s = Some w\<rbrakk> \<Longrightarrow> w < WM_MAX_WINDOWS \<and> (b \<and> active (windows s w) \<longrightarrow> wstate (windows s w) \<noteq> WIN_MINIMIZED)"
    and "\<And>i j. \<lbrakk>i < WM_MAX_WINDOWS; j < WM_MAX_WINDOWS; wfocused (windows s i); wfocused (windows s j)\<rbrakk> \<Longrightarrow> i = j"
  shows "wm_ok b p s"
  using assms unfolding wm_ok_def by blast

lemma wm_ok_weaken: "wm_ok b p s \<Longrightarrow> wm_ok (b \<and> c) p s"
  unfolding wm_ok_def by blast

text \<open>As long as some window has the focus, the stronger form of the flag clause holds anyway.\<close>

lemma wm_ok_flag:
  assumes "wm_ok b p s" "b \<or> focused s \<noteq> None" "i < WM_MAX_WINDOWS" "shown s i" "wfocused (windows s i)"
  shows "focused s = Some i"
  using assms wm_okD(3,4,6) [OF assms(1)] by (cases "focused s") blast+

lemma finite_live [simp]: "finite (live s)"
  by (simp add: live_def)

lemma set_win_simps [simp]:
  "windows (set_win i f s) j = (if j = i then f (windows s i) else windows s j)"
  "focused (set_win i f s) = focused s" "win_count (set_win i f s) = win_count s"
  "drag_win (set_win i f s) = drag_win s" "dragging (set_win i f s) = dragging s"
  "drag_off_x (set_win i f s) = drag_off_x s" "drag_off_y (set_win i f s) = drag_off_y s"
  by (simp_all add: set_win_def)

text \<open>A change of one window that touches neither its use nor its flag; it may make the window visible only in the weak form.\<close>

lemma wm_ok_set_win:
  assumes ok: "wm_ok b p s"
    and f: "active (f (windows s i)) = active (windows s i)" "wfocused (f (windows s i)) = wfocused (windows s i)"
    and st: "wstate (f (windows s i)) = WIN_MINIMIZED \<Longrightarrow> wstate (windows s i) = WIN_MINIMIZED"
      "b \<Longrightarrow> wstate (windows s i) = WIN_MINIMIZED \<Longrightarrow> wstate (f (windows s i)) = WIN_MINIMIZED"
  shows "wm_ok b p (set_win i f s)"
proof -
  have sh: "shown s j \<Longrightarrow> shown (set_win i f s) j" "b \<Longrightarrow> shown (set_win i f s) j = shown s j" for j
    using f(1) st by (auto simp: shown_def)
  have lv: "live (set_win i f s) = live s" using f(1) by (auto simp: live_def)
  have fl: "wfocused (windows (set_win i f s) j) = wfocused (windows s j)" "active (windows (set_win i f s) j) = active (windows s j)" for j
    using f by simp_all
  have ms: "wstate (windows (set_win i f s) j) = WIN_MINIMIZED \<Longrightarrow> wstate (windows s j) = WIN_MINIMIZED" for j using st(1) by (auto split: if_splits)
  show ?thesis
  proof (rule wm_okI)
    show "v < WM_MAX_WINDOWS \<and> shown (set_win i f s) v \<and> wfocused (windows (set_win i f s) v)" if "focused (set_win i f s) = Some v" for v
      using that wm_okD(3) [OF ok, of v] sh(1) unfolding fl set_win_simps(2) by blast
    show "focused (set_win i f s) = Some j"
      if "b" "j < WM_MAX_WINDOWS" "shown (set_win i f s) j" "wfocused (windows (set_win i f s) j)" for j
      using that wm_okD(4) [OF ok, of j] sh(2) unfolding fl set_win_simps(2) by blast
    show "w < WM_MAX_WINDOWS \<and> (b \<and> active (windows (set_win i f s) w) \<longrightarrow> wstate (windows (set_win i f s) w) \<noteq> WIN_MINIMIZED)"
      if "dragging (set_win i f s)" "drag_win (set_win i f s) = Some w" for w
      using that wm_okD(5) [OF ok, of w] ms unfolding fl set_win_simps(4,5) by blast
  qed (use wm_okD(1,2,6) [OF ok] in \<open>simp_all only: lv fl set_win_simps(3)\<close>)
qed

lemma wm_ok_init: "\<not> dragging s \<Longrightarrow> wm_ok b p (wm_init s)"
  by (simp add: wm_ok_def wm_init_def live_def shown_def window_zero_def)

text \<open>Giving the focus to a window in use.\<close>

lemma wm_focus_simps:
  assumes "w < WM_MAX_WINDOWS"
  shows "focused (wm_focus (Some w) s) = Some w" "win_count (wm_focus (Some w) s) = win_count s"
    "drag_win (wm_focus (Some w) s) = drag_win s" "dragging (wm_focus (Some w) s) = dragging s"
    "active (windows (wm_focus (Some w) s) j) = active (windows s j)"
    "j < WM_MAX_WINDOWS \<Longrightarrow> wfocused (windows (wm_focus (Some w) s) j) \<longleftrightarrow> j = w"
    "wstate (windows (wm_focus (Some w) s) j) =
       (if j = w \<and> wstate (windows s w) = WIN_MINIMIZED then WIN_NORMAL else wstate (windows s j))"
  using assms by (auto simp: wm_focus_def Let_def set_win_def)

lemma wm_ok_focus:
  assumes "unat (win_count s) = card (live s)" "win_count s \<le> max_windows p" "w \<in> live s"
    and "\<And>v. \<lbrakk>dragging s; drag_win s = Some v\<rbrakk> \<Longrightarrow> v < WM_MAX_WINDOWS \<and> (b \<and> active (windows s v) \<longrightarrow> wstate (windows s v) \<noteq> WIN_MINIMIZED)"
  shows "wm_ok b p (wm_focus (Some w) s)"
proof -
  have w: "w < WM_MAX_WINDOWS" "active (windows s w)" using assms(3) by (auto simp: live_def)
  have lv: "live (wm_focus (Some w) s) = live s" by (simp add: live_def wm_focus_simps w)
  show ?thesis unfolding wm_ok_def lv using w assms(1,2,4) by (auto simp: wm_focus_simps shown_def)
qed

lemma wm_ok_create:
  assumes ok: "wm_ok b p s"
  shows "wm_ok b p (snd (wm_create p ttl x y w h s))"
proof (cases "win_count s \<ge> max_windows p \<or> find (\<lambda>i. \<not> active (windows s i)) [0..<WM_MAX_WINDOWS] = None")
  case True
  then show ?thesis using ok by (auto simp: wm_create_def)
next
  case False
  then obtain i where i: "find (\<lambda>i. \<not> active (windows s i)) [0..<WM_MAX_WINDOWS] = Some i" and lim: "win_count s < max_windows p"
    by (auto simp: not_le)
  have free: "i < WM_MAX_WINDOWS" "\<not> active (windows s i)" using i by (auto simp: find_Some_iff)
  define k where "k = window_zero\<lparr>active := True,
      title := strncpy_buf (WM_TITLE_LEN - 1) (case ttl of Some t \<Rightarrow> t | None \<Rightarrow> bytes_of ''Untitled'') (title window_zero),
      wx := x, wy := y, ww := w, wh := h, restore_x := x, restore_y := y, restore_w := w, restore_h := h,
      bg := 0xFF0E1A22, accent := 0xFF2EC4B6, wstate := WIN_NORMAL\<rparr>"
  define s' where "s' = (set_win i (\<lambda>_. k) s)\<lparr>win_count := win_count s + 1\<rparr>"
  have k: "active k" "wstate k = WIN_NORMAL" by (simp_all add: k_def)
  have cr: "snd (wm_create p ttl x y w h s) = wm_focus (Some i) s'"
    using lim i by (simp add: wm_create_def s'_def k_def Let_def not_le set_win_def)
  have lv: "live s' = insert i (live s)" using free k by (auto simp: live_def s'_def)
  have "unat (win_count s') = Suc (unat (win_count s))"
    using lim unat_Suc_below [of "win_count s" "max_windows p"] by (simp add: s'_def)
  moreover have "card (live s') = Suc (card (live s))" using free by (simp add: lv) (simp add: live_def)
  ultimately have cnt: "unat (win_count s') = card (live s')" using wm_okD(1) [OF ok] by simp
  have le: "win_count s' \<le> max_windows p" using lim by (simp add: s'_def inc_le)
  show ?thesis unfolding cr
  proof (rule wm_ok_focus [OF cnt le])
    show "i \<in> live s'" by (simp add: lv)
    show "v < WM_MAX_WINDOWS \<and> (b \<and> active (windows s' v) \<longrightarrow> wstate (windows s' v) \<noteq> WIN_MINIMIZED)"
      if "dragging s'" "drag_win s' = Some v" for v
      using that wm_okD(5) [OF ok, of v] free k by (auto simp: s'_def split: if_splits)
  qed
qed

lemma wm_ok_destroy:
  assumes ok: "wm_ok b p s" and w: "w < WM_MAX_WINDOWS"
  shows "wm_ok b p (wm_destroy (Some w) s)"
proof (cases "active (windows s w)")
  case True
  define s' where "s' = wm_destroy (Some w) s"
  have f: "win_count s' = win_count s - 1" "focused s' = (if focused s = Some w then None else focused s)"
    "drag_win s' = drag_win s" "dragging s' = dragging s"
    "windows s' j = (if j = w then (windows s w)\<lparr>active := False\<rparr> else windows s j)" for j
    using True by (simp_all add: s'_def wm_destroy_def Let_def)
  have lv: "live s' = live s - {w}" by (auto simp: live_def f)
  have mem: "w \<in> live s" using True w by (simp add: live_def)
  have pos: "0 < unat (win_count s)" using mem wm_okD(1) [OF ok] by (auto simp: card_gt_0_iff)
  then have u: "unat (win_count s') = unat (win_count s) - 1" by (simp add: f unat_minus_one unat_gt_0)
  then have cnt: "unat (win_count s') = card (live s')" using mem wm_okD(1) [OF ok] by (simp add: lv)
  have le: "win_count s' \<le> max_windows p" using u wm_okD(2) [OF ok] by (simp add: word_le_nat_alt)
  have sh: "shown s' j \<longleftrightarrow> shown s j \<and> j \<noteq> w" for j by (simp add: shown_def f)
  have fl: "wfocused (windows s' j) = wfocused (windows s j)" "wstate (windows s' j) = wstate (windows s j)"
    "active (windows s' j) \<longleftrightarrow> active (windows s j) \<and> j \<noteq> w" for j by (simp_all add: f)
  show ?thesis unfolding s'_def [symmetric]
  proof (rule wm_okI [OF cnt le])
    show "v < WM_MAX_WINDOWS \<and> shown s' v \<and> wfocused (windows s' v)" if "focused s' = Some v" for v
      using that wm_okD(3) [OF ok, of v] by (simp add: sh fl f(2) split: if_splits)
    show "focused s' = Some i" if "b" "i < WM_MAX_WINDOWS" "shown s' i" "wfocused (windows s' i)" for i
      using that wm_okD(4) [OF ok, of i] by (simp add: sh fl f(2))
    show "v < WM_MAX_WINDOWS \<and> (b \<and> active (windows s' v) \<longrightarrow> wstate (windows s' v) \<noteq> WIN_MINIMIZED)"
      if "dragging s'" "drag_win s' = Some v" for v
      using that wm_okD(5) [OF ok, of v] by (simp add: fl f(3,4))
  qed (use wm_okD(6) [OF ok] in \<open>simp only: fl\<close>)
next
  case False
  then show ?thesis using ok by (simp add: wm_destroy_def)
qed

lemma drag_fields [simp]:
  "live (s\<lparr>drag_off_x := a\<rparr>) = live s" "live (s\<lparr>drag_off_y := a\<rparr>) = live s"
  "live (s\<lparr>dragging := b\<rparr>) = live s" "live (s\<lparr>drag_win := d\<rparr>) = live s"
  "shown (s\<lparr>drag_off_x := a\<rparr>) = shown s" "shown (s\<lparr>drag_off_y := a\<rparr>) = shown s"
  "shown (s\<lparr>dragging := b\<rparr>) = shown s" "shown (s\<lparr>drag_win := d\<rparr>) = shown s"
  by (simp_all add: live_def shown_def fun_eq_iff)

lemma wm_ok_drag_off [simp]:
  "wm_ok b p (s\<lparr>drag_off_x := a\<rparr>) = wm_ok b p s" "wm_ok b p (s\<lparr>drag_off_y := a\<rparr>) = wm_ok b p s"
  by (simp_all add: wm_ok_def)

lemma wm_ok_drag_end: "wm_ok b p s \<Longrightarrow> wm_ok b p (s\<lparr>dragging := False, drag_win := d\<rparr>)"
  by (simp (no_asm_use) add: wm_ok_def) blast

lemma wm_ok_drag_start:
  "\<lbrakk>wm_ok b p s; w < WM_MAX_WINDOWS; shown s w\<rbrakk> \<Longrightarrow> wm_ok b p (s\<lparr>dragging := True, drag_win := Some w\<rparr>)"
  by (simp (no_asm_use) add: wm_ok_def) (simp (no_asm_use) add: shown_def, blast)

text \<open>Minimising the window that has the focus takes the focus away.\<close>

definition minimised :: "nat \<Rightarrow> wm_state \<Rightarrow> wm_state" where
  "minimised w s = (set_win w (\<lambda>k. k\<lparr>wstate := WIN_MINIMIZED\<rparr>) s)\<lparr>focused := None\<rparr>"

lemma wm_ok_minimised:
  assumes ok: "wm_ok b p s" and w: "w < WM_MAX_WINDOWS" "wfocused (windows s w)" and nd: "b \<Longrightarrow> \<not> (dragging s \<and> drag_win s = Some w)"
  shows "wm_ok b p (minimised w s)"
proof -
  have lv: "live (minimised w s) = live s" by (auto simp: live_def minimised_def)
  have sh: "shown (minimised w s) j \<longleftrightarrow> shown s j \<and> j \<noteq> w" for j by (auto simp: shown_def minimised_def)
  have fl: "wfocused (windows (minimised w s) j) = wfocused (windows s j)"
    "active (windows (minimised w s) j) = active (windows s j)"
    "j \<noteq> w \<Longrightarrow> windows (minimised w s) j = windows s j" for j by (simp_all add: minimised_def)
  show ?thesis
  proof (rule wm_okI)
    show "focused (minimised w s) = Some i"
      if "i < WM_MAX_WINDOWS" "shown (minimised w s) i" "wfocused (windows (minimised w s) i)" for i
      using that wm_okD(6) [OF ok, of i w] w by (simp add: sh fl(1))
    show "v < WM_MAX_WINDOWS \<and> (b \<and> active (windows (minimised w s) v) \<longrightarrow> wstate (windows (minimised w s) v) \<noteq> WIN_MINIMIZED)"
      if "dragging (minimised w s)" "drag_win (minimised w s) = Some v" for v
    proof -
      have "dragging s" "drag_win s = Some v" using that by (simp_all add: minimised_def)
      moreover from this have "b \<Longrightarrow> v \<noteq> w" using nd by auto
      ultimately show ?thesis using wm_okD(5) [OF ok, of v] by (auto simp: fl(2,3))
    qed
    show "i = j" if "i < WM_MAX_WINDOWS" "j < WM_MAX_WINDOWS" "wfocused (windows (minimised w s) i)" "wfocused (windows (minimised w s) j)" for i j
      using that wm_okD(6) [OF ok, of i j] by (simp add: fl(1))
  qed (use wm_okD(1,2) [OF ok] lv in \<open>simp_all add: minimised_def\<close>)
qed

lemma wm_ok_refocus:
  assumes "wm_ok b p s" "w \<in> live s"
  shows "wm_ok b p (wm_focus (Some w) s)"
  using wm_ok_focus [OF wm_okD(1,2) [OF assms(1)] assms(2)] wm_okD(5) [OF assms(1)] by blast

lemma wm_ok_restore:
  assumes ok: "wm_ok b p s" and w: "w \<in> live s"
  shows "wm_ok (b \<and> \<not> (dragging s \<and> drag_win s = Some w)) p (wm_restore_or_focus (Some w) s)"
proof (cases "wfocused (windows s w) \<and> wstate (windows s w) \<noteq> WIN_MINIMIZED")
  case True
  then show ?thesis
    using wm_ok_minimised [OF wm_ok_weaken [OF ok], of w "\<not> (dragging s \<and> drag_win s = Some w)"] w
    by (simp add: wm_restore_or_focus_def minimised_def live_def)
next
  case False
  then show ?thesis using wm_ok_refocus [OF wm_ok_weaken [OF ok] w] by (auto simp: wm_restore_or_focus_def)
qed

lemma wm_ok_set_state:
  assumes "wm_ok b p s" "b \<Longrightarrow> wstate (windows s w) \<noteq> WIN_MINIMIZED" "st \<noteq> WIN_MINIMIZED"
  shows "wm_ok b p (wm_set_state g (Some w) st s)" "wstate (windows (wm_set_state g (Some w) st s) w) = st"
proof -
  show "wm_ok b p (wm_set_state g (Some w) st s)"
    unfolding wm_set_state_def option.case
    by (rule wm_ok_set_win [OF assms(1)]) (use assms(2,3) in \<open>simp_all add: Let_def save_geometry_def\<close>)
  show "wstate (windows (wm_set_state g (Some w) st s) w) = st" by (simp add: wm_set_state_def Let_def)
qed

lemma snap_geometry_fields [simp]:
  "active (snap_geometry g l k) = active k" "wfocused (snap_geometry g l k) = wfocused k"
  by (simp_all add: snap_geometry_def Let_def)

lemma wm_ok_snap:
  assumes ok: "wm_ok b p s" and st: "b \<Longrightarrow> wstate (windows s w) \<noteq> WIN_MINIMIZED"
  shows "wm_ok b p (wm_snap g (Some w) layout s)"
proof -
  define s' where "s' = (if wstate (windows s w) \<noteq> WIN_MAXIMIZED \<and> layout \<noteq> 6 then set_win w save_geometry s else s)"
  have ok': "wm_ok b p s'" unfolding s'_def using ok wm_ok_set_win [OF ok, of save_geometry w] by (simp add: save_geometry_def)
  have st': "b \<Longrightarrow> wstate (windows s' w) \<noteq> WIN_MINIMIZED" using st by (simp add: s'_def save_geometry_def)
  show ?thesis
    unfolding wm_snap_def option.case s'_def [symmetric] Let_def
    using wm_ok_set_state(1) [OF ok' st', of WIN_MAXIMIZED g] wm_ok_set_win [OF ok', of "\<lambda>k. (snap_geometry g layout k)\<lparr>wstate := WIN_NORMAL\<rparr>" w] st'
    by simp
qed

lemma wm_ok_move: "wm_ok b p s \<Longrightarrow> wm_ok b p (wm_move win x y s)"
  by (cases win) (simp_all add: wm_move_def, rule wm_ok_set_win, simp_all)

lemma wm_ok_resize: "wm_ok b p s \<Longrightarrow> wm_ok b p (wm_resize win w h s)"
  by (cases win) (simp_all only: wm_resize_def Let_def option.case, rule wm_ok_set_win, simp_all)

section \<open>Mouse events\<close>

lemma wm_at_shown:
  assumes "wm_ok b p s" "wm_at x y s = Some i"
  shows "i < WM_MAX_WINDOWS" "shown s i"
proof -
  have "i < WM_MAX_WINDOWS \<and> shown s i"
    using assms(2) wm_okD(3) [OF assms(1)]
    by (fastforce simp: wm_at_def shown_def Let_def find_Some_iff rev_nth split: option.splits if_splits)
  then show "i < WM_MAX_WINDOWS" "shown s i" by blast+
qed

lemma wm_ok_drag_step:
  assumes ok: "wm_ok b p s" and st: "b \<Longrightarrow> wstate (windows s w) \<noteq> WIN_MINIMIZED"
  shows "wm_ok b p (drag_step g m w s)"
proof -
  have mx: "wm_ok b p (wm_set_state g (Some w) WIN_NORMAL s)" using wm_ok_set_state [OF ok st] by blast
  show ?thesis unfolding drag_step_def Let_def using ok mx wm_ok_snap [OF ok st] by (simp add: wm_ok_move wm_ok_drag_end)
qed

lemma wm_ok_press_step:
  assumes ok: "wm_ok b p s" and w: "w < WM_MAX_WINDOWS" "shown s w" and nd: "\<not> (dragging s \<and> drag_win s = Some w)"
  shows "wm_ok b p (press_step g m w s)"
proof -
  define s' where "s' = wm_focus (Some w) s"
  have ok': "wm_ok b p s'" using wm_ok_refocus [OF ok, of w] w by (simp add: s'_def live_def shown_def)
  have foc: "focused s' = Some w" by (simp add: s'_def wm_focus_simps w)
  have sh: "shown s' w" and fl: "wfocused (windows s' w)" using wm_okD(3) [OF ok' foc] by simp_all
  have nd': "\<not> (dragging s' \<and> drag_win s' = Some w)" using nd by (simp add: s'_def wm_focus_simps w)
  have st: "wstate (windows s' w) \<noteq> WIN_MINIMIZED" using sh by (simp add: shown_def)
  show ?thesis
    unfolding press_step_def s'_def [symmetric] Let_def
    using ok' foc sh w wm_ok_destroy [OF ok' w(1)] wm_ok_set_state(1) [OF ok' st] wm_ok_minimised [OF ok' w(1) fl nd', unfolded minimised_def]
    by (simp add: wm_ok_drag_start)
qed

lemma wm_ok_handle_mouse:
  assumes ok: "wm_ok b p s"
  shows "wm_ok b p (wm_handle_mouse g drv s)"
proof (cases "\<exists>w. drag_win s = Some w \<and> dragging s \<and> active (windows s w)")
  case True
  then show ?thesis using wm_okD(5) [OF ok] wm_ok_drag_step [OF ok] by (auto simp: wm_handle_mouse_def Let_def)
next
  case False
  define m where "m = mouse_get drv"
  have "wm_handle_mouse g drv s =
      (if \<not> m_left_pressed m then s else (case wm_at (m_x m) (m_y m) s of None \<Rightarrow> s | Some hit \<Rightarrow> press_step g m hit s))"
    using False by (auto simp: wm_handle_mouse_def Let_def m_def split: option.splits)
  moreover have "wm_ok b p (press_step g m hit s)" if "wm_at (m_x m) (m_y m) s = Some hit" for hit
    using wm_ok_press_step [OF ok wm_at_shown [OF ok that]] False wm_at_shown(2) [OF ok that] by (auto simp: shown_def)
  ultimately show ?thesis using ok by (simp split: option.splits)
qed

section \<open>Reachable states\<close>

text \<open>
  The calls the desktop, the applications and the event loop make: windows are created, closed,
  focused, moved, resized and snapped, task bar buttons restore or minimise them, and every frame
  hands the mouse state to the window manager. The flag \<open>b\<close> of a state says that on the way to it no task bar button was pressed for the
  window that was being dragged.
\<close>

inductive wm_reach :: "fb_t \<Rightarrow> perf_settings_t \<Rightarrow> bool \<Rightarrow> wm_state \<Rightarrow> bool" for g p where
  boot: "\<not> dragging s \<Longrightarrow> wm_reach g p True (wm_init s)"
| create: "wm_reach g p b s \<Longrightarrow> wm_reach g p b (snd (wm_create p ttl x y w h s))"
| destroy: "\<lbrakk>wm_reach g p b s; i < WM_MAX_WINDOWS\<rbrakk> \<Longrightarrow> wm_reach g p b (wm_destroy (Some i) s)"
| focus: "\<lbrakk>wm_reach g p b s; i \<in> live s\<rbrakk> \<Longrightarrow> wm_reach g p b (wm_focus (Some i) s)"
| task: "\<lbrakk>wm_reach g p b s; wm_get n s = Some i\<rbrakk>
    \<Longrightarrow> wm_reach g p (b \<and> \<not> (dragging s \<and> drag_win s = Some i)) (wm_restore_or_focus (Some i) s)"
| move: "wm_reach g p b s \<Longrightarrow> wm_reach g p b (wm_move win x y s)"
| resize: "wm_reach g p b s \<Longrightarrow> wm_reach g p b (wm_resize win w h s)"
| snap: "wm_reach g p b s \<Longrightarrow> wm_reach g p b (wm_snap g (wm_focused s) l s)"
| mouse: "wm_reach g p b s \<Longrightarrow> wm_reach g p b (wm_handle_mouse g drv s)"

text \<open>The loop of \<^verbatim>\<open>wm_get\<close> finds the window with the given number among those in use.\<close>

lemma get_loop_nth:
  assumes "unat n + length is < 2 ^ 32"
  shows "get_loop s idx is n =
    (let xs = filter (\<lambda>i. active (windows s i)) is in
     if n \<le> idx \<and> unat idx - unat n < length xs then Some (xs ! (unat idx - unat n)) else None)"
  using assms
proof (induction "is" arbitrary: n)
  case (Cons i "is")
  have n1: "unat (n + 1) = Suc (unat n)" using Cons.prems unat_add_lem [of n 1] by simp
  show ?case
  proof (cases "active (windows s i) \<and> n \<noteq> idx")
    case True
    have "n + 1 \<le> idx \<longleftrightarrow> n \<le> idx" using True n1 by (auto simp: word_le_nat_alt word_unat_eq_iff)
    moreover have "unat idx - unat n = Suc (unat idx - unat (n + 1))" if "n \<le> idx"
      using that True n1 unfolding word_le_nat_alt word_unat_eq_iff by arith
    ultimately show ?thesis using Cons True n1 by (auto simp: Let_def)
  qed (use Cons in \<open>auto simp: Let_def\<close>)
qed (simp add: Let_def)

lemma wm_get_nth:
  "wm_get idx s = (let xs = filter (\<lambda>i. active (windows s i)) [0..<WM_MAX_WINDOWS] in
     if unat idx < length xs then Some (xs ! unat idx) else None)"
  unfolding wm_get_def by (subst get_loop_nth) (simp_all add: WM_MAX_WINDOWS_def Let_def)

lemma wm_get_live: "wm_get idx s = Some i \<Longrightarrow> i \<in> live s"
  using nth_mem [of "unat idx" "filter (\<lambda>i. active (windows s i)) [0..<WM_MAX_WINDOWS]"]
  by (auto simp: wm_get_nth Let_def live_def split: if_splits)

lemma wm_reach_ok: "wm_reach g p b s \<Longrightarrow> wm_ok b p s"
proof (induction rule: wm_reach.induct)
  case (snap b s l)
  show ?case
  proof (cases "focused s")
    case (Some f)
    then have "wstate (windows s f) \<noteq> WIN_MINIMIZED" using wm_okD(3) [OF snap.IH] by (auto simp: shown_def)
    then show ?thesis using wm_ok_snap [OF snap.IH] Some by (simp add: wm_focused_def)
  qed (use snap.IH in \<open>simp add: wm_focused_def wm_snap_def\<close>)
next
  case (task b s n i)
  then show ?case using wm_ok_restore wm_get_live by blast
qed (simp_all add: wm_ok_init wm_ok_create wm_ok_destroy wm_ok_refocus wm_ok_move wm_ok_resize wm_ok_handle_mouse)

subsection \<open>What is drawn and what is hit\<close>

lemma find_filter_conj: "find P (filter Q xs) = find (\<lambda>x. Q x \<and> P x) xs"
  by (induction xs) auto

lemma render_order_drawn:
  assumes ok: "wm_ok b p s"
  shows "distinct (render_order s)"
    and "i \<in> set (render_order s) \<longleftrightarrow> i < WM_MAX_WINDOWS \<and> shown s i \<and> (wfocused (windows s i) \<longrightarrow> focused s = Some i)"
proof -
  show "distinct (render_order s)"
    using wm_okD(3) [OF ok] by (cases "focused s") (auto simp: render_order_def)
  show "i \<in> set (render_order s) \<longleftrightarrow> i < WM_MAX_WINDOWS \<and> shown s i \<and> (wfocused (windows s i) \<longrightarrow> focused s = Some i)"
    using wm_okD(3) [OF ok] by (cases "focused s") (auto simp: render_order_def shown_def)
qed

text \<open>The windows that are visible by their state and not drawn.\<close>

definition undrawn :: "wm_state \<Rightarrow> nat set" where
  "undrawn s = {i \<in> live s. wstate (windows s i) \<noteq> WIN_MINIMIZED} - set (render_order s)"

lemma undrawn_few:
  assumes ok: "wm_ok b p s"
  shows "card (undrawn s) \<le> 1" and "b \<or> focused s \<noteq> None \<Longrightarrow> undrawn s = {}"
proof -
  have u: "i < WM_MAX_WINDOWS \<and> shown s i \<and> wfocused (windows s i) \<and> focused s \<noteq> Some i" if "i \<in> undrawn s" for i
    using that render_order_drawn(2) [OF ok, of i] by (auto simp: undrawn_def live_def shown_def)
  then show "b \<or> focused s \<noteq> None \<Longrightarrow> undrawn s = {}" using wm_ok_flag [OF ok] by blast
  have "finite (undrawn s)" by (simp add: undrawn_def)
  then show "card (undrawn s) \<le> 1" using u wm_okD(6) [OF ok] by (auto simp: card_le_Suc0_iff_eq)
qed

lemma wm_at_topmost:
  assumes ok: "wm_ok b p s" and top: "b \<or> focused s \<noteq> None"
  shows "wm_at x y s = find (\<lambda>i. contains (windows s i) x y) (rev (render_order s))"
proof -
  define hit where "hit = (\<lambda>i. contains (windows s i) x y)"
  define scan where "scan = find (\<lambda>i. active (windows s i) \<and> wstate (windows s i) \<noteq> WIN_MINIMIZED \<and> hit i) (rev [0..<WM_MAX_WINDOWS])"
  define rest where "rest = find hit (rev (filter (\<lambda>i. active (windows s i) \<and> \<not> wfocused (windows s i) \<and> wstate (windows s i) \<noteq> WIN_MINIMIZED) [0..<WM_MAX_WINDOWS]))"
  have same: "scan = rest" if "\<And>f. focused s = Some f \<Longrightarrow> \<not> hit f"
  proof -
    have "\<not> wfocused (windows s i)" if "i < WM_MAX_WINDOWS" "active (windows s i)" "wstate (windows s i) \<noteq> WIN_MINIMIZED" "hit i" for i
      using that \<open>\<And>f. focused s = Some f \<Longrightarrow> \<not> hit f\<close> wm_ok_flag [OF ok top, of i] by (auto simp: shown_def)
    then show ?thesis unfolding scan_def rest_def rev_filter find_filter_conj
      by (intro find_cong refl) auto
  qed
  show ?thesis
  proof (cases "focused s")
    case None
    then have "wm_at x y s = scan" by (simp add: wm_at_def scan_def hit_def Let_def)
    then show ?thesis using same None by (simp add: render_order_def rest_def hit_def)
  next
    case (Some f)
    then have sh: "active (windows s f)" "wstate (windows s f) \<noteq> WIN_MINIMIZED" using wm_okD(3) [OF ok Some] by (simp_all add: shown_def)
    have "wm_at x y s = (if hit f then Some f else scan)" using Some sh by (simp add: wm_at_def scan_def hit_def Let_def)
    moreover have "find (\<lambda>i. contains (windows s i) x y) (rev (render_order s)) = (if hit f then Some f else rest)"
      using Some sh by (simp add: render_order_def rest_def hit_def)
    ultimately show ?thesis using same Some by auto
  qed
qed

section \<open>Geometry\<close>

lemma sint_half:
  assumes "0 \<le> sint v"
  shows "sint (half v) = sint v div 2"
proof -
  have nn: "\<not> v <s 0" using assms by (simp add: word_sless_alt)
  have u: "sint v = int (unat v)" using assms unat_u32_bound [of v] by (simp only: sint_i32 split: if_splits; simp)
  have d: "unat (v div 2) = unat v div 2" by (simp add: unat_div)
  have "unat v < 2147483648" using u assms sint_i32 [of v] unat_u32_bound [of v] by (simp split: if_splits)
  then have "sint (v div 2) = int (unat (v div 2))" using sint_i32 [of "v div 2"] d by (simp split: if_splits)
  then show ?thesis using nn u d by (simp add: half_def zdiv_int)
qed

text \<open>The corner, width and height that a window has after snapping.\<close>

lemma wm_snap_window:
  assumes "l \<noteq> 6"
  shows "windows (wm_snap g (Some w) l s) w =
    (snap_geometry g l (if wstate (windows s w) \<noteq> WIN_MAXIMIZED then save_geometry (windows s w) else windows s w))\<lparr>wstate := WIN_NORMAL\<rparr>"
  using assms by (simp add: wm_snap_def Let_def)

lemma contains_ints:
  assumes "0 \<le> sint (wx k)" "0 \<le> sint (ww k)" "sint (wx k) + sint (ww k) < 2147483648"
    and "0 \<le> sint (wy k)" "0 \<le> sint (wh k)" "sint (wy k) + sint (wh k) < 2147483648"
  shows "contains k x y \<longleftrightarrow> sint (wx k) \<le> sint x \<and> sint x < sint (wx k) + sint (ww k) \<and>
    sint (wy k) \<le> sint y \<and> sint y < sint (wy k) + sint (wh k)"
  using assms by (simp add: contains_def word_sle_eq word_sless_alt sint_add_bounded)

text \<open>The rectangle of a layout in integers: left edge, width, top edge and height.\<close>

definition tile :: "int \<Rightarrow> int \<Rightarrow> i32 \<Rightarrow> int \<times> int \<times> int \<times> int" where
  "tile W H l =
     (let hw = W div 2; hh = H div 2 in
      if l = 0 then (0, hw, 0, H) else if l = 1 then (hw, W - hw, 0, H)
      else if l = 2 then (0, hw, 0, hh) else if l = 3 then (hw, W - hw, 0, hh)
      else if l = 4 then (0, hw, hh, H - hh) else (hw, W - hw, hh, H - hh))"

lemma snapped_contains:
  assumes g: "screen_ok g" and h: "48 \<le> sint (fb_height g)" and l: "l \<in> {0, 1, 2, 3, 4, 5}"
  shows "contains (windows (wm_snap g (Some w) l s) w) x y \<longleftrightarrow>
    (case tile (sint (fb_width g)) (sint (fb_height g) - 48) l of (a, b, c, d) \<Rightarrow>
       a \<le> sint x \<and> sint x < a + b \<and> c \<le> sint y \<and> sint y < c + d)"
proof -
  define W where "W = sint (fb_width g)"
  define H where "H = sint (fb_height g) - 48"
  have b: "0 < W" "W \<le> 2147483520" "0 \<le> H" "H \<le> 2147483520" using screen_sint [OF g] h by (simp_all add: W_def H_def)
  have sH: "sint (fb_height g - TASKBAR_H) = H"
    using b by (subst sint_diff_bounded) (simp_all add: TASKBAR_H_def H_def)
  have hw: "sint (half (fb_width g)) = W div 2" "sint (half (fb_height g - TASKBAR_H)) = H div 2"
    using b by (simp_all add: sint_half sH W_def [symmetric])
  have rest: "sint (fb_width g - half (fb_width g)) = W - W div 2"
    "sint (fb_height g - TASKBAR_H - half (fb_height g - TASKBAR_H)) = H - H div 2"
    using b by (subst sint_diff_bounded; simp add: hw sH W_def [symmetric])+
  define k where "k = windows (wm_snap g (Some w) l s) w"
  have "l \<noteq> 6" using l by auto
  then have "(sint (wx k), sint (ww k), sint (wy k), sint (wh k)) = tile W H l"
    unfolding k_def using l by (auto simp: wm_snap_window snap_geometry_def tile_def Let_def hw sH rest W_def [symmetric])
  moreover have "case tile W H l of (a, b, c, d) \<Rightarrow> 0 \<le> a \<and> 0 \<le> b \<and> a + b < 2147483648 \<and> 0 \<le> c \<and> 0 \<le> d \<and> c + d < 2147483648"
    using b by (auto simp: tile_def Let_def)
  ultimately show ?thesis
    unfolding W_def [symmetric] H_def [symmetric] k_def [symmetric] by (auto simp: contains_ints split: prod.splits)
qed

section \<open>Properties\<close>

text \<open>
  (C26) The window table in every reachable state. The counter is the number of windows in use and
  stays within the limit of the performance profile; the focused window is in use and visible. A
  frame draws only windows that are neither closed nor minimised, none of them twice, and leaves out at most one such window; \<^verbatim>\<open>wm_at\<close> finds only such
  windows. If no task bar button was ever pressed for the window that was being dragged (\<open>b\<close>), and in any case while some window has the focus, none is left out, and
  \<^verbatim>\<open>wm_at\<close> answers with the window that was drawn last among those that contain the point, so a click goes to the window the
  user sees there.
\<close>

theorem wm_reachable_consistent:
  assumes "wm_reach g p b s"
  shows "unat (wm_count s) = card (live s) \<and> wm_count s \<le> max_windows p \<and>
    (\<forall>f. wm_focused s = Some f \<longrightarrow> f \<in> live s \<and> wstate (windows s f) \<noteq> WIN_MINIMIZED) \<and>
    distinct (render_order s) \<and> set (render_order s) \<subseteq> {i \<in> live s. wstate (windows s i) \<noteq> WIN_MINIMIZED} \<and>
    card (undrawn s) \<le> 1 \<and>
    (\<forall>x y i. wm_at x y s = Some i \<longrightarrow> i \<in> live s \<and> wstate (windows s i) \<noteq> WIN_MINIMIZED) \<and>
    (b \<or> wm_focused s \<noteq> None \<longrightarrow>
       set (render_order s) = {i \<in> live s. wstate (windows s i) \<noteq> WIN_MINIMIZED} \<and>
       (\<forall>x y. wm_at x y s = find (\<lambda>i. contains (windows s i) x y) (rev (render_order s))))"
proof -
  have ok: "wm_ok b p s" by (rule wm_reach_ok [OF assms])
  have sub: "set (render_order s) \<subseteq> {i \<in> live s. wstate (windows s i) \<noteq> WIN_MINIMIZED}"
    using render_order_drawn(2) [OF ok] by (auto simp: live_def shown_def)
  have all: "set (render_order s) = {i \<in> live s. wstate (windows s i) \<noteq> WIN_MINIMIZED}" if "b \<or> focused s \<noteq> None"
    using undrawn_few(2) [OF ok that] sub unfolding undrawn_def by blast
  have "\<forall>x y i. wm_at x y s = Some i \<longrightarrow> i \<in> live s \<and> wstate (windows s i) \<noteq> WIN_MINIMIZED"
    using wm_at_shown [OF ok] by (simp add: live_def shown_def)
  moreover have "\<forall>f. wm_focused s = Some f \<longrightarrow> f \<in> live s \<and> wstate (windows s f) \<noteq> WIN_MINIMIZED"
    using wm_okD(3) [OF ok] by (simp add: wm_focused_def live_def shown_def)
  ultimately show ?thesis
    using wm_okD(1,2) [OF ok] render_order_drawn(1) [OF ok] undrawn_few(1) [OF ok] sub all wm_at_topmost [OF ok]
    unfolding wm_count_def wm_focused_def by blast
qed

definition wm_boot :: wm_state where
  "wm_boot = \<lparr>windows = (\<lambda>_. window_zero), focused = None, win_count = 0, drag_win = None, drag_off_x = 0, drag_off_y = 0, dragging = False\<rparr>"

definition low_profile :: perf_settings_t where
  "low_profile = \<lparr>profile = PERF_LOW, animations = False, blur = False, shadows = False, transparency = False, target_fps = 30, max_windows = 4\<rparr>"

definition two_windows :: wm_state where
  "two_windows = snd (wm_create low_profile None 20 20 200 150 (snd (wm_create low_profile None 10 10 200 150 (wm_init wm_boot))))"

definition pointer :: "i32 \<Rightarrow> i32 \<Rightarrow> bool \<Rightarrow> bool \<Rightarrow> mouse_drv" where
  "pointer x y l press = mouse_idle\<lparr>g_mouse := mouse_zero\<lparr>m_x := x, m_y := y, m_left := l, m_left_pressed := press\<rparr>\<rparr>"

definition desk_fb :: fb_t where
  "desk_fb = fb_zero\<lparr>fb_width := 1280, fb_height := 720\<rparr>"

definition hidden_window :: wm_state where
  "hidden_window =
     wm_handle_mouse desk_fb (pointer 0 60 False False)
       (wm_restore_or_focus (Some 1) (wm_handle_mouse desk_fb (pointer 30 25 True True) two_windows))"

lemma two_windows_reach: "wm_reach g low_profile True two_windows"
  unfolding two_windows_def by (intro wm_reach.intros) (simp add: wm_boot_def)

lemma hidden_window_reach: "wm_reach desk_fb low_profile False hidden_window"
proof -
  define s where "s = wm_handle_mouse desk_fb (pointer 30 25 True True) two_windows"
  have "wm_get 1 s = Some 1" "dragging s \<and> drag_win s = Some 1" unfolding s_def by code_simp+
  then show ?thesis
    using wm_reach.task [OF wm_reach.mouse [OF two_windows_reach], of 1 desk_fb "pointer 30 25 True True" 1]
    unfolding hidden_window_def s_def by (intro wm_reach.mouse) simp
qed

text \<open>Both cases: two windows after start-up, and the same two after a task bar press during a drag, where the window that takes the click at (0, 0) is not drawn.\<close>

theorem wm_reachable_consistent_witness:
  "wm_count two_windows = 2 \<and> wm_at 15 15 two_windows = Some 0 \<and> wm_at 50 50 two_windows = Some 1 \<and>
   set (render_order two_windows) = {i \<in> live two_windows. wstate (windows two_windows i) \<noteq> WIN_MINIMIZED} \<and> render_order two_windows = [0, 1] \<and>
   unat (wm_count hidden_window) = card (live hidden_window) \<and> card (undrawn hidden_window) \<le> 1 \<and>
   render_order hidden_window = [0] \<and> wm_at 0 0 hidden_window = Some 1"
proof -
  have "render_order two_windows = [0, 1] \<and> wm_count two_windows = 2 \<and> wm_at 15 15 two_windows = Some 0 \<and> wm_at 50 50 two_windows = Some 1"
    by code_simp
  moreover have "render_order hidden_window = [0] \<and> wm_at 0 0 hidden_window = Some 1" by code_simp
  ultimately show ?thesis
    using wm_reachable_consistent [OF two_windows_reach] wm_reachable_consistent [OF hidden_window_reach] by blast
qed

text \<open>
  (C27) The snap layouts tile the work area. On a screen that is at least as high as the task bar, every
  point above the task bar lies in exactly one of the two halves (layouts 0 and 1) and in exactly
  one of the four quarters (layouts 2 to 5), and no point outside the work area lies in any of them.
\<close>

theorem wm_snap_tiles:
  fixes w :: nat and s :: wm_state
  assumes "screen_ok g" "48 \<le> sint (fb_height g)"
  defines "inside \<equiv> \<lambda>l x y. contains (windows (wm_snap g (Some w) l s) w) x y"
  shows "card {l \<in> {0, 1}. inside l x y} =
      (if 0 \<le> sint x \<and> sint x < sint (fb_width g) \<and> 0 \<le> sint y \<and> sint y < sint (fb_height g) - 48 then 1 else 0) \<and>
    card {l \<in> {2, 3, 4, 5}. inside l x y} =
      (if 0 \<le> sint x \<and> sint x < sint (fb_width g) \<and> 0 \<le> sint y \<and> sint y < sint (fb_height g) - 48 then 1 else 0)"
proof -
  define W where "W = sint (fb_width g)"
  define H where "H = sint (fb_height g) - 48"
  have b: "0 \<le> W" "0 \<le> H" using screen_sint [OF assms(1)] assms(2) by (simp_all add: W_def H_def)
  have i: "inside l x y \<longleftrightarrow> (case tile W H l of (a, b, c, d) \<Rightarrow> a \<le> sint x \<and> sint x < a + b \<and> c \<le> sint y \<and> sint y < c + d)"
    if "l \<in> {0, 1, 2, 3, 4, 5}" for l
    unfolding inside_def W_def H_def by (rule snapped_contains [OF assms(1,2) that])
  have two: "{l \<in> {0, 1}. P l} = (if P 0 then {0} else {}) \<union> (if P 1 then {1} else {})" for P :: "i32 \<Rightarrow> bool" by auto
  have four: "{l \<in> {2, 3, 4, 5}. P l} = (if P 2 then {2} else {}) \<union> (if P 3 then {3} else {}) \<union> (if P 4 then {4} else {}) \<union> (if P 5 then {5} else {})"
    for P :: "i32 \<Rightarrow> bool" by auto
  show ?thesis
    unfolding two four W_def [symmetric] H_def [symmetric] using b
    by (simp add: i tile_def Let_def; linarith)
qed

theorem wm_snap_tiles_witness:
  "card {l \<in> {2, 3, 4, 5}. contains (windows (wm_snap (fb_zero\<lparr>fb_width := 1280, fb_height := 720\<rparr>) (Some 0) l wm_boot) 0) 700 100} = 1"
  using wm_snap_tiles [of "fb_zero\<lparr>fb_width := 1280, fb_height := 720\<rparr>" 0 wm_boot 700 100] by (simp add: screen_ok_def fb_zero_def)

text \<open>
  Maximising and restoring. Setting a window back to normal after maximising it gives it the
  geometry it had. If it is minimised and restored from the task bar in between, it comes back as
  a normal window with the geometry of the whole work area, and maximising and restoring it again does not
  bring the old geometry back.
\<close>

theorem wm_maximise_geometry:
  fixes g :: fb_t
  assumes "w < WM_MAX_WINDOWS" "wfocused (windows s w)" "wstate (windows s w) = WIN_NORMAL"
  defines "geom \<equiv> \<lambda>t. (wx (windows t w), wy (windows t w), ww (windows t w), wh (windows t w))"
    and "toggle \<equiv> \<lambda>t. wm_set_state g (Some w) WIN_NORMAL (wm_set_state g (Some w) WIN_MAXIMIZED t)"
    and "via_task_bar \<equiv> wm_restore_or_focus (Some w) (wm_restore_or_focus (Some w) (wm_set_state g (Some w) WIN_MAXIMIZED s))"
  shows "windows (toggle s) w = save_geometry (windows s w) \<and> geom (toggle s) = geom s \<and>
    wstate (windows via_task_bar w) = WIN_NORMAL \<and>
    geom via_task_bar = (0, 0, fb_width g, fb_height g - TASKBAR_H) \<and>
    geom (toggle via_task_bar) = (0, 0, fb_width g, fb_height g - TASKBAR_H)"
  using assms(1-3) unfolding geom_def toggle_def via_task_bar_def
  by (simp add: wm_set_state_def wm_restore_or_focus_def wm_focus_def save_geometry_def Let_def)

theorem wm_maximise_geometry_witness:
  "wx (windows (wm_set_state small_fb (Some 1) WIN_NORMAL (wm_set_state small_fb (Some 1) WIN_MAXIMIZED two_windows)) 1) = 20"
proof -
  have "wfocused (windows two_windows 1) \<and> wstate (windows two_windows 1) = WIN_NORMAL \<and> wx (windows two_windows 1) = 20" by code_simp
  then show ?thesis using wm_maximise_geometry [of 1 two_windows small_fb] by (simp add: WM_MAX_WINDOWS_def save_geometry_def)
qed

text \<open>
  What goes wrong when a task bar button is pressed for the window being dragged: the window is
  minimised and loses the focus pointer, the release at the left edge makes it a normal window again,
  but its flag is still set. It takes clicks and is not drawn.
\<close>

lemma dragged_window_vanishes:
  "active (windows hidden_window 1) \<and> wstate (windows hidden_window 1) = WIN_NORMAL \<and> render_order hidden_window = [0]"
  by code_simp

end
