(* ===== verification/H3_Log.thy ===== *)
theory H3_Log
  imports H3_Ports H3_String
begin

text \<open>
  Kernel logging (\<^verbatim>\<open>kernel/core/log.c\<close>): the serial port, the ring buffer, the formatter and the two entry points.
  A string argument is the list of its bytes; the argument list holds one slot per argument, and reading a
  slot that is not there or of the other kind leaves defined behaviour.
\<close>

section \<open>State and output\<close>

definition LOG_RING_SIZE :: u64 where
  "LOG_RING_SIZE = 8192"

datatype log_level_t = LOG_TRACE | LOG_DEBUG | LOG_INFO | LOG_WARN | LOG_ERROR | LOG_FATAL

primrec level_num :: "log_level_t \<Rightarrow> nat" where
  "level_num LOG_TRACE = 0"
| "level_num LOG_DEBUG = 1"
| "level_num LOG_INFO = 2"
| "level_num LOG_WARN = 3"
| "level_num LOG_ERROR = 4"
| "level_num LOG_FATAL = 5"

definition min_level :: log_level_t where
  "min_level = LOG_DEBUG"

record 'd log_state =
  log_ring :: "u64 \<Rightarrow> u8"
  log_pos :: u64
  log_dev :: 'd

definition COM1 :: u16 where
  "COM1 = 0x3F8"

definition serial_init :: "'d bus \<Rightarrow> 'd \<Rightarrow> 'd" where
  "serial_init B = outbs B [(COM1 + 1, 0x00), (COM1 + 3, 0x80), (COM1 + 0, 0x03), (COM1 + 1, 0x00), (COM1 + 3, 0x03),
     (COM1 + 2, 0xC7), (COM1 + 4, 0x0B)]"

text \<open>The wait for the transmitter, which lasts as long as the device says so.\<close>

partial_function (option) serial_wait :: "'d bus \<Rightarrow> 'd \<Rightarrow> 'd option" where
  "serial_wait B d = (let (v, d) = inb B (COM1 + 5) d in if v AND 0x20 = 0 then serial_wait B d else Some d)"

definition serial_write :: "'d bus \<Rightarrow> u8 \<Rightarrow> 'd \<Rightarrow> 'd option" where
  "serial_write B c d = map_option (outb B COM1 c) (serial_wait B d)"

definition ring_putc :: "'d bus \<Rightarrow> u8 \<Rightarrow> 'd log_state \<Rightarrow> 'd log_state run" where
  "ring_putc B c s =
     (let s = s\<lparr>log_ring := (log_ring s)(log_pos s mod LOG_RING_SIZE := c), log_pos := log_pos s + 1\<rparr>
      in run_of (map_option (\<lambda>d. s\<lparr>log_dev := d\<rparr>) (serial_write B c (log_dev s))))"

primrec ring_puts :: "'d bus \<Rightarrow> u8 list \<Rightarrow> 'd log_state \<Rightarrow> 'd log_state run" where
  "ring_puts B [] s = ret s"
| "ring_puts B (c # cs) s = run_bind (ring_putc B c s) (ring_puts B cs)"

section \<open>Formatting\<close>

datatype va_slot = Slot u64 | StrSlot "u8 list option"

fun va_num :: "va_slot list \<Rightarrow> (u64 \<times> va_slot list) run" where
  "va_num (Slot v # ap) = ret (v, ap)"
| "va_num ap = fail Overflow"

fun va_str :: "va_slot list \<Rightarrow> (u8 list option \<times> va_slot list) run" where
  "va_str (StrSlot t # ap) = ret (t, ap)"
| "va_str ap = fail Overflow"

text \<open>The string that a number conversion leaves in the array \<^verbatim>\<open>num\<close>, here the first 72 bytes of an empty memory.\<close>

definition num_string :: "mem option \<Rightarrow> u8 list run" where
  "num_string r = run_of (map_option (\<lambda>m. cstr (peek m 0 72)) r)"

definition utoa_string :: "u64 \<Rightarrow> i32 \<Rightarrow> u8 list run" where
  "utoa_string v base = num_string (utoa (\<lambda>_. 0) v 0 base)"

definition itoa_string :: "i64 \<Rightarrow> i32 \<Rightarrow> u8 list run" where
  "itoa_string v base = num_string (itoa (\<lambda>_. 0) v 0 base)"

text \<open>A conversion of one slot with a number formatter.\<close>

definition num_arg :: "(u64 \<Rightarrow> u8 list run) \<Rightarrow> u8 list \<Rightarrow> u8 list \<Rightarrow> va_slot list \<Rightarrow> (u8 list \<times> u8 list \<times> va_slot list) run" where
  "num_arg conv pre fmt ap = run_bind (va_num ap) (\<lambda>(v, ap). run_bind (conv v) (\<lambda>num. ret (pre @ num, fmt, ap)))"

definition long_directive :: "u8 list \<Rightarrow> va_slot list \<Rightarrow> (u8 list \<times> u8 list \<times> va_slot list) run" where
  "long_directive fmt ap =
     (case fmt of
        [] \<Rightarrow> ret ([], [], ap)
      | c # r \<Rightarrow>
          if c \<noteq> 0x6C then ret ([], fmt, ap)
          else (case r of
                  [] \<Rightarrow> ret ([], [], ap)
                | d # r' \<Rightarrow>
                    if d = 0x75 then num_arg (\<lambda>v. utoa_string v 10) [] r' ap
                    else if d = 0x78 then num_arg (\<lambda>v. utoa_string v 16) [] r' ap
                    else if d = 0x64 then num_arg (\<lambda>v. itoa_string v 10) [] r' ap
                    else ret ([], r, ap)))"

text \<open>What the \<^verbatim>\<open>switch\<close> on the character after a percent sign writes, with the rest of the format and of the arguments.\<close>

definition directive :: "u8 \<Rightarrow> u8 list \<Rightarrow> va_slot list \<Rightarrow> (u8 list \<times> u8 list \<times> va_slot list) run" where
  "directive c fmt ap =
     (if c = 0x73 then run_bind (va_str ap) (\<lambda>(t, ap). ret (case t of Some x \<Rightarrow> x | None \<Rightarrow> bytes_of ''(null)'', fmt, ap))
      else if c = 0x63 then run_bind (va_num ap) (\<lambda>(v, ap). ret ([ucast v], fmt, ap))
      else if c = 0x64 \<or> c = 0x69 then num_arg (\<lambda>v. itoa_string (scast (ucast v :: i32)) 10) [] fmt ap
      else if c = 0x75 then num_arg (\<lambda>v. utoa_string (ucast (ucast v :: u32)) 10) [] fmt ap
      else if c = 0x78 then num_arg (\<lambda>v. utoa_string (ucast (ucast v :: u32)) 16) [] fmt ap
      else if c = 0x70 then num_arg (\<lambda>v. utoa_string v 16) (bytes_of ''0x'') fmt ap
      else if c = 0x6C then long_directive fmt ap
      else if c = 0x25 then ret ([0x25], fmt, ap)
      else ret ([0x25, c], fmt, ap))"

lemma directive_rest: "directive c fmt ap = ret (out, fmt', ap') \<Longrightarrow> length fmt' \<le> length fmt"
  by (auto simp: directive_def long_directive_def num_arg_def run_bind_ret split: if_splits list.splits)

text \<open>
  The loop over the format, which ends in a terminator. After a percent sign at the very end the
  \<^verbatim>\<open>default\<close> branch writes the percent sign and the terminator, and the loop goes on behind the string.
\<close>

function kvprintf :: "'d bus \<Rightarrow> u8 list \<Rightarrow> va_slot list \<Rightarrow> 'd log_state \<Rightarrow> 'd log_state run" where
  "kvprintf B [] ap s = ret s"
| "kvprintf B (c # fmt) ap s =
     (if c \<noteq> 0x25 then run_bind (ring_putc B c s) (kvprintf B fmt ap)
      else (case fmt of
              [] \<Rightarrow> run_bind (ring_puts B [0x25, 0] s) (\<lambda>_. fail Overflow)
            | d # fmt \<Rightarrow>
                (case directive d fmt ap of
                   Some (Inr (out, fmt, ap)) \<Rightarrow> run_bind (ring_puts B out s) (kvprintf B fmt ap)
                 | Some (Inl e) \<Rightarrow> fail e
                 | None \<Rightarrow> None)))"
  by pat_completeness auto
termination
  by (relation "measure (\<lambda>(B, fmt, ap, s). length fmt)") (auto dest!: directive_rest [unfolded ret_def])

section \<open>Entry points\<close>

definition klog_init :: "'d bus \<Rightarrow> 'd log_state \<Rightarrow> 'd log_state" where
  "klog_init B s = s\<lparr>log_dev := serial_init B (log_dev s), log_pos := 0, log_ring := (\<lambda>_. 0)\<rparr>"

primrec level_name :: "log_level_t \<Rightarrow> string" where
  "level_name LOG_TRACE = ''TRACE''"
| "level_name LOG_DEBUG = ''DEBUG''"
| "level_name LOG_INFO = ''INFO''"
| "level_name LOG_WARN = ''WARN''"
| "level_name LOG_ERROR = ''ERROR''"
| "level_name LOG_FATAL = ''FATAL''"

definition klog :: "'d bus \<Rightarrow> log_level_t \<Rightarrow> u8 list \<Rightarrow> u8 list \<Rightarrow> va_slot list \<Rightarrow> 'd log_state \<Rightarrow> 'd log_state run" where
  "klog B level subsystem fmt ap s =
     (if level_num level < level_num min_level then ret s
      else run_bind (ring_putc B 0x5B s) (\<lambda>s.
        run_bind (ring_puts B (bytes_of (level_name level)) s) (\<lambda>s.
        run_bind (ring_puts B (bytes_of '']['') s) (\<lambda>s.
        run_bind (ring_puts B subsystem s) (\<lambda>s.
        run_bind (ring_puts B (bytes_of ''] '') s) (\<lambda>s.
        run_bind (kvprintf B fmt ap s) (\<lambda>s.
        ring_putc B 10 s)))))))"

text \<open>The output of a panic; the processor then halts for good.\<close>

definition panic_output :: "'d bus \<Rightarrow> u8 list \<Rightarrow> va_slot list \<Rightarrow> 'd log_state \<Rightarrow> 'd log_state run" where
  "panic_output B fmt ap s =
     run_bind (ring_puts B (10 # bytes_of ''!!!! H3OS KERNEL PANIC !!!!'' @ [10]) s) (\<lambda>s.
     run_bind (kvprintf B fmt ap s) (\<lambda>s. ring_putc B 10 s))"

definition kpanic :: "'d bus \<Rightarrow> u8 list \<Rightarrow> va_slot list \<Rightarrow> 'd log_state \<Rightarrow> unit run" where
  "kpanic B fmt ap s = run_bind (panic_output B fmt ap s) (\<lambda>_. None)"

section \<open>Writing a string\<close>

text \<open>A serial port that is always ready to send and does not change when its status is read.\<close>

definition serial_ready :: "'d bus \<Rightarrow> bool" where
  "serial_ready B \<longleftrightarrow> (\<forall>d. snd (inb B (COM1 + 5) d) = d \<and> fst (inb B (COM1 + 5) d) AND 0x20 \<noteq> 0)"

text \<open>The state after a string was written: the bytes are in the ring and were sent.\<close>

definition put1 :: "'d bus \<Rightarrow> u8 \<Rightarrow> 'd log_state \<Rightarrow> 'd log_state" where
  "put1 B c s = s\<lparr>log_ring := (log_ring s)(log_pos s mod LOG_RING_SIZE := c), log_pos := log_pos s + 1, log_dev := outb B COM1 c (log_dev s)\<rparr>"

definition written :: "'d bus \<Rightarrow> u8 list \<Rightarrow> 'd log_state \<Rightarrow> 'd log_state" where
  "written B = fold (put1 B)"

lemma ring_putc_ready: "serial_ready B \<Longrightarrow> ring_putc B c s = ret (put1 B c s)"
  by (subst ring_putc_def, simp add: serial_write_def Let_def, subst serial_wait.simps)
     (auto simp: serial_ready_def put1_def case_prod_beta Let_def)

lemma ring_puts_ready: "serial_ready B \<Longrightarrow> ring_puts B cs s = ret (written B cs s)"
  by (induction cs arbitrary: s) (simp_all add: ring_putc_ready written_def)

lemma written_simps [simp]: "written B [] s = s" "written B (xs @ ys) s = written B ys (written B xs s)" "written B (c # xs) s = written B xs (put1 B c s)"
  by (simp_all add: written_def)

lemma written_dev: "log_dev (written B cs s) = fold (outb B COM1) cs (log_dev s)" "log_pos (written B cs s) = log_pos s + of_nat (length cs)"
  by (induction cs arbitrary: s) (simp_all add: put1_def)

text \<open>The ring holds the last 8192 bytes of what was written.\<close>

lemma written_ring:
  assumes "unat (log_pos s) + length cs < 18446744073709551616" "i < length cs" "length cs \<le> i + 8192"
  shows "log_ring (written B cs s) ((log_pos s + of_nat i) mod LOG_RING_SIZE) = cs ! i"
  using assms
proof (induction cs rule: rev_induct)
  case (snoc c cs)
  let ?slot = "\<lambda>j. (log_pos s + of_nat j) mod LOG_RING_SIZE"
  have put: "log_ring (written B (cs @ [c]) s) = (log_ring (written B cs s))(?slot (length cs) := c)"
    by (simp add: put1_def written_dev)
  show ?case
  proof (cases "i = length cs")
    case False
    then have i: "i < length cs" "length cs - i < 8192" using snoc.prems by simp_all
    have u: "unat (?slot j) = (unat (log_pos s) + j) mod 8192" if "j \<le> length cs" for j
      using that snoc.prems(1) by (simp add: unat_mod LOG_RING_SIZE_def unat_add_u64 unat_of_nat_u64)
    have "?slot i \<noteq> ?slot (length cs)"
    proof
      assume "?slot i = ?slot (length cs)"
      then have "(unat (log_pos s) + length cs) mod 8192 = (unat (log_pos s) + i) mod 8192"
        using u [of i] u [of "length cs"] i by simp
      then have "8192 dvd length cs - i" using i by (simp add: mod_eq_dvd_iff_nat)
      then show False using i by (auto dest: dvd_imp_le)
    qed
    then show ?thesis unfolding put using snoc i by (simp add: nth_append)
  qed (simp add: put del: written_simps)
qed simp

section \<open>Formatting\<close>

text \<open>The pieces of a format: a character, a conversion with its argument, or a percent sign.\<close>

datatype fmt_item =
    Lit u8
  | FStr "u8 list option"
  | FChr u8
  | FDec i32
  | FUns u32
  | FHex u32
  | FPtr u64
  | FUnsLL u64
  | FHexLL u64
  | FDecLL i64
  | FPct

primrec fmt_text :: "fmt_item \<Rightarrow> u8 list" where
  "fmt_text (Lit c) = [c]"
| "fmt_text (FStr t) = bytes_of ''%s''"
| "fmt_text (FChr c) = bytes_of ''%c''"
| "fmt_text (FDec v) = bytes_of ''%d''"
| "fmt_text (FUns v) = bytes_of ''%u''"
| "fmt_text (FHex v) = bytes_of ''%x''"
| "fmt_text (FPtr v) = bytes_of ''%p''"
| "fmt_text (FUnsLL v) = bytes_of ''%llu''"
| "fmt_text (FHexLL v) = bytes_of ''%llx''"
| "fmt_text (FDecLL v) = bytes_of ''%lld''"
| "fmt_text FPct = bytes_of ''%%''"

primrec fmt_args :: "fmt_item \<Rightarrow> va_slot list" where
  "fmt_args (Lit c) = []"
| "fmt_args (FStr t) = [StrSlot t]"
| "fmt_args (FChr c) = [Slot (ucast c)]"
| "fmt_args (FDec v) = [Slot (scast v)]"
| "fmt_args (FUns v) = [Slot (ucast v)]"
| "fmt_args (FHex v) = [Slot (ucast v)]"
| "fmt_args (FPtr v) = [Slot v]"
| "fmt_args (FUnsLL v) = [Slot v]"
| "fmt_args (FHexLL v) = [Slot v]"
| "fmt_args (FDecLL v) = [Slot v]"
| "fmt_args FPct = []"

definition denotes :: "nat \<Rightarrow> nat \<Rightarrow> u8 list \<Rightarrow> bool" where
  "denotes b v out \<longleftrightarrow> out \<noteq> [] \<and> (\<forall>c \<in> set out. digit_ok b c) \<and> num_val b out = v"

primrec fmt_shows :: "fmt_item \<Rightarrow> u8 list \<Rightarrow> bool" where
  "fmt_shows (Lit c) out \<longleftrightarrow> out = [c] \<and> c \<noteq> 0x25"
| "fmt_shows (FStr t) out \<longleftrightarrow> out = (case t of Some x \<Rightarrow> x | None \<Rightarrow> bytes_of ''(null)'')"
| "fmt_shows (FChr c) out \<longleftrightarrow> out = [c]"
| "fmt_shows (FDec v) out \<longleftrightarrow> dec_val out = sint v"
| "fmt_shows (FUns v) out \<longleftrightarrow> denotes 10 (unat v) out"
| "fmt_shows (FHex v) out \<longleftrightarrow> denotes 16 (unat v) out"
| "fmt_shows (FPtr v) out \<longleftrightarrow> (\<exists>ds. out = bytes_of ''0x'' @ ds \<and> denotes 16 (unat v) ds)"
| "fmt_shows (FUnsLL v) out \<longleftrightarrow> denotes 10 (unat v) out"
| "fmt_shows (FHexLL v) out \<longleftrightarrow> denotes 16 (unat v) out"
| "fmt_shows (FDecLL v) out \<longleftrightarrow> dec_val out = sint v"
| "fmt_shows FPct out \<longleftrightarrow> out = [0x25]"

lemma peek_num: "length xs < 72 \<Longrightarrow> 0 \<notin> set xs \<Longrightarrow> cstr (peek (poke (\<lambda>_. 0) 0 (xs @ [0])) 0 72) = xs"
proof -
  assume a: "length xs < 72" "0 \<notin> set xs"
  have "peek (poke (\<lambda>_. 0) 0 (xs @ [0])) 0 72 = xs @ 0 # replicate (71 - length xs) 0"
    using a(1) by (intro nth_equalityI) (auto simp: poke_apply in_range_def unat_of_nat_u64 nth_append nth_Cons')
  then show ?thesis using a(2) by (simp add: cstr_append_zero)
qed

lemma utoa_string_numeral:
  assumes "base = 10 \<and> b = 10 \<or> base = 16 \<and> b = 16"
  shows "\<exists>out. utoa_string v base = ret out \<and> denotes b (unat v) out"
proof -
  have g: "\<not> base <s 2" "\<not> 16 <s base" "unat (scast base :: u64) = b" using assms by (auto simp: word_sless_alt)
  obtain xs where xs: "utoa (\<lambda>_. 0) v 0 base = Some (poke (\<lambda>_. 0) 0 (xs @ [0]))" "1 \<le> length xs" "length xs \<le> 64"
    "\<forall>c \<in> set xs. digit_ok b c" "num_val b xs = unat v"
    using utoa_poke [OF g(1,2), of "\<lambda>_. 0" v 0] g(3) by auto
  have "0 \<notin> set xs" using xs(4) digit_ok_not_minus by blast
  then show ?thesis using xs by (auto simp: utoa_string_def num_string_def peek_num denotes_def)
qed

lemma itoa_string_numeral: "\<exists>out. itoa_string v 10 = ret out \<and> dec_val out = sint v"
proof -
  have ten: "\<not> (10 :: i32) <s 2" "\<not> 16 <s (10 :: i32)" by (simp_all add: word_sless_alt)
  show ?thesis
  proof (cases "v <s 0")
    case True
    obtain xs where xs: "utoa ((\<lambda>_. 0)(0 := 0x2D)) (- v) 1 10 = Some (poke ((\<lambda>_. 0)(0 := 0x2D)) 1 (xs @ [0]))" "length xs \<le> 64"
      "\<forall>c \<in> set xs. digit_ok 10 c" "num_val 10 xs = unat (- v)"
      using utoa_poke [OF ten, of "(\<lambda>_. 0)(0 := 0x2D)" "- v" 1] by auto
    have "0 \<notin> set (0x2D # xs)" using xs(3) digit_ok_not_minus by auto
    then have "cstr (peek (poke (\<lambda>_. 0) 0 ((0x2D # xs) @ [0])) 0 72) = 0x2D # xs" using xs(2) by (intro peek_num) simp_all
    then show ?thesis using True xs
      by (intro exI [of _ "0x2D # xs"]) (simp add: itoa_string_def itoa_def num_string_def dec_val_def unat_neg_sint del: of_nat_unat)
  next
    case False
    have nn: "0 \<le> sint v" using False by (simp add: word_sless_alt)
    then have "sint v = int (unat v)" using sint_i64 [of v] unat_u64_bound [of v]
      by (cases "unat v < 9223372036854775808"; simp only: if_True if_False; linarith)
    moreover obtain out where "utoa_string v 10 = ret out" "denotes 10 (unat v) out" using utoa_string_numeral [of 10 10 v] by auto
    moreover from this have "hd out \<noteq> 0x2D" using digit_ok_not_minus [of 10 "hd out"] by (auto simp: denotes_def)
    ultimately show ?thesis using False by (intro exI [of _ out]) (simp add: itoa_string_def itoa_def utoa_string_def dec_val_def denotes_def)
  qed
qed

lemma fmt_codes [simp]: "bytes_of ''%s'' = [0x25, 0x73]" "bytes_of ''%c'' = [0x25, 0x63]" "bytes_of ''%d'' = [0x25, 0x64]"
  "bytes_of ''%u'' = [0x25, 0x75]" "bytes_of ''%x'' = [0x25, 0x78]" "bytes_of ''%p'' = [0x25, 0x70]"
  "bytes_of ''%llu'' = [0x25, 0x6C, 0x6C, 0x75]" "bytes_of ''%llx'' = [0x25, 0x6C, 0x6C, 0x78]"
  "bytes_of ''%lld'' = [0x25, 0x6C, 0x6C, 0x64]" "bytes_of ''%%'' = [0x25, 0x25]"
  by (simp_all add: bytes_of_def)

lemma case_ret [simp]: "(case ret x of None \<Rightarrow> a | Some (Inl e) \<Rightarrow> f e | Some (Inr y) \<Rightarrow> g y) = g x"
  by (simp add: ret_def)

text \<open>One piece of a format is consumed with its arguments and written.\<close>

lemma sign_extended: "ucast (ucast v :: u64) = (v :: u32)" "ucast (ucast c :: u64) = (c :: u8)" "ucast (scast v :: u64) = (v :: i32)" "sint (scast v :: i64) = sint (v :: i32)"
  by (rule bit_word_eqI, auto simp: bit_simps)+ (rule bit_eqI, auto simp: bit_simps min_def)

lemma num_arg_ret: "conv v = ret out \<Longrightarrow> num_arg conv pre fmt (Slot v # ap) = ret (pre @ out, fmt, ap)"
  by (simp add: num_arg_def)

lemma kvprintf_item:
  assumes rdy: "serial_ready B" and lit: "\<And>c. it = Lit c \<Longrightarrow> c \<noteq> 0x25"
  shows "\<exists>out. fmt_shows it out \<and> (\<forall>fmt ap s. kvprintf B (fmt_text it @ fmt) (fmt_args it @ ap) s = kvprintf B fmt ap (written B out s))"
proof -
  note u = utoa_string_numeral [of 10 10, simplified] utoa_string_numeral [of 16 16, simplified] and d = itoa_string_numeral
  note dir = directive_def long_directive_def ring_puts_ready [OF rdy]
  show ?thesis
  proof (cases it)
    case (Lit c)
    then show ?thesis using lit ring_putc_ready [OF rdy] by simp
  next
    case (FDec v)
    obtain out where "itoa_string (scast v) 10 = ret out" "dec_val out = sint (scast v :: i64)" using d [of "scast v"] by blast
    then show ?thesis using FDec by (intro exI [of _ out]) (simp add: dir num_arg_ret sign_extended)
  next
    case (FUns v)
    obtain out where "utoa_string (ucast v) 10 = ret out" "denotes 10 (unat v) out" using u(1) [of "ucast v"] by auto
    then show ?thesis using FUns by (intro exI [of _ out]) (simp add: dir num_arg_ret sign_extended)
  next
    case (FHex v)
    obtain out where "utoa_string (ucast v) 16 = ret out" "denotes 16 (unat v) out" using u(2) [of "ucast v"] by auto
    then show ?thesis using FHex by (intro exI [of _ out]) (simp add: dir num_arg_ret sign_extended)
  next
    case (FPtr v)
    obtain out where "utoa_string v 16 = ret out" "denotes 16 (unat v) out" using u(2) by blast
    then show ?thesis using FPtr by (intro exI [of _ "bytes_of ''0x'' @ out"]) (simp add: dir num_arg_ret sign_extended)
  next
    case (FUnsLL v)
    obtain out where "utoa_string v 10 = ret out" "denotes 10 (unat v) out" using u(1) by blast
    then show ?thesis using FUnsLL by (intro exI [of _ out]) (simp add: dir num_arg_ret sign_extended)
  next
    case (FHexLL v)
    obtain out where "utoa_string v 16 = ret out" "denotes 16 (unat v) out" using u(2) by blast
    then show ?thesis using FHexLL by (intro exI [of _ out]) (simp add: dir num_arg_ret sign_extended)
  next
    case (FDecLL v)
    obtain out where "itoa_string v 10 = ret out" "dec_val out = sint v" using d by blast
    then show ?thesis using FDecLL by (intro exI [of _ out]) (simp add: dir num_arg_ret sign_extended)
  qed (simp_all add: dir sign_extended)
qed

lemma kvprintf_items:
  assumes rdy: "serial_ready B" and lit: "Lit 0x25 \<notin> set items"
  shows "\<exists>outs. list_all2 fmt_shows items outs \<and>
    (\<forall>s. kvprintf B (concat (map fmt_text items)) (concat (map fmt_args items)) s = ret (written B (concat outs) s))"
  using lit
proof (induction items)
  case (Cons it items)
  then obtain outs where outs: "list_all2 fmt_shows items outs"
    "\<forall>s. kvprintf B (concat (map fmt_text items)) (concat (map fmt_args items)) s = ret (written B (concat outs) s)" by auto
  obtain out where "fmt_shows it out" "\<forall>fmt ap s. kvprintf B (fmt_text it @ fmt) (fmt_args it @ ap) s = kvprintf B fmt ap (written B out s)"
    using kvprintf_item [OF rdy, of it] Cons.prems by auto
  then show ?case using outs by (intro exI [of _ "out # outs"]) simp
qed simp

section \<open>Properties\<close>

definition log_line :: "log_level_t \<Rightarrow> u8 list \<Rightarrow> u8 list \<Rightarrow> u8 list" where
  "log_line level subsystem msg =
     bytes_of ''['' @ bytes_of (level_name level) @ bytes_of '']['' @ subsystem @ bytes_of ''] '' @ msg @ [10]"

lemma klog_items:
  assumes "serial_ready B" "Lit 0x25 \<notin> set items" "level \<noteq> LOG_TRACE"
  shows "\<exists>outs. list_all2 fmt_shows items outs \<and>
    (\<forall>s. klog B level subsystem (concat (map fmt_text items)) (concat (map fmt_args items)) s = ret (written B (log_line level subsystem (concat outs)) s))"
proof -
  obtain outs where outs: "list_all2 fmt_shows items outs"
    "\<And>s. kvprintf B (concat (map fmt_text items)) (concat (map fmt_args items)) s = ret (written B (concat outs) s)"
    using kvprintf_items [OF assms(1,2)] by blast
  have "klog B level subsystem (concat (map fmt_text items)) (concat (map fmt_args items)) s = ret (written B (log_line level subsystem (concat outs)) s)" for s
    using assms(1,3) outs(2) by (cases level) (simp_all add: klog_def min_level_def log_line_def ring_putc_ready ring_puts_ready bytes_of_def)
  then show ?thesis using outs(1) by blast
qed

text \<open>
  (C30) A log line. With a serial port that is ready, \<^verbatim>\<open>klog\<close> at a level that is not suppressed returns
  for every format made of characters and the supported conversions with matching arguments. It
  sends exactly one line to the port: level, subsystem and the message in which every conversion is
  replaced by the text of its argument, a numeral that denotes it for a number. The last 8192 bytes of the
  line are in the ring buffer. Below the minimum level nothing happens.
\<close>

theorem klog_writes_line:
  assumes "serial_ready B" "Lit 0x25 \<notin> set items" "level \<noteq> LOG_TRACE"
    and "unat (log_pos s) + n < 18446744073709551616"
  shows "\<exists>outs s'. list_all2 fmt_shows items outs \<and>
    klog B level subsystem (concat (map fmt_text items)) (concat (map fmt_args items)) s = ret s' \<and>
    klog B LOG_TRACE subsystem (concat (map fmt_text items)) (concat (map fmt_args items)) s = ret s \<and>
    (let line = log_line level subsystem (concat outs) in
     log_dev s' = fold (outb B COM1) line (log_dev s) \<and> log_pos s' = log_pos s + of_nat (length line) \<and>
     (length line \<le> n \<longrightarrow> (\<forall>i < length line. length line \<le> i + 8192 \<longrightarrow>
        log_ring s' ((log_pos s + of_nat i) mod LOG_RING_SIZE) = line ! i)))"
proof -
  obtain outs where outs: "list_all2 fmt_shows items outs"
    "\<And>s. klog B level subsystem (concat (map fmt_text items)) (concat (map fmt_args items)) s = ret (written B (log_line level subsystem (concat outs)) s)"
    using klog_items [OF assms(1-3)] by blast
  let ?line = "log_line level subsystem (concat outs)"
  have "klog B level subsystem (concat (map fmt_text items)) (concat (map fmt_args items)) s = ret (written B ?line s)" by (rule outs(2))
  moreover have "klog B LOG_TRACE subsystem (concat (map fmt_text items)) (concat (map fmt_args items)) s = ret s"
    by (simp add: klog_def min_level_def)
  moreover have "log_ring (written B ?line s) ((log_pos s + of_nat i) mod LOG_RING_SIZE) = ?line ! i"
    if "length ?line \<le> n" "i < length ?line" "length ?line \<le> i + 8192" for i
    using that assms(4) by (intro written_ring) simp_all
  ultimately show ?thesis using outs(1) by (intro exI [of _ outs] exI [of _ "written B ?line s"]) (simp add: Let_def written_dev del: written_simps)
qed

text \<open>A port that is ready and records what is sent.\<close>

definition serial_dev :: "u8 list bus" where
  "serial_dev = \<lparr>inb = (\<lambda>p d. (0x20, d)), outb = (\<lambda>p v d. d @ [v]), outw = (\<lambda>p v d. d), inl = (\<lambda>p d. (0, d)), outl = (\<lambda>p v d. d)\<rparr>"

theorem klog_writes_line_witness:
  "\<exists>msg s'. klog serial_dev LOG_INFO (bytes_of ''fb'') (bytes_of ''%u'') [Slot 720] \<lparr>log_ring = (\<lambda>_. 0), log_pos = 0, log_dev = []\<rparr> = ret s' \<and>
     denotes 10 720 msg \<and> log_dev s' = bytes_of ''[INFO][fb] '' @ msg @ [10]"
proof -
  have rdy: "serial_ready serial_dev" by (simp add: serial_ready_def serial_dev_def)
  have cat: "fold (outb serial_dev COM1) xs d = d @ xs" for xs d by (induction xs arbitrary: d) (simp_all add: serial_dev_def)
  show ?thesis
    using klog_writes_line [OF rdy, of "[FUns 720]" LOG_INFO "\<lparr>log_ring = (\<lambda>_. 0), log_pos = 0, log_dev = []\<rparr>" 0 "bytes_of ''fb''"]
    by (auto simp: list_all2_Cons1 Let_def cat log_line_def bytes_of_def)
qed

text \<open>A format that ends in a single percent sign makes the formatter read behind its terminator.\<close>

lemma trailing_percent: "serial_ready B \<Longrightarrow> kvprintf B (bytes_of ''100%'') ap s = fail Overflow"
  by (simp add: bytes_of_def ring_putc_ready ring_puts_ready)

section \<open>Formats that fit their arguments\<close>

text \<open>
  Whether the conversions of a format and the arguments agree, so that the formatter reads every
  argument as what it is and stops at the end of the format.
\<close>

fun args_fit :: "u8 list \<Rightarrow> va_slot list \<Rightarrow> bool" where
  "args_fit [] ap = True"
| "args_fit [c] ap = (c \<noteq> 0x25)"
| "args_fit (c # d # fmt) ap =
     (if c \<noteq> 0x25 then args_fit (d # fmt) ap
      else if d = 0x73 then (case ap of StrSlot t # ap \<Rightarrow> args_fit fmt ap | _ \<Rightarrow> False)
      else if d \<in> {0x63, 0x64, 0x69, 0x75, 0x78, 0x70} then (case ap of Slot v # ap \<Rightarrow> args_fit fmt ap | _ \<Rightarrow> False)
      else if d = 0x6C
      then (case fmt of e # g # fmt' \<Rightarrow> e = 0x6C \<and> g \<in> {0x75, 0x78, 0x64} \<and> (case ap of Slot v # ap \<Rightarrow> args_fit fmt' ap | _ \<Rightarrow> False) | _ \<Rightarrow> False)
      else args_fit fmt ap)"

lemma num_conversions: "\<exists>out. utoa_string v 10 = ret out" "\<exists>out. utoa_string v 16 = ret out" "\<exists>out. itoa_string w 10 = ret out"
  using utoa_string_numeral [of 10 10 v] utoa_string_numeral [of 16 16 v] itoa_string_numeral [of w] by auto

lemma directive_num:
  assumes "d \<in> {0x63, 0x64, 0x69, 0x75, 0x78, 0x70}"
  shows "\<exists>out. directive d fmt (Slot v # ap) = ret (out, fmt, ap)"
proof -
  obtain a b c e where "utoa_string (ucast (ucast v :: u32)) 10 = ret a" "utoa_string (ucast (ucast v :: u32)) 16 = ret b" "utoa_string v 16 = ret c"
    "itoa_string (scast (ucast v :: i32)) 10 = ret e" using num_conversions by metis
  then show ?thesis using assms by (auto simp: directive_def num_arg_ret)
qed

lemma directive_long:
  assumes "g \<in> {0x75, 0x78, 0x64}"
  shows "\<exists>out. directive 0x6C (0x6C # g # fmt) (Slot v # ap) = ret (out, fmt, ap)"
proof -
  obtain a b e where "utoa_string v 10 = ret a" "utoa_string v 16 = ret b" "itoa_string v 10 = ret e" using num_conversions by metis
  then show ?thesis using assms by (auto simp: directive_def long_directive_def num_arg_ret)
qed

lemma kvprintf_fits:
  assumes "serial_ready B"
  shows "args_fit fmt ap \<Longrightarrow> \<exists>out. \<forall>s. kvprintf B fmt ap s = ret (written B out s)"
proof (induction fmt ap rule: args_fit.induct)
  case (1 ap)
  then show ?case by (auto intro: exI [of _ "[]"])
next
  case (2 c ap)
  then show ?case using ring_putc_ready [OF assms] by (intro exI [of _ "[c]"]) simp
next
  case (3 c d fmt ap)
  have step: ?case if dr: "directive d fmt ap = ret (out, fmt', ap')" and rest: "\<exists>out. \<forall>s. kvprintf B fmt' ap' s = ret (written B out s)" and c: "c = 0x25" for out fmt' ap'
  proof -
    obtain o2 where "\<forall>s. kvprintf B fmt' ap' s = ret (written B o2 s)" using rest by blast
    then show ?thesis using dr c ring_puts_ready [OF assms] by (intro exI [of _ "out @ o2"]) simp
  qed
  show ?case
  proof (cases "c = 0x25")
    case False
    then obtain out where "\<forall>s. kvprintf B (d # fmt) ap s = ret (written B out s)" using 3 by auto
    then show ?thesis using False ring_putc_ready [OF assms] by (intro exI [of _ "c # out"]) simp
  next
    case c: True
    consider (str) "d = 0x73" | (num) "d \<in> {0x63, 0x64, 0x69, 0x75, 0x78, 0x70}" | (long) "d = 0x6C"
      | (other) "d \<noteq> 0x73" "d \<notin> {0x63, 0x64, 0x69, 0x75, 0x78, 0x70}" "d \<noteq> 0x6C" by blast
    then show ?thesis
    proof cases
      case str
      then obtain t ap' where ap: "ap = StrSlot t # ap'" "args_fit fmt ap'" using "3.prems" c by (auto split: list.splits va_slot.splits)
      show ?thesis by (rule step [of "case t of Some x \<Rightarrow> x | None \<Rightarrow> bytes_of ''(null)''" fmt ap'])
        (use 3 str ap c in \<open>auto simp: directive_def\<close>)
    next
      case num
      then have n: "d \<noteq> 0x73" by auto
      then obtain v ap' where ap: "ap = Slot v # ap'" "args_fit fmt ap'" using "3.prems" c num by (auto split: list.splits va_slot.splits)
      obtain out where "directive d fmt ap = ret (out, fmt, ap')" using directive_num [OF num] ap(1) by blast
      then show ?thesis by (rule step) (use "3.IH"(3) num n ap c in auto)
    next
      case long
      then obtain g fmt' v ap' where f: "fmt = 0x6C # g # fmt'" "g \<in> {0x75, 0x78, 0x64}" "ap = Slot v # ap'" "args_fit fmt' ap'"
        using "3.prems" c by (auto split: list.splits va_slot.splits)
      obtain out where "directive d fmt ap = ret (out, fmt', ap')" using directive_long [OF f(2)] f(1,3) long by blast
      then show ?thesis by (rule step) (use "3.IH"(4) long f c in auto)
    next
      case other
      show ?thesis
      proof (rule step [of "if d = 0x25 then [0x25] else [0x25, d]" fmt ap])
        show "directive d fmt ap = ret (if d = 0x25 then [0x25] else [0x25, d], fmt, ap)" using other by (simp add: directive_def)
        show "\<exists>out. \<forall>s. kvprintf B fmt ap s = ret (written B out s)" using "3.IH"(5) "3.prems" other c by auto
      qed (rule c)
    qed
  qed
qed

lemma klog_fits:
  assumes "serial_ready B" "args_fit fmt ap"
  shows "\<exists>line. \<forall>s. klog B level subsystem fmt ap s = ret (written B line s)"
proof (cases "level_num level < level_num min_level")
  case True
  then show ?thesis by (intro exI [of _ "[]"]) (simp add: klog_def)
next
  case False
  obtain out where out: "\<And>s. kvprintf B fmt ap s = ret (written B out s)" using kvprintf_fits [OF assms] by blast
  have "klog B level subsystem fmt ap s = ret (written B (log_line level subsystem out) s)" for s
    using False assms(1) out by (simp add: klog_def log_line_def ring_putc_ready ring_puts_ready bytes_of_def)
  then show ?thesis by blast
qed

end
