(* ===== verification/H3_Pe.thy ===== *)
theory H3_Pe
  imports H3_Heap H3_Log
begin

text \<open>
  The loader for PE32+ images (\<^verbatim>\<open>loader/pe.c\<close>). The file, its headers and the img are bytes of the
  kernel memory; a packed C struct is read through its field offsets. The code of the loaded program
  is a parameter of \<^verbatim>\<open>pe_run\<close>: a function from its entry address and the kernel state to its result.
  Console callbacks are function pointers, and a call of one is an event of the output.
\<close>

section \<open>Headers\<close>

definition DOS_HEADER_SIZE :: u64 where
  "DOS_HEADER_SIZE = 64"

definition COFF_HEADER_SIZE :: u64 where
  "COFF_HEADER_SIZE = 24"

definition OPTIONAL_SIZE :: u64 where
  "OPTIONAL_SIZE = 112"

definition SECTION_HEADER_SIZE :: u64 where
  "SECTION_HEADER_SIZE = 40"

text \<open>The fields the loader reads, at their offsets in the packed structs.\<close>

record dos_header_t =
  e_magic :: u16
  e_lfanew :: u32

definition dos_header :: "mem \<Rightarrow> addr \<Rightarrow> dos_header_t" where
  "dos_header m a = \<lparr>e_magic = load16 m a, e_lfanew = load32 m (a + 60)\<rparr>"

record coff_header_t =
  signature :: u32
  machine :: u16
  coff_sections :: u16
  size_of_optional_header :: u16

definition coff_header :: "mem \<Rightarrow> addr \<Rightarrow> coff_header_t" where
  "coff_header m a = \<lparr>signature = load32 m a, machine = load16 m (a + 4), coff_sections = load16 m (a + 6),
     size_of_optional_header = load16 m (a + 20)\<rparr>"

record pe32plus_optional_t =
  opt_magic :: u16
  address_of_entry_point :: u32
  opt_image_base :: u64
  opt_size_of_image :: u32
  opt_size_of_headers :: u32
  number_of_rva_and_sizes :: u32

definition optional_header :: "mem \<Rightarrow> addr \<Rightarrow> pe32plus_optional_t" where
  "optional_header m a = \<lparr>opt_magic = load16 m a, address_of_entry_point = load32 m (a + 16), opt_image_base = load64 m (a + 24),
     opt_size_of_image = load32 m (a + 56), opt_size_of_headers = load32 m (a + 60), number_of_rva_and_sizes = load32 m (a + 108)\<rparr>"

record section_header_t =
  virtual_address :: u32
  size_of_raw_data :: u32
  pointer_to_raw_data :: u32

definition section_header :: "mem \<Rightarrow> addr \<Rightarrow> section_header_t" where
  "section_header m a = \<lparr>virtual_address = load32 m (a + 12), size_of_raw_data = load32 m (a + 16), pointer_to_raw_data = load32 m (a + 20)\<rparr>"

definition IMAGE_FILE_MACHINE_AMD64 :: u16 where
  "IMAGE_FILE_MACHINE_AMD64 = 0x8664"

definition IMAGE_REL_BASED_DIR64 :: u16 where
  "IMAGE_REL_BASED_DIR64 = 10"

definition IMAGE_REL_BASED_HIGHLOW :: u16 where
  "IMAGE_REL_BASED_HIGHLOW = 3"

section \<open>The interface for programs\<close>

datatype pe_fn = API_WRITE | API_WRITELN | API_EXEC | API_UPTIME | API_EXIT

text \<open>The table passed to a program; an entry is \<open>None\<close> while it is \<^verbatim>\<open>NULL\<close>.\<close>

record h3os_pe_api_t =
  api_magic :: u64
  api_fns :: "pe_fn option list"

text \<open>
  What the loader and a program do to the console and the log, in order: a call of a console function, or a
  call of \<^verbatim>\<open>klog\<close> for the subsystem \<^verbatim>\<open>pe\<close> with its level, format and arguments.
\<close>

datatype pe_out =
    PeCall addr "u8 list option"
  | PeLog log_level_t string "va_slot list"

record pe_state =
  g_write :: addr
  g_writeln :: addr
  g_exit_code :: i32
  g_exited :: bool
  g_api :: h3os_pe_api_t
  pe_output :: "pe_out list"

definition H3OS_PE_MAGIC :: u64 where
  "H3OS_PE_MAGIC = 0x48335045"

definition pe_klog :: "log_level_t \<Rightarrow> string \<Rightarrow> va_slot list \<Rightarrow> pe_state \<Rightarrow> pe_state" where
  "pe_klog level fmt ap s = s\<lparr>pe_output := pe_output s @ [PeLog level fmt ap]\<rparr>"

definition default_write :: "u8 list option \<Rightarrow> pe_state \<Rightarrow> pe_state" where
  "default_write str = pe_klog LOG_INFO ''%s'' [StrSlot (Some (case str of Some t \<Rightarrow> t | None \<Rightarrow> []))]"

definition api_write :: "u8 list option \<Rightarrow> pe_state \<Rightarrow> pe_state" where
  "api_write str s =
     (if g_write s \<noteq> NULL then s\<lparr>pe_output := pe_output s @ [PeCall (g_write s) str]\<rparr> else default_write str s)"

definition api_writeln :: "u8 list option \<Rightarrow> pe_state \<Rightarrow> pe_state" where
  "api_writeln str s =
     (if g_writeln s \<noteq> NULL then s\<lparr>pe_output := pe_output s @ [PeCall (g_writeln s) str]\<rparr>
      else api_write (Some [10]) (api_write str s))"

definition api_exit :: "i32 \<Rightarrow> pe_state \<Rightarrow> pe_state" where
  "api_exit code s = s\<lparr>g_exit_code := code, g_exited := True\<rparr>"

definition api_exec :: "u8 list option \<Rightarrow> i32" where
  "api_exec path = -1"

definition pe_init :: "pe_state \<Rightarrow> pe_state" where
  "pe_init s = s\<lparr>g_api := \<lparr>api_magic = H3OS_PE_MAGIC,
     api_fns = [Some API_WRITE, Some API_WRITELN, Some API_EXEC, Some API_UPTIME, Some API_EXIT]\<rparr>\<rparr>"

definition pe_set_console :: "addr \<Rightarrow> addr \<Rightarrow> pe_state \<Rightarrow> pe_state" where
  "pe_set_console write_fn writeln_fn s = s\<lparr>g_write := write_fn, g_writeln := writeln_fn\<rparr>"

definition pe_last_exit_code :: "pe_state \<Rightarrow> i32" where
  "pe_last_exit_code s = g_exit_code s"

section \<open>Probing\<close>

record pe_info_t =
  valid :: bool
  is_pe32plus :: bool
  pe_machine :: u16
  entry_rva :: u32
  image_base :: u64
  size_of_image :: u32
  size_of_headers :: u32
  number_of_sections :: u16
  pe_error :: "string option"

definition pe_info_zero :: pe_info_t where
  "pe_info_zero = \<lparr>valid = False, is_pe32plus = False, pe_machine = 0, entry_rva = 0, image_base = 0, size_of_image = 0,
     size_of_headers = 0, number_of_sections = 0, pe_error = None\<rparr>"

definition reject :: "string \<Rightarrow> bool \<times> pe_info_t" where
  "reject msg = (False, pe_info_zero\<lparr>pe_error := Some msg\<rparr>)"

definition pe_probe :: "mem \<Rightarrow> addr \<Rightarrow> u64 \<Rightarrow> bool \<times> pe_info_t" where
  "pe_probe m data fsize =
     (if data = NULL \<or> fsize < DOS_HEADER_SIZE then reject ''too small''
      else let dos = dos_header m data in
      if e_magic dos \<noteq> 0x5A4D then reject ''not MZ''
      else if e_lfanew dos = 0 \<or> ucast (e_lfanew dos) + COFF_HEADER_SIZE + 4 > fsize then reject ''bad e_lfanew''
      else let p = data + ucast (e_lfanew dos) in
      if m p \<noteq> 0x50 \<or> m (p + 1) \<noteq> 0x45 \<or> m (p + 2) \<noteq> 0 \<or> m (p + 3) \<noteq> 0 then reject ''no PE signature''
      else let coff = coff_header m p in
      if signature coff \<noteq> 0x00004550 then reject ''bad PE sig''
      else if machine coff \<noteq> IMAGE_FILE_MACHINE_AMD64 then reject ''not AMD64''
      else if ucast (size_of_optional_header coff) < OPTIONAL_SIZE then reject ''optional header too small''
      else let opt = optional_header m (p + COFF_HEADER_SIZE) in
      if opt_magic opt \<noteq> 0x20B then reject ''not PE32+''
      else (True, \<lparr>valid = True, is_pe32plus = True, pe_machine = machine coff, entry_rva = address_of_entry_point opt,
              image_base = opt_image_base opt, size_of_image = opt_size_of_image opt, size_of_headers = opt_size_of_headers opt,
              number_of_sections = coff_sections coff, pe_error = None\<rparr>))"

section \<open>Relocation\<close>

definition reloc_entry :: "addr \<Rightarrow> u32 \<Rightarrow> u64 \<Rightarrow> u16 \<Rightarrow> mem \<Rightarrow> mem" where
  "reloc_entry img page delta e m =
     (let ty = drop_bit 12 e; target = img + ucast page + ucast (e AND 0xFFF) in
      if ty = IMAGE_REL_BASED_DIR64 then store64 m target (load64 m target + delta)
      else if ty = IMAGE_REL_BASED_HIGHLOW then store32 m target (load32 m target + ucast delta)
      else m)"

text \<open>The loop over the entries of a block, which are read from the image as the loop runs.\<close>

definition reloc_entries :: "addr \<Rightarrow> u32 \<Rightarrow> u64 \<Rightarrow> addr \<Rightarrow> u32 \<Rightarrow> mem \<Rightarrow> mem" where
  "reloc_entries img page delta entries count m =
     fold (\<lambda>i m. reloc_entry img page delta (load16 m (entries + 2 * of_nat i)) m) [0..<unat count] m"

text \<open>The loop over the blocks; \<open>dir\<close> is the address of the directory entry.\<close>

partial_function (option) reloc_loop :: "addr \<Rightarrow> addr \<Rightarrow> u64 \<Rightarrow> u32 \<Rightarrow> mem \<Rightarrow> mem option" where
  "reloc_loop img dir delta pos m =
     (if pos + 8 \<le> load32 m (dir + 4) then
        let block = img + ucast (load32 m dir) + ucast pos;
            page_rva = load32 m block;
            block_size = load32 m (block + 4)
        in if block_size < 8 then Some m
           else reloc_loop img dir delta (pos + block_size)
                  (reloc_entries img page_rva delta (block + 8) ((block_size - 8) div 2) m)
      else Some m)"

definition apply_relocations :: "addr \<Rightarrow> u64 \<Rightarrow> u64 \<Rightarrow> addr \<Rightarrow> mem \<Rightarrow> mem option" where
  "apply_relocations img load_base preferred opt m =
     (if load_base = preferred then Some m
      else if number_of_rva_and_sizes (optional_header m opt) < 6 then Some m
      else let dir = opt + 112 + 5 * 8 in
        if load32 m dir = 0 \<or> load32 m (dir + 4) = 0 then Some m
        else reloc_loop img dir (load_base - preferred) 0 m)"

section \<open>Loading and running\<close>

definition load_section :: "addr \<Rightarrow> u64 \<Rightarrow> addr \<Rightarrow> u32 \<Rightarrow> addr \<Rightarrow> mem \<Rightarrow> mem" where
  "load_section data fsize img img_size sec m =
     (let s = section_header m sec; raw = ucast (size_of_raw_data s) :: u64 in
      if size_of_raw_data s = 0 \<or> pointer_to_raw_data s = 0 then m
      else if ucast (pointer_to_raw_data s) + raw > fsize then m
      else if ucast (virtual_address s) + raw > ucast img_size then m
      else snd (memcpy m (img + ucast (virtual_address s)) (data + ucast (pointer_to_raw_data s)) raw))"

definition load_sections :: "addr \<Rightarrow> u64 \<Rightarrow> addr \<Rightarrow> pe_info_t \<Rightarrow> addr \<Rightarrow> mem \<Rightarrow> mem" where
  "load_sections data fsize img info secs m =
     fold (\<lambda>i. load_section data fsize img (size_of_image info) (secs + SECTION_HEADER_SIZE * of_nat i))
       [0..<unat (number_of_sections info)] m"

definition load_headers :: "addr \<Rightarrow> u64 \<Rightarrow> addr \<Rightarrow> pe_info_t \<Rightarrow> mem \<Rightarrow> mem" where
  "load_headers data fsize img info m =
     (let m = snd (memset m img 0 (ucast (size_of_image info)));
          n = ucast (size_of_headers info) :: u64;
          n = (if n > fsize then fsize else n);
          n = (if n > ucast (size_of_image info) then ucast (size_of_image info) else n)
      in snd (memcpy m img data n))"

text \<open>Pages for the image, or a block of the heap.\<close>

definition alloc_image :: "pe_info_t \<Rightarrow> heap_state \<Rightarrow> (addr \<times> heap_state) run" where
  "alloc_image info s =
     (let pages = H3OS_ALIGN_UP (ucast (size_of_image info)) PAGE_SIZE div PAGE_SIZE in
      run_bind (run_of (pmm_alloc_pages pages (heap_pmm s))) (\<lambda>(phys, pmm).
        let s = s\<lparr>heap_pmm := pmm\<rparr> in
        if phys \<noteq> 0 then ret (phys, s) else run_heap (kmalloc (ucast (size_of_image info)) s)))"

text \<open>The name in the log lines of a run, and the calls that surround the program.\<close>

definition shown_name :: "u8 list option \<Rightarrow> va_slot" where
  "shown_name name = StrSlot (Some (case name of Some str \<Rightarrow> str | None \<Rightarrow> bytes_of ''exe''))"

definition call_entry ::
    "(addr \<Rightarrow> heap_state \<Rightarrow> pe_state \<Rightarrow> i32 \<times> heap_state \<times> pe_state) \<Rightarrow> u8 list option \<Rightarrow> addr \<Rightarrow> u32 \<Rightarrow> heap_state \<Rightarrow> pe_state
      \<Rightarrow> i32 \<times> heap_state \<times> pe_state" where
  "call_entry program name entry len h s =
     (let s = pe_klog LOG_INFO ''Running %s entry=%p size=%u'' [shown_name name, Slot entry, Slot (ucast len)] (s\<lparr>g_exited := False, g_exit_code := 0\<rparr>);
          (rc, h, s) = program entry h s;
          rc = (if g_exited s then g_exit_code s else rc)
      in (rc, h, pe_klog LOG_INFO ''%s exited with %d'' [shown_name name, Slot (ucast rc)] s))"

definition pe_run ::
    "(addr \<Rightarrow> heap_state \<Rightarrow> pe_state \<Rightarrow> i32 \<times> heap_state \<times> pe_state) \<Rightarrow> addr \<Rightarrow> u64 \<Rightarrow> u8 list option \<Rightarrow> heap_state \<Rightarrow> pe_state
      \<Rightarrow> (i32 \<times> heap_state \<times> pe_state) run" where
  "pe_run program data fsize name h s =
     (let (ok, info) = pe_probe (heap_mem h) data fsize in
      if \<not> ok
      then ret (-1, h, pe_klog LOG_ERROR ''reject %s: %s''
                         [shown_name name, StrSlot (Some (bytes_of (case pe_error info of Some e \<Rightarrow> e | None \<Rightarrow> ''?'')))] s)
      else let p = data + ucast (e_lfanew (dos_header (heap_mem h) data));
               opt = p + COFF_HEADER_SIZE;
               secs = opt + ucast (size_of_optional_header (coff_header (heap_mem h) p));
               pages = H3OS_ALIGN_UP (ucast (size_of_image info)) PAGE_SIZE div PAGE_SIZE
           in if pages = 0 then ret (-1, h, s)
              else run_bind (alloc_image info h) (\<lambda>(img, h).
                if img = NULL then ret (-1, h, s)
                else let m = load_sections data fsize img info secs (load_headers data fsize img info (heap_mem h))
                     in run_bind (run_of (apply_relocations img img (image_base info) opt m)) (\<lambda>m.
                       let h = h\<lparr>heap_mem := m\<rparr> in
                       if entry_rva info \<ge> size_of_image info then ret (-1, h, pe_klog LOG_ERROR ''bad entry RVA'' [] s)
                       else ret (call_entry program name (img + ucast (entry_rva info)) (size_of_image info) h s))))"

section \<open>The relocation loop\<close>

lemma peek_cong: "(\<And>x. in_range x a n \<Longrightarrow> m' x = m x) \<Longrightarrow> n \<le> 18446744073709551616 \<Longrightarrow> peek m' a n = peek m a n"
  unfolding peek_def by (rule map_cong) (simp_all add: in_range_offset)

lemma load_cong:
  "(\<And>x. in_range x a 2 \<Longrightarrow> m' x = m x) \<Longrightarrow> load16 m' a = load16 m a"
  "(\<And>x. in_range x a 4 \<Longrightarrow> m' x = m x) \<Longrightarrow> load32 m' a = load32 m a"
  unfolding load16_def load32_def by (rule arg_cong [where f = word_of_bytes], rule peek_cong, blast, simp)+

text \<open>The cells that the entries of a block name, and those of all blocks.\<close>

definition reloc_target :: "addr \<Rightarrow> u32 \<Rightarrow> u16 \<Rightarrow> addr" where
  "reloc_target img page e = img + ucast page + ucast (e AND 0xFFF)"

definition block_targets :: "addr \<Rightarrow> u32 \<times> u16 list \<Rightarrow> addr list" where
  "block_targets img b = map (reloc_target img (fst b)) (filter (\<lambda>e. drop_bit 12 e = IMAGE_REL_BASED_DIR64) (snd b))"

definition reloc_targets :: "addr \<Rightarrow> (u32 \<times> u16 list) list \<Rightarrow> addr list" where
  "reloc_targets img bs = concat (map (block_targets img) bs)"

abbreviation add_cells :: "u64 \<Rightarrow> addr list \<Rightarrow> mem \<Rightarrow> mem" where
  "add_cells d \<equiv> fold (\<lambda>a m. store64 m a (load64 m a + d))"

text \<open>\<open>apart ts a n\<close>: none of the cells \<open>ts\<close> meets the \<open>n\<close> bytes at \<open>a\<close>.\<close>

definition apart :: "addr list \<Rightarrow> addr \<Rightarrow> nat \<Rightarrow> bool" where
  "apart ts a n \<longleftrightarrow> (\<forall>t \<in> set ts. disjoint_ranges a n t 8)"

lemma add_cells_apart: "apart ts a n \<Longrightarrow> in_range x a n \<Longrightarrow> add_cells d ts m x = m x"
  by (rule cell64.add_all_frame) (auto simp: apart_def disjoint_ranges_def)

lemma apart_sub:
  assumes "apart ts a n" "\<And>x. in_range x b k \<Longrightarrow> in_range x a n" "set us \<subseteq> set ts"
  shows "apart us b k"
  using assms by (auto simp: apart_def disjoint_ranges_def)

lemma reloc_entries_cells:
  assumes "length es < 2147483648" "\<And>i. i < length es \<Longrightarrow> load16 m (ents + 2 * of_nat i) = es ! i"
    and "\<And>e. e \<in> set es \<Longrightarrow> drop_bit 12 e \<noteq> IMAGE_REL_BASED_HIGHLOW"
    and "apart (block_targets img (page, es)) ents (2 * length es)" and "unat count = length es"
  shows "reloc_entries img page d ents count m = add_cells d (block_targets img (page, es)) m"
proof -
  have "fold (\<lambda>i m. reloc_entry img page d (load16 m (ents + 2 * of_nat i)) m) [0..<n] m =
      add_cells d (block_targets img (page, take n es)) m" if "n \<le> length es" for n
    using that
  proof (induction n)
    case 0
    then show ?case by (simp add: block_targets_def)
  next
    case (Suc n)
    define mn where "mn = add_cells d (block_targets img (page, take n es)) m"
    have sub: "set (block_targets img (page, take n es)) \<subseteq> set (block_targets img (page, es))"
      using set_take_subset [of n es] by (auto simp: block_targets_def)
    have "in_range x ents (2 * length es)" if "in_range x (ents + 2 * of_nat n) 2" for x
    proof -
      have k: "unat (2 * of_nat n :: u64) = 2 * n" using Suc.prems assms(1) unat_of_nat_u64 [of "2 * n"] by simp
      then show ?thesis using that Suc.prems assms(1) by (simp add: in_range_add) (simp add: in_range_def)
    qed
    then have "mn x = m x" if "in_range x (ents + 2 * of_nat n) 2" for x
      unfolding mn_def using that by (intro add_cells_apart [OF apart_sub [OF assms(4) _ sub]]) auto
    then have "load16 mn (ents + 2 * of_nat n) = load16 m (ents + 2 * of_nat n)" by (rule load_cong(1))
    then have e: "load16 mn (ents + 2 * of_nat n) = es ! n" using assms(2) Suc.prems by simp
    have "drop_bit 12 (es ! n) \<noteq> IMAGE_REL_BASED_HIGHLOW" using assms(3) [of "es ! n"] Suc.prems by simp
    then show ?case
      using Suc e [unfolded mn_def] by (simp add: take_Suc_conv_app_nth block_targets_def reloc_entry_def reloc_target_def Let_def)
  qed
  from this [of "length es"] show ?thesis using assms(5) by (simp add: reloc_entries_def)
qed

text \<open>\<open>reloc_blocks m a bs\<close>: the blocks \<open>bs\<close> are encoded from the address \<open>a\<close> on.\<close>

definition block_bytes :: "u32 \<times> u16 list \<Rightarrow> nat" where
  "block_bytes b = 8 + 2 * length (snd b)"

primrec reloc_blocks :: "mem \<Rightarrow> addr \<Rightarrow> (u32 \<times> u16 list) list \<Rightarrow> bool" where
  "reloc_blocks m a [] \<longleftrightarrow> True"
| "reloc_blocks m a (b # bs) \<longleftrightarrow>
     load32 m a = fst b \<and> load32 m (a + 4) = of_nat (block_bytes b) \<and>
     (\<forall>i < length (snd b). load16 m (a + 8 + 2 * of_nat i) = snd b ! i) \<and>
     reloc_blocks m (a + of_nat (block_bytes b)) bs"

lemma in_range_off:
  assumes "i + k \<le> n" "n < 18446744073709551616" "in_range x (a + of_nat i) k"
  shows "in_range x a n"
  using assms in_range_add [of "of_nat i" k x a] by (simp add: unat_of_nat_u64) (simp add: in_range_def)

lemma reloc_blocks_cong:
  assumes "\<And>x. in_range x a (sum_list (map block_bytes bs)) \<Longrightarrow> m' x = m x" "sum_list (map block_bytes bs) < 4294967296"
    and "reloc_blocks m a bs"
  shows "reloc_blocks m' a bs"
  using assms
proof (induction bs arbitrary: a)
  case (Cons b bs)
  let ?n = "sum_list (map block_bytes (b # bs))"
  have eq: "m' x = m x" if "i + k \<le> ?n" "in_range x (a + of_nat i) k" for x i k
    using Cons.prems(1) in_range_off [OF that(1) _ that(2)] Cons.prems(2) by simp
  have "load32 m' a = load32 m a" "load32 m' (a + 4) = load32 m (a + 4)"
    using eq [of 0 4] eq [of 4 4] by (auto intro!: load_cong(2) simp: block_bytes_def)
  moreover have "load16 m' (a + 8 + 2 * of_nat i) = load16 m (a + 8 + 2 * of_nat i)" if "i < length (snd b)" for i
    using eq [of "8 + 2 * i" 2] that by (auto intro!: load_cong(1) simp: block_bytes_def algebra_simps)
  moreover have "reloc_blocks m' (a + of_nat (block_bytes b)) bs"
    using Cons.prems eq [of "block_bytes b" "sum_list (map block_bytes bs)"] by (intro Cons.IH) auto
  ultimately show ?case using Cons.prems(3) by simp
qed simp

lemma ucast_add_u32: "unat a + unat b < 4294967296 \<Longrightarrow> (ucast (a + b :: u32) :: u64) = ucast a + ucast b"
  by (simp add: word_unat_eq_iff unat_word_ariths)

lemma unat_of_nat_u32: "n < 4294967296 \<Longrightarrow> unat (of_nat n :: u32) = n"
  by (simp add: unsigned_of_nat take_bit_nat_eq_self_iff)

text \<open>
  The loop over the blocks adds the displacement to the cells of all blocks, as long as these do not
  meet the table itself or its directory entry.
\<close>

lemma reloc_loop_cells:
  assumes "reloc_blocks m (img + ucast va + ucast pos) bs"
    and "load32 m dir = va" "load32 m (dir + 4) = sz" "unat sz + 8 < 4294967296"
    and "unat pos + sum_list (map block_bytes bs) = unat sz"
    and "\<And>b e. b \<in> set bs \<Longrightarrow> e \<in> set (snd b) \<Longrightarrow> drop_bit 12 e \<noteq> IMAGE_REL_BASED_HIGHLOW"
    and "apart (reloc_targets img bs) (img + ucast va) (unat sz)" "apart (reloc_targets img bs) dir 8"
  shows "reloc_loop img dir d pos m = Some (add_cells d (reloc_targets img bs) m)"
  using assms
proof (induction bs arbitrary: pos m)
  case Nil
  then have "unat (pos + 8) = unat pos + 8" by (simp add: unat_word_ariths)
  then have "\<not> pos + 8 \<le> sz" using Nil.prems(5) by (simp add: word_le_nat_alt)
  then show ?case using Nil.prems(3) by (subst reloc_loop.simps) (simp add: reloc_targets_def)
next
  case (Cons b bs)
  let ?blk = "img + ucast va + ucast pos" and ?n = "length (snd b)"
  define bsz :: u32 where "bsz = of_nat (block_bytes b)"
  define m' where "m' = add_cells d (block_targets img b) m"
  have bb: "unat pos + block_bytes b + sum_list (map block_bytes bs) = unat sz" using Cons.prems(5) by simp
  have ub: "unat bsz = block_bytes b" using bb Cons.prems(4) by (simp add: bsz_def unat_of_nat_u32)
  have p8: "pos + 8 \<le> sz" using bb Cons.prems(4) by (simp add: word_le_nat_alt unat_word_ariths block_bytes_def)
  have np: "unat (pos + bsz) = unat pos + block_bytes b" using bb Cons.prems(4) ub by (simp add: unat_word_ariths)
  have nb: "img + ucast va + ucast (pos + bsz) = ?blk + of_nat (block_bytes b)"
  proof -
    have "(ucast bsz :: u64) = of_nat (block_bytes b)" using ub bb Cons.prems(4) by (simp add: word_unat_eq_iff unat_of_nat_u64)
    then show ?thesis using bb Cons.prems(4) ub by (simp add: ucast_add_u32)
  qed
  have sub: "set (block_targets img b) \<subseteq> set (reloc_targets img (b # bs))" "set (reloc_targets img bs) \<subseteq> set (reloc_targets img (b # bs))"
    by (auto simp: reloc_targets_def)
  have tab: "in_range x (img + ucast va) (unat sz)" if "in_range x (?blk + of_nat i) k" "unat pos + i + k \<le> unat sz" for x i k
  proof (rule in_range_off [of "unat pos + i" k])
    have "?blk + of_nat i = img + ucast va + of_nat (unat pos + i)" by (simp add: unat_ucast_simps(1) [symmetric] del: unat_ucast_simps)
    then show "in_range x (img + ucast va + of_nat (unat pos + i)) k" using that(1) by (simp only:)
  qed (use that(2) in \<open>simp_all add: less_trans [OF unat_u32_bound]\<close>)
  have cnt: "unat ((bsz - 8) div 2) = ?n"
    using ub by (simp add: unat_div unat_sub word_le_nat_alt block_bytes_def)
  have ent: "reloc_entries img (fst b) d (?blk + 8) ((bsz - 8) div 2) m = m'"
    unfolding m'_def
  proof (subst reloc_entries_cells [where es = "snd b"])
    show "apart (block_targets img (fst b, snd b)) (?blk + 8) (2 * ?n)"
    proof (rule apart_sub [OF Cons.prems(7)])
      show "in_range x (img + ucast va) (unat sz)" if "in_range x (?blk + 8) (2 * ?n)" for x
        using tab [of x 8 "2 * ?n"] that bb by (simp add: block_bytes_def)
    qed (use sub in simp)
    show "drop_bit 12 e \<noteq> IMAGE_REL_BASED_HIGHLOW" if "e \<in> set (snd b)" for e using Cons.prems(6) [of b e] that by simp
  qed (use Cons.prems(1,4) bb cnt in \<open>auto simp: block_bytes_def\<close>)
  have keep: "m' x = m x" if "in_range x (img + ucast va) (unat sz) \<or> in_range x dir 8" for x
    unfolding m'_def using that add_cells_apart [OF apart_sub [OF Cons.prems(7) _ sub(1)]] add_cells_apart [OF apart_sub [OF Cons.prems(8) _ sub(1)]] by blast
  have dir: "load32 m' dir = va" "load32 m' (dir + 4) = sz"
    using Cons.prems(2,3) keep in_range_off [of 0 4 8 _ dir] in_range_off [of 4 4 8 _ dir] load_cong(2) [of dir m' m] load_cong(2) [of "dir + 4" m' m] by auto
  have "reloc_blocks m' (img + ucast va + ucast (pos + bsz)) bs"
    unfolding nb
  proof (rule reloc_blocks_cong)
    show "m' x = m x" if "in_range x (?blk + of_nat (block_bytes b)) (sum_list (map block_bytes bs))" for x
      using keep tab [OF that] bb by simp
  qed (use Cons.prems(1,4) bb in simp_all)
  then have "reloc_loop img dir d (pos + bsz) m' = Some (add_cells d (reloc_targets img bs) m')"
    using Cons.prems(4,6) dir np bb apart_sub [OF Cons.prems(7) _ sub(2)] apart_sub [OF Cons.prems(8) _ sub(2)]
    by (intro Cons.IH) auto
  moreover have "reloc_loop img dir d pos m = reloc_loop img dir d (pos + bsz) m'"
  proof -
    have "load32 m ?blk = fst b" "load32 m (?blk + 4) = bsz" using Cons.prems(1) by (simp_all add: bsz_def)
    moreover have "\<not> bsz < 8" using ub by (simp add: word_less_nat_alt block_bytes_def)
    ultimately show ?thesis using Cons.prems(2,3) p8 ent by (subst reloc_loop.simps) (simp add: Let_def)
  qed
  ultimately show ?case by (simp add: reloc_targets_def m'_def)
qed

section \<open>The contents of the image\<close>

text \<open>
  The image as a list of bytes, computed from the bytes of the file and the section headers: zeros,
  then the headers, then every section whose raw data lies within the file and fits into the image.
\<close>

definition overwrite :: "'a list \<Rightarrow> nat \<Rightarrow> 'a list \<Rightarrow> 'a list" where
  "overwrite xs i ys = take i xs @ ys @ drop (i + length ys) xs"

definition place :: "u8 list \<Rightarrow> nat \<Rightarrow> section_header_t \<Rightarrow> u8 list \<Rightarrow> u8 list" where
  "place file len s bytes =
     (let va = unat (virtual_address s); raw = unat (size_of_raw_data s); off = unat (pointer_to_raw_data s) in
      if raw = 0 \<or> off = 0 \<or> length file < off + raw \<or> len < va + raw then bytes
      else overwrite bytes va (take raw (drop off file)))"

definition pe_image :: "u8 list \<Rightarrow> nat \<Rightarrow> nat \<Rightarrow> section_header_t list \<Rightarrow> u8 list" where
  "pe_image file hdrs len secs =
     fold (place file len) secs (overwrite (replicate len 0) 0 (take (min hdrs len) file))"

lemma peek_poke_overwrite:
  assumes "i + length ys \<le> n" "n < 18446744073709551616"
  shows "peek (poke m (a + of_nat i) ys) a n = overwrite (peek m a n) i ys"
proof (rule nth_equalityI)
  show "length (peek (poke m (a + of_nat i) ys) a n) = length (overwrite (peek m a n) i ys)"
    using assms(1) by (simp add: overwrite_def)
  fix j assume "j < length (peek (poke m (a + of_nat i) ys) a n)"
  then have j: "j < n" by simp
  have ui: "unat (of_nat i :: u64) = i" "unat (of_nat j :: u64) = j" using assms j by (simp_all add: unat_of_nat_u64)
  have r: "in_range (a + of_nat j) (a + of_nat i) (length ys) \<longleftrightarrow> i \<le> j \<and> j < i + length ys"
    using in_range_add [of "of_nat i" "length ys" "a + of_nat j" a] assms ui by simp
  have d: "unat (of_nat j - of_nat i :: u64) = j - i" if "i \<le> j"
    using that ui by (subst unat_sub_u64) (simp_all add: word_le_nat_alt)
  show "peek (poke m (a + of_nat i) ys) a n ! j = overwrite (peek m a n) i ys ! j"
    using assms j by (auto simp: poke_apply r d overwrite_def nth_append)
qed

lemma peek_sub: "i + k \<le> n \<Longrightarrow> peek m (a + of_nat i) k = take k (drop i (peek m a n))"
  by (rule nth_equalityI) (simp_all add: algebra_simps)

text \<open>
  The memory layout a load works on: the file and the image are apart, and neither of them wraps
  around the end of the address space.
\<close>

definition load_layout :: "addr \<Rightarrow> nat \<Rightarrow> addr \<Rightarrow> nat \<Rightarrow> bool" where
  "load_layout data n img len \<longleftrightarrow> disjoint_ranges data n img len \<and> n < 9223372036854775808 \<and> len < 4294967296"

lemma unat_u32_below [simp]: "unat (x :: u32) < 18446744073709551616" "unat (x :: u32) \<le> 18446744073709551616"
  using unat_u32_bound [of x] by linarith+

lemma copy_into_image:
  assumes lay: "load_layout data n img len" and "off + k \<le> n" "va + k \<le> len"
  shows "snd (memcpy m (img + of_nat va) (data + of_nat off) (of_nat k)) = poke m (img + of_nat va) (take k (drop off (peek m data n)))"
proof (cases "k = 0")
  case True
  then show ?thesis using memcpy_poke [of "img + of_nat va" "data + of_nat off" 0 m] by simp
next
  case False
  have uk: "unat (of_nat k :: u64) = k" using assms by (simp add: load_layout_def unat_of_nat_u64)
  have "k \<le> unat (img + of_nat va - (data + of_nat off))"
  proof (rule ccontr)
    assume "\<not> ?thesis"
    then have "in_range (img + of_nat va) (data + of_nat off) k" by (simp add: in_range_def)
    then have "in_range (img + of_nat va) data n" using in_range_off [OF assms(2)] lay by (simp add: load_layout_def)
    moreover have "in_range (img + of_nat va) img len" using False assms(3) lay by (intro in_range_offset) (simp_all add: load_layout_def)
    ultimately show False using lay by (auto simp: load_layout_def disjoint_ranges_def)
  qed
  then show ?thesis using memcpy_poke [of "img + of_nat va" "data + of_nat off" "of_nat k" m] uk peek_sub [OF assms(2), of m data] by simp
qed

text \<open>A step of the loading keeps everything outside the image, in particular the file.\<close>

lemma load_headers_image:
  fixes m :: mem
  assumes lay: "load_layout data (unat n) img (unat (size_of_image info))"
  defines "m' \<equiv> load_headers data n img info m"
  shows "peek m' img (unat (size_of_image info)) =
      overwrite (replicate (unat (size_of_image info)) 0) 0
        (take (min (unat (size_of_headers info)) (unat (size_of_image info))) (peek m data (unat n)))"
    and "\<not> in_range x img (unat (size_of_image info)) \<Longrightarrow> m' x = m x"
proof -
  let ?len = "unat (size_of_image info)"
  define m1 where "m1 = poke m img (replicate ?len 0)"
  define c where "c = min (min (unat (size_of_headers info)) (unat n)) ?len"
  have ms: "snd (memset m img 0 (ucast (size_of_image info))) = m1" by (simp add: memset_def memset_loop_poke m1_def)
  have out: "m1 y = m y" if "\<not> in_range y img ?len" for y
    unfolding m1_def using that lay by (intro poke_other) (simp_all add: load_layout_def)
  have keep_file: "peek m1 data (unat n) = peek m data (unat n)"
    using lay out by (intro peek_cong) (auto simp: load_layout_def disjoint_ranges_def)
  have cnt: "(let k = ucast (size_of_headers info) :: u64; k = (if k > n then n else k);
        k = (if k > ucast (size_of_image info) then ucast (size_of_image info) else k) in k) = of_nat c"
    by (auto simp: Let_def c_def min_def word_less_nat_alt word_unat_eq_iff unat_of_nat_u64 unat_u64_bound)
  have cl: "c \<le> unat n" "c \<le> ?len" by (simp_all add: c_def)
  have m': "m' = poke m1 img (take c (peek m data (unat n)))"
    using copy_into_image [OF lay, of 0 c 0 m1] cl keep_file ms cnt
    by (simp add: m'_def load_headers_def Let_def)
  have "peek m1 img ?len = replicate ?len 0"
    using peek_poke_same [of "replicate ?len 0" m img] lay by (simp add: m1_def load_layout_def)
  moreover have "peek m' img ?len = overwrite (peek m1 img ?len) 0 (take c (peek m data (unat n)))"
    using peek_poke_overwrite [of 0 "take c (peek m data (unat n))" ?len m1 img] cl lay by (simp add: m' load_layout_def)
  moreover have "take c (peek m data (unat n)) = take (min (unat (size_of_headers info)) ?len) (peek m data (unat n))"
    using take_take [of "min (unat (size_of_headers info)) ?len" "unat n" "peek m data (unat n)"] by (simp add: c_def ac_simps)
  ultimately show "peek m' img ?len = overwrite (replicate ?len 0) 0 (take (min (unat (size_of_headers info)) ?len) (peek m data (unat n)))"
    by simp
  show "m' x = m x" if "\<not> in_range x img ?len"
  proof -
    have "\<not> in_range x img (length (take c (peek m data (unat n))))" using that cl by (simp add: in_range_def)
    then show ?thesis using out [OF that] cl lay by (simp add: m' poke_other load_layout_def)
  qed
qed

lemma word_above_sum: "n < ucast a + ucast b \<longleftrightarrow> unat n < unat a + unat b" for a b :: u32 and n :: u64
proof -
  have "unat a + unat b < 18446744073709551616" using unat_u32_bound [of a] unat_u32_bound [of b] by linarith
  then show ?thesis by (simp add: word_less_nat_alt unat_add_u64)
qed

text \<open>A section is copied by one write within the image, or skipped.\<close>

lemma load_section_cases:
  assumes lay: "load_layout data (unat n) img (unat len)"
  obtains "load_section data n img len sec m = m" "place (peek m data (unat n)) (unat len) (section_header m sec) = id"
  | va bytes where "load_section data n img len sec m = poke m (img + of_nat va) bytes" "va + length bytes \<le> unat len"
      "place (peek m data (unat n)) (unat len) (section_header m sec) = (\<lambda>xs. overwrite xs va bytes)"
proof -
  define h where "h = section_header m sec"
  define va where "va = unat (virtual_address h)"
  define raw where "raw = unat (size_of_raw_data h)"
  define off where "off = unat (pointer_to_raw_data h)"
  have z: "size_of_raw_data h = 0 \<longleftrightarrow> raw = 0" "pointer_to_raw_data h = 0 \<longleftrightarrow> off = 0" by (simp_all add: raw_def off_def unat_eq_0)
  have c: "ucast (virtual_address h) = (of_nat va :: u64)" "ucast (size_of_raw_data h) = (of_nat raw :: u64)"
    "ucast (pointer_to_raw_data h) = (of_nat off :: u64)" by (simp_all add: va_def raw_def off_def)
  have eq: "load_section data n img len sec m =
      (if raw = 0 \<or> off = 0 \<or> unat n < off + raw \<or> unat len < va + raw then m
       else snd (memcpy m (img + of_nat va) (data + of_nat off) (of_nat raw)))"
    by (simp add: load_section_def Let_def h_def [symmetric] z word_above_sum c [symmetric])
       (simp add: raw_def off_def va_def)
  show thesis
  proof (cases "raw = 0 \<or> off = 0 \<or> unat n < off + raw \<or> unat len < va + raw")
    case True
    then have "place (peek m data (unat n)) (unat len) (section_header m sec) = id"
      by (auto simp: place_def Let_def h_def [symmetric] va_def raw_def off_def fun_eq_iff)
    then show thesis using True eq that(1) by simp
  next
    case False
    let ?bytes = "take raw (drop off (peek m data (unat n)))"
    have "load_section data n img len sec m = poke m (img + of_nat va) ?bytes"
      using False eq copy_into_image [OF lay, of off raw va m] by simp
    moreover have "place (peek m data (unat n)) (unat len) (section_header m sec) = (\<lambda>xs. overwrite xs va ?bytes)"
      using False by (auto simp: place_def Let_def h_def [symmetric] va_def raw_def off_def fun_eq_iff)
    ultimately show thesis using False by (intro that(2)) auto
  qed
qed

lemma load_section_image:
  assumes lay: "load_layout data (unat n) img (unat len)"
  shows "peek (load_section data n img len sec m) img (unat len) =
      place (peek m data (unat n)) (unat len) (section_header m sec) (peek m img (unat len))"
    and "\<not> in_range x img (unat len) \<Longrightarrow> load_section data n img len sec m x = m x"
proof -
  show "peek (load_section data n img len sec m) img (unat len) =
      place (peek m data (unat n)) (unat len) (section_header m sec) (peek m img (unat len))"
    by (rule load_section_cases [OF lay, of sec m]) (simp_all add: peek_poke_overwrite)
  assume x: "\<not> in_range x img (unat len)"
  show "load_section data n img len sec m x = m x"
  proof (rule load_section_cases [OF lay, of sec m])
    fix va bytes
    assume p: "load_section data n img len sec m = poke m (img + of_nat va) bytes" "va + length bytes \<le> unat len"
    then have "\<not> in_range x (img + of_nat va) (length bytes)" using x in_range_off [of va "length bytes" "unat len" x img] by auto
    then show ?thesis using p by (simp add: poke_other le_less_trans [OF _ unat_u32_below(1) [of len]])
  qed simp
qed

lemma load_sections_image:
  assumes lay: "load_layout data (unat n) img (unat (size_of_image info))"
    and tab: "\<And>i x. i < unat (number_of_sections info) \<Longrightarrow> in_range x (secs + SECTION_HEADER_SIZE * of_nat i) 40 \<Longrightarrow> in_range x data (unat n)"
  shows "peek (load_sections data n img info secs m) img (unat (size_of_image info)) =
      fold (place (peek m data (unat n)) (unat (size_of_image info)))
        (map (\<lambda>i. section_header m (secs + SECTION_HEADER_SIZE * of_nat i)) [0..<unat (number_of_sections info)])
        (peek m img (unat (size_of_image info)))"
    and "\<not> in_range x img (unat (size_of_image info)) \<Longrightarrow> load_sections data n img info secs m x = m x"
proof -
  let ?len = "unat (size_of_image info)" and ?sec = "\<lambda>i. secs + SECTION_HEADER_SIZE * of_nat i"
  define after where "after k = fold (\<lambda>i. load_section data n img (size_of_image info) (?sec i)) [0..<k] m" for k
  have "peek (after k) img ?len = fold (place (peek m data (unat n)) ?len) (map (\<lambda>i. section_header m (?sec i)) [0..<k]) (peek m img ?len) \<and>
      (\<forall>x. \<not> in_range x img ?len \<longrightarrow> after k x = m x)" if "k \<le> unat (number_of_sections info)" for k
    using that
  proof (induction k)
    case (Suc k)
    then have IH: "peek (after k) img ?len = fold (place (peek m data (unat n)) ?len) (map (\<lambda>i. section_header m (?sec i)) [0..<k]) (peek m img ?len)"
      "\<And>x. \<not> in_range x img ?len \<Longrightarrow> after k x = m x" by simp_all
    have same: "after k x = m x" if "in_range x data (unat n)" for x
      using that lay IH(2) by (auto simp: load_layout_def disjoint_ranges_def)
    then have "peek (after k) data (unat n) = peek m data (unat n)" using lay by (intro peek_cong) (simp_all add: load_layout_def)
    moreover have "section_header (after k) (?sec k) = section_header m (?sec k)"
    proof -
      have "load32 (after k) (?sec k + of_nat i) = load32 m (?sec k + of_nat i)" if "i + 4 \<le> 40" for i
        using same tab [of k] Suc.prems in_range_off [OF that, of _ "?sec k"] by (intro load_cong(2)) auto
      note this [of 12] this [of 16] this [of 20]
      then show ?thesis by (simp add: section_header_def)
    qed
    moreover have "after (Suc k) = load_section data n img (size_of_image info) (?sec k) (after k)" by (simp add: after_def)
    ultimately show ?case using load_section_image [OF lay, where sec = "?sec k" and m = "after k"] IH by simp
  qed (simp add: after_def)
  from this [of "unat (number_of_sections info)"]
  show "peek (load_sections data n img info secs m) img ?len =
      fold (place (peek m data (unat n)) ?len) (map (\<lambda>i. section_header m (?sec i)) [0..<unat (number_of_sections info)]) (peek m img ?len)"
    and "\<not> in_range x img ?len \<Longrightarrow> load_sections data n img info secs m x = m x"
    by (simp_all add: after_def load_sections_def)
qed

section \<open>Properties\<close>

text \<open>The section headers of a file, which follow the optional header.\<close>

definition section_table :: "mem \<Rightarrow> addr \<Rightarrow> addr" where
  "section_table m data =
     (let p = data + ucast (e_lfanew (dos_header m data))
      in p + COFF_HEADER_SIZE + ucast (size_of_optional_header (coff_header m p)))"

definition section_list :: "mem \<Rightarrow> addr \<Rightarrow> pe_info_t \<Rightarrow> section_header_t list" where
  "section_list m data info =
     map (\<lambda>i. section_header m (section_table m data + SECTION_HEADER_SIZE * of_nat i)) [0..<unat (number_of_sections info)]"

definition headers_end :: "mem \<Rightarrow> addr \<Rightarrow> pe_info_t \<Rightarrow> nat" where
  "headers_end m data info =
     unat (e_lfanew (dos_header m data)) + 24 +
     unat (size_of_optional_header (coff_header m (data + ucast (e_lfanew (dos_header m data))))) + 40 * unat (number_of_sections info)"

lemma section_table_in_file:
  fixes n :: u64
  assumes "headers_end m data info \<le> unat n" "i < unat (number_of_sections info)"
    and "in_range x (section_table m data + SECTION_HEADER_SIZE * of_nat i) 40"
  shows "in_range x data (unat n)"
proof -
  let ?lf = "e_lfanew (dos_header m data)"
  let ?os = "size_of_optional_header (coff_header m (data + ucast ?lf))"
  let ?k = "unat ?lf + 24 + unat ?os + 40 * i"
  have "section_table m data + SECTION_HEADER_SIZE * of_nat i = data + of_nat ?k"
    by (simp add: section_table_def Let_def COFF_HEADER_SIZE_def SECTION_HEADER_SIZE_def)
  then have x: "in_range x (data + of_nat ?k) 40" using assms(3) by simp
  have "?k + 40 \<le> unat n" using assms(1,2) by (simp add: headers_end_def)
  then show ?thesis using in_range_off [OF _ _ x] unat_u64_bound [of n] by blast
qed

lemma loaded_image:
  assumes lay: "load_layout data (unat n) img (unat (size_of_image info))" and hdr: "headers_end m data info \<le> unat n"
  defines "m2 \<equiv> load_sections data n img info (section_table m data) (load_headers data n img info m)"
  shows "peek m2 img (unat (size_of_image info)) =
      pe_image (peek m data (unat n)) (unat (size_of_headers info)) (unat (size_of_image info)) (section_list m data info)"
    and "\<forall>x. \<not> in_range x img (unat (size_of_image info)) \<longrightarrow> m2 x = m x"
proof -
  let ?len = "unat (size_of_image info)" and ?sec = "\<lambda>i. section_table m data + SECTION_HEADER_SIZE * of_nat i"
  define m1 where "m1 = load_headers data n img info m"
  have out: "m1 x = m x" if "\<not> in_range x img ?len" for x unfolding m1_def using load_headers_image(2) [OF lay that] .
  then have same: "m1 x = m x" if "in_range x data (unat n)" for x using that lay by (auto simp: load_layout_def disjoint_ranges_def)
  then have f1: "peek m1 data (unat n) = peek m data (unat n)" using lay by (intro peek_cong) (simp_all add: load_layout_def)
  have "section_header m1 (?sec i) = section_header m (?sec i)" if "i < unat (number_of_sections info)" for i
  proof -
    have "load32 m1 (?sec i + of_nat j) = load32 m (?sec i + of_nat j)" if "j + 4 \<le> 40" for j
      using same section_table_in_file [OF hdr \<open>i < _\<close>] in_range_off [OF that, of _ "?sec i"] by (intro load_cong(2)) auto
    note this [of 12] this [of 16] this [of 20]
    then show ?thesis by (simp add: section_header_def)
  qed
  then have sec: "map (\<lambda>i. section_header m1 (?sec i)) [0..<unat (number_of_sections info)] = section_list m data info"
    unfolding section_list_def by (intro map_cong) simp_all
  have m2: "m2 = load_sections data n img info (section_table m data) m1" by (simp add: m2_def m1_def)
  show "peek m2 img ?len = pe_image (peek m data (unat n)) (unat (size_of_headers info)) ?len (section_list m data info)"
    using load_sections_image(1) [OF lay section_table_in_file [OF hdr], where m = m1] load_headers_image(1) [OF lay, where m = m]
    by (simp add: m2 sec f1 pe_image_def m1_def [symmetric])
  show "\<forall>x. \<not> in_range x img ?len \<longrightarrow> m2 x = m x"
    unfolding m2 using load_sections_image(2) [OF lay section_table_in_file [OF hdr], where m = m1] out by simp
qed

lemma pe_run_image:
  fixes h :: heap_state
  assumes inv: "pmm_inv (heap_pmm h)" and own: "\<And>x. in_range x data (unat n) \<Longrightarrow> x \<in> owned (heap_pmm h)"
    and n: "unat n < 9223372036854775808"
    and probe: "pe_probe (heap_mem h) data n = (True, info)" and hdr: "headers_end (heap_mem h) data info \<le> unat n"
    and entry: "entry_rva info < size_of_image info"
    and alloc: "pmm_alloc_pages (H3OS_ALIGN_UP (ucast (size_of_image info)) PAGE_SIZE div PAGE_SIZE) (heap_pmm h) = Some (img, pmm)" "img \<noteq> 0"
  shows "\<exists>m. peek m img (unat (size_of_image info)) =
        pe_image (peek (heap_mem h) data (unat n)) (unat (size_of_headers info)) (unat (size_of_image info)) (section_list (heap_mem h) data info) \<and>
      (\<forall>x. \<not> in_range x img (unat (size_of_image info)) \<longrightarrow> m x = heap_mem h x) \<and>
      (\<forall>x. in_range x img (unat (size_of_image info)) \<longrightarrow> x \<notin> owned (heap_pmm h) \<and> x \<in> owned pmm) \<and>
      pe_run program data n name h s =
        run_bind (run_of (apply_relocations img img (image_base info) (data + ucast (e_lfanew (dos_header (heap_mem h) data)) + COFF_HEADER_SIZE) m)) (\<lambda>m'.
          ret (call_entry program name (img + ucast (entry_rva info)) (size_of_image info) (h\<lparr>heap_pmm := pmm, heap_mem := m'\<rparr>) s))"
proof -
  let ?len = "unat (size_of_image info)" and ?m = "heap_mem h"
  define pages where "pages = H3OS_ALIGN_UP (ucast (size_of_image info)) PAGE_SIZE div PAGE_SIZE"
  have up: "unat pages = (?len + 4095) div 4096"
    using align_up_page_div [of "ucast (size_of_image info)"] unat_u32_bound [of "size_of_image info"] by (simp add: pages_def PAGE_SIZE_def)
  have len: "0 < ?len" using entry by (simp add: word_less_nat_alt)
  then have pos: "0 < pages" using up by (simp add: word_less_nat_alt)
  note al = alloc(1) [folded pages_def]
  note blk = pmm.alloc_block [OF inv pos al alloc(2)] and fr = pmm.alloc_bytes_fresh [OF inv pos al alloc(2)]
  have range: "unat img \<le> unat x \<and> unat x < unat img + unat pages * 4096" if "in_range x img ?len" for x
    using that blk(3) up in_range_nat [of img ?len x] by auto
  have fresh: "x \<notin> owned (heap_pmm h) \<and> x \<in> owned pmm" if "in_range x img ?len" for x
    using fr [of x] range [OF that] by (simp add: owned_def)
  have lay: "load_layout data (unat n) img ?len"
    using n fresh own by (auto simp: load_layout_def disjoint_ranges_def)
  define m2 where "m2 = load_sections data n img info (section_table ?m data) (load_headers data n img info ?m)"
  note image = loaded_image [OF lay hdr, folded m2_def]
  have "alloc_image info h = ret (img, h\<lparr>heap_pmm := pmm\<rparr>)"
    using alloc by (simp add: alloc_image_def Let_def)
  then have "pe_run program data n name h s =
        run_bind (run_of (apply_relocations img img (image_base info) (data + ucast (e_lfanew (dos_header ?m data)) + COFF_HEADER_SIZE) m2)) (\<lambda>m'.
          ret (call_entry program name (img + ucast (entry_rva info)) (size_of_image info) (h\<lparr>heap_pmm := pmm, heap_mem := m'\<rparr>) s))"
    using probe entry alloc(2) pos
    by (simp add: pe_run_def Let_def pages_def [symmetric] NULL_def m2_def section_table_def not_le [symmetric])
  then show ?thesis using image fresh by blast
qed

text \<open>
  (C28) Loading and running a program. Let the file lie in memory that the page allocator has handed out and be shorter than \<open>2 ^ 63\<close> bytes, let \<^verbatim>\<open>pe_probe\<close> accept it, let its
  headers and its section table lie within it and its entry point within the image, and let pages for the image be available. Then \<^verbatim>\<open>pe_run\<close> builds the image in
  pages that nobody owned: zeros, the headers, and every section that lies within the file and fits
  into the image, as the list function \<^const>\<open>pe_image\<close> says; no byte outside the image changes. It then relocates the image, and does not return if the relocation loop does not
  end. Otherwise it clears the exit flag and the exit code, logs the start, calls the program once at its entry point, and returns the code that was given to \<^verbatim>\<open>exit\<close> if
  the program has set the flag, else the program's own result; that value is logged too.
\<close>

theorem pe_run_loads_image:
  fixes h :: heap_state
  assumes inv: "pmm_inv (heap_pmm h)" and own: "\<And>x. in_range x data (unat n) \<Longrightarrow> x \<in> owned (heap_pmm h)"
    and n: "unat n < 9223372036854775808"
    and probe: "pe_probe (heap_mem h) data n = (True, info)" and hdr: "headers_end (heap_mem h) data info \<le> unat n"
    and entry: "entry_rva info < size_of_image info"
    and alloc: "pmm_alloc_pages (H3OS_ALIGN_UP (ucast (size_of_image info)) PAGE_SIZE div PAGE_SIZE) (heap_pmm h) = Some (img, pmm)" "img \<noteq> 0"
  shows "\<exists>m. peek m img (unat (size_of_image info)) =
        pe_image (peek (heap_mem h) data (unat n)) (unat (size_of_headers info)) (unat (size_of_image info)) (section_list (heap_mem h) data info) \<and>
      (\<forall>x. \<not> in_range x img (unat (size_of_image info)) \<longrightarrow> m x = heap_mem h x) \<and>
      (\<forall>x. in_range x img (unat (size_of_image info)) \<longrightarrow> x \<notin> owned (heap_pmm h) \<and> x \<in> owned pmm) \<and>
      (case apply_relocations img img (image_base info) (data + ucast (e_lfanew (dos_header (heap_mem h) data)) + COFF_HEADER_SIZE) m of
         None \<Rightarrow> pe_run program data n name h s = None
       | Some m' \<Rightarrow> (\<forall>rc h' s' code start.
           start = PeLog LOG_INFO ''Running %s entry=%p size=%u'' [shown_name name, Slot (img + ucast (entry_rva info)), Slot (ucast (size_of_image info))] \<longrightarrow>
           program (img + ucast (entry_rva info)) (h\<lparr>heap_pmm := pmm, heap_mem := m'\<rparr>)
             (s\<lparr>g_exited := False, g_exit_code := 0, pe_output := pe_output s @ [start]\<rparr>) = (rc, h', s') \<longrightarrow>
           code = (if g_exited s' then g_exit_code s' else rc) \<longrightarrow>
           pe_run program data n name h s =
             ret (code, h', s'\<lparr>pe_output := pe_output s' @ [PeLog LOG_INFO ''%s exited with %d'' [shown_name name, Slot (ucast code)]]\<rparr>)))"
proof -
  from pe_run_image [OF assms] obtain m where
    m: "peek m img (unat (size_of_image info)) =
        pe_image (peek (heap_mem h) data (unat n)) (unat (size_of_headers info)) (unat (size_of_image info)) (section_list (heap_mem h) data info)"
      "\<forall>x. \<not> in_range x img (unat (size_of_image info)) \<longrightarrow> m x = heap_mem h x"
      "\<forall>x. in_range x img (unat (size_of_image info)) \<longrightarrow> x \<notin> owned (heap_pmm h) \<and> x \<in> owned pmm"
    and run: "pe_run program data n name h s =
        run_bind (run_of (apply_relocations img img (image_base info) (data + ucast (e_lfanew (dos_header (heap_mem h) data)) + COFF_HEADER_SIZE) m)) (\<lambda>m'.
          ret (call_entry program name (img + ucast (entry_rva info)) (size_of_image info) (h\<lparr>heap_pmm := pmm, heap_mem := m'\<rparr>) s))" by blast
  show ?thesis
    by (rule exI [of _ m], intro conjI m, unfold run) (auto simp: call_entry_def pe_klog_def run_of_def run_bind_def ret_def Let_def split: option.split)
qed

text \<open>
  A program of one section at \<open>0x100\<close>, in the first page of a machine of four pages; its code calls \<^verbatim>\<open>exit\<close> with
  the code 3.
\<close>

definition exe_heap :: heap_state where
  "exe_heap = \<lparr>heap_mem = (\<lambda>_. 0)(0x100 := 77, 0x101 := 90, 0x13C := 64, 0x140 := 80, 0x141 := 69, 0x144 := 100, 0x145 := 134, 0x146 := 1, 0x154 := 112, 0x158 := 11, 0x159 := 2, 0x169 := 1, 0x171 := 16, 0x191 := 2, 0x194 := 240, 0x1D5 := 1, 0x1D8 := 4, 0x1DC := 240, 0x1F0 := 195, 0x1F1 := 1, 0x1F2 := 2, 0x1F3 := 3),
     heap_head = NULL, heap_used = 0, heap_total = 0, heap_allocs = 0, heap_pmm = pmm_example\<rparr>"

definition pe_idle :: pe_state where
  "pe_idle = pe_init \<lparr>g_write = NULL, g_writeln = NULL, g_exit_code = 0, g_exited = False, g_api = \<lparr>api_magic = 0, api_fns = []\<rparr>, pe_output = []\<rparr>"

definition exe_info :: pe_info_t where
  "exe_info = \<lparr>valid = True, is_pe32plus = True, pe_machine = 0x8664, entry_rva = 0x100, image_base = 0x1000, size_of_image = 0x200,
     size_of_headers = 0xF0, number_of_sections = 1, pe_error = None\<rparr>"

lemma exe_probe: "pe_probe (heap_mem exe_heap) 0x100 244 = (True, exe_info)"
  by code_simp

lemma exe_headers: "headers_end (heap_mem exe_heap) 0x100 exe_info \<le> 244"
  by code_simp

lemma exe_pages: "\<exists>pmm. pmm_alloc_pages 1 pmm_example = Some (0x1000, pmm)"
proof -
  have "map_option fst (pmm_alloc_pages 1 pmm_example) = Some 0x1000" by code_simp
  then show ?thesis by (cases "pmm_alloc_pages 1 pmm_example") auto
qed

lemma exe_owned: "in_range x 0x100 244 \<Longrightarrow> x \<in> owned (heap_pmm exe_heap)"
proof -
  assume "in_range x 0x100 244"
  then have "unat x < 500" by (simp add: in_range_nat)
  then have "x div PAGE_SIZE = 0" by (simp add: word_unat_eq_iff unat_div PAGE_SIZE_def)
  moreover have "0 \<in> taken pmm_example" using pmm_example_test [of 0] by (simp add: taken_def) (simp add: pmm_example_def)
  ultimately show ?thesis by (simp add: owned_def exe_heap_def)
qed

theorem pe_run_loads_image_witness:
  "\<exists>h s. pe_run (\<lambda>a h s. (7, h, api_exit 3 s)) 0x100 244 None exe_heap pe_idle = ret (3, h, s) \<and>
     pe_output s = [PeLog LOG_INFO ''Running %s entry=%p size=%u'' [StrSlot (Some (bytes_of ''exe'')), Slot 0x1100, Slot 512],
       PeLog LOG_INFO ''%s exited with %d'' [StrSlot (Some (bytes_of ''exe'')), Slot 3]] \<and>
     peek (heap_mem h) 0x1000 512 = pe_image (peek (heap_mem exe_heap) 0x100 244) 240 512 (section_list (heap_mem exe_heap) 0x100 exe_info)"
proof -
  obtain pmm where pm: "pmm_alloc_pages 1 pmm_example = Some (0x1000, pmm)" using exe_pages by blast
  have pg: "H3OS_ALIGN_UP (ucast (size_of_image exe_info)) PAGE_SIZE div PAGE_SIZE = 1" by code_simp
  have r: "pmm_alloc_pages (H3OS_ALIGN_UP (ucast (size_of_image exe_info)) PAGE_SIZE div PAGE_SIZE) (heap_pmm exe_heap) = Some (0x1000, pmm)"
    unfolding pg using pm by (simp add: exe_heap_def)
  have inv: "pmm_inv (heap_pmm exe_heap)" using pmm_example_inv by (simp add: exe_heap_def)
  have own: "x \<in> owned (heap_pmm exe_heap)" if "in_range x 0x100 (unat (244 :: u64))" for x using that exe_owned by simp
  have hd: "headers_end (heap_mem exe_heap) 0x100 exe_info \<le> unat (244 :: u64)" using exe_headers by simp
  have e: "entry_rva exe_info < size_of_image exe_info" "image_base exe_info = 0x1000" "unat (size_of_image exe_info) = 512"
    "unat (size_of_headers exe_info) = 240" by (simp_all add: exe_info_def)
  let ?prog = "\<lambda>a h s. (7, h, api_exit 3 s)"
  obtain m where m: "peek m 0x1000 512 = pe_image (peek (heap_mem exe_heap) 0x100 244) 240 512 (section_list (heap_mem exe_heap) 0x100 exe_info)"
    and run: "\<forall>rc h' s' code start. start = PeLog LOG_INFO ''Running %s entry=%p size=%u'' [shown_name None, Slot 0x1100, Slot 512] \<longrightarrow>
      ?prog 0x1100 (exe_heap\<lparr>heap_pmm := pmm, heap_mem := m\<rparr>) (pe_idle\<lparr>g_exited := False, g_exit_code := 0, pe_output := pe_output pe_idle @ [start]\<rparr>) = (rc, h', s') \<longrightarrow>
      code = (if g_exited s' then g_exit_code s' else rc) \<longrightarrow>
      pe_run ?prog 0x100 244 None exe_heap pe_idle =
        ret (code, h', s'\<lparr>pe_output := pe_output s' @ [PeLog LOG_INFO ''%s exited with %d'' [shown_name None, Slot (ucast code)]]\<rparr>)"
    using pe_run_loads_image [OF inv own _ exe_probe hd e(1) r, of ?prog None pe_idle] e(2-4)
    by (simp add: apply_relocations_def exe_info_def del: split_paired_Ex) blast
  note run [rule_format, OF refl refl refl]
  then show ?thesis using m by (simp add: shown_name_def api_exit_def pe_idle_def pe_init_def)
qed

text \<open>
  (C29) Relocation. Let the relocation table of the image consist of well-formed blocks whose entries
  are of the 64-bit kind or to be skipped, and let the cells they name overlap neither each other nor the
  table nor the header. Then \<^verbatim>\<open>apply_relocations\<close> ends, adds the difference of the two bases to each of
  the cells, and changes no other byte. Nothing is assumed about where the cells lie: an entry may
  name any address within 4 GiB above the image, and the code does not compare it with the size of the image.
\<close>

theorem pe_relocations_rebase:
  fixes m :: mem
  assumes "reloc_blocks m (img + ucast (load32 m (opt + 152))) bs"
    and "unat (load32 m (opt + 156)) = sum_list (map block_bytes bs)" "unat (load32 m (opt + 156)) + 8 < 4294967296"
    and "6 \<le> number_of_rva_and_sizes (optional_header m opt)" "load32 m (opt + 152) \<noteq> 0" "bs \<noteq> []"
    and "\<And>b e. b \<in> set bs \<Longrightarrow> e \<in> set (snd b) \<Longrightarrow> drop_bit 12 e \<noteq> IMAGE_REL_BASED_HIGHLOW"
    and "distinct (reloc_targets img bs)"
    and "\<And>t u. \<lbrakk>t \<in> set (reloc_targets img bs); u \<in> set (reloc_targets img bs); t \<noteq> u\<rbrakk> \<Longrightarrow> disjoint_ranges t 8 u 8"
    and "apart (reloc_targets img bs) (img + ucast (load32 m (opt + 152))) (unat (load32 m (opt + 156)))"
    and "apart (reloc_targets img bs) (opt + 152) 8"
    and "load_base \<noteq> preferred"
  shows "\<exists>m'. apply_relocations img load_base preferred opt m = Some m' \<and>
    (\<forall>t \<in> set (reloc_targets img bs). load64 m' t = load64 m t + (load_base - preferred)) \<and>
    (\<forall>x. (\<forall>t \<in> set (reloc_targets img bs). \<not> in_range x t 8) \<longrightarrow> m' x = m x)"
proof -
  let ?d = "load_base - preferred" and ?ts = "reloc_targets img bs"
  have dir: "opt + 112 + 5 * 8 = opt + 152" "opt + 152 + 4 = opt + 156" by (simp_all add: add.assoc)
  have "load32 m (opt + 156) \<noteq> 0" using assms(2,6) by (cases bs) (auto simp: block_bytes_def)
  then have "apply_relocations img load_base preferred opt m = reloc_loop img (opt + 152) ?d 0 m"
    unfolding apply_relocations_def Let_def dir using assms(4,5,12) by (simp add: not_less [symmetric])
  moreover have "reloc_loop img (opt + 152) ?d 0 m = Some (add_cells ?d ?ts m)"
    by (rule reloc_loop_cells [OF _ refl refl]) (use assms in \<open>simp_all add: add.commute [of 156 opt]\<close>)
  moreover have "load64 (add_cells ?d ?ts m) t = load64 m t + ?d" if "t \<in> set ?ts" for t
    using cell64.add_all [OF assms(8,9) that] .
  moreover have "add_cells ?d ?ts m x = m x" if "\<forall>t \<in> set ?ts. \<not> in_range x t 8" for x
    using cell64.add_all_frame [of ?ts x] that by blast
  ultimately show ?thesis by auto
qed

text \<open>An image of 256 bytes at \<open>0x10000\<close> whose only relocation names a cell at \<open>0x28008\<close>, far behind its end.\<close>

definition stray_mem :: mem where
  "stray_mem = (\<lambda>_. 0)(0x20B := 0, 0x26C := 6, 0x298 := 0x40, 0x29C := 12, 0x10042 := 1, 0x10041 := 0x80, 0x10044 := 12, 0x10048 := 8, 0x10049 := 0xA0)"

theorem pe_relocations_rebase_witness:
  "\<exists>m'. apply_relocations 0x10000 0x10000 0x400000 0x200 stray_mem = Some m' \<and> load64 m' 0x28008 = 0x10000 - 0x400000"
proof -
  let ?bs = "[(0x18000, [0xA008, 0])] :: (u32 \<times> u16 list) list"
  have t: "reloc_targets 0x10000 ?bs = [0x28008]" by code_simp
  have l: "load32 stray_mem (0x200 + 152) = 0x40" "load32 stray_mem (0x200 + 156) = 12" "load64 stray_mem 0x28008 = 0" by code_simp+
  have n: "6 \<le> number_of_rva_and_sizes (optional_header stray_mem 0x200)" by code_simp
  have b: "reloc_blocks stray_mem (0x10000 + ucast (0x40 :: u32)) ?bs" by code_simp
  have a: "apart [0x28008] (0x10000 + ucast (0x40 :: u32)) 12" "apart [0x28008] (0x200 + 152) 8"
    by (simp_all add: apart_def disjoint_ranges_nat)
  have "drop_bit 12 (0xA008 :: u16) = 10" by code_simp
  then have hl: "drop_bit 12 e \<noteq> IMAGE_REL_BASED_HIGHLOW" if "b \<in> set ?bs" "e \<in> set (snd b)" for b e
    using that by (auto simp: IMAGE_REL_BASED_HIGHLOW_def)
  have "\<exists>m'. apply_relocations 0x10000 0x10000 0x400000 0x200 stray_mem = Some m' \<and>
      (\<forall>t \<in> set (reloc_targets 0x10000 ?bs). load64 m' t = load64 stray_mem t + (0x10000 - 0x400000)) \<and>
      (\<forall>x. (\<forall>t \<in> set (reloc_targets 0x10000 ?bs). \<not> in_range x t 8) \<longrightarrow> m' x = stray_mem x)"
  proof (rule pe_relocations_rebase)
    show "drop_bit 12 e \<noteq> IMAGE_REL_BASED_HIGHLOW" if "b \<in> set ?bs" "e \<in> set (snd b)" for b e by (rule hl [OF that])
  qed (use b n a in \<open>simp_all add: t l [simplified] block_bytes_def\<close>)
  then show ?thesis using l(3) by (auto simp: t)
qed

lemma file_loads:
  assumes "peek m data n = peek m' data n" "n < 18446744073709551616"
  shows "i + 2 \<le> n \<Longrightarrow> load16 m (data + of_nat i) = load16 m' (data + of_nat i)"
    and "i + 4 \<le> n \<Longrightarrow> load32 m (data + of_nat i) = load32 m' (data + of_nat i)"
    and "i + 8 \<le> n \<Longrightarrow> load64 m (data + of_nat i) = load64 m' (data + of_nat i)"
    and "i < n \<Longrightarrow> m (data + of_nat i) = m' (data + of_nat i)"
proof -
  have "peek m (data + of_nat i) k = peek m' (data + of_nat i) k" if "i + k \<le> n" for i k
    using peek_sub [OF that, of m data] peek_sub [OF that, of m' data] assms(1) by simp
  then show "i + 2 \<le> n \<Longrightarrow> load16 m (data + of_nat i) = load16 m' (data + of_nat i)"
    and "i + 4 \<le> n \<Longrightarrow> load32 m (data + of_nat i) = load32 m' (data + of_nat i)"
    and "i + 8 \<le> n \<Longrightarrow> load64 m (data + of_nat i) = load64 m' (data + of_nat i)"
    by (simp_all add: load16_def load32_def load64_def)
  show "i < n \<Longrightarrow> m (data + of_nat i) = m' (data + of_nat i)"
    using assms(1) nth_peek [of i n m data] nth_peek [of i n m' data] by metis
qed

lemma probe_determined:
  assumes eq: "peek m data (unat n) = peek m' data (unat n)" and len: "unat (e_lfanew (dos_header m data)) + 136 \<le> unat n"
  shows "pe_probe m data n = pe_probe m' data n"
proof (cases "n < DOS_HEADER_SIZE")
  case False
  then have n: "64 \<le> unat n" by (simp add: DOS_HEADER_SIZE_def word_less_nat_alt)
  note ld = file_loads [OF eq unat_u64_bound]
  have dos: "dos_header m' data = dos_header m data" using n ld(1) [of 0] ld(2) [of 60] by (simp add: dos_header_def)
  define lf where "lf = unat (e_lfanew (dos_header m data))"
  have p: "data + ucast (e_lfanew (dos_header m data)) = data + of_nat lf" by (simp add: lf_def)
  have at: "data + of_nat lf + of_nat i = data + of_nat (lf + i)" for i by simp
  have coff: "coff_header m' (data + of_nat lf) = coff_header m (data + of_nat lf)"
    using len ld(2) [of lf] ld(1) [of "lf + 4"] ld(1) [of "lf + 6"] ld(1) [of "lf + 20"] by (simp add: coff_header_def lf_def [symmetric] algebra_simps)
  have opt: "optional_header m' (data + of_nat lf + COFF_HEADER_SIZE) = optional_header m (data + of_nat lf + COFF_HEADER_SIZE)"
    using len ld(1) [of "lf + 24"] ld(2) [of "lf + 40"] ld(3) [of "lf + 48"] ld(2) [of "lf + 80"] ld(2) [of "lf + 84"] ld(2) [of "lf + 132"]
    by (simp add: optional_header_def lf_def [symmetric] COFF_HEADER_SIZE_def algebra_simps)
  have sig: "m' (data + of_nat lf) = m (data + of_nat lf)" "m' (data + of_nat lf + 1) = m (data + of_nat lf + 1)"
    "m' (data + of_nat lf + 2) = m (data + of_nat lf + 2)" "m' (data + of_nat lf + 3) = m (data + of_nat lf + 3)"
    using len ld(4) [of lf] ld(4) [of "lf + 1"] ld(4) [of "lf + 2"] ld(4) [of "lf + 3"] by (simp_all add: lf_def [symmetric] algebra_simps)
  show ?thesis unfolding pe_probe_def dos Let_def p coff opt sig ..
qed (simp add: pe_probe_def)

text \<open>
  What probing reads. If the optional header lies within the file, the verdict of \<^verbatim>\<open>pe_probe\<close> and
  the fields it reports are determined by the bytes of the file. The code only checks for 28 bytes from
  the start of the PE header on, though: there is a file of 92 bytes that is accepted, and the reported size of its
  image is taken from the bytes behind its end.
\<close>

theorem pe_probe_reads:
  "(peek m data (unat n) = peek m' data (unat n) \<and> unat (e_lfanew (dos_header m data)) + 136 \<le> unat n \<longrightarrow>
      pe_probe m data n = pe_probe m' data n) \<and>
   (\<exists>a b. peek a 0x100 92 = peek b 0x100 92 \<and> fst (pe_probe a 0x100 92) \<and> fst (pe_probe b 0x100 92) \<and>
      size_of_image (snd (pe_probe a 0x100 92)) \<noteq> size_of_image (snd (pe_probe b 0x100 92)))"
proof
  let ?a = "heap_mem exe_heap" and ?b = "(heap_mem exe_heap)(0x192 := 1)"
  have a: "pe_probe ?a 0x100 92 = (True, exe_info)" by code_simp
  have b: "pe_probe ?b 0x100 92 = (True, exe_info\<lparr>size_of_image := 0x10200\<rparr>)" by code_simp
  from a b have "fst (pe_probe ?a 0x100 92) \<and> fst (pe_probe ?b 0x100 92) \<and>
      size_of_image (snd (pe_probe ?a 0x100 92)) \<noteq> size_of_image (snd (pe_probe ?b 0x100 92))" by (simp add: exe_info_def)
  moreover have "peek ?a 0x100 92 = peek ?b 0x100 92" by (subst peek_upd) (simp_all add: in_range_nat)
  ultimately show "\<exists>a b. peek a 0x100 92 = peek b 0x100 92 \<and> fst (pe_probe a 0x100 92) \<and> fst (pe_probe b 0x100 92) \<and>
      size_of_image (snd (pe_probe a 0x100 92)) \<noteq> size_of_image (snd (pe_probe b 0x100 92))" by blast
qed (use probe_determined in blast)

theorem pe_probe_reads_witness: "pe_probe (heap_mem exe_heap) 0x100 244 = pe_probe ((heap_mem exe_heap)(0x800 := 1)) 0x100 244"
proof -
  have "unat (e_lfanew (dos_header (heap_mem exe_heap) 0x100)) + 136 \<le> unat (244 :: u64)" by code_simp
  moreover have "peek (heap_mem exe_heap) 0x100 (unat (244 :: u64)) = peek ((heap_mem exe_heap)(0x800 := 1)) 0x100 (unat (244 :: u64))"
    by (subst peek_upd) (simp_all add: in_range_nat)
  ultimately show ?thesis
    using pe_probe_reads [of "heap_mem exe_heap" "0x100" 244 "(heap_mem exe_heap)(0x800 := 1)"] by blast
qed

end
