(* ===== verification/H3_Services.thy ===== *)
theory H3_Services
  imports H3_Log H3_Clock H3_Sched
begin

text \<open>
  The smaller kernel services: the PCI scan (\<^verbatim>\<open>drivers/pci/pci.c\<close>), users and permissions
  (\<^verbatim>\<open>security/security.c\<close>), message ports (\<^verbatim>\<open>kernel/core/ipc.c\<close>), the loopback interface (\<^verbatim>\<open>network/net.c\<close>), power
  control (\<^verbatim>\<open>kernel/core/power.c\<close>), the file system stub (\<^verbatim>\<open>filesystem/fat32/fat32.c\<close>) and the system call dispatcher
  (\<^verbatim>\<open>kernel/syscall/syscall.c\<close>).
\<close>

section \<open>PCI\<close>

definition PCI_MAX_DEVICES :: nat where
  "PCI_MAX_DEVICES = 64"

record pci_device_t =
  pci_bus :: u8
  pci_slot :: u8
  pci_func :: u8
  pci_vendor :: u16
  pci_device :: u16
  class_code :: u8
  sub_class :: u8
  prog_if :: u8

definition cfg_address :: "u8 \<Rightarrow> u8 \<Rightarrow> u8 \<Rightarrow> u8 \<Rightarrow> u32" where
  "cfg_address bus slot func offset =
     push_bit 31 1 OR push_bit 16 (ucast bus) OR push_bit 11 (ucast slot) OR push_bit 8 (ucast func) OR ucast (offset AND 0xFC)"

definition pci_cfg_read :: "'d bus \<Rightarrow> u8 \<Rightarrow> u8 \<Rightarrow> u8 \<Rightarrow> u8 \<Rightarrow> 'd \<Rightarrow> u32 \<times> 'd" where
  "pci_cfg_read B bus slot func offset d = inl B 0xCFC (outl B 0xCF8 (cfg_address bus slot func offset) d)"

definition pci_entry :: "u8 \<Rightarrow> u8 \<Rightarrow> u8 \<Rightarrow> u32 \<Rightarrow> u32 \<Rightarrow> pci_device_t" where
  "pci_entry bus slot func ident reg2 =
     \<lparr>pci_bus = bus, pci_slot = slot, pci_func = func, pci_vendor = ucast (ident AND 0xFFFF), pci_device = ucast (drop_bit 16 ident),
      class_code = ucast (drop_bit 24 reg2), sub_class = ucast (drop_bit 16 reg2), prog_if = ucast (drop_bit 8 reg2)\<rparr>"

text \<open>
  The three loops of \<^verbatim>\<open>pci_init\<close>, over the functions, slots and buses that are left. The first component
  of the result says that the scan has jumped to \<^verbatim>\<open>done\<close>.
\<close>

primrec pci_funcs :: "'d bus \<Rightarrow> u8 \<Rightarrow> u8 \<Rightarrow> u8 list \<Rightarrow> pci_device_t list \<Rightarrow> 'd \<Rightarrow> bool \<times> pci_device_t list \<times> 'd" where
  "pci_funcs B bus slot [] devs d = (False, devs, d)"
| "pci_funcs B bus slot (f # fs) devs d =
     (let (ident, d) = pci_cfg_read B bus slot f 0 d in
      if (ucast (ident AND 0xFFFF) :: u16) = 0xFFFF then (if f = 0 then (False, devs, d) else pci_funcs B bus slot fs devs d)
      else if length devs \<ge> PCI_MAX_DEVICES then (True, devs, d)
      else let (reg2, d) = pci_cfg_read B bus slot f 0x08 d;
               devs = devs @ [pci_entry bus slot f ident reg2]
           in if f = 0
              then let (ht, d) = pci_cfg_read B bus slot 0 0x0C d
                   in if drop_bit 16 ht AND 0x80 = 0 then (False, devs, d) else pci_funcs B bus slot fs devs d
              else pci_funcs B bus slot fs devs d)"

primrec pci_slots :: "'d bus \<Rightarrow> u8 \<Rightarrow> u8 list \<Rightarrow> pci_device_t list \<Rightarrow> 'd \<Rightarrow> bool \<times> pci_device_t list \<times> 'd" where
  "pci_slots B bus [] devs d = (False, devs, d)"
| "pci_slots B bus (s # ss) devs d =
     (let (fin, devs, d) = pci_funcs B bus s (map of_nat [0..<8]) devs d
      in if fin then (True, devs, d) else pci_slots B bus ss devs d)"

primrec pci_buses :: "'d bus \<Rightarrow> u8 list \<Rightarrow> pci_device_t list \<Rightarrow> 'd \<Rightarrow> bool \<times> pci_device_t list \<times> 'd" where
  "pci_buses B [] devs d = (False, devs, d)"
| "pci_buses B (b # bs) devs d =
     (let (fin, devs, d) = pci_slots B b (map of_nat [0..<32]) devs d
      in if fin then (True, devs, d) else pci_buses B bs devs d)"

definition pci_init :: "'d bus \<Rightarrow> 'd \<Rightarrow> pci_device_t list \<times> 'd" where
  "pci_init B d = snd (pci_buses B (map of_nat [0..<256]) [] d)"

definition pci_device_count :: "pci_device_t list \<Rightarrow> u32" where
  "pci_device_count devs = of_nat (length devs)"

definition pci_get :: "pci_device_t list \<Rightarrow> u32 \<Rightarrow> pci_device_t option" where
  "pci_get devs index = (if index < pci_device_count devs then Some (devs ! unat index) else None)"

section \<open>Users and permissions\<close>

definition SEC_NAME_MAX :: nat where
  "SEC_NAME_MAX = 32"

definition SEC_MAX_USERS :: nat where
  "SEC_MAX_USERS = 16"

record user_t =
  uid :: u32
  gid :: u32
  u_name :: "u8 list"
  u_active :: bool

record sec_state =
  users :: "user_t list"
  sec_current :: "nat option"

definition user_zero :: user_t where
  "user_zero = \<lparr>uid = 0, gid = 0, u_name = replicate SEC_NAME_MAX 0, u_active = False\<rparr>"

text \<open>A literal copied into an array with \<^verbatim>\<open>strcpy\<close>.\<close>

definition strcpy_buf :: "string \<Rightarrow> u8 list \<Rightarrow> u8 list" where
  "strcpy_buf lit buf = bytes_of lit @ [0] @ drop (length lit + 1) buf"

definition security_init :: sec_state where
  "security_init =
     (let us = replicate SEC_MAX_USERS user_zero;
          us = us[0 := (us ! 0)\<lparr>uid := 0, gid := 0, u_name := strcpy_buf ''root'' (u_name (us ! 0)), u_active := True\<rparr>];
          us = us[1 := (us ! 1)\<lparr>uid := 1000, gid := 1000, u_name := strcpy_buf ''user'' (u_name (us ! 1)), u_active := True\<rparr>]
      in \<lparr>users = us, sec_current = Some 1\<rparr>)"

definition security_current_user :: "sec_state \<Rightarrow> nat option" where
  "security_current_user s = sec_current s"

definition security_check_perm :: "sec_state \<Rightarrow> u32 \<Rightarrow> u32 \<Rightarrow> u32 \<Rightarrow> bool \<Rightarrow> bool" where
  "security_check_perm s mode owner grp write =
     (case sec_current s of
        None \<Rightarrow> False
      | Some i \<Rightarrow>
          let u = users s ! i in
          if uid u = 0 then True
          else let shift = (if uid u = owner then 6 else if gid u = grp then 3 else 0);
                   bits = drop_bit shift mode AND 7
               in if write then bits AND 2 \<noteq> 0 else bits AND 4 \<noteq> 0)"

section \<open>Message ports\<close>

definition IPC_MAX_PORTS :: u32 where
  "IPC_MAX_PORTS = 64"

record ipc_port_t =
  port_id :: u32
  port_active :: bool
  port_name :: "u8 list"

record ipc_message_t =
  msg_from :: u32
  msg_type :: u32
  msg_size :: u32
  msg_data :: "u8 list"

record ipc_state =
  ipc_ports :: "u32 \<Rightarrow> ipc_port_t"
  port_count :: u32

definition ipc_init :: ipc_state where
  "ipc_init = \<lparr>ipc_ports = (\<lambda>_. \<lparr>port_id = 0, port_active = False, port_name = replicate 32 0\<rparr>), port_count = 0\<rparr>"

definition ipc_create_port :: "u8 list option \<Rightarrow> ipc_state \<Rightarrow> i32 \<times> ipc_state" where
  "ipc_create_port name s =
     (if port_count s \<ge> IPC_MAX_PORTS then (-1, s)
      else let n = port_count s; p = ipc_ports s n;
               p = p\<lparr>port_id := n, port_active := True,
                     port_name := strncpy_buf 31 (case name of Some x \<Rightarrow> x | None \<Rightarrow> bytes_of ''port'') (port_name p)\<rparr>
           in (port_id p, s\<lparr>ipc_ports := (ipc_ports s)(n := p), port_count := n + 1\<rparr>))"

definition ipc_send :: "u32 \<Rightarrow> ipc_message_t option \<Rightarrow> ipc_state \<Rightarrow> i32" where
  "ipc_send port msg s = (if port \<ge> port_count s \<or> \<not> port_active (ipc_ports s port) \<or> msg = None then -1 else 0)"

definition ipc_recv :: "u32 \<Rightarrow> ipc_message_t option \<Rightarrow> ipc_state \<Rightarrow> i32" where
  "ipc_recv port msg s = (if port \<ge> port_count s \<or> \<not> port_active (ipc_ports s port) \<or> msg = None then -1 else -1)"

section \<open>Network, power and the FAT32 stub\<close>

record net_iface_t =
  ipv4 :: bool
  ipv6 :: bool
  link_up :: bool
  mac :: "u8 list"
  ipv4_addr :: u32
  ipv4_mask :: u32
  gateway :: u32

definition net_init :: net_iface_t where
  "net_init = \<lparr>ipv4 = True, ipv6 = True, link_up = True, mac = (replicate 6 0)[0 := 0x02], ipv4_addr = 0x7F000001,
     ipv4_mask = 0xFF000000, gateway = 0\<rparr>"

definition net_send :: "u64 \<Rightarrow> i32" where
  "net_send len = ucast len"

definition net_poll :: "u64 \<Rightarrow> i32" where
  "net_poll mx = 0"

text \<open>The device state in which the processor halts for good.\<close>

datatype 'd halted = Halted 'd

definition power_shutdown :: "'d bus \<Rightarrow> 'd log_state \<Rightarrow> 'd halted run" where
  "power_shutdown B l =
     run_bind (klog B LOG_INFO (bytes_of ''power'') (bytes_of ''Shutdown requested'') [] l) (\<lambda>l.
     ret (Halted (outw B 0xB004 0x2000 (outw B 0x604 0x2000 (log_dev l)))))"

definition power_reboot :: "'d bus \<Rightarrow> 'd log_state \<Rightarrow> 'd halted run" where
  "power_reboot B l =
     run_bind (klog B LOG_INFO (bytes_of ''power'') (bytes_of ''Reboot requested'') [] l) (\<lambda>l. ret (Halted (outb B 0x64 0xFE (log_dev l))))"

definition power_sleep :: "'d bus \<Rightarrow> 'd log_state \<Rightarrow> 'd log_state run" where
  "power_sleep B = klog B LOG_INFO (bytes_of ''power'') (bytes_of ''Sleep not yet supported'') []"

definition security_enable_smep_smap_hints :: "'d bus \<Rightarrow> 'd log_state \<Rightarrow> 'd log_state run" where
  "security_enable_smep_smap_hints B = klog B LOG_DEBUG (bytes_of ''security'') (bytes_of ''SMEP/SMAP deferred until ring-3 bring-up'') []"

definition fat32_mount :: "'d bus \<Rightarrow> u8 list \<Rightarrow> u8 list \<Rightarrow> 'd log_state \<Rightarrow> (i32 \<times> 'd log_state) run" where
  "fat32_mount B device mountpoint l =
     run_bind (klog B LOG_WARN (bytes_of ''fat32'') (bytes_of ''FAT32 driver not linked in v0.1'') [] l) (\<lambda>l. ret (-1, l))"

definition fat32_unmount :: "u8 list \<Rightarrow> i32" where
  "fat32_unmount mountpoint = -1"

section \<open>System calls\<close>

record 'd sys_state =
  sys_sched :: sched_state
  sys_timer :: timer_state
  sys_log :: "'d log_state"
  sys_mem :: mem

text \<open>The string a pointer argument stands for; reading one without a terminator does not end.\<close>

definition user_string :: "mem \<Rightarrow> addr \<Rightarrow> u8 list option run" where
  "user_string m a = (if a = NULL then ret None else run_of (map_option (\<lambda>n. Some (peek m a (unat n))) (strlen m a)))"

definition sys_klog :: "'d bus \<Rightarrow> log_level_t \<Rightarrow> string \<Rightarrow> string \<Rightarrow> va_slot list \<Rightarrow> 'd sys_state \<Rightarrow> 'd sys_state run" where
  "sys_klog B level subsystem fmt ap s =
     run_bind (klog B level (bytes_of subsystem) (bytes_of fmt) ap (sys_log s)) (\<lambda>l. ret (s\<lparr>sys_log := l\<rparr>))"

text \<open>The loop of \<^verbatim>\<open>SYS_WRITE\<close>: a line for every newline, nothing for the other characters.\<close>

primrec write_loop :: "'d bus \<Rightarrow> u8 list \<Rightarrow> 'd sys_state \<Rightarrow> 'd sys_state run" where
  "write_loop B [] s = ret s"
| "write_loop B (c # cs) s =
     (if c = 10 then run_bind (sys_klog B LOG_INFO ''user'' ''%s'' [StrSlot (Some [])] s) (write_loop B cs) else write_loop B cs s)"

definition syscall_dispatch :: "'d bus \<Rightarrow> u64 \<Rightarrow> u64 \<Rightarrow> u64 \<Rightarrow> u64 \<Rightarrow> u64 \<Rightarrow> 'd sys_state \<Rightarrow> (i64 \<times> 'd sys_state) run" where
  "syscall_dispatch B nr a0 a1 a2 a3 s =
     (let sel = ucast nr :: u32 in
      if sel = 0 then run_bind (sys_klog B LOG_INFO ''syscall'' ''exit(%llu)'' [Slot a0] s) (\<lambda>s. ret (0, s))
      else if sel = 1 then
        run_bind (write_loop B (if a0 = NULL then [] else peek (sys_mem s) a0 (unat a1)) s) (\<lambda>s. ret (a1, s))
      else if sel = 5 then run_bind (run_of (sched_yield (sys_sched s))) (\<lambda>q. ret (0, s\<lparr>sys_sched := q\<rparr>))
      else if sel = 6 then
        ret (case current (sys_sched s) of Some t \<Rightarrow> ucast (t_id (tasks (sys_sched s) t)) | None \<Rightarrow> 0, s)
      else if sel = 7 then ret (timer_uptime_ms (sys_timer s), s)
      else if sel = 8 then run_bind (user_string (sys_mem s) a0) (\<lambda>t. run_bind (sys_klog B LOG_INFO ''user'' ''%s'' [StrSlot t] s) (\<lambda>s. ret (0, s)))
      else run_bind (sys_klog B LOG_WARN ''syscall'' ''unknown syscall %llu'' [Slot nr] s) (\<lambda>s. ret (-1, s)))"

section \<open>The devices of a configuration space\<close>

text \<open>
  The configuration mechanism: reading the data port answers with the register whose address was
  written last, and \<open>cfg\<close> are the contents of the registers.
\<close>

definition pci_answers :: "'d bus \<Rightarrow> (u32 \<Rightarrow> u32) \<Rightarrow> bool" where
  "pci_answers B cfg \<longleftrightarrow> (\<forall>a d. fst (inl B 0xCFC (outl B 0xCF8 a d)) = cfg a)"

definition pci_present :: "(u32 \<Rightarrow> u32) \<Rightarrow> u8 \<Rightarrow> u8 \<Rightarrow> u8 \<Rightarrow> bool" where
  "pci_present cfg b s f \<longleftrightarrow> (ucast (cfg (cfg_address b s f 0) AND 0xFFFF) :: u16) \<noteq> 0xFFFF"

definition pci_multi :: "(u32 \<Rightarrow> u32) \<Rightarrow> u8 \<Rightarrow> u8 \<Rightarrow> bool" where
  "pci_multi cfg b s \<longleftrightarrow> drop_bit 16 (cfg (cfg_address b s 0 0x0C)) AND 0x80 \<noteq> 0"

definition pci_functions :: "(u32 \<Rightarrow> u32) \<Rightarrow> u8 \<Rightarrow> u8 \<Rightarrow> u8 list" where
  "pci_functions cfg b s =
     (if \<not> pci_present cfg b s 0 then []
      else filter (pci_present cfg b s) (if pci_multi cfg b s then map of_nat [0..<8] else [0]))"

definition slot_devices :: "(u32 \<Rightarrow> u32) \<Rightarrow> u8 \<Rightarrow> u8 \<Rightarrow> pci_device_t list" where
  "slot_devices cfg b s =
     map (\<lambda>f. pci_entry b s f (cfg (cfg_address b s f 0)) (cfg (cfg_address b s f 0x08))) (pci_functions cfg b s)"

definition bus_devices :: "(u32 \<Rightarrow> u32) \<Rightarrow> u8 \<Rightarrow> pci_device_t list" where
  "bus_devices cfg b = concat (map (slot_devices cfg b) (map of_nat [0..<32]))"

definition pci_devices :: "(u32 \<Rightarrow> u32) \<Rightarrow> pci_device_t list" where
  "pci_devices cfg = concat (map (bus_devices cfg) (map of_nat [0..<256]))"

text \<open>\<open>adds res devs new\<close>: the scan went on from \<open>devs\<close> over the devices \<open>new\<close> and stopped if they do not fit.\<close>

definition adds :: "bool \<times> pci_device_t list \<times> 'd \<Rightarrow> pci_device_t list \<Rightarrow> pci_device_t list \<Rightarrow> bool" where
  "adds res devs new \<longleftrightarrow> (fst res \<longleftrightarrow> PCI_MAX_DEVICES < length devs + length new) \<and> fst (snd res) = take PCI_MAX_DEVICES (devs @ new)"

lemma pci_cfg_read_answers: "pci_answers B cfg \<Longrightarrow> fst (pci_cfg_read B b s f off d) = cfg (cfg_address b s f off)"
  by (simp add: pci_answers_def pci_cfg_read_def)

lemma adds_simps:
  "length devs \<le> PCI_MAX_DEVICES \<Longrightarrow> adds (False, devs, d) devs []"
  "length devs = PCI_MAX_DEVICES \<Longrightarrow> adds (True, devs, d) devs (x # xs)"
  "adds res (devs @ [x]) xs = adds res devs (x # xs)"
  by (simp_all add: adds_def)

definition pci_at :: "(u32 \<Rightarrow> u32) \<Rightarrow> u8 \<Rightarrow> u8 \<Rightarrow> u8 \<Rightarrow> pci_device_t" where
  "pci_at cfg b s f = pci_entry b s f (cfg (cfg_address b s f 0)) (cfg (cfg_address b s f 0x08))"

text \<open>One function of a slot, whatever the state of the device behind the ports.\<close>

lemma pci_funcs_step:
  assumes "pci_answers B cfg"
  shows "\<exists>d'. pci_funcs B b s (f # fs) devs d =
    (if \<not> pci_present cfg b s f then (if f = 0 then (False, devs, d') else pci_funcs B b s fs devs d')
     else if length devs \<ge> PCI_MAX_DEVICES then (True, devs, d')
     else if f = 0 \<and> \<not> pci_multi cfg b s then (False, devs @ [pci_at cfg b s f], d')
     else pci_funcs B b s fs (devs @ [pci_at cfg b s f]) d')"
proof -
  note rd = pci_cfg_read_answers [OF assms]
  define d1 where "d1 = snd (pci_cfg_read B b s f 0 d)"
  define d2 where "d2 = snd (pci_cfg_read B b s f 0x08 d1)"
  define d3 where "d3 = snd (pci_cfg_read B b s 0 0x0C d2)"
  have r: "pci_cfg_read B b s f 0 d = (cfg (cfg_address b s f 0), d1)" "pci_cfg_read B b s f 0x08 d1 = (cfg (cfg_address b s f 0x08), d2)"
    "pci_cfg_read B b s 0 0x0C d2 = (cfg (cfg_address b s 0 0x0C), d3)"
    by (simp_all add: prod_eq_iff rd d1_def d2_def d3_def)
  consider "\<not> pci_present cfg b s f" | "pci_present cfg b s f" "length devs \<ge> PCI_MAX_DEVICES"
    | "pci_present cfg b s f" "\<not> length devs \<ge> PCI_MAX_DEVICES" "f = 0" | "pci_present cfg b s f" "\<not> length devs \<ge> PCI_MAX_DEVICES" "f \<noteq> 0" by blast
  then show ?thesis
  proof cases
    case 3
    then show ?thesis using r by (intro exI [of _ d3]) (simp add: Let_def pci_present_def pci_multi_def pci_at_def)
  next
    case 4
    then show ?thesis using r by (intro exI [of _ d2]) (simp add: Let_def pci_present_def pci_at_def)
  qed (use r in \<open>intro exI [of _ d1]; simp add: pci_present_def\<close>)+
qed

lemma pci_funcs_tail:
  assumes "pci_answers B cfg" "0 \<notin> set fs" "length devs \<le> PCI_MAX_DEVICES"
  shows "adds (pci_funcs B b s fs devs d) devs (map (pci_at cfg b s) (filter (pci_present cfg b s) fs))"
  using assms(2,3)
proof (induction fs arbitrary: devs d)
  case (Cons f fs)
  obtain d' where st: "pci_funcs B b s (f # fs) devs d =
    (if \<not> pci_present cfg b s f then (if f = 0 then (False, devs, d') else pci_funcs B b s fs devs d')
     else if length devs \<ge> PCI_MAX_DEVICES then (True, devs, d')
     else if f = 0 \<and> \<not> pci_multi cfg b s then (False, devs @ [pci_at cfg b s f], d')
     else pci_funcs B b s fs (devs @ [pci_at cfg b s f]) d')"
    using pci_funcs_step [OF assms(1)] by blast
  show ?case unfolding st using Cons.IH [of devs] Cons.IH [of "devs @ [pci_at cfg b s f]"] Cons.prems by (auto simp: adds_simps)
qed (simp add: adds_simps)

lemma pci_funcs_slot:
  assumes "pci_answers B cfg" "length devs \<le> PCI_MAX_DEVICES"
  shows "adds (pci_funcs B b s (map of_nat [0..<8]) devs d) devs (slot_devices cfg b s)"
proof -
  have fs: "map of_nat [0..<8] = (0 :: u8) # map of_nat [1..<8]" by (simp add: upt_rec)
  have nz: "0 \<notin> set (map of_nat [1..<8] :: u8 list)" by (simp add: upt_rec)
  obtain d' where st: "pci_funcs B b s (0 # map of_nat [1..<8]) devs d =
    (if \<not> pci_present cfg b s 0 then (if (0 :: u8) = 0 then (False, devs, d') else pci_funcs B b s (map of_nat [1..<8]) devs d')
     else if length devs \<ge> PCI_MAX_DEVICES then (True, devs, d')
     else if (0 :: u8) = 0 \<and> \<not> pci_multi cfg b s then (False, devs @ [pci_at cfg b s 0], d')
     else pci_funcs B b s (map of_nat [1..<8]) (devs @ [pci_at cfg b s 0]) d')"
    using pci_funcs_step [OF assms(1)] by blast
  have dv: "slot_devices cfg b s = (if \<not> pci_present cfg b s 0 then [] else
      pci_at cfg b s 0 # (if pci_multi cfg b s then map (pci_at cfg b s) (filter (pci_present cfg b s) (map of_nat [1..<8])) else []))"
    unfolding slot_devices_def pci_functions_def fs pci_at_def [symmetric] by simp
  show ?thesis
    unfolding fs st dv
    using assms(2) pci_funcs_tail [OF assms(1) nz, of "devs @ [pci_at cfg b s 0]" b s d']
      adds_simps(1) [of "devs @ [pci_at cfg b s 0]" d']
    by (simp add: adds_simps)
qed

text \<open>Scanning several parts one after the other, each of which adds its devices.\<close>

lemma adds_append:
  assumes "adds (fin, devs', d') devs new" "length devs \<le> PCI_MAX_DEVICES" "\<not> fin \<Longrightarrow> adds res devs' rest"
  shows "adds (if fin then (True, devs', d') else res) devs (new @ rest)"
  using assms by (auto simp: adds_def)

lemma adds_length: "adds (False, devs', d') devs new \<Longrightarrow> length devs' \<le> PCI_MAX_DEVICES"
  by (simp add: adds_def del: take_append)

lemma pci_slots_adds:
  assumes "pci_answers B cfg" "length devs \<le> PCI_MAX_DEVICES"
  shows "adds (pci_slots B b ss devs d) devs (concat (map (slot_devices cfg b) ss))"
  using assms(2)
proof (induction ss arbitrary: devs d)
  case (Cons s ss)
  obtain fin devs' d' where r: "pci_funcs B b s (map of_nat [0..<8]) devs d = (fin, devs', d')" by (cases "pci_funcs B b s (map of_nat [0..<8]) devs d") auto
  have a: "adds (fin, devs', d') devs (slot_devices cfg b s)" using pci_funcs_slot [OF assms(1) Cons.prems, of b s d] r by simp
  then have "adds (pci_slots B b ss devs' d') devs' (concat (map (slot_devices cfg b) ss))" if "\<not> fin"
    using that by (intro Cons.IH) (auto intro: adds_length)
  then show ?case using adds_append [OF a Cons.prems] r by (simp add: Let_def)
qed (simp add: adds_simps)

lemma pci_buses_adds:
  assumes "pci_answers B cfg" "length devs \<le> PCI_MAX_DEVICES"
  shows "adds (pci_buses B bs devs d) devs (concat (map (bus_devices cfg) bs))"
  using assms(2)
proof (induction bs arbitrary: devs d)
  case (Cons b bs)
  obtain fin devs' d' where r: "pci_slots B b (map of_nat [0..<32]) devs d = (fin, devs', d')" by (cases "pci_slots B b (map of_nat [0..<32]) devs d") auto
  have a: "adds (fin, devs', d') devs (bus_devices cfg b)"
    using pci_slots_adds [OF assms(1) Cons.prems, of b "map of_nat [0..<32]" d] r by (simp add: bus_devices_def)
  then have "adds (pci_buses B bs devs' d') devs' (concat (map (bus_devices cfg) bs))" if "\<not> fin"
    using that by (intro Cons.IH) (auto intro: adds_length)
  then show ?case using adds_append [OF a Cons.prems] r by (simp add: Let_def)
qed (simp add: adds_simps)

section \<open>Properties\<close>

lemma klog_text:
  "serial_ready B \<Longrightarrow> klog B LOG_INFO sub (bytes_of ''%s'') [StrSlot (Some t)] s = ret (written B (log_line LOG_INFO sub t) s)"
  using klog_items [of B "[FStr (Some t)]" LOG_INFO sub] by (auto simp: list_all2_Cons1)

text \<open>\<^verbatim>\<open>SYS_WRITE\<close> logs one empty line for every newline of the buffer.\<close>

definition empty_line :: "u8 list" where
  "empty_line = log_line LOG_INFO (bytes_of ''user'') []"

lemma write_loop_lines:
  assumes "serial_ready B"
  shows "write_loop B cs s = ret (s\<lparr>sys_log := written B (concat (replicate (count_list cs 10) empty_line)) (sys_log s)\<rparr>)"
proof (induction cs arbitrary: s)
  case (Cons c cs)
  have "sys_klog B LOG_INFO ''user'' ''%s'' [StrSlot (Some [])] s = ret (s\<lparr>sys_log := written B empty_line (sys_log s)\<rparr>)"
    using klog_text [OF assms] by (simp add: sys_klog_def empty_line_def)
  then show ?case using Cons by simp
qed simp

text \<open>
  (C31) The PCI scan. If reading the data port answers with the register that was addressed, the scan
  finds exactly the first 64 devices of the configuration space in the order of bus, slot and
  function: a slot counts if its function 0 is present, and its further functions if the header says that it
  has several. \<^verbatim>\<open>pci_get\<close> returns the device with the given number, and nothing from the count on.
\<close>

theorem pci_init_finds_devices:
  assumes "pci_answers B cfg"
  shows "fst (pci_init B d) = take 64 (pci_devices cfg) \<and> unat (pci_device_count (fst (pci_init B d))) = min 64 (length (pci_devices cfg)) \<and>
    (\<forall>i. pci_get (fst (pci_init B d)) i = (if unat i < min 64 (length (pci_devices cfg)) then Some (pci_devices cfg ! unat i) else None))"
proof -
  have eq: "fst (pci_init B d) = take 64 (pci_devices cfg)"
    using pci_buses_adds [OF assms, of "[]" "map of_nat [0..<256]" d] by (simp add: adds_def pci_init_def pci_devices_def PCI_MAX_DEVICES_def)
  moreover have "unat (of_nat (min 64 (length (pci_devices cfg))) :: u32) = min 64 (length (pci_devices cfg))"
    by (simp add: unsigned_of_nat take_bit_nat_eq_self_iff)
  ultimately show ?thesis by (auto simp: pci_get_def pci_device_count_def word_less_nat_alt min.commute)
qed

text \<open>A machine whose only device is a host bridge.\<close>

definition bridge_bus :: "u32 bus" where
  "bridge_bus = \<lparr>inb = (\<lambda>p d. (0, d)), outb = (\<lambda>p v d. d), outw = (\<lambda>p v d. d),
     inl = (\<lambda>p d. (if d = 0x80000000 then 0x12378086 else 0xFFFFFFFF, d)), outl = (\<lambda>p v d. v)\<rparr>"

theorem pci_init_finds_devices_witness:
  "fst (pci_init bridge_bus 0) = take 64 (pci_devices (\<lambda>a. if a = 0x80000000 then 0x12378086 else 0xFFFFFFFF))"
  using pci_init_finds_devices [of bridge_bus "\<lambda>a. if a = 0x80000000 then 0x12378086 else 0xFFFFFFFF" 0]
  by (simp add: pci_answers_def bridge_bus_def)

text \<open>
  Writing from a program. \<^verbatim>\<open>SYS_WRITE\<close> always reports that all bytes were written. With a serial port
  that is ready it sends an empty log line for every newline of the buffer and none of the other
  characters. The selector is the low half of the number, so a number above \<open>2 ^ 32\<close> selects one of the known calls;
  the calls for reading, opening and closing files answer like unknown numbers, with \<open>-1\<close>.
\<close>

theorem syscall_write_lines:
  assumes "serial_ready B"
  shows "(ucast nr = (1 :: u32) \<and> buf \<noteq> NULL \<longrightarrow>
      (\<exists>s'. syscall_dispatch B nr buf n a2 a3 s = ret (n, s') \<and>
         log_dev (sys_log s') = fold (outb B COM1) (concat (replicate (count_list (peek (sys_mem s) buf (unat n)) 10) empty_line)) (log_dev (sys_log s)) \<and>
         sys_sched s' = sys_sched s \<and> sys_timer s' = sys_timer s \<and> sys_mem s' = sys_mem s)) \<and>
    (ucast nr \<in> {2, 3, 4 :: u32} \<or> 9 \<le> (ucast nr :: u32) \<longrightarrow>
      (\<exists>s'. syscall_dispatch B nr buf n a2 a3 s = ret (-1, s') \<and>
         sys_sched s' = sys_sched s \<and> sys_timer s' = sys_timer s \<and> sys_mem s' = sys_mem s))"
proof (intro conjI impI)
  assume "ucast nr = (1 :: u32) \<and> buf \<noteq> NULL"
  then show "\<exists>s'. syscall_dispatch B nr buf n a2 a3 s = ret (n, s') \<and>
      log_dev (sys_log s') = fold (outb B COM1) (concat (replicate (count_list (peek (sys_mem s) buf (unat n)) 10) empty_line)) (log_dev (sys_log s)) \<and>
      sys_sched s' = sys_sched s \<and> sys_timer s' = sys_timer s \<and> sys_mem s' = sys_mem s"
    by (simp add: syscall_dispatch_def write_loop_lines [OF assms] written_dev)
next
  assume sel: "ucast nr \<in> {2, 3, 4 :: u32} \<or> 9 \<le> (ucast nr :: u32)"
  then have "ucast nr \<noteq> (0 :: u32)" "ucast nr \<noteq> (1 :: u32)" "ucast nr \<noteq> (5 :: u32)" "ucast nr \<noteq> (6 :: u32)" "ucast nr \<noteq> (7 :: u32)" "ucast nr \<noteq> (8 :: u32)"
    by (auto simp: word_le_nat_alt)
  moreover have "\<exists>l. klog B LOG_WARN (bytes_of ''syscall'') (bytes_of ''unknown syscall %llu'') [Slot nr] (sys_log s) = ret l"
    using klog_items [OF assms, of "map Lit (bytes_of ''unknown syscall '') @ [FUnsLL nr]" LOG_WARN "bytes_of ''syscall''"]
    by (auto simp: bytes_of_def)
  ultimately show "\<exists>s'. syscall_dispatch B nr buf n a2 a3 s = ret (-1, s') \<and>
      sys_sched s' = sys_sched s \<and> sys_timer s' = sys_timer s \<and> sys_mem s' = sys_mem s"
    by (auto simp: syscall_dispatch_def sys_klog_def)
qed

definition sys_idle :: "u8 list sys_state" where
  "sys_idle = \<lparr>sys_sched = sched_example, sys_timer = \<lparr>g_ticks = 0, g_freq = 100\<rparr>,
     sys_log = \<lparr>log_ring = (\<lambda>_. 0), log_pos = 0, log_dev = []\<rparr>, sys_mem = (\<lambda>_. 0)(0x1000 := 0x48, 0x1001 := 0x69, 0x1002 := 10)\<rparr>"

theorem syscall_write_lines_witness:
  "\<exists>s'. syscall_dispatch serial_dev 0x100000001 0x1000 3 0 0 sys_idle = ret (3, s') \<and> log_dev (sys_log s') = bytes_of ''[INFO][user] '' @ [10]"
proof -
  have rdy: "serial_ready serial_dev" by (simp add: serial_ready_def serial_dev_def)
  have cat: "fold (outb serial_dev COM1) xs d = d @ xs" for xs d by (induction xs arbitrary: d) (simp_all add: serial_dev_def)
  have "peek (sys_mem sys_idle) 0x1000 3 = [0x48, 0x69, 10]" by (simp add: sys_idle_def peek_def upt_rec)
  then show ?thesis
    using syscall_write_lines [OF rdy, of "0x100000001" "0x1000" 3 0 0 sys_idle]
    by (simp add: NULL_def cat) (auto simp: sys_idle_def empty_line_def log_line_def bytes_of_def)
qed

end
