(* ===== verification/H3_Terminal.thy ===== *)
theory H3_Terminal
  imports H3_Vfs H3_Wm H3_Pe H3_Log H3_Clock
begin

text \<open>
  The terminal of \<^verbatim>\<open>applications/terminal/terminal.c\<close>: the screen of 24 rows, the line editor and the
  shell commands. The arrays of the state are lists of their bytes. A string that a function only
  reads is the list of its characters; \<^verbatim>\<open>strcmp\<close> on such strings is equality. The local buffers that
  are handed to the file system live in the memory, at addresses that are parameters; other local
  arrays are only checked for overflow.
\<close>

section \<open>The screen\<close>

definition TERM_COLS :: nat where
  "TERM_COLS = 72"

definition TERM_ROWS :: nat where
  "TERM_ROWS = 24"

definition TERM_IN :: nat where
  "TERM_IN = 128"

record term_state_t =
  lines :: "u8 list list"
  t_row :: nat
  t_input :: "u8 list"
  in_len :: nat
  reboot_req :: bool
  shutdown_req :: bool

definition term_zero :: term_state_t where
  "term_zero = \<lparr>lines = replicate TERM_ROWS (replicate (TERM_COLS + 1) 0), t_row = 0, t_input = replicate TERM_IN 0, in_len = 0,
     reboot_req = False, shutdown_req = False\<rparr>"

text \<open>The string an array holds, and \<^verbatim>\<open>strcpy\<close> of a string into an array.\<close>

definition array_str :: "u8 list \<Rightarrow> u8 list run" where
  "array_str buf = (if 0 \<in> set buf then ret (cstr buf) else fail Overflow)"

definition copy_str :: "u8 list \<Rightarrow> u8 list \<Rightarrow> u8 list run" where
  "copy_str src buf = (if length src < length buf then ret (src @ 0 # drop (length src + 1) buf) else fail Overflow)"

definition clear_row :: "nat \<Rightarrow> u8 list list \<Rightarrow> u8 list list" where
  "clear_row r ls = ls[r := (ls ! r)[0 := 0]]"

definition scroll_row :: "nat \<Rightarrow> u8 list list \<Rightarrow> u8 list list run" where
  "scroll_row i ls = run_bind (array_str (ls ! (i + 1))) (\<lambda>str. run_bind (copy_str str (ls ! i)) (\<lambda>b. ret (ls[i := b])))"

definition term_newline :: "term_state_t \<Rightarrow> term_state_t run" where
  "term_newline t =
     (if t_row t < TERM_ROWS - 1
      then ret (t\<lparr>t_row := t_row t + 1, lines := clear_row (t_row t + 1) (lines t)\<rparr>)
      else run_bind (run_fold scroll_row [0..<TERM_ROWS - 1] (lines t)) (\<lambda>ls.
             ret (t\<lparr>lines := clear_row (t_row t) (clear_row (TERM_ROWS - 1) ls)\<rparr>)))"

definition put_at :: "nat \<Rightarrow> u8 \<Rightarrow> term_state_t \<Rightarrow> term_state_t" where
  "put_at len c t = t\<lparr>lines := (lines t)[t_row t := (lines t ! t_row t)[len := c, len + 1 := 0]]\<rparr>"

definition term_putc :: "u8 \<Rightarrow> term_state_t \<Rightarrow> term_state_t run" where
  "term_putc c t =
     (if c = 10 then term_newline t
      else run_bind (array_str (lines t ! t_row t)) (\<lambda>str.
        if length str \<ge> TERM_COLS then run_bind (term_newline t) (\<lambda>t. ret (put_at 0 c t))
        else ret (put_at (length str) c t)))"

definition term_print :: "u8 list \<Rightarrow> term_state_t \<Rightarrow> term_state_t run" where
  "term_print str t = run_fold term_putc str t"

definition term_println :: "u8 list \<Rightarrow> term_state_t \<Rightarrow> term_state_t run" where
  "term_println str t = run_bind (term_print str t) term_newline"

section \<open>What the screen shows\<close>

text \<open>
  The reference: text is a sequence of rows that only ever grows. A newline opens a row, a character
  goes to the last row unless that is full. The screen shows the last 24 rows.
\<close>

definition put_char :: "u8 \<Rightarrow> u8 list list \<Rightarrow> u8 list list" where
  "put_char c rows =
     (if c = 10 then rows @ [[]]
      else if length (last rows) \<ge> TERM_COLS then rows @ [[c]]
      else butlast rows @ [last rows @ [c]])"

definition put_text :: "u8 list \<Rightarrow> u8 list list \<Rightarrow> u8 list list" where
  "put_text = fold put_char"

definition last_rows :: "u8 list list \<Rightarrow> u8 list list" where
  "last_rows rows = drop (length rows - TERM_ROWS) rows"

definition screen :: "term_state_t \<Rightarrow> u8 list list" where
  "screen t = map cstr (take (t_row t + 1) (lines t))"

definition row_ok :: "u8 list \<Rightarrow> bool" where
  "row_ok l \<longleftrightarrow> length l = TERM_COLS + 1 \<and> 0 \<in> set l"

definition term_ok :: "term_state_t \<Rightarrow> bool" where
  "term_ok t \<longleftrightarrow> length (lines t) = TERM_ROWS \<and> (\<forall>l \<in> set (lines t). row_ok l) \<and> t_row t < TERM_ROWS \<and>
     length (t_input t) = TERM_IN \<and> in_len t < TERM_IN \<and> length (cstr (t_input t)) = in_len t"

lemmas term_sizes = TERM_COLS_def TERM_ROWS_def TERM_IN_def

lemma cstr_take_nth:
  "0 \<in> set l \<Longrightarrow> l = cstr l @ 0 # drop (Suc (length (cstr l))) l"
proof (induction l)
  case (Cons a l)
  then show ?case by (cases "a = 0") (auto simp: cstr_def)
qed simp

lemma cstr_length_less: "0 \<in> set l \<Longrightarrow> length (cstr l) < length l"
  by (metis cstr_take_nth length_append length_Cons less_add_Suc1 add_Suc_right)

lemma row_ok_cstr: "row_ok l \<Longrightarrow> length (cstr l) \<le> TERM_COLS"
  using cstr_length_less [of l] by (simp add: row_ok_def)

lemma cstr_no_zero: "0 \<notin> set (cstr l)"
  by (auto simp: cstr_def dest: set_takeWhileD)

lemma row_ok_clear: "row_ok l \<Longrightarrow> row_ok (l[0 := 0]) \<and> cstr (l[0 := 0]) = []"
  by (cases l) (auto simp: row_ok_def cstr_def)

lemma row_ok_put:
  assumes "row_ok l" "length (cstr l) < TERM_COLS" "c \<noteq> 0"
  shows "row_ok (l[length (cstr l) := c, Suc (length (cstr l)) := 0]) \<and>
    cstr (l[length (cstr l) := c, Suc (length (cstr l)) := 0]) = cstr l @ [c]"
proof -
  let ?n = "length (cstr l)"
  have "l = cstr l @ 0 # drop (Suc ?n) l" using assms(1) by (intro cstr_take_nth) (simp add: row_ok_def)
  moreover have "drop (Suc ?n) l \<noteq> []" using assms by (simp add: row_ok_def)
  ultimately obtain y ys where l: "l = cstr l @ 0 # y # ys" by (metis list.exhaust)
  have "(cstr l @ 0 # y # ys)[?n := c, Suc ?n := 0] = (cstr l @ [c]) @ 0 # ys" by (simp add: list_update_append)
  then have e: "l[?n := c, Suc ?n := 0] = (cstr l @ [c]) @ 0 # ys" using l by metis
  have "length (l[?n := c, Suc ?n := 0]) = length l" by (simp only: length_list_update)
  then show ?thesis using e assms cstr_append_zero [of "cstr l @ [c]" ys] by (auto simp: row_ok_def cstr_no_zero)
qed

text \<open>Copying the rows up: a row that is not full leaves the rest of the row it is copied to.\<close>

lemma scroll_row_spec:
  assumes "row_ok (ls ! i)" "row_ok (ls ! Suc i)" "Suc i < length ls"
  shows "\<exists>b. scroll_row i ls = ret (ls[i := b]) \<and> row_ok b \<and> cstr b = cstr (ls ! Suc i)"
proof -
  let ?s = "cstr (ls ! Suc i)"
  have n: "length ?s < length (ls ! i)" using row_ok_cstr [OF assms(2)] assms(1) by (simp add: row_ok_def)
  have "cstr (?s @ 0 # drop (Suc (length ?s)) (ls ! i)) = ?s" by (rule cstr_append_zero) (rule cstr_no_zero)
  then show ?thesis using assms n by (auto simp: scroll_row_def array_str_def copy_str_def row_ok_def)
qed

lemma scroll_rows:
  assumes "length ls = TERM_ROWS" "\<forall>l \<in> set ls. row_ok l" "n \<le> TERM_ROWS - 1"
  shows "\<exists>ls'. run_fold scroll_row [0..<n] ls = ret ls' \<and> length ls' = TERM_ROWS \<and> (\<forall>l \<in> set ls'. row_ok l) \<and>
    map cstr ls' = take n (tl (map cstr ls)) @ drop n (map cstr ls)"
  using assms(3)
proof (induction n)
  case 0
  then show ?case using assms by simp
next
  case (Suc n)
  then obtain l1 where l1: "run_fold scroll_row [0..<n] ls = ret l1" "length l1 = TERM_ROWS" "\<forall>l \<in> set l1. row_ok l"
    "map cstr l1 = take n (tl (map cstr ls)) @ drop n (map cstr ls)" by auto
  have n: "Suc n < TERM_ROWS" using Suc.prems by (simp add: term_sizes)
  obtain b where b: "scroll_row n l1 = ret (l1[n := b])" "row_ok b" "cstr b = cstr (l1 ! Suc n)"
    using scroll_row_spec [of l1 n] l1 n by auto
  have nx: "cstr (l1 ! Suc n) = tl (map cstr ls) ! n"
    using arg_cong [OF l1(4), of "\<lambda>x. x ! Suc n"] l1(2) n assms(1) by (simp add: nth_append nth_tl)
  have ok: "\<forall>l \<in> set (l1[n := b]). row_ok l" using l1(3) b(2) set_update_subset_insert [of l1 n b] by auto
  have "map cstr (l1[n := b]) = (map cstr l1)[n := tl (map cstr ls) ! n]" using b(3) nx by (simp add: map_update)
  also have "\<dots> = take (Suc n) (tl (map cstr ls)) @ drop (Suc n) (map cstr ls)"
    using n assms(1) by (intro nth_equalityI) (auto simp: l1(4) nth_append nth_list_update nth_tl less_Suc_eq)
  finally show ?case using l1 b ok by (simp add: run_fold_append)
qed

lemma map_take_rows: "screen t = take (t_row t + 1) (map cstr (lines t))"
  by (simp add: screen_def take_map)

lemma last_rows_short: "length rows \<le> TERM_ROWS \<Longrightarrow> last_rows rows = rows"
  by (simp add: last_rows_def)

lemma clear_row_ok:
  assumes "r < length ls" "\<forall>l \<in> set ls. row_ok l"
  shows "length (clear_row r ls) = length ls" "\<forall>l \<in> set (clear_row r ls). row_ok l"
    "map cstr (clear_row r ls) = (map cstr ls)[r := []]"
  using assms row_ok_clear [of "ls ! r"] set_update_subset_insert [of ls r "(ls ! r)[0 := 0]"]
  by (auto simp: clear_row_def map_update)

text \<open>What an operation on the screen keeps besides the rows.\<close>

definition screen_step :: "term_state_t \<Rightarrow> term_state_t \<Rightarrow> bool" where
  "screen_step t t' \<longleftrightarrow> term_ok t' \<and> t_input t' = t_input t \<and> in_len t' = in_len t \<and>
     reboot_req t' = reboot_req t \<and> shutdown_req t' = shutdown_req t"

lemma screen_step_trans: "screen_step t t1 \<Longrightarrow> screen_step t1 t2 \<Longrightarrow> screen_step t t2"
  by (simp add: screen_step_def)

lemma term_newline_spec:
  assumes ok: "term_ok t"
  shows "\<exists>t'. term_newline t = ret t' \<and> screen_step t t' \<and> screen t' = last_rows (screen t @ [[]])"
proof (cases "t_row t < TERM_ROWS - 1")
  case True
  let ?t = "t\<lparr>t_row := t_row t + 1, lines := clear_row (t_row t + 1) (lines t)\<rparr>"
  have r: "Suc (t_row t) < length (lines t)" using True ok by (simp add: term_ok_def term_sizes)
  note c = clear_row_ok [OF r, simplified]
  have "screen ?t = take (t_row t + 2) ((map cstr (lines t))[Suc (t_row t) := []])"
    using c ok by (simp add: map_take_rows term_ok_def)
  also have "\<dots> = screen t @ [[]]"
    using r by (simp add: map_take_rows take_Suc_conv_app_nth [of "Suc (t_row t)"] take_update_cancel)
  finally have "screen ?t = last_rows (screen t @ [[]])"
    using r True ok by (subst last_rows_short) (simp_all add: map_take_rows term_ok_def)
  then show ?thesis using True ok c by (auto simp: term_newline_def screen_step_def term_ok_def term_sizes)
next
  case False
  then have r: "t_row t = TERM_ROWS - 1" "length (lines t) = TERM_ROWS" "\<forall>l \<in> set (lines t). row_ok l"
    using ok by (auto simp: term_ok_def)
  obtain ls where ls: "run_fold scroll_row [0..<TERM_ROWS - 1] (lines t) = ret ls" "length ls = TERM_ROWS"
      "\<forall>l \<in> set ls. row_ok l" "map cstr ls = take (TERM_ROWS - 1) (tl (map cstr (lines t))) @ drop (TERM_ROWS - 1) (map cstr (lines t))"
    using scroll_rows [OF r(2,3), of "TERM_ROWS - 1"] by auto
  let ?l1 = "clear_row (TERM_ROWS - 1) ls" and ?l2 = "clear_row (TERM_ROWS - 1) (clear_row (TERM_ROWS - 1) ls)"
  have k: "TERM_ROWS - 1 < length ls" using ls(2) by (simp add: term_sizes)
  note c1 = clear_row_ok [OF k ls(3)]
  have k2: "TERM_ROWS - 1 < length ?l1" using k c1(1) by simp
  note c2 = clear_row_ok [OF k2 c1(2)]
  obtain y where "drop (TERM_ROWS - 1) (map cstr (lines t)) = [y]"
    using r(2) by (cases "drop (TERM_ROWS - 1) (map cstr (lines t))") (auto simp: term_sizes dest: arg_cong [of _ _ length])
  then have "map cstr ls = tl (map cstr (lines t)) @ [y]" using r(2) ls(4) by simp
  then have "map cstr ?l2 = tl (map cstr (lines t)) @ [[]]"
    unfolding c2(3) c1(3) using r(2) by (simp add: list_update_append)
  moreover have "screen t = map cstr (lines t)" using r by (simp add: map_take_rows term_sizes)
  ultimately have "map cstr ?l2 = last_rows (screen t @ [[]])"
    using r by (simp add: last_rows_def drop_Suc drop_tl term_sizes)
  moreover have "screen (t\<lparr>lines := ?l2\<rparr>) = map cstr ?l2" using r c1 c2 ls(2) by (simp add: map_take_rows term_sizes)
  ultimately show ?thesis
    using False ls r c1 c2 ok by (auto simp: term_newline_def screen_step_def term_ok_def)
qed

lemma screen_last:
  assumes "term_ok t"
  shows "screen t \<noteq> []" "length (screen t) \<le> TERM_ROWS" "last (screen t) = cstr (lines t ! t_row t)"
    "screen t = butlast (screen t) @ [cstr (lines t ! t_row t)]"
proof -
  have r: "t_row t < length (lines t)" using assms by (simp add: term_ok_def)
  then have s: "screen t = take (t_row t) (map cstr (lines t)) @ [cstr (lines t ! t_row t)]"
    by (simp add: map_take_rows take_Suc_conv_app_nth)
  then show "screen t \<noteq> []" "last (screen t) = cstr (lines t ! t_row t)"
    "screen t = butlast (screen t) @ [cstr (lines t ! t_row t)]" by simp_all
  show "length (screen t) \<le> TERM_ROWS" using s r assms by (simp add: term_ok_def)
qed

lemma put_at_spec:
  assumes ok: "term_ok t" and l: "length (cstr (lines t ! t_row t)) < TERM_COLS" and c: "c \<noteq> 0"
  shows "screen_step t (put_at (length (cstr (lines t ! t_row t))) c t) \<and>
    screen (put_at (length (cstr (lines t ! t_row t))) c t) = butlast (screen t) @ [last (screen t) @ [c]]"
proof -
  let ?l = "lines t ! t_row t" and ?n = "length (cstr (lines t ! t_row t))"
  let ?b = "?l[?n := c, Suc ?n := 0]"
  have r: "t_row t < length (lines t)" "row_ok ?l" using ok by (auto simp: term_ok_def)
  note b = row_ok_put [OF r(2) l c]
  have "\<forall>x \<in> set ((lines t)[t_row t := ?b]). row_ok x"
    using b ok set_update_subset_insert [of "lines t" "t_row t" ?b] by (auto simp: term_ok_def)
  then have st: "screen_step t (put_at ?n c t)" using ok by (simp add: screen_step_def put_at_def term_ok_def)
  have "screen (put_at ?n c t) = take (Suc (t_row t)) ((map cstr (lines t))[t_row t := cstr ?l @ [c]])"
    using b by (simp add: map_take_rows put_at_def map_update)
  also have "\<dots> = take (t_row t) (map cstr (lines t)) @ [cstr ?l @ [c]]" using r by (simp add: take_Suc_conv_app_nth)
  also have "take (t_row t) (map cstr (lines t)) = butlast (screen t)" using r by (simp add: map_take_rows butlast_take)
  finally show ?thesis using st screen_last(3) [OF ok] by simp
qed

lemma term_putc_spec:
  assumes ok: "term_ok t" and c: "c \<noteq> 0"
  shows "\<exists>t'. term_putc c t = ret t' \<and> screen_step t t' \<and> screen t' = last_rows (put_char c (screen t))"
proof -
  let ?str = "cstr (lines t ! t_row t)"
  have r: "row_ok (lines t ! t_row t)" using ok by (auto simp: term_ok_def)
  then have a: "array_str (lines t ! t_row t) = ret ?str" by (simp add: array_str_def row_ok_def)
  obtain t1 where t1: "term_newline t = ret t1" "screen_step t t1" "screen t1 = last_rows (screen t @ [[]])"
    using term_newline_spec [OF ok] by blast
  consider "c = 10" | "c \<noteq> 10" "length ?str < TERM_COLS" | "c \<noteq> 10" "TERM_COLS \<le> length ?str" by linarith
  then show ?thesis
  proof cases
    case 1
    then show ?thesis using t1 by (simp add: term_putc_def put_char_def)
  next
    case 2
    have "length (butlast (screen t) @ [last (screen t) @ [c]]) \<le> TERM_ROWS"
      using screen_last(2) [OF ok] by (cases "screen t") (auto simp: term_sizes)
    then show ?thesis
      using 2 put_at_spec [OF ok 2(2) c] a screen_last(3) [OF ok] by (simp add: term_putc_def put_char_def last_rows_short)
  next
    case 3
    have ok1: "term_ok t1" using t1(2) by (simp add: screen_step_def)
    have "screen t1 = drop (Suc (length (screen t)) - TERM_ROWS) (screen t) @ [[]]"
      using t1(3) by (simp add: last_rows_def term_sizes)
    then have e: "cstr (lines t1 ! t_row t1) = []" "butlast (screen t1) = drop (Suc (length (screen t)) - TERM_ROWS) (screen t)"
      using screen_last(3) [OF ok1] by auto
    then have "last (screen t1) = []" using screen_last(3) [OF ok1] by simp
    then have "screen (put_at 0 c t1) = last_rows (screen t @ [[c]]) \<and> screen_step t1 (put_at 0 c t1)"
      using put_at_spec [OF ok1 _ c] e by (simp add: last_rows_def term_sizes)
    then show ?thesis
      using 3 a t1 screen_last(3) [OF ok] by (auto simp: term_putc_def put_char_def intro: screen_step_trans)
  qed
qed

lemma last_rows_nonempty: "rows \<noteq> [] \<Longrightarrow> last_rows rows \<noteq> []"
  by (cases rows) (simp_all add: last_rows_def term_sizes)

text \<open>Only the last 24 rows matter for what the screen shows next.\<close>

lemma last_rows_put:
  assumes "rows \<noteq> []"
  shows "last_rows (put_char c (last_rows rows)) = last_rows (put_char c rows)"
proof -
  have n: "last_rows rows \<noteq> []" using assms by (rule last_rows_nonempty)
  then have l: "last (last_rows rows) = last rows" by (simp add: last_rows_def)
  have a: "last_rows (last_rows rows @ [x]) = last_rows (rows @ [x])" for x
    by (cases "length rows \<le> TERM_ROWS") (simp_all add: last_rows_def term_sizes Suc_diff_le [symmetric])
  have b: "last_rows (butlast (last_rows rows) @ [x]) = last_rows (butlast rows @ [x])" for x
    using assms by (cases "length rows \<le> TERM_ROWS") (simp_all add: last_rows_def term_sizes butlast_drop)
  show ?thesis using l a b by (simp add: put_char_def)
qed

lemma put_char_nonempty: "put_char c rows \<noteq> []"
  by (simp add: put_char_def)

lemma last_rows_text:
  "rows \<noteq> [] \<Longrightarrow> last_rows (put_text s (last_rows rows)) = last_rows (put_text s rows)"
proof (induction s arbitrary: rows)
  case Nil
  then show ?case by (simp add: put_text_def last_rows_def)
next
  case (Cons c s)
  have "last_rows rows \<noteq> []" using Cons.prems by (rule last_rows_nonempty)
  then have "last_rows (put_text s (put_char c (last_rows rows))) = last_rows (put_text s (last_rows (put_char c (last_rows rows))))"
    by (simp add: Cons.IH put_char_nonempty)
  also have "\<dots> = last_rows (put_text s (put_char c rows))"
    using Cons.IH [of "put_char c rows"] by (simp add: last_rows_put Cons.prems put_char_nonempty)
  finally show ?case by (simp add: put_text_def)
qed

section \<open>Consoles\<close>

text \<open>
  The contract of a console: writing a character succeeds and shows the last rows of the text so
  far. Whatever prints through the console then shows its text.
\<close>

locale console =
  fixes putc :: "u8 \<Rightarrow> 't \<Rightarrow> 't run" and inv :: "'t \<Rightarrow> bool"
    and keeps :: "'t \<Rightarrow> 't \<Rightarrow> bool" and rows :: "'t \<Rightarrow> u8 list list"
  assumes putc_rows: "inv t \<Longrightarrow> c \<noteq> 0 \<Longrightarrow> \<exists>t'. putc c t = ret t' \<and> keeps t t' \<and> rows t' = last_rows (put_char c (rows t))"
    and rows_shape: "inv t \<Longrightarrow> rows t \<noteq> [] \<and> length (rows t) \<le> TERM_ROWS"
    and keeps_inv: "keeps t t' \<Longrightarrow> inv t'"
    and keeps_refl: "inv t \<Longrightarrow> keeps t t"
    and keeps_trans: "keeps t t1 \<Longrightarrow> keeps t1 t2 \<Longrightarrow> keeps t t2"
begin

lemma print_rows:
  "inv t \<Longrightarrow> 0 \<notin> set str \<Longrightarrow> \<exists>t'. run_fold putc str t = ret t' \<and> keeps t t' \<and> rows t' = last_rows (put_text str (rows t))"
proof (induction str arbitrary: t)
  case Nil
  then show ?case using rows_shape keeps_refl by (simp add: put_text_def last_rows_short)
next
  case (Cons c str)
  then obtain t1 where t1: "putc c t = ret t1" "keeps t t1" "rows t1 = last_rows (put_char c (rows t))"
    using putc_rows [of t c] by auto
  then obtain t2 where t2: "run_fold putc str t1 = ret t2" "keeps t1 t2" "rows t2 = last_rows (put_text str (rows t1))"
    using Cons.IH [OF keeps_inv [OF t1(2)]] Cons.prems by auto
  have "rows t2 = last_rows (put_text (c # str) (rows t))"
    using t2(3) t1(3) last_rows_text [OF put_char_nonempty] by (simp add: put_text_def)
  then show ?case using t1 t2 keeps_trans by auto
qed

end

interpretation con: console term_putc term_ok screen_step screen
  using term_putc_spec screen_last(1,2) screen_step_trans
  by unfold_locales (auto simp: screen_step_def)

lemma term_print_rows:
  "term_ok t \<Longrightarrow> 0 \<notin> set str \<Longrightarrow>
    \<exists>t'. term_print str t = ret t' \<and> screen_step t t' \<and> screen t' = last_rows (put_text str (screen t))"
  using con.print_rows by (simp add: term_print_def)

text \<open>Ending a line is printing a newline character.\<close>

lemma term_newline_print: "term_newline = term_print [10]"
  by (rule ext) (simp add: term_print_def term_putc_def run_bind_def ret_def split: option.splits sum.splits)

lemma term_println_print: "term_println str t = term_print (str @ [10]) t"
  by (simp add: term_println_def term_newline_print) (simp add: term_print_def [abs_def] run_fold_append)

text \<open>
  The rows of a text in one go: the text is cut at its newlines, and every line into pieces of 72
  characters.
\<close>

fun text_lines :: "u8 list \<Rightarrow> u8 list list" where
  "text_lines [] = [[]]"
| "text_lines (c # s) = (if c = 10 then [] # text_lines s else (c # hd (text_lines s)) # tl (text_lines s))"

function line_rows :: "u8 list \<Rightarrow> u8 list list" where
  "line_rows s = (if length s \<le> TERM_COLS then [s] else take TERM_COLS s # line_rows (drop TERM_COLS s))"
  by pat_completeness auto
termination
  by (relation "measure length") (auto simp: term_sizes)

declare line_rows.simps [simp del]

definition layout :: "u8 list \<Rightarrow> u8 list list" where
  "layout s = concat (map line_rows (text_lines s))"

lemma text_lines_nonempty: "text_lines s \<noteq> []"
  by (cases s) auto

lemma text_lines_snoc:
  "text_lines (s @ [c]) = (if c = 10 then text_lines s @ [[]] else butlast (text_lines s) @ [last (text_lines s) @ [c]])"
proof (induction s)
  case (Cons a s)
  show ?case
  proof (cases "text_lines s")
    case Nil
    then show ?thesis using text_lines_nonempty by blast
  next
    case (Cons r rs)
    then show ?thesis using Cons.IH by (auto simp: hd_append)
  qed
qed simp

lemma line_rows_nonempty: "line_rows s \<noteq> []"
  by (subst line_rows.simps) simp

lemma line_rows_short: "length s \<le> TERM_COLS \<Longrightarrow> line_rows s = [s]"
  by (subst line_rows.simps) simp

lemma put_char_append: "B \<noteq> [] \<Longrightarrow> put_char c (A @ B) = A @ put_char c B"
  by (simp add: put_char_def butlast_append)

lemma line_rows_snoc: "c \<noteq> 10 \<Longrightarrow> line_rows (s @ [c]) = put_char c (line_rows s)"
proof (induction s rule: line_rows.induct)
  case (1 s)
  consider "length s < TERM_COLS" | "length s = TERM_COLS" | "TERM_COLS < length s" by linarith
  then show ?case
  proof cases
    case 2
    have "line_rows [c] = [[c]]" by (simp add: line_rows_short term_sizes)
    then show ?thesis using 2 1(2) by (simp add: line_rows.simps [of "s @ [c]"] line_rows_short put_char_def)
  next
    case 3
    then have "line_rows (s @ [c]) = take TERM_COLS s # line_rows (drop TERM_COLS s @ [c])"
      by (subst line_rows.simps) simp
    also have "\<dots> = put_char c (take TERM_COLS s # line_rows (drop TERM_COLS s))"
      using 1 3 put_char_append [OF line_rows_nonempty, of c "[take TERM_COLS s]"] by simp
    also have "take TERM_COLS s # line_rows (drop TERM_COLS s) = line_rows s" using 3 by (simp add: line_rows.simps [of s])
    finally show ?thesis .
  qed (use 1(2) in \<open>simp add: line_rows_short put_char_def\<close>)
qed

lemma put_text_layout: "put_text s [[]] = layout s"
proof (induction s rule: rev_induct)
  case Nil
  show ?case by (simp add: put_text_def layout_def line_rows_short)
next
  case (snoc c s)
  have s: "layout s = concat (map line_rows (butlast (text_lines s))) @ line_rows (last (text_lines s))"
    using arg_cong [OF append_butlast_last_id [OF text_lines_nonempty], of "\<lambda>ls. concat (map line_rows ls)" s]
    by (simp add: layout_def)
  have "layout (s @ [c]) = put_char c (layout s)"
  proof (cases "c = 10")
    case True
    then show ?thesis by (simp add: layout_def text_lines_snoc put_char_def line_rows_short)
  next
    case False
    then have "layout (s @ [c]) = concat (map line_rows (butlast (text_lines s))) @ line_rows (last (text_lines s) @ [c])"
      by (simp add: layout_def text_lines_snoc)
    then show ?thesis using False s by (simp add: line_rows_snoc put_char_append line_rows_nonempty)
  qed
  then show ?case using snoc by (simp add: put_text_def)
qed

section \<open>The shell\<close>

text \<open>
  What the commands read and change: the terminal, the file system with its heap and the memory, the
  PE loader, the log with the devices, the windows, and the facts found at boot. A shell environment
  are the addresses the code uses: the console callbacks, the terminal's window callbacks and state,
  the buffers \<^verbatim>\<open>buf\<close>, \<^verbatim>\<open>n\<close> and \<^verbatim>\<open>entry\<close> of the command's frame, and a string literal; \<open>run_code\<close> is the
  effect of calling loaded machine code.
\<close>

record 'd shell_state =
  sh_term :: term_state_t
  sh_vfs :: vfs_state
  sh_pe :: pe_state
  sh_log :: "'d log_state"
  sh_wm :: wm_state
  sh_fb :: fb_t
  sh_cpu :: cpu_info_t
  sh_perf :: perf_settings_t
  sh_timer :: timer_state

record shell_env =
  fn_write :: addr
  fn_writeln :: addr
  fn_term_draw :: addr
  fn_term_key :: addr
  term_at :: addr
  buf_at :: addr
  n_at :: addr
  entry_at :: addr
  lit_pkg :: addr
  run_code :: "addr \<Rightarrow> heap_state \<Rightarrow> pe_state \<Rightarrow> i32 \<times> heap_state \<times> pe_state"

definition sh_out :: "(term_state_t \<Rightarrow> term_state_t run) \<Rightarrow> ('d, 'z) shell_state_scheme \<Rightarrow> ('d, 'z) shell_state_scheme run" where
  "sh_out f s = run_bind (f (sh_term s)) (\<lambda>t. ret (s\<lparr>sh_term := t\<rparr>))"

abbreviation sh_print :: "u8 list \<Rightarrow> ('d, 'z) shell_state_scheme \<Rightarrow> ('d, 'z) shell_state_scheme run" where
  "sh_print str \<equiv> sh_out (term_print str)"

abbreviation sh_println :: "u8 list \<Rightarrow> ('d, 'z) shell_state_scheme \<Rightarrow> ('d, 'z) shell_state_scheme run" where
  "sh_println str \<equiv> sh_out (term_println str)"

definition sh_seq :: "(('d, 'z) shell_state_scheme \<Rightarrow> ('d, 'z) shell_state_scheme run) list
    \<Rightarrow> ('d, 'z) shell_state_scheme \<Rightarrow> ('d, 'z) shell_state_scheme run" where
  "sh_seq fs = run_fold (\<lambda>f. f) fs"

definition sh_fs :: "(vfs_state \<Rightarrow> ('a \<times> vfs_state) run) \<Rightarrow> ('d, 'z) shell_state_scheme \<Rightarrow> ('a \<times> ('d, 'z) shell_state_scheme) run" where
  "sh_fs f s = run_bind (f (sh_vfs s)) (\<lambda>(r, v). ret (r, s\<lparr>sh_vfs := v\<rparr>))"

definition sh_mem :: "('d, 'z) shell_state_scheme \<Rightarrow> mem" where
  "sh_mem s = heap_mem (v_heap (sh_vfs s))"

definition set_mem :: "mem \<Rightarrow> ('d, 'z) shell_state_scheme \<Rightarrow> ('d, 'z) shell_state_scheme" where
  "set_mem m s = s\<lparr>sh_vfs := (sh_vfs s)\<lparr>v_heap := (v_heap (sh_vfs s))\<lparr>heap_mem := m\<rparr>\<rparr>\<rparr>"

text \<open>The string at an address.\<close>

definition mem_string :: "mem \<Rightarrow> addr \<Rightarrow> u8 list run" where
  "mem_string m a = run_of (map_option (\<lambda>n. peek m a (unat n)) (strlen m a))"

definition em_dash :: "u8 list" where
  "em_dash = [0xE2, 0x80, 0x94]"

definition H3OS_NAME :: string where
  "H3OS_NAME = ''H3OS''"

definition H3OS_TAGLINE :: string where
  "H3OS_TAGLINE = ''The Future Starts Here.''"

definition H3OS_VERSION_STRING :: string where
  "H3OS_VERSION_STRING = ''0.1.0''"

definition H3OS_CODENAME :: string where
  "H3OS_CODENAME = ''Horizon''"

definition list_cb :: "vfs_node_t \<Rightarrow> ('d, 'z) shell_state_scheme \<Rightarrow> ('d, 'z) shell_state_scheme run" where
  "list_cb n s =
     (let line = bytes_of (if n_type n = VFS_DIR then ''dir  '' else ''file '') @ cstr (n_name n) in
      run_bind (if n_type n = VFS_FILE
                then run_bind (utoa_string (n_size n) 10) (\<lambda>num. ret (line @ bytes_of ''  '' @ num @ bytes_of ''B''))
                else ret line) (\<lambda>line.
        if length line < 160 then sh_println line s else fail Overflow))"

definition sh_list :: "node_ptr \<Rightarrow> ('d, 'z) shell_state_scheme \<Rightarrow> ('d, 'z) shell_state_scheme run" where
  "sh_list dir s =
     run_bind (run_of (vfs_list (sh_vfs s) dir (\<lambda>i r. run_bind r (list_cb (nodes (sh_vfs s) i))) (ret s))) (\<lambda>r. r)"

definition cmd_help :: "('d, 'z) shell_state_scheme \<Rightarrow> ('d, 'z) shell_state_scheme run" where
  "cmd_help = sh_seq
     [sh_println (bytes_of ''H3OS Shell '' @ em_dash @ bytes_of '' commands:''),
      sh_println (bytes_of ''  cd ls pwd mkdir rm cp mv cat echo''),
      sh_println (bytes_of ''  run ./file.exe   (PE32+ H3OS executables)''),
      sh_println (bytes_of ''  grep find clear top kill systeminfo''),
      sh_println (bytes_of ''  network shutdown reboot help version h3pkg'')]"

definition sh_num :: "u64 \<Rightarrow> ('d, 'z) shell_state_scheme \<Rightarrow> ('d, 'z) shell_state_scheme run" where
  "sh_num v s = run_bind (utoa_string v 10) (\<lambda>num. sh_print num s)"

definition sh_numln :: "u64 \<Rightarrow> ('d, 'z) shell_state_scheme \<Rightarrow> ('d, 'z) shell_state_scheme run" where
  "sh_numln v s = run_bind (utoa_string v 10) (\<lambda>num. sh_println num s)"

definition cmd_systeminfo :: "('d, 'z) shell_state_scheme \<Rightarrow> ('d, 'z) shell_state_scheme run" where
  "cmd_systeminfo s =
     (let cpu = sh_cpu s; stats = pmm_get_stats (heap_pmm (v_heap (sh_vfs s))) in
      sh_seq
        [sh_print (bytes_of ''OS: ''), sh_print (bytes_of H3OS_NAME), sh_print (bytes_of '' ''),
         sh_print (bytes_of H3OS_VERSION_STRING), sh_print (bytes_of '' (''),
         sh_print (bytes_of H3OS_CODENAME), sh_println (bytes_of '')''),
         sh_print (bytes_of ''CPU: ''), sh_println (cstr (brand cpu)),
         sh_print (bytes_of ''Vendor: ''), sh_println (cstr (vendor cpu)),
         sh_print (bytes_of ''Logical CPUs: ''), sh_numln (ucast (logical_cpus cpu)),
         sh_print (bytes_of ''Memory: ''), sh_num (st_total_bytes stats div (1024 * 1024)),
         sh_print (bytes_of '' MiB total, ''), sh_num ((st_free_pages stats * PAGE_SIZE) div (1024 * 1024)),
         sh_println (bytes_of '' MiB free''),
         sh_print (bytes_of ''Profile: ''), sh_println (bytes_of (adaptive_profile_name (sh_perf s))),
         sh_print (bytes_of ''Uptime ms: ''), sh_numln (timer_uptime_ms (sh_timer s))] s)"

text \<open>The next word of a line, and what follows the blank that ends it.\<close>

definition next_arg :: "u8 list \<Rightarrow> u8 list option \<times> u8 list" where
  "next_arg p =
     (let q = dropWhile (\<lambda>c. c = 32) p in
      if q = [] then (None, q)
      else (Some (takeWhile (\<lambda>c. c \<noteq> 32) q), drop 1 (dropWhile (\<lambda>c. c \<noteq> 32) q)))"

definition pe_term_write :: "u8 list option \<Rightarrow> ('d, 'z) shell_state_scheme \<Rightarrow> ('d, 'z) shell_state_scheme run" where
  "pe_term_write str s = (case str of Some t \<Rightarrow> sh_print t s | None \<Rightarrow> ret s)"

definition pe_term_writeln :: "u8 list option \<Rightarrow> ('d, 'z) shell_state_scheme \<Rightarrow> ('d, 'z) shell_state_scheme run" where
  "pe_term_writeln str s = (case str of Some t \<Rightarrow> sh_println t s | None \<Rightarrow> sh_out term_newline s)"

definition ends_with_exe :: "u8 list \<Rightarrow> bool" where
  "ends_with_exe str =
     (let e = drop (length str - 4) str in
      length str \<ge> 4 \<and> e ! 0 = 0x2E \<and> (e ! 1 = 0x65 \<or> e ! 1 = 0x45) \<and> (e ! 2 = 0x78 \<or> e ! 2 = 0x58) \<and> (e ! 3 = 0x65 \<or> e ! 3 = 0x45))"

section \<open>Commands\<close>

text \<open>
  What a program writes through the loader's interface goes to the console callbacks, and what the loader logs
  to the serial log. The terminal and the log are changed by nothing else while the program runs, so the calls are
  played back after it.
\<close>

definition pe_event :: "'d bus \<Rightarrow> shell_env \<Rightarrow> pe_out \<Rightarrow> ('d, 'z) shell_state_scheme \<Rightarrow> ('d, 'z) shell_state_scheme run" where
  "pe_event B env ev s =
     (case ev of
        PeCall fn str \<Rightarrow> if fn = fn_write env then pe_term_write str s
                         else if fn = fn_writeln env then pe_term_writeln str s else ret s
      | PeLog level fmt ap \<Rightarrow> run_bind (klog B level (bytes_of ''pe'') (bytes_of fmt) ap (sh_log s)) (\<lambda>l. ret (s\<lparr>sh_log := l\<rparr>)))"

definition run_file :: "'d bus \<Rightarrow> shell_env \<Rightarrow> vfs_node_t \<Rightarrow> u8 list \<Rightarrow> ('d, 'z) shell_state_scheme \<Rightarrow> ('d, 'z) shell_state_scheme run" where
  "run_file B env f path s =
     sh_seq
       [sh_print (bytes_of ''run: launching ''), sh_println path,
        (\<lambda>s. let pe = pe_set_console (fn_write env) (fn_writeln env) (sh_pe s) in
             run_bind (pe_run (run_code env) (n_data f) (n_size f) (Some path) (v_heap (sh_vfs s)) pe) (\<lambda>(rc, h, pe').
             run_bind (run_fold (pe_event B env) (drop (length (pe_output pe)) (pe_output pe'))
                         (s\<lparr>sh_pe := pe', sh_vfs := (sh_vfs s)\<lparr>v_heap := h\<rparr>\<rparr>)) (\<lambda>s.
             run_bind (sh_print (bytes_of ''run: exit code '') s) (\<lambda>s.
             run_bind (itoa_string (scast rc) 10) (\<lambda>num. sh_println num s)))))] s"

definition run_node :: "'d bus \<Rightarrow> shell_env \<Rightarrow> vfs_node_t \<Rightarrow> u8 list \<Rightarrow> ('d, 'z) shell_state_scheme \<Rightarrow> ('d, 'z) shell_state_scheme run" where
  "run_node B env n path s =
     (if n_type n \<noteq> VFS_FILE then sh_println (bytes_of ''run: file not found'') s
      else if n_data n = NULL \<or> n_size n = 0 then sh_println (bytes_of ''run: empty file'') s
      else let (ok, info) = pe_probe (sh_mem s) (n_data n) (n_size n) in
        if \<not> ok
        then sh_seq [sh_print (bytes_of ''run: not a valid H3OS PE32+ exe (''),
                     sh_print (bytes_of (case pe_error info of Some e \<Rightarrow> e | None \<Rightarrow> ''error'')),
                     sh_println (bytes_of '')''),
                     sh_println (bytes_of ''note: Win32 GUI EXEs need the future Windows subsystem'')] s
        else run_file B env n path s)"

definition cmd_run :: "'d bus \<Rightarrow> shell_env \<Rightarrow> u8 list option \<Rightarrow> ('d, 'z) shell_state_scheme \<Rightarrow> ('d, 'z) shell_state_scheme run" where
  "cmd_run B env path s =
     (if path = None \<or> path = Some []
      then sh_seq [sh_println (bytes_of ''run: usage: run <file.exe>''), sh_println (bytes_of ''try: run /bin/hello.exe'')] s
      else let path = the path; v = sh_vfs s in
        run_bind (vfs_resolve path v) (\<lambda>f.
        run_bind (if f = None \<and> hd path \<noteq> slash
                  then let full = bytes_of ''/bin/'' @ path in
                       if length full < VFS_PATH_MAX
                       then run_bind (vfs_resolve full v) (\<lambda>f. ret (f, if f \<noteq> None then full else path))
                       else fail Overflow
                  else ret (f, path)) (\<lambda>(f, path).
        case f of
          None \<Rightarrow> sh_println (bytes_of ''run: file not found'') s
        | Some i \<Rightarrow> run_node B env (nodes v i) path s)))"

text \<open>
  \<^verbatim>\<open>char buf[512]; u64 n = 0; vfs_read(f, buf, sizeof(buf) - 1, &n); buf[n] = 0\<close>, as three commands do
  it: the count and the string then in the buffer.
\<close>

definition read_text :: "shell_env \<Rightarrow> node_ptr \<Rightarrow> ('d, 'z) shell_state_scheme \<Rightarrow> (u64 \<times> u8 list \<times> ('d, 'z) shell_state_scheme) run" where
  "read_text env f s =
     (let s = set_mem (store64 (sh_mem s) (n_at env) 0) s;
          (r, v) = vfs_read f (buf_at env) 511 (n_at env) (sh_vfs s);
          s = s\<lparr>sh_vfs := v\<rparr>;
          n = load64 (sh_mem s) (n_at env);
          s = set_mem ((sh_mem s)(buf_at env + n := 0)) s
      in run_bind (mem_string (sh_mem s) (buf_at env)) (\<lambda>str. ret (n, str, s)))"

text \<open>\<^verbatim>\<open>term_print(buf); if (n == 0 || buf[n - 1] != '\n') term_newline();\<close>\<close>

definition print_text :: "shell_env \<Rightarrow> u64 \<Rightarrow> u8 list \<Rightarrow> ('d, 'z) shell_state_scheme \<Rightarrow> ('d, 'z) shell_state_scheme run" where
  "print_text env n str s = run_bind (sh_print str s) (\<lambda>s.
     if n = 0 \<or> sh_mem s (buf_at env + (n - 1)) \<noteq> 10 then sh_out term_newline s else ret s)"

definition cmd_cat :: "shell_env \<Rightarrow> u8 list option \<Rightarrow> ('d, 'z) shell_state_scheme \<Rightarrow> ('d, 'z) shell_state_scheme run" where
  "cmd_cat env arg s =
     run_bind (case arg of Some a \<Rightarrow> vfs_resolve a (sh_vfs s) | None \<Rightarrow> ret None) (\<lambda>f.
       if (case f of Some i \<Rightarrow> n_type (nodes (sh_vfs s) i) \<noteq> VFS_FILE | None \<Rightarrow> True)
       then sh_println (bytes_of ''cat: not a file'') s
       else run_bind (read_text env f s) (\<lambda>(n, str, s). print_text env n str s))"

text \<open>The search loop of \<^verbatim>\<open>h3pkg search\<close>: the lines of the text, cut to 95 characters, that hold the name.\<close>

definition occurs_in :: "u8 list \<Rightarrow> u8 list \<Rightarrow> bool" where
  "occurs_in needle hay \<longleftrightarrow> list_ex (\<lambda>i. take (length needle) (drop i hay) = needle) [0..<length hay + 1]"

function search_loop :: "u8 list \<Rightarrow> u8 list \<Rightarrow> bool \<Rightarrow> ('d, 'z) shell_state_scheme \<Rightarrow> (bool \<times> ('d, 'z) shell_state_scheme) run" where
  "search_loop pkg str found s =
     (if str = [] then ret (found, s)
      else let tmp = take 95 (takeWhile (\<lambda>c. c \<noteq> 10) str); rest = drop 1 (dropWhile (\<lambda>c. c \<noteq> 10) str) in
        if occurs_in pkg tmp then run_bind (sh_println tmp s) (search_loop pkg rest True)
        else search_loop pkg rest found s)"
  by pat_completeness auto
termination
proof (relation "measure (\<lambda>(pkg, str, found, s). length str)", goal_cases)
  case (2 pkg str found s tmp rest)
  then show ?case using length_dropWhile_le [of "\<lambda>c. c \<noteq> 10" str] by (cases str) auto
next
  case (3 pkg str found s tmp rest)
  then show ?case using length_dropWhile_le [of "\<lambda>c. c \<noteq> 10" str] by (cases str) auto
qed simp

declare search_loop.simps [simp del]

definition pkg_db :: "u8 list" where
  "pkg_db = bytes_of ''/var/lib/h3pkg/db''"

definition h3pkg_list :: "shell_env \<Rightarrow> u8 list option \<Rightarrow> ('d, 'z) shell_state_scheme \<Rightarrow> ('d, 'z) shell_state_scheme run" where
  "h3pkg_list env pkg s =
     run_bind (vfs_resolve pkg_db (sh_vfs s)) (\<lambda>db.
       if db = None then sh_println (bytes_of ''h3pkg: database missing'') s
       else run_bind (read_text env db s) (\<lambda>(n, str, s).
         if pkg \<noteq> None \<and> pkg \<noteq> Some []
         then run_bind (search_loop (the pkg) str False s) (\<lambda>(found, s).
                if found then ret s else sh_println (bytes_of ''h3pkg: no matches'') s)
         else print_text env n str s))"

definition pkg_path :: "u8 list \<Rightarrow> u8 list run" where
  "pkg_path pkg = (let path = bytes_of ''/usr/share/packages/'' @ pkg in if length path < 128 then ret path else fail Overflow)"

text \<open>The database entry is appended when the text and it fit the buffer, else it is dropped.\<close>

definition pkg_register :: "shell_env \<Rightarrow> u8 list \<Rightarrow> node_ptr \<Rightarrow> ('d, 'z) shell_state_scheme \<Rightarrow> ('d, 'z) shell_state_scheme run" where
  "pkg_register env entry db s =
     (if db = None
      then run_bind (sh_fs (vfs_mkdir (bytes_of ''/var/lib'') 0x1ED) s) (\<lambda>(_, s).
           run_bind (sh_fs (vfs_mkdir (bytes_of ''/var/lib/h3pkg'') 0x1ED) s) (\<lambda>(_, s).
           run_bind (sh_fs (vfs_create pkg_db 0x1A4) s) (\<lambda>(db, s).
             if db = None then ret s
             else run_bind (sh_fs (vfs_write db (entry_at env) (of_nat (length entry))) s) (\<lambda>(_, s). ret s))))
      else run_bind (read_text env db s) (\<lambda>(n, str, s).
             if n + of_nat (length entry) < 512
             then run_bind (run_of (strcat (sh_mem s) (buf_at env) (entry_at env))) (\<lambda>(_, m).
                  let s = set_mem m s in
                  run_bind (run_of (strlen m (buf_at env))) (\<lambda>len.
                  run_bind (sh_fs (vfs_write db (buf_at env) len) s) (\<lambda>(_, s). ret s)))
             else ret s))"

definition h3pkg_install :: "shell_env \<Rightarrow> u8 list \<Rightarrow> ('d, 'z) shell_state_scheme \<Rightarrow> ('d, 'z) shell_state_scheme run" where
  "h3pkg_install env pkg s =
     run_bind (vfs_resolve pkg_db (sh_vfs s)) (\<lambda>db.
       let entry = pkg @ bytes_of '' 0.1.0 installed'' @ [10] in
       if length entry \<ge> 96 then fail Overflow
       else run_bind (pkg_register env entry db (set_mem (poke (sh_mem s) (entry_at env) (entry @ [0])) s)) (\<lambda>s.
            run_bind (sh_fs (vfs_mkdir (bytes_of ''/usr/share/packages'') 0x1ED) s) (\<lambda>(_, s).
            run_bind (pkg_path pkg) (\<lambda>path.
            run_bind (sh_fs (vfs_create path 0x1A4) s) (\<lambda>(meta, s).
            run_bind (if meta = None then ret s
                      else run_bind (sh_fs (vfs_write meta (lit_pkg env) 14) s) (\<lambda>(_, s). ret s)) (
            sh_seq [sh_print (bytes_of ''h3pkg: installed ''), sh_println pkg]))))))"

definition h3pkg_remove :: "u8 list \<Rightarrow> ('d, 'z) shell_state_scheme \<Rightarrow> ('d, 'z) shell_state_scheme run" where
  "h3pkg_remove pkg s =
     run_bind (pkg_path pkg) (\<lambda>path.
     run_bind (sh_fs (vfs_unlink path) s) (\<lambda>(_, s).
     sh_seq [sh_print (bytes_of ''h3pkg: removed ''), sh_println pkg] s))"

definition cmd_h3pkg :: "shell_env \<Rightarrow> u8 list option \<Rightarrow> u8 list option \<Rightarrow> ('d, 'z) shell_state_scheme \<Rightarrow> ('d, 'z) shell_state_scheme run" where
  "cmd_h3pkg env sub pkg s =
     (case sub of
        None \<Rightarrow> sh_println (bytes_of ''h3pkg: install|remove|update|upgrade|search|repair|list'') s
      | Some sub \<Rightarrow>
          if sub = bytes_of ''list'' \<or> sub = bytes_of ''search'' then h3pkg_list env pkg s
          else if sub = bytes_of ''install'' then
            (case pkg of None \<Rightarrow> sh_println (bytes_of ''h3pkg: install <name>'') s | Some pkg \<Rightarrow> h3pkg_install env pkg s)
          else if sub = bytes_of ''remove'' then
            (case pkg of None \<Rightarrow> sh_println (bytes_of ''h3pkg: remove <name>'') s | Some pkg \<Rightarrow> h3pkg_remove pkg s)
          else if sub = bytes_of ''repair'' \<or> sub = bytes_of ''update'' \<or> sub = bytes_of ''upgrade'' then
            sh_seq [sh_print (bytes_of ''h3pkg: ''), sh_print sub, sh_println (bytes_of '' '' @ em_dash @ bytes_of '' local RAMFS db OK'')] s
          else sh_println (bytes_of ''h3pkg: unknown subcommand'') s)"

text \<open>A command that changes the file system and reports a failure, or with two operands a success.\<close>

definition cmd_fs :: "(vfs_state \<Rightarrow> ('a \<times> vfs_state) run) \<Rightarrow> ('a \<Rightarrow> bool) \<Rightarrow> string \<Rightarrow> string option
    \<Rightarrow> ('d, 'z) shell_state_scheme \<Rightarrow> ('d, 'z) shell_state_scheme run" where
  "cmd_fs f failed msg ok s = run_bind (sh_fs f s) (\<lambda>(r, s).
     if failed r then sh_println (bytes_of msg) s
     else (case ok of Some m \<Rightarrow> sh_println (bytes_of m) s | None \<Rightarrow> ret s))"

definition run_command :: "'d bus \<Rightarrow> shell_env \<Rightarrow> u8 list \<Rightarrow> ('d, 'z) shell_state_scheme \<Rightarrow> ('d, 'z) shell_state_scheme run" where
  "run_command B env line s =
     (let (cmd, p) = next_arg line; (arg, p2) = next_arg p; (arg2, _) = next_arg p2; v = sh_vfs s;
          is = (\<lambda>name. cmd = Some (bytes_of name)) in
      if cmd = None then ret s
      else if is ''help'' \<or> is ''?'' then cmd_help s
      else if is ''clear'' then ret (s\<lparr>sh_term := (sh_term s)\<lparr>lines := lines term_zero, t_row := 0\<rparr>\<rparr>)
      else if is ''pwd'' then sh_println (vfs_cwd v) s
      else if is ''cd'' then
        cmd_fs (vfs_chdir (case arg of Some a \<Rightarrow> a | None \<Rightarrow> bytes_of ''/home/user'')) (\<lambda>r. r \<noteq> 0) ''cd: no such directory'' None s
      else if is ''ls'' then
        run_bind (vfs_resolve (case arg of Some a \<Rightarrow> a | None \<Rightarrow> bytes_of ''.'') v) (\<lambda>dir.
          if dir = None then sh_println (bytes_of ''ls: not found'') s else sh_list dir s)
      else if is ''mkdir'' then
        (case arg of None \<Rightarrow> sh_println (bytes_of ''mkdir: missing operand'') s
         | Some a \<Rightarrow> cmd_fs (vfs_mkdir a 0x1ED) (\<lambda>r. r = None) ''mkdir: failed'' None s)
      else if is ''rm'' then
        (case arg of None \<Rightarrow> sh_println (bytes_of ''rm: missing operand'') s
         | Some a \<Rightarrow> cmd_fs (vfs_unlink a) (\<lambda>r. r \<noteq> 0) ''rm: failed'' None s)
      else if is ''cp'' then
        (case (arg, arg2) of (Some a, Some b) \<Rightarrow> cmd_fs (vfs_copy a b) (\<lambda>r. r \<noteq> 0) ''cp: failed'' (Some ''ok'') s
         | _ \<Rightarrow> sh_println (bytes_of ''cp: usage: cp <src> <dst>'') s)
      else if is ''mv'' then
        (case (arg, arg2) of (Some a, Some b) \<Rightarrow> cmd_fs (vfs_rename a b) (\<lambda>r. r \<noteq> 0) ''mv: failed'' (Some ''ok'') s
         | _ \<Rightarrow> sh_println (bytes_of ''mv: usage: mv <src> <dst>'') s)
      else if is ''cat'' then cmd_cat env arg s
      else if is ''echo'' then sh_println p s
      else if is ''run'' \<or> is ''exec'' \<or> is ''./'' then cmd_run B env arg s
      else if ends_with_exe (the cmd) then cmd_run B env cmd s
      else if is ''systeminfo'' \<or> is ''uname'' then cmd_systeminfo s
      else if is ''version'' then
        sh_seq [sh_print (bytes_of H3OS_NAME), sh_print (bytes_of '' ''), sh_println (bytes_of H3OS_VERSION_STRING),
                sh_println (bytes_of H3OS_TAGLINE)] s
      else if is ''top'' then
        sh_seq [sh_println (bytes_of ''PID  NAME            STATE''), sh_println (bytes_of ''1    kernel          running''),
                sh_println (bytes_of ''2    desktop         running''), sh_println (bytes_of ''3    terminal        running'')] s
      else if is ''kill'' then sh_println (bytes_of ''kill: process control not yet exposed to userspace'') s
      else if is ''network'' then
        sh_seq [sh_println (bytes_of ''network: stack initializing (IPv4/IPv6 planned)''),
                sh_println (bytes_of ''  lo0  UP  127.0.0.1/8'')] s
      else if is ''find'' then
        (case arg of None \<Rightarrow> sh_println (bytes_of ''find: missing pattern'') s
         | Some a \<Rightarrow> sh_seq [sh_print (bytes_of ''find: searching for '' @ [0x27]), sh_print a,
                            sh_println (0x27 # bytes_of '' (basic VFS scan)''), sh_list (vfs_root v)] s)
      else if is ''grep'' then sh_println (bytes_of ''grep: use cat + visual scan in v0.1 (full grep soon)'') s
      else if is ''h3pkg'' then cmd_h3pkg env arg arg2 s
      else if is ''shutdown'' then
        run_bind (sh_println (bytes_of ''Shutting down H3OS...'') s) (\<lambda>s. ret (s\<lparr>sh_term := (sh_term s)\<lparr>shutdown_req := True\<rparr>\<rparr>))
      else if is ''reboot'' then
        run_bind (sh_println (bytes_of ''Rebooting...'') s) (\<lambda>s. ret (s\<lparr>sh_term := (sh_term s)\<lparr>reboot_req := True\<rparr>\<rparr>))
      else sh_seq [sh_print (bytes_of ''unknown command: ''), sh_println (the cmd)] s)"

section \<open>The terminal window\<close>

definition term_draw :: "fb_t \<Rightarrow> window_t \<Rightarrow> term_state_t \<Rightarrow> vfs_state \<Rightarrow> mem \<Rightarrow> mem run" where
  "term_draw g win t v m =
     (let x = wx win + 8; y = wy win + 36 in
      run_bind (run_fold (\<lambda>r m. run_bind (array_str (lines t ! r)) (\<lambda>str.
                  ret (fb_draw_string g x (y + of_nat r * 10) str 0xFFB8F2E6 0xFFFFFFFF m))) [0..<min (t_row t + 1) TERM_ROWS] m) (\<lambda>m.
      run_bind (array_str (t_input t)) (\<lambda>inp.
        let prompt = bytes_of ''h3os:'' @ vfs_cwd v @ bytes_of ''> '' @ inp in
        if length prompt < TERM_IN + 32
        then ret (fb_draw_string g x (y + (of_nat (t_row t) + 1) * 10) prompt 0xFF2EC4B6 0xFFFFFFFF m)
        else fail Overflow)))"

text \<open>The two port writes that a pending request makes after a command.\<close>

definition power_requests :: "'d bus \<Rightarrow> ('d, 'z) shell_state_scheme \<Rightarrow> ('d, 'z) shell_state_scheme" where
  "power_requests B s =
     (let d = log_dev (sh_log s);
          d = (if reboot_req (sh_term s) then outb B 0x64 0xFE d else d);
          d = (if shutdown_req (sh_term s) then outw B 0xB004 0x2000 (outw B 0x604 0x2000 d) else d)
      in s\<lparr>sh_log := (sh_log s)\<lparr>log_dev := d\<rparr>\<rparr>)"

definition term_on_key :: "'d bus \<Rightarrow> shell_env \<Rightarrow> u8 \<Rightarrow> ('d, 'z) shell_state_scheme \<Rightarrow> ('d, 'z) shell_state_scheme run" where
  "term_on_key B env c s =
     (let t = sh_term s in
      if c = 10 \<or> c = 13
      then run_bind (array_str (t_input t)) (\<lambda>line.
           run_bind (sh_seq [sh_print (bytes_of ''h3os:''), sh_print (vfs_cwd (sh_vfs s)), sh_print (bytes_of ''> ''), sh_println line] s) (\<lambda>s.
           run_bind (run_command B env line (s\<lparr>sh_term := (sh_term s)\<lparr>in_len := 0, t_input := (t_input (sh_term s))[0 := 0]\<rparr>\<rparr>)) (\<lambda>s.
           ret (power_requests B s))))
      else if c = 8
      then ret (if in_len t > 0 then s\<lparr>sh_term := t\<lparr>in_len := in_len t - 1, t_input := (t_input t)[in_len t - 1 := 0]\<rparr>\<rparr> else s)
      else if in_len t + 1 < TERM_IN \<and> 32 \<le>s c
      then ret (s\<lparr>sh_term := t\<lparr>in_len := in_len t + 1, t_input := (t_input t)[in_len t := c, in_len t + 1 := 0]\<rparr>\<rparr>)
      else ret s)"

definition terminal_open :: "shell_env \<Rightarrow> ('d, 'z) shell_state_scheme \<Rightarrow> (win_ptr \<times> ('d, 'z) shell_state_scheme) run" where
  "terminal_open env s =
     (let s = s\<lparr>sh_term := term_zero, sh_pe := pe_set_console (fn_write env) (fn_writeln env) (sh_pe s)\<rparr>;
          (win, wm) = wm_create (sh_perf s) (Some (bytes_of ''Terminal'')) (half (fb_width (sh_fb s) - 640)) 80 640 400 (sh_wm s);
          s = s\<lparr>sh_wm := wm\<rparr> in
      case win of
        None \<Rightarrow> ret (None, s)
      | Some i \<Rightarrow>
          let s = s\<lparr>sh_wm := set_win i (\<lambda>k. k\<lparr>bg := 0xFF07161E, accent := 0xFF2EC4B6, user := term_at env,
                       wdraw := fn_term_draw env, on_key := fn_term_key env\<rparr>) (sh_wm s)\<rparr> in
          run_bind (sh_seq [sh_println (bytes_of ''H3OS Terminal 0.1 '' @ em_dash @ bytes_of '' The Future Starts Here.''),
                            sh_println (bytes_of ''Type '' @ [0x27] @ bytes_of ''help'' @ [0x27] @ bytes_of '' | try: run /bin/hello.exe'')] s) (\<lambda>s.
          ret (win, s)))"

section \<open>Printing and editing\<close>

lemma term_prints: "run_fold term_print strs t = term_print (concat strs) t"
proof (induction strs arbitrary: t)
  case Nil
  show ?case by (simp add: term_print_def)
next
  case (Cons str strs)
  then have "run_fold term_print strs = term_print (concat strs)" by (rule ext)
  then show ?case by (simp add: term_print_def [abs_def] run_fold_append)
qed

lemma sh_prints:
  assumes "term_ok (sh_term s)" "0 \<notin> set str"
  shows "\<exists>t. sh_print str s = ret (s\<lparr>sh_term := t\<rparr>) \<and> screen_step (sh_term s) t \<and> screen t = last_rows (put_text str (screen (sh_term s)))"
  using term_print_rows [OF assms] by (auto simp: sh_out_def)

text \<open>A sequence of prints in the shell is one print.\<close>

lemma sh_print_print: "run_bind (sh_print a s) (sh_print b) = sh_print (a @ b) s"
  by (simp add: sh_out_def term_print_def run_fold_append run_bind_def ret_def split: option.splits sum.splits)

lemma sh_println_print: "sh_println str = sh_print (str @ [10])"
  by (rule ext) (simp add: sh_out_def term_println_print)

lemma sh_seq_simps [simp]: "sh_seq [] s = ret s" "sh_seq (f # fs) s = run_bind (f s) (sh_seq fs)"
  by (simp_all add: sh_seq_def)

lemma sh_seq_prints: "sh_seq (sh_print a # sh_print b # fs) s = sh_seq (sh_print (a @ b) # fs) s"
proof -
  have "sh_seq (sh_print b # fs) = (\<lambda>s. run_bind (sh_print b s) (sh_seq fs))" by (rule ext) simp
  then show ?thesis by (simp add: sh_print_print [symmetric] run_bind_assoc)
qed

lemma sh_seq_print: "sh_seq [sh_print a] s = sh_print a s"
  by (simp add: run_bind_def ret_def split: option.splits sum.splits)

text \<open>The line editor: a character is appended while there is room, a backspace removes the last one.\<close>

definition edit :: "u8 \<Rightarrow> u8 list \<Rightarrow> u8 list" where
  "edit c l = (if c = 8 then butlast l else if 32 \<le>s c \<and> length l + 1 < TERM_IN then l @ [c] else l)"

lemma input_split:
  assumes "term_ok t"
  obtains zs where "t_input t = cstr (t_input t) @ 0 # zs" "length (cstr (t_input t)) = in_len t" "length zs = TERM_IN - in_len t - 1"
proof -
  have "0 \<in> set (t_input t)"
  proof (rule ccontr)
    assume "0 \<notin> set (t_input t)"
    then have "cstr (t_input t) = t_input t" unfolding cstr_def by (subst takeWhile_eq_all_conv) auto
    then show False using assms by (auto simp: term_ok_def)
  qed
  from cstr_take_nth [OF this] obtain zs where z: "t_input t = cstr (t_input t) @ 0 # zs" by blast
  have "length (t_input t) = length (cstr (t_input t)) + Suc (length zs)" using arg_cong [OF z, of length] by simp
  then have "length zs = TERM_IN - in_len t - 1" using assms by (auto simp: term_ok_def)
  moreover have "length (cstr (t_input t)) = in_len t" using assms by (simp add: term_ok_def)
  ultimately show ?thesis using that z by blast
qed

lemma term_ok_input:
  assumes "term_ok t" "length b = TERM_IN" "n < TERM_IN" "length (cstr b) = n"
  shows "term_ok (t\<lparr>in_len := n, t_input := b\<rparr>)"
  using assms by (simp add: term_ok_def)

lemma term_on_key_edits:
  assumes ok: "term_ok (sh_term s)" and c: "c \<noteq> 10" "c \<noteq> 13"
  shows "\<exists>n b. term_on_key B env c s = ret (s\<lparr>sh_term := (sh_term s)\<lparr>in_len := n, t_input := b\<rparr>\<rparr>) \<and>
    term_ok ((sh_term s)\<lparr>in_len := n, t_input := b\<rparr>) \<and> cstr b = edit c (cstr (t_input (sh_term s)))"
proof -
  let ?t = "sh_term s"
  obtain zs where z: "t_input ?t = cstr (t_input ?t) @ 0 # zs" "length (cstr (t_input ?t)) = in_len ?t"
    "length zs = TERM_IN - in_len ?t - 1" using input_split [OF ok] .
  have len: "length (t_input ?t) = TERM_IN" "in_len ?t < TERM_IN" using ok by (auto simp: term_ok_def)
  have same: "\<exists>n b. ret s = ret (s\<lparr>sh_term := ?t\<lparr>in_len := n, t_input := b\<rparr>\<rparr>) \<and>
    term_ok (?t\<lparr>in_len := n, t_input := b\<rparr>) \<and> cstr b = cstr (t_input ?t)"
    using ok by (intro exI [of _ "in_len ?t"] exI [of _ "t_input ?t"]) simp
  consider "c = 8" "in_len ?t = 0" | "c = 8" "in_len ?t > 0" | "c \<noteq> 8" "in_len ?t + 1 < TERM_IN \<and> 32 \<le>s c"
    | "c \<noteq> 8" "\<not> (in_len ?t + 1 < TERM_IN \<and> 32 \<le>s c)" by blast
  then show ?thesis
  proof cases
    case 2
    then obtain l a where l: "cstr (t_input ?t) = l @ [a]" using z(2) by (cases "cstr (t_input ?t)" rule: rev_cases) auto
    then have n: "in_len ?t - 1 = length l" using z(2) by simp
    have b: "(t_input ?t)[in_len ?t - 1 := 0] = l @ 0 # 0 # zs" by (subst z(1)) (simp add: l n [simplified])
    have "0 \<notin> set l" using l cstr_no_zero [of "t_input ?t"] by auto
    then have c: "cstr (l @ 0 # 0 # zs) = l" by (rule cstr_append_zero)
    have "term_ok (?t\<lparr>in_len := length l, t_input := l @ 0 # 0 # zs\<rparr>)"
      using c len n 2 arg_cong [OF b, of length] by (intro term_ok_input [OF ok]) auto
    then show ?thesis using 2 c l b n by (auto simp: term_on_key_def edit_def Let_def)
  next
    case 3
    then obtain y ys where zs: "zs = y # ys" using z(3) by (cases zs) auto
    have b: "(t_input ?t)[in_len ?t := c, in_len ?t + 1 := 0] = (cstr (t_input ?t) @ [c]) @ 0 # ys"
      by (subst z(1)) (simp add: z(2) [symmetric] zs list_update_append)
    have "c \<noteq> 0" using 3 by (auto simp: word_sle_eq)
    then have c: "cstr ((cstr (t_input ?t) @ [c]) @ 0 # ys) = cstr (t_input ?t) @ [c]"
      using cstr_no_zero [of "t_input ?t"] by (intro cstr_append_zero) auto
    have "term_ok (?t\<lparr>in_len := in_len ?t + 1, t_input := (cstr (t_input ?t) @ [c]) @ 0 # ys\<rparr>)"
      using c len z(2) 3 arg_cong [OF b, of length] by (intro term_ok_input [OF ok]) auto
    then show ?thesis using 3 c b z(2) assms(2,3) by (auto simp: term_on_key_def edit_def Let_def)
  qed (use same c z(2) in \<open>auto simp: term_on_key_def edit_def Let_def\<close>)
qed

text \<open>Splitting a line at its blanks.\<close>

fun split_blanks :: "u8 list \<Rightarrow> u8 list list" where
  "split_blanks [] = [[]]"
| "split_blanks (c # s) = (if c = 32 then [] # split_blanks s else (c # hd (split_blanks s)) # tl (split_blanks s))"

definition words_of :: "u8 list \<Rightarrow> u8 list list" where
  "words_of s = filter (\<lambda>w. w \<noteq> []) (split_blanks s)"

lemma split_blanks_nonempty: "split_blanks s \<noteq> []"
  by (cases s) auto

lemma split_blanks_word:
  "split_blanks s = takeWhile (\<lambda>c. c \<noteq> 32) s # (if dropWhile (\<lambda>c. c \<noteq> 32) s = [] then [] else split_blanks (tl (dropWhile (\<lambda>c. c \<noteq> 32) s)))"
  by (induction s) auto

lemma words_drop_blanks: "words_of (dropWhile (\<lambda>c. c = 32) s) = words_of s"
  by (induction s) (auto simp: words_of_def)

lemma words_of_word:
  assumes "hd q \<noteq> 32" "q \<noteq> []"
  shows "words_of q = takeWhile (\<lambda>c. c \<noteq> 32) q # words_of (drop 1 (dropWhile (\<lambda>c. c \<noteq> 32) q))"
proof -
  have "takeWhile (\<lambda>c. c \<noteq> 32) q \<noteq> []" using assms by (cases q) auto
  moreover have "words_of [] = []" by (simp add: words_of_def)
  moreover have "drop 1 r = tl r" for r :: "u8 list" by (simp add: drop_Suc)
  ultimately show ?thesis
    using arg_cong [OF split_blanks_word [of q], of "filter (\<lambda>w. w \<noteq> [])"]
    by (cases "dropWhile (\<lambda>c. c \<noteq> 32) q = []") (simp_all add: words_of_def del: dropWhile_eq_Nil_conv)
qed

lemma next_arg_words:
  "fst (next_arg p) = (case words_of p of [] \<Rightarrow> None | w # ws \<Rightarrow> Some w)" "words_of (snd (next_arg p)) = tl (words_of p)"
proof -
  let ?q = "dropWhile (\<lambda>c. c = 32) p"
  have w: "words_of p = words_of ?q" by (simp add: words_drop_blanks)
  have n: "words_of [] = []" by (simp add: words_of_def)
  have "fst (next_arg p) = (case words_of ?q of [] \<Rightarrow> None | w # ws \<Rightarrow> Some w) \<and> words_of (snd (next_arg p)) = tl (words_of ?q)"
  proof (cases "?q = []")
    case True
    then show ?thesis using n by (simp add: next_arg_def del: dropWhile_eq_Nil_conv)
  next
    case False
    with hd_dropWhile [OF this] words_of_word [of ?q] show ?thesis
      by (simp add: next_arg_def Let_def del: dropWhile_eq_Nil_conv)
  qed
  then show "fst (next_arg p) = (case words_of p of [] \<Rightarrow> None | w # ws \<Rightarrow> Some w)" "words_of (snd (next_arg p)) = tl (words_of p)"
    by (simp_all add: w)
qed

section \<open>Commands that only print\<close>

definition prompt_line :: "vfs_state \<Rightarrow> u8 list \<Rightarrow> u8 list" where
  "prompt_line v line = bytes_of ''h3os:'' @ cwd v @ bytes_of ''> '' @ line @ [10]"

definition builtins :: "u8 list list" where
  "builtins = map bytes_of [''help'', ''?'', ''clear'', ''pwd'', ''cd'', ''ls'', ''mkdir'', ''rm'', ''cp'', ''mv'', ''cat'', ''echo'',
     ''run'', ''exec'', ''./'', ''systeminfo'', ''uname'', ''version'', ''top'', ''kill'', ''network'', ''find'', ''grep'', ''h3pkg'',
     ''shutdown'', ''reboot'']"

text \<open>What \<^verbatim>\<open>echo\<close>, \<^verbatim>\<open>pwd\<close>, an empty line and a word that names no command put on the screen.\<close>

definition shell_text :: "vfs_state \<Rightarrow> u8 list \<Rightarrow> u8 list option" where
  "shell_text v line =
     (case words_of line of
        [] \<Rightarrow> Some []
      | w # ws \<Rightarrow>
          if w = bytes_of ''echo'' then Some (snd (next_arg line) @ [10])
          else if w = bytes_of ''pwd'' then Some (cwd v @ [10])
          else if w \<notin> set builtins \<and> \<not> ends_with_exe w then Some (bytes_of ''unknown command: '' @ w @ [10])
          else None)"

lemma sh_print_empty: "sh_print [] s = ret s"
  by (simp add: sh_out_def term_print_def)

lemma run_command_text:
  assumes "shell_text (sh_vfs s) line = Some out"
  shows "run_command B env line s = sh_print out s"
proof (cases "words_of line")
  case Nil
  then show ?thesis
    using assms next_arg_words(1) [of line]
    by (simp add: shell_text_def run_command_def sh_print_empty split_beta Let_def)
next
  case (Cons w ws)
  have c: "next_arg line = (Some w, snd (next_arg line))" using next_arg_words(1) [of line] Cons by (simp add: prod_eq_iff)
  consider "w = bytes_of ''echo''" | "w = bytes_of ''pwd''"
    | "w \<notin> set builtins" "\<not> ends_with_exe w" "out = bytes_of ''unknown command: '' @ w @ [10]"
    using assms Cons by (auto simp: shell_text_def split: if_splits)
  then show ?thesis
  proof cases
    case 1
    then have o: "out = snd (next_arg line) @ [10]" using assms Cons by (simp add: shell_text_def)
    have "run_command B env line s = sh_println (snd (next_arg line)) s"
      unfolding run_command_def by (subst c) (simp add: 1 split_beta Let_def bytes_of_def)
    then show ?thesis by (simp add: o sh_println_print)
  next
    case 2
    then have o: "out = cwd (sh_vfs s) @ [10]" using assms Cons by (simp add: shell_text_def bytes_of_def)
    have "run_command B env line s = sh_println (vfs_cwd (sh_vfs s)) s"
      unfolding run_command_def by (subst c) (simp add: 2 split_beta Let_def bytes_of_def)
    then show ?thesis by (simp add: o sh_println_print vfs_cwd_def)
  next
    case 3
    have "run_command B env line s = sh_seq [sh_print (bytes_of ''unknown command: ''), sh_println w] s"
      unfolding run_command_def using 3(1,2) by (subst c) (simp add: builtins_def split_beta Let_def del: sh_seq_simps)
    then show ?thesis
      by (simp add: 3(3) sh_println_print sh_seq_prints sh_seq_print del: sh_seq_simps)
  qed
qed

definition line_done :: "term_state_t \<Rightarrow> term_state_t" where
  "line_done t = t\<lparr>in_len := 0, t_input := (t_input t)[0 := 0]\<rparr>"

lemma line_done_ok:
  assumes "term_ok t"
  shows "term_ok (line_done t)" "screen (line_done t) = screen t" "cstr (t_input (line_done t)) = []"
proof -
  obtain b bs where b: "t_input t = b # bs" using assms by (cases "t_input t") (auto simp: term_ok_def term_sizes)
  then show "cstr (t_input (line_done t)) = []" by (simp add: line_done_def cstr_def)
  then show "term_ok (line_done t)" using assms b by (simp add: term_ok_def line_done_def term_sizes)
  show "screen (line_done t) = screen t" by (simp add: screen_def line_done_def)
qed

text \<open>Enter shows the prompt with the line, empties the editor and runs the line.\<close>

lemma enter_runs:
  assumes ok: "term_ok (sh_term s)" and cwd: "0 \<notin> set (cwd (sh_vfs s))" and c: "c = 10 \<or> c = 13"
  shows "\<exists>t. term_on_key B env c s =
      run_bind (run_command B env (cstr (t_input (sh_term s))) (s\<lparr>sh_term := t\<rparr>)) (\<lambda>s. ret (power_requests B s)) \<and>
    term_ok t \<and> cstr (t_input t) = [] \<and> reboot_req t = reboot_req (sh_term s) \<and> shutdown_req t = shutdown_req (sh_term s) \<and>
    screen t = last_rows (put_text (prompt_line (sh_vfs s) (cstr (t_input (sh_term s)))) (screen (sh_term s)))"
proof -
  let ?l = "cstr (t_input (sh_term s))"
  let ?p = "bytes_of ''h3os:'' @ vfs_cwd (sh_vfs s) @ bytes_of ''> '' @ ?l @ [10]"
  have a: "array_str (t_input (sh_term s)) = ret ?l"
    using input_split [OF ok] by (metis array_str_def in_set_conv_decomp)
  have seq: "sh_seq [sh_print (bytes_of ''h3os:''), sh_print (vfs_cwd (sh_vfs s)), sh_print (bytes_of ''> ''), sh_println ?l] s = sh_print ?p s"
    by (simp add: sh_println_print sh_seq_prints sh_seq_print del: sh_seq_simps)
  have "0 \<notin> set ?p" using cwd cstr_no_zero by (auto simp: vfs_cwd_def bytes_of_def)
  then obtain t where t: "sh_print ?p s = ret (s\<lparr>sh_term := t\<rparr>)" "screen_step (sh_term s) t"
    "screen t = last_rows (put_text ?p (screen (sh_term s)))" using sh_prints [OF ok] by blast
  have "term_on_key B env c s = run_bind (run_command B env ?l (s\<lparr>sh_term := line_done t\<rparr>)) (\<lambda>s. ret (power_requests B s))"
    using c a seq t by (auto simp: term_on_key_def line_done_def simp del: sh_seq_simps)
  moreover have "term_ok t" using t(2) by (simp add: screen_step_def)
  ultimately show ?thesis
    using t line_done_ok [of t] by (intro exI [of _ "line_done t"]) (simp add: prompt_line_def vfs_cwd_def screen_step_def line_done_def)
qed

section \<open>What every command keeps\<close>

text \<open>A run ensures a predicate if every state it returns satisfies it.\<close>

definition ensures :: "('s \<Rightarrow> bool) \<Rightarrow> 's run \<Rightarrow> bool" where
  "ensures P r \<longleftrightarrow> (\<forall>s. r = ret s \<longrightarrow> P s)"

lemma ensures_ret: "P s \<Longrightarrow> ensures P (ret s)" "ensures P (fail e)"
  by (simp_all add: ensures_def)

lemma ensures_bind: "ensures P r \<Longrightarrow> (\<And>s. P s \<Longrightarrow> ensures Q (f s)) \<Longrightarrow> ensures Q (run_bind r f)"
  by (auto simp: ensures_def run_bind_ret)

lemma ensures_pure: "(\<And>x. r = ret x \<Longrightarrow> ensures P (f x)) \<Longrightarrow> ensures P (run_bind r f)"
  by (auto simp: ensures_def run_bind_ret)

lemma ensures_fold: "(\<And>x s. P s \<Longrightarrow> ensures P (f x s)) \<Longrightarrow> P s \<Longrightarrow> ensures P (run_fold f xs s)"
  by (induction xs arbitrary: s) (auto intro: ensures_bind ensures_ret)

lemma ensures_splits:
  "(b \<Longrightarrow> ensures P x) \<Longrightarrow> (\<not> b \<Longrightarrow> ensures P y) \<Longrightarrow> ensures P (if b then x else y)"
  "(opt = None \<Longrightarrow> ensures P x) \<Longrightarrow> (\<And>a. opt = Some a \<Longrightarrow> ensures P (f a)) \<Longrightarrow> ensures P (case opt of None \<Rightarrow> x | Some a \<Rightarrow> f a)"
  "(\<And>a b. pr = (a, b) \<Longrightarrow> ensures P (g a b)) \<Longrightarrow> ensures P (case pr of (a, b) \<Rightarrow> g a b)"
  by (auto split: option.splits prod.splits)

lemma term_putc_ok:
  assumes "term_ok t" "term_putc c t = ret t'"
  shows "term_ok t'"
proof (cases "c = 0")
  case True
  have put: "term_ok (put_at n 0 t)" if "term_ok t" "n \<le> TERM_COLS" for n t
  proof -
    let ?l = "(lines t ! t_row t)[n := 0, n + 1 := 0]"
    have "row_ok (lines t ! t_row t)" using that(1) by (auto simp: term_ok_def)
    then have "n < length (lines t ! t_row t)" using that(2) by (simp add: row_ok_def)
    then have "row_ok ?l" using \<open>row_ok (lines t ! t_row t)\<close>
      by (cases "n + 1 < length (lines t ! t_row t)") (auto simp: row_ok_def set_update_memI list_update_beyond)
    then show ?thesis
      using that set_update_subset_insert [of "lines t" "t_row t" ?l] by (auto simp: term_ok_def put_at_def)
  qed
  obtain str where str: "array_str (lines t ! t_row t) = ret str"
      "t' = put_at (length str) 0 t \<and> length str < TERM_COLS \<or> (\<exists>t1. term_newline t = ret t1 \<and> t' = put_at 0 0 t1)"
    using assms(2) True by (auto simp: term_putc_def run_bind_ret split: if_splits)
  then show ?thesis using put assms(1) term_newline_spec [OF assms(1)] by (auto simp: screen_step_def)
next
  case False
  then show ?thesis using term_putc_spec [OF assms(1) False] assms(2) by (auto simp: screen_step_def)
qed

lemma term_print_ok: "term_ok t \<Longrightarrow> term_print str t = ret t' \<Longrightarrow> term_ok t'"
  unfolding term_print_def by (induction str arbitrary: t) (auto simp: run_bind_ret dest: term_putc_ok)

lemma term_newline_ok: "term_ok t \<Longrightarrow> term_newline t = ret t' \<Longrightarrow> term_ok t'"
  using term_newline_spec by (fastforce simp: screen_step_def)

lemma list_loop_invariant:
  assumes "list_loop v cb c ctx = Some r" "P ctx" "\<And>i x. P x \<Longrightarrow> P (cb i x)"
  shows "P r"
proof -
  have "P ctx \<longrightarrow> (\<forall>i x. P x \<longrightarrow> P (cb i x)) \<longrightarrow> P r"
    by (rule list_loop.raw_induct [where P = "\<lambda>v cb c ctx r. P ctx \<longrightarrow> (\<forall>i x. P x \<longrightarrow> P (cb i x)) \<longrightarrow> P r", OF _ assms(1)])
      (auto split: option.splits)
  then show ?thesis using assms(2,3) by blast
qed

lemma set_mem_term [simp]: "sh_term (set_mem m s) = sh_term s"
  by (simp add: set_mem_def)

lemma set_mem_vfs [simp]:
  "nodes (sh_vfs (set_mem m s)) = nodes (sh_vfs s)" "heap_mem (v_heap (sh_vfs (set_mem m s))) = m" "sh_mem (set_mem m s) = m"
  "set_mem m' (set_mem m s) = set_mem m' s" "(set_mem m' s)\<lparr>sh_vfs := sh_vfs (set_mem m s)\<rparr> = set_mem m s"
  by (simp_all add: set_mem_def sh_mem_def)

lemma term_zero_ok: "term_ok term_zero"
  by (auto simp: term_ok_def term_zero_def row_ok_def term_sizes cstr_def)

text \<open>
  What a predicate on the state must tolerate to be kept by all commands: any other well-formed
  terminal, file system, loader state and log, and it must say that the terminal is well-formed.
\<close>

named_theorems term_keeps \<open>commands that keep a shell invariant\<close>

locale shell_invariant =
  fixes P :: "('d, 'z) shell_state_scheme \<Rightarrow> bool"
  assumes term_ok: "P s \<Longrightarrow> term_ok (sh_term s)"
    and on_term: "P s \<Longrightarrow> term_ok t \<Longrightarrow> P (s\<lparr>sh_term := t\<rparr>)"
    and on_vfs: "P s \<Longrightarrow> P (s\<lparr>sh_vfs := v\<rparr>)"
    and on_pe: "P s \<Longrightarrow> P (s\<lparr>sh_pe := pe\<rparr>)"
    and on_log: "P s \<Longrightarrow> P (s\<lparr>sh_log := l\<rparr>)"
begin

lemma on_mem: "P s \<Longrightarrow> P (set_mem m s)"
  by (simp add: set_mem_def on_vfs)

lemma out_keeps:
  assumes "P s" "\<And>t. f (sh_term s) = ret t \<Longrightarrow> term_ok t"
  shows "ensures P (sh_out f s)"
  using assms on_term by (auto simp: ensures_def sh_out_def run_bind_ret)

lemma print_keeps [term_keeps]:
  "P s \<Longrightarrow> ensures P (sh_print str s)"
  "P s \<Longrightarrow> ensures P (sh_println str s)"
  "P s \<Longrightarrow> ensures P (sh_out term_newline s)"
  by (auto intro!: out_keeps simp: term_println_print intro: term_print_ok [OF term_ok] term_newline_ok [OF term_ok])

lemmas ret_keeps [term_keeps] = ensures_ret [where P = P]
lemmas bind_keeps = ensures_bind [where P = P and Q = P]
lemmas fold_keeps = ensures_fold [where P = P]

lemma fs_keeps:
  assumes "P s" "\<And>r s. P s \<Longrightarrow> ensures P (f r s)"
  shows "ensures P (run_bind (sh_fs g s) (\<lambda>(r, s). f r s))"
proof -
  have "ensures P (f r (s\<lparr>sh_vfs := v\<rparr>))" for r v using assms on_vfs by simp
  then show ?thesis by (auto simp: ensures_def sh_fs_def run_bind_ret)
qed

lemma sh_seq_keeps [term_keeps]:
  "P s \<Longrightarrow> (\<And>s. P s \<Longrightarrow> ensures P (f s)) \<Longrightarrow> (\<And>s. P s \<Longrightarrow> ensures P (sh_seq fs s)) \<Longrightarrow> ensures P (sh_seq (f # fs) s)"
  "P s \<Longrightarrow> ensures P (sh_seq [] s)"
  by (auto intro: bind_keeps term_keeps)

lemma sh_num_keeps [term_keeps]:
  "P s \<Longrightarrow> ensures P (sh_num v s)" "P s \<Longrightarrow> ensures P (sh_numln v s)"
  by (auto simp: sh_num_def sh_numln_def intro!: ensures_pure term_keeps)

lemma list_cb_keeps: "P s \<Longrightarrow> ensures P (list_cb n s)"
  by (auto simp: list_cb_def Let_def intro!: ensures_pure term_keeps)

lemma sh_list_keeps [term_keeps]:
  assumes "P s"
  shows "ensures P (sh_list dir s)"
proof -
  have "ensures P r" if r: "vfs_list (sh_vfs s) dir (\<lambda>i r. run_bind r (list_cb (nodes (sh_vfs s) i))) (ret s) = Some r" for r
  proof (cases "\<exists>d. dir = Some d \<and> n_type (nodes (sh_vfs s) d) = VFS_DIR")
    case True
    then obtain d where "list_loop (sh_vfs s) (\<lambda>i r. run_bind r (list_cb (nodes (sh_vfs s) i))) (n_child (nodes (sh_vfs s) d)) (ret s) = Some r"
      using r by (auto simp: vfs_list_def)
    then show ?thesis
      by (rule list_loop_invariant [where P = "ensures P"]) (auto intro: bind_keeps list_cb_keeps term_keeps assms)
  next
    case False
    then show ?thesis using r assms by (auto simp: vfs_list_def split: option.splits if_splits intro: term_keeps)
  qed
  then show ?thesis by (auto simp: sh_list_def run_of_ret intro!: ensures_pure)
qed

lemma print_commands_keep [term_keeps]:
  "P s \<Longrightarrow> ensures P (cmd_help s)"
  "P s \<Longrightarrow> ensures P (cmd_systeminfo s)"
  unfolding cmd_help_def cmd_systeminfo_def Let_def by (auto intro!: term_keeps simp del: sh_seq_simps)

lemma pe_event_keeps [term_keeps]: "P s \<Longrightarrow> ensures P (pe_event B env ev s)"
  by (auto simp: pe_event_def pe_term_write_def pe_term_writeln_def split: pe_out.splits option.splits intro!: term_keeps ensures_pure ret_keeps on_log)

lemma run_file_keeps [term_keeps]:
  assumes "P s"
  shows "ensures P (run_file B env f path s)"
proof -
  have play: "ensures P (run_bind (run_fold (pe_event B env) evs s) (\<lambda>s. run_bind (sh_print str s) (\<lambda>s. run_bind num (\<lambda>n. sh_println n s))))"
    if "P s" for evs str num s
    using that by (intro bind_keeps [OF fold_keeps] bind_keeps [OF print_keeps(1)] ensures_pure [of num] pe_event_keeps print_keeps)
  have upd: "P (s\<lparr>sh_pe := pe, sh_vfs := v\<rparr>)" if "P s" for pe v s using that on_pe on_vfs by simp
  have "ensures P (let pe = pe_set_console (fn_write env) (fn_writeln env) (sh_pe s) in
      run_bind (pe_run (run_code env) (n_data f) (n_size f) (Some path) (v_heap (sh_vfs s)) pe) (\<lambda>(rc, h, pe').
      run_bind (run_fold (pe_event B env) (drop (length (pe_output pe)) (pe_output pe')) (s\<lparr>sh_pe := pe', sh_vfs := (sh_vfs s)\<lparr>v_heap := h\<rparr>\<rparr>)) (\<lambda>s.
      run_bind (sh_print (bytes_of ''run: exit code '') s) (\<lambda>s. run_bind (itoa_string (scast rc) 10) (\<lambda>num. sh_println num s)))))"
    if "P s" for s
    using that unfolding Let_def by (intro ensures_pure [of "pe_run _ _ _ _ _ _"] ensures_splits play upd)
  then show ?thesis unfolding run_file_def using assms by (intro sh_seq_keeps print_keeps)
qed

lemma run_node_keeps [term_keeps]: "P s \<Longrightarrow> ensures P (run_node B env n path s)"
  unfolding run_node_def Let_def by (intro ensures_splits term_keeps)

lemma cmd_run_keeps [term_keeps]: "P s \<Longrightarrow> ensures P (cmd_run B env path s)"
  unfolding cmd_run_def Let_def by (intro ensures_splits ensures_pure term_keeps)

lemma read_text_bind [term_keeps]:
  assumes "P s" "\<And>n str s. P s \<Longrightarrow> ensures P (f n str s)"
  shows "ensures P (run_bind (read_text env db s) (\<lambda>(n, str, s). f n str s))"
  by (auto simp: read_text_def Let_def split_beta run_bind_assoc intro!: ensures_pure assms on_mem on_vfs)

lemma print_text_keeps [term_keeps]: "P s \<Longrightarrow> ensures P (print_text env n str s)"
  unfolding print_text_def by (intro bind_keeps [OF print_keeps(1)] ensures_splits term_keeps)

lemma cmd_cat_keeps [term_keeps]: "P s \<Longrightarrow> ensures P (cmd_cat env arg s)"
  unfolding cmd_cat_def by (intro ensures_splits ensures_pure [of "case arg of None \<Rightarrow> _ | Some a \<Rightarrow> _ a"] term_keeps)

lemma search_loop_keeps:
  "P s \<Longrightarrow> search_loop pkg str found s = ret (b, s') \<Longrightarrow> P s'"
proof (induction pkg str found s rule: search_loop.induct)
  case (1 pkg str found s)
  let ?tmp = "take 95 (takeWhile (\<lambda>c. c \<noteq> 10) str)" and ?rest = "drop 1 (dropWhile (\<lambda>c. c \<noteq> 10) str)"
  show ?case
  proof (cases "str \<noteq> [] \<and> occurs_in pkg ?tmp")
    case True
    then obtain s1 where s1: "sh_println ?tmp s = ret s1" "search_loop pkg ?rest True s1 = ret (b, s')"
      using "1.prems"(2) by (subst (asm) search_loop.simps) (auto simp: run_bind_ret Let_def)
    have "P s1" using print_keeps(2) [OF "1.prems"(1)] s1(1) by (auto simp: ensures_def)
    then show ?thesis using "1.IH"(1) [OF _ refl refl] True s1(2) by auto
  next
    case False
    then show ?thesis
      using "1.prems" "1.IH"(2) [OF _ refl refl]
      by (auto simp: search_loop.simps [of pkg str found s] Let_def split: if_splits)
  qed
qed

lemma h3pkg_list_keeps [term_keeps]:
  assumes "P s"
  shows "ensures P (h3pkg_list env pkg s)"
proof -
  have "ensures P (run_bind (search_loop p str False s) (\<lambda>(found, s). if found then ret s else sh_println msg s))"
    if "P s" for p str msg s
    using search_loop_keeps [OF that] by (intro ensures_pure ensures_splits term_keeps) auto
  then show ?thesis
    using assms unfolding h3pkg_list_def
    by (intro ensures_pure [of "vfs_resolve _ _"] ensures_splits read_text_bind term_keeps)
qed

lemma pkg_register_keeps [term_keeps]: "P s \<Longrightarrow> ensures P (pkg_register env entry db s)"
  unfolding pkg_register_def Let_def
  by (intro ensures_splits read_text_bind fs_keeps ensures_pure [of "run_of _"] term_keeps) (simp_all add: on_mem)

lemma h3pkg_install_keeps [term_keeps]: "P s \<Longrightarrow> ensures P (h3pkg_install env pkg s)"
  unfolding h3pkg_install_def Let_def
  by (intro ensures_pure [of "vfs_resolve _ _"] ensures_splits(1) bind_keeps [OF pkg_register_keeps] fs_keeps
      ensures_pure [of "pkg_path pkg"] bind_keeps [OF ensures_splits(1)] term_keeps) (simp_all add: on_mem)

lemma h3pkg_remove_keeps [term_keeps]: "P s \<Longrightarrow> ensures P (h3pkg_remove pkg s)"
  unfolding h3pkg_remove_def by (intro ensures_pure [of "pkg_path pkg"] fs_keeps term_keeps)

lemma cmd_h3pkg_keeps [term_keeps]: "P s \<Longrightarrow> ensures P (cmd_h3pkg env sub pkg s)"
  unfolding cmd_h3pkg_def by (intro ensures_splits term_keeps)

lemma cmd_fs_keeps [term_keeps]: "P s \<Longrightarrow> ensures P (cmd_fs f failed msg ok s)"
  unfolding cmd_fs_def by (intro fs_keeps ensures_splits term_keeps)

lemma request_keeps:
  assumes "P s" "\<And>t. term_ok t \<Longrightarrow> term_ok (f t)"
  shows "ensures P (run_bind (sh_println str s) (\<lambda>s. ret (s\<lparr>sh_term := f (sh_term s)\<rparr>)))"
  using assms(1) by (intro bind_keeps [OF print_keeps(2)] ret_keeps on_term assms(2) term_ok)

lemma run_command_keeps:
  assumes ok: "P s"
  shows "ensures P (run_command B env line s)"
proof -
  have "term_ok ((sh_term s)\<lparr>lines := lines term_zero, t_row := 0\<rparr>)"
    using term_ok [OF ok] term_zero_ok by (simp add: term_ok_def term_sizes)
  then have clear: "ensures P (ret (s\<lparr>sh_term := (sh_term s)\<lparr>lines := lines term_zero, t_row := 0\<rparr>\<rparr>))"
    by (intro ret_keeps on_term ok)
  have req: "term_ok t \<Longrightarrow> term_ok (t\<lparr>shutdown_req := True\<rparr>)" "term_ok t \<Longrightarrow> term_ok (t\<lparr>reboot_req := True\<rparr>)" for t
    by (simp_all add: term_ok_def)
  show ?thesis
    unfolding run_command_def Let_def
    by (intro ensures_splits clear request_keeps ok req ensures_pure [of "vfs_resolve _ _"] term_keeps)
qed

lemma term_on_key_keeps:
  assumes ok: "P s"
  shows "ensures P (term_on_key B env c s)"
proof (cases "c = 10 \<or> c = 13")
  case True
  have run: "ensures P (run_bind (run_command B env line (s\<lparr>sh_term := line_done (sh_term s)\<rparr>)) (\<lambda>s. ret (power_requests B s)))"
    if "P s" for line s
    using that unfolding power_requests_def Let_def
    by (intro bind_keeps [OF run_command_keeps] ret_keeps on_log on_term line_done_ok(1) term_ok)
  have "term_on_key B env c s = run_bind (array_str (t_input (sh_term s))) (\<lambda>line.
      run_bind (sh_seq [sh_print (bytes_of ''h3os:''), sh_print (vfs_cwd (sh_vfs s)), sh_print (bytes_of ''> ''), sh_println line] s) (\<lambda>s.
      run_bind (run_command B env line (s\<lparr>sh_term := line_done (sh_term s)\<rparr>)) (\<lambda>s. ret (power_requests B s))))"
    using True by (simp add: term_on_key_def line_done_def Let_def del: sh_seq_simps)
  also have "ensures P \<dots>"
    by (rule ensures_pure, rule bind_keeps [OF _ run]) (intro term_keeps ok, assumption)
  finally show ?thesis .
next
  case False
  then show ?thesis using term_on_key_edits [OF term_ok [OF ok], of c B env] on_term [OF ok] by (auto simp: ensures_def)
qed

end

interpretation term_inv: shell_invariant "\<lambda>s. term_ok (sh_term s)"
  by unfold_locales simp_all

section \<open>Reading a file into the command's buffer\<close>

definition frame_ok :: "shell_env \<Rightarrow> addr \<Rightarrow> nat \<Rightarrow> bool" where
  "frame_ok env a len \<longleftrightarrow> n_at env \<noteq> NULL \<and> disjoint_ranges (buf_at env) 512 (n_at env) 8 \<and>
     disjoint_ranges a len (buf_at env) 512 \<and> disjoint_ranges a len (n_at env) 8"

lemma disjoint_ranges_le: "disjoint_ranges a n b k \<Longrightarrow> n' \<le> n \<Longrightarrow> disjoint_ranges a n' b k"
  by (auto simp: disjoint_ranges_def in_range_def)

lemma mem_string_cstring:
  assumes "cstring m a xs" "length xs < 18446744073709551616"
  shows "mem_string m a = ret xs"
  using assms cstring_peek [of m a xs] peek_snoc [of m a "length xs"]
  by (simp add: mem_string_def strlen_cstring unat_of_nat_u64)

lemma read_text_mem:
  assumes fr: "frame_ok env d (unat k)" and k: "unat k \<le> 511" and nz: "0 \<notin> set (peek m d (unat k))"
    and m2: "m2 = poke (store64 m (n_at env) 0) (buf_at env) (peek (store64 m (n_at env) 0) d (unat k))"
    and m4: "m4 = (store64 m2 (n_at env) k)(buf_at env + k := 0)"
  shows "load64 (store64 m2 (n_at env) k) (n_at env) = k" "cstring m4 (buf_at env) (peek m d (unat k))"
proof -
  let ?buf = "buf_at env" and ?n = "n_at env" and ?c = "peek m d (unat k)"
  show "load64 (store64 m2 ?n k) ?n = k" by (rule cell64.load_store)
  have c: "peek (store64 m ?n 0) d (unat k) = ?c"
    unfolding store64_def using fr k by (intro peek_poke_other) (auto simp: frame_ok_def)
  have "peek (store64 m2 ?n k) ?buf (unat k) = peek m2 ?buf (unat k)"
    unfolding store64_def using fr k by (intro peek_poke_other) (auto simp: frame_ok_def intro: disjoint_ranges_le)
  also have "\<dots> = ?c" using peek_poke_same [of ?c "store64 m ?n 0" ?buf] k by (simp add: m2 c)
  finally have "peek m4 ?buf (unat k) = ?c" using k by (simp add: m4 peek_upd in_range_def)
  moreover have "m4 (?buf + of_nat (unat k)) = 0" by (simp add: m4)
  ultimately show "cstring m4 ?buf ?c" using nz by (simp add: cstring_peek peek_snoc)
qed

lemma read_text_spec:
  assumes f: "n_type (nodes (sh_vfs s) i) = VFS_FILE"
    and d: "n_data (nodes (sh_vfs s) i) \<noteq> NULL \<or> n_size (nodes (sh_vfs s) i) = 0"
    and fr: "frame_ok env (n_data (nodes (sh_vfs s) i)) (unat (n_size (nodes (sh_vfs s) i)))"
    and k: "n_size (nodes (sh_vfs s) i) \<le> 511" and nz: "0 \<notin> set (contents (sh_vfs s) i)"
  shows "\<exists>s'. read_text env (Some i) s = ret (n_size (nodes (sh_vfs s) i), contents (sh_vfs s) i, s') \<and>
    sh_term s' = sh_term s \<and> cstring (sh_mem s') (buf_at env) (contents (sh_vfs s) i) \<and> nodes (sh_vfs s') = nodes (sh_vfs s)"
proof -
  let ?v = "sh_vfs s" and ?k = "n_size (nodes (sh_vfs s) i)" and ?d = "n_data (nodes (sh_vfs s) i)" and ?m = "sh_mem s"
  have k': "unat ?k \<le> 511" using k by (simp add: word_le_nat_alt)
  have min: "(if ?k < 511 then ?k else 511) = ?k" using k by auto
  have con: "contents ?v i = peek ?m ?d (unat ?k)" by (simp add: contents_def sh_mem_def)
  define m1 where "m1 = store64 ?m (n_at env) 0"
  define m2 where "m2 = poke m1 (buf_at env) (peek m1 ?d (unat ?k))"
  define m4 where "m4 = (store64 m2 (n_at env) ?k)(buf_at env + ?k := 0)"
  note rm = read_text_mem [OF fr k' _ m2_def [unfolded m1_def] m4_def]
  have nz': "0 \<notin> set (peek ?m ?d (unat ?k))" using nz con by simp
  have copy: "(if ?k \<noteq> 0 \<and> ?d \<noteq> NULL then snd (memcpy m1 (buf_at env) ?d ?k) else m1) = m2"
  proof (cases "?k = 0")
    case True
    then show ?thesis by (simp add: m2_def)
  next
    case False
    have "\<not> in_range (buf_at env) ?d (unat ?k)"
      using fr in_range_self [of 512 "buf_at env"] by (auto simp: frame_ok_def disjoint_ranges_def)
    then show ?thesis using False d memcpy_poke [of "buf_at env" ?d ?k m1] by (simp add: in_range_def m2_def)
  qed
  let ?s = "set_mem m4 s"
  have str: "mem_string m4 (buf_at env) = ret (contents ?v i)"
    using rm(2) [OF nz'] con k' by (intro mem_string_cstring) simp_all
  have "n_at env \<noteq> NULL" using fr by (simp add: frame_ok_def)
  then have "vfs_read (Some i) (buf_at env) 511 (n_at env) (sh_vfs (set_mem m1 s)) =
      (ucast ?k, sh_vfs (set_mem (store64 m2 (n_at env) ?k) s))"
    unfolding vfs_read_def option.case Let_def set_mem_vfs min copy using f by (simp add: set_mem_def)
  then have "read_text env (Some i) s = ret (?k, contents ?v i, ?s)"
    using str rm(1) [OF nz'] by (simp add: read_text_def m1_def [symmetric] m4_def Let_def)
  then show ?thesis using rm(2) [OF nz'] con by (simp add: set_mem_def sh_mem_def)
qed

definition end_line :: "u8 list \<Rightarrow> u8 list" where
  "end_line d = (if d = [] \<or> last d \<noteq> 10 then d @ [10] else d)"

lemma print_text_spec:
  assumes ok: "term_ok (sh_term s)" and c: "cstring (sh_mem s) (buf_at env) str" and n: "n = of_nat (length str)" "length str \<le> 511"
  shows "print_text env n str s = sh_print (end_line str) s"
proof -
  have nz: "0 \<notin> set str" using c by (simp add: cstring_peek)
  then obtain t where t: "sh_print str s = ret (s\<lparr>sh_term := t\<rparr>)" using sh_prints [OF ok] by blast
  have "sh_mem (s\<lparr>sh_term := t\<rparr>) = sh_mem s" by (simp add: sh_mem_def)
  moreover have z: "n = 0 \<longleftrightarrow> str = []" using n unat_of_nat_u64 [of "length str"] by (auto simp: unat_eq_zero [symmetric])
  moreover have "sh_mem s (buf_at env + (n - 1)) = last str" if "str \<noteq> []"
  proof -
    have "n - 1 = of_nat (length str - 1)" using n(1) that by (simp add: of_nat_diff Suc_leI)
    moreover have "peek (sh_mem s) (buf_at env) (Suc (length str)) ! (length str - 1) = last str"
      using c that by (simp add: cstring_peek nth_append last_conv_nth)
    ultimately show ?thesis by simp
  qed
  ultimately have "print_text env n str s = (if str = [] \<or> last str \<noteq> 10 then sh_print [10] (s\<lparr>sh_term := t\<rparr>) else ret (s\<lparr>sh_term := t\<rparr>))"
    using t by (auto simp: print_text_def term_newline_print)
  then show ?thesis using t sh_print_print [of str s "[10]"] by (auto simp: end_line_def)
qed

lemma cmd_cat_prints:
  assumes ok: "term_ok (sh_term s)" and r: "vfs_resolve path (sh_vfs s) = ret (Some i)"
    and f: "n_type (nodes (sh_vfs s) i) = VFS_FILE" "n_data (nodes (sh_vfs s) i) \<noteq> NULL \<or> n_size (nodes (sh_vfs s) i) = 0"
    and fr: "frame_ok env (n_data (nodes (sh_vfs s) i)) (unat (n_size (nodes (sh_vfs s) i)))"
    and k: "n_size (nodes (sh_vfs s) i) \<le> 511" and nz: "0 \<notin> set (contents (sh_vfs s) i)"
  shows "\<exists>s'. cmd_cat env (Some path) s = ret s' \<and> screen_step (sh_term s) (sh_term s') \<and> nodes (sh_vfs s') = nodes (sh_vfs s) \<and>
    screen (sh_term s') = last_rows (put_text (end_line (contents (sh_vfs s) i)) (screen (sh_term s)))"
proof -
  let ?c = "contents (sh_vfs s) i"
  obtain s1 where s1: "read_text env (Some i) s = ret (n_size (nodes (sh_vfs s) i), ?c, s1)" "sh_term s1 = sh_term s"
    "cstring (sh_mem s1) (buf_at env) ?c" "nodes (sh_vfs s1) = nodes (sh_vfs s)"
    using read_text_spec [OF f fr k nz] by blast
  have len: "length ?c = unat (n_size (nodes (sh_vfs s) i))" by (simp add: contents_def)
  then have "print_text env (n_size (nodes (sh_vfs s) i)) ?c s1 = sh_print (end_line ?c) s1"
    using print_text_spec [of s1 env ?c "n_size (nodes (sh_vfs s) i)"] ok s1(2,3) k by (simp add: word_le_nat_alt)
  moreover have "0 \<notin> set (end_line ?c)" using nz by (simp add: end_line_def)
  then obtain t where "sh_print (end_line ?c) s1 = ret (s1\<lparr>sh_term := t\<rparr>)" "screen_step (sh_term s) t"
    "screen t = last_rows (put_text (end_line ?c) (screen (sh_term s)))" using sh_prints [of s1 "end_line ?c"] ok s1(2) by auto
  ultimately show ?thesis using r f(1) s1 by (simp add: cmd_cat_def)
qed

section \<open>Properties\<close>

definition shell_example :: "vfs_state \<Rightarrow> u8 list shell_state" where
  "shell_example v = \<lparr>sh_term = term_zero, sh_vfs = v, sh_pe = pe_idle, sh_log = \<lparr>log_ring = (\<lambda>_. 0), log_pos = 0, log_dev = []\<rparr>,
     sh_wm = wm_boot, sh_fb = small_fb, sh_cpu = cpu_zero, sh_perf = low_profile, sh_timer = \<lparr>g_ticks = 0, g_freq = 100\<rparr>\<rparr>"

definition env_example :: shell_env where
  "env_example = \<lparr>fn_write = 0x100, fn_writeln = 0x110, fn_term_draw = 0x120, fn_term_key = 0x130, term_at = 0x140,
     buf_at = 0x1000, n_at = 0x1200, entry_at = 0x1300, lit_pkg = 0x1400, run_code = (\<lambda>a h p. (0, h, p))\<rparr>"

lemma sh_term_example [simp]: "sh_term (shell_example v) = term_zero" "sh_vfs (shell_example v) = v"
  by (simp_all add: shell_example_def)

lemma screen_zero: "screen term_zero = [[]]"
  by (simp add: screen_def term_zero_def term_sizes cstr_def)

text \<open>
  (C32) Whatever is printed to a cleared terminal, in however many pieces, the terminal never writes
  outside its arrays, and the screen shows the last 24 rows of the text: the text cut at its newlines
  and each line cut into pieces of 72 characters.
\<close>

theorem terminal_shows_last_rows:
  assumes "term_ok t" "screen t = [[]]" "0 \<notin> set (concat strs)"
  shows "\<exists>t'. run_fold term_print strs t = ret t' \<and> term_ok t' \<and> screen t' = last_rows (layout (concat strs))"
  using term_print_rows [OF assms(1,3)] by (auto simp: term_prints assms(2) put_text_layout screen_step_def)

theorem terminal_shows_last_rows_witness:
  "\<exists>t'. run_fold term_print [[0x68], [0x69, 10]] term_zero = ret t' \<and> screen t' = [[0x68, 0x69], []]"
proof -
  have "last_rows (layout [0x68, 0x69, 10]) = [[0x68, 0x69], []]" by (simp add: layout_def line_rows_short last_rows_short term_sizes)
  then show ?thesis
    using terminal_shows_last_rows [OF term_zero_ok screen_zero, of "[[0x68], [0x69, 10]]"] by auto
qed

text \<open>
  (C33) The input line refines a line editor on strings: any sequence of keys other than Enter returns,
  changes nothing but the input line, and leaves in it what the editor gives, printable characters
  appended while fewer than 127 are there and backspaces removing the last one.
\<close>

theorem line_editor_refines:
  assumes "term_ok (sh_term s)" "10 \<notin> set ks" "13 \<notin> set ks"
  shows "\<exists>n b. run_fold (term_on_key B env) ks s = ret (s\<lparr>sh_term := (sh_term s)\<lparr>in_len := n, t_input := b\<rparr>\<rparr>) \<and>
    term_ok ((sh_term s)\<lparr>in_len := n, t_input := b\<rparr>) \<and> cstr b = fold edit ks (cstr (t_input (sh_term s)))"
  using assms
proof (induction ks arbitrary: s)
  case Nil
  then show ?case by (intro exI [of _ "in_len (sh_term s)"] exI [of _ "t_input (sh_term s)"]) simp
next
  case (Cons c ks)
  then have "c \<noteq> 10" "c \<noteq> 13" by auto
  then obtain n b where s1: "term_on_key B env c s = ret (s\<lparr>sh_term := (sh_term s)\<lparr>in_len := n, t_input := b\<rparr>\<rparr>)"
      "term_ok ((sh_term s)\<lparr>in_len := n, t_input := b\<rparr>)" "cstr b = edit c (cstr (t_input (sh_term s)))"
    using term_on_key_edits [OF Cons.prems(1), of c B env] by blast
  then show ?case using Cons.IH [of "s\<lparr>sh_term := (sh_term s)\<lparr>in_len := n, t_input := b\<rparr>\<rparr>"] Cons.prems(2,3) by simp
qed

theorem line_editor_refines_witness:
  "\<exists>n b. run_fold (term_on_key serial_dev env_example) [0x6C, 0x78, 8, 0x73] (shell_example root_fs) =
      ret ((shell_example root_fs)\<lparr>sh_term := term_zero\<lparr>in_len := n, t_input := b\<rparr>\<rparr>) \<and> cstr b = bytes_of ''ls''"
proof -
  have "fold edit [0x6C, 0x78, 8, 0x73] (cstr (t_input term_zero)) = bytes_of ''ls''"
    by (simp add: edit_def term_zero_def term_sizes cstr_def bytes_of_def word_sle_eq)
  then show ?thesis
    using line_editor_refines [of "shell_example root_fs" "[0x6C, 0x78, 8, 0x73]" serial_dev env_example] term_zero_ok by auto
qed

text \<open>
  Enter, for \<^verbatim>\<open>echo\<close>, \<^verbatim>\<open>pwd\<close>, an empty line and a word that is no command: the screen shows the prompt
  with the line and below it what the command prints, the input line is empty again, and nothing but the
  terminal and the requested port writes change.
\<close>

theorem enter_prints_output:
  assumes "term_ok (sh_term s)" "0 \<notin> set (cwd (sh_vfs s))" "c = 10 \<or> c = 13"
    and "shell_text (sh_vfs s) (cstr (t_input (sh_term s))) = Some out" "0 \<notin> set out"
  shows "\<exists>t. term_on_key B env c s = ret (power_requests B (s\<lparr>sh_term := t\<rparr>)) \<and> term_ok t \<and> cstr (t_input t) = [] \<and>
    screen t = last_rows (put_text (prompt_line (sh_vfs s) (cstr (t_input (sh_term s))) @ out) (screen (sh_term s)))"
proof -
  let ?p = "prompt_line (sh_vfs s) (cstr (t_input (sh_term s)))"
  obtain t1 where t1: "term_ok t1" "cstr (t_input t1) = []" "screen t1 = last_rows (put_text ?p (screen (sh_term s)))"
      "term_on_key B env c s = run_bind (run_command B env (cstr (t_input (sh_term s))) (s\<lparr>sh_term := t1\<rparr>)) (\<lambda>s. ret (power_requests B s))"
    using enter_runs [OF assms(1-3)] by blast
  obtain t2 where t2: "sh_print out (s\<lparr>sh_term := t1\<rparr>) = ret (s\<lparr>sh_term := t2\<rparr>)" "screen_step t1 t2"
      "screen t2 = last_rows (put_text out (screen t1))"
    using sh_prints [of "s\<lparr>sh_term := t1\<rparr>" out] t1(1) assms(5) by auto
  have "put_text ?p (screen (sh_term s)) \<noteq> []"
    by (simp add: put_text_def prompt_line_def put_char_nonempty)
  then have "screen t2 = last_rows (put_text (?p @ out) (screen (sh_term s)))"
    using t2(3) t1(3) last_rows_text by (simp add: put_text_def)
  then show ?thesis
    using t1 t2 run_command_text [of "s\<lparr>sh_term := t1\<rparr>" _ out B env] assms(4) by (auto simp: screen_step_def)
qed

theorem enter_prints_output_witness:
  "\<exists>t. term_on_key serial_dev env_example 10 (shell_example root_fs) =
      ret (power_requests serial_dev ((shell_example root_fs)\<lparr>sh_term := t\<rparr>)) \<and> screen t = [bytes_of ''h3os:/> '', []]"
proof -
  have l: "cstr (t_input term_zero) = []" by (simp add: term_zero_def term_sizes cstr_def)
  have c: "cwd root_fs = [slash]" by (simp add: root_fs_def)
  have "shell_text root_fs [] = Some []" by (simp add: shell_text_def words_of_def)
  moreover have "last_rows (put_text (prompt_line root_fs []) [[]]) = [bytes_of ''h3os:/> '', []]"
    by (simp add: put_text_layout prompt_line_def c slash_def layout_def line_rows_short last_rows_short term_sizes bytes_of_def)
  moreover have "0 \<notin> set (cwd root_fs)" by (simp add: c slash_def)
  ultimately show ?thesis
    using enter_prints_output [of "shell_example root_fs" 10 "[]" serial_dev env_example] term_zero_ok l screen_zero by auto
qed

text \<open>
  (C34) The terminal's state is always well-formed: starting from a well-formed state, every sequence of
  keys that returns, whatever commands its lines run, leaves 24 rows of 73 bytes, each a terminated
  string, a current row among them, and an input line whose stored length is the length of its string.
\<close>

theorem terminal_state_typed:
  assumes "term_ok (sh_term s)" "run_fold (term_on_key B env) ks s = ret s'"
  shows "length (lines (sh_term s')) = 24 \<and> (\<forall>l \<in> set (lines (sh_term s')). length l = 73 \<and> 0 \<in> set l) \<and> t_row (sh_term s') < 24 \<and>
    length (t_input (sh_term s')) = 128 \<and> in_len (sh_term s') = length (cstr (t_input (sh_term s'))) \<and> in_len (sh_term s') < 128"
proof -
  have "ensures (\<lambda>s. term_ok (sh_term s)) (run_fold (term_on_key B env) ks s)"
    by (rule ensures_fold [OF term_inv.term_on_key_keeps assms(1)])
  then have "term_ok (sh_term s')" using assms(2) by (simp add: ensures_def)
  then show ?thesis by (simp add: term_ok_def row_ok_def term_sizes)
qed

theorem terminal_state_typed_witness:
  "\<exists>s'. run_fold (term_on_key serial_dev env_example) [0x6C, 8, 8] (shell_example root_fs) = ret s' \<and> length (lines (sh_term s')) = 24"
proof -
  obtain n b where r: "run_fold (term_on_key serial_dev env_example) [0x6C, 8, 8] (shell_example root_fs) =
      ret ((shell_example root_fs)\<lparr>sh_term := term_zero\<lparr>in_len := n, t_input := b\<rparr>\<rparr>)"
    by (simp add: term_on_key_def term_sizes term_zero_def word_sle_eq Let_def)
  from terminal_state_typed [OF _ r] term_zero_ok r show ?thesis by auto
qed

text \<open>
  (C35) \<^verbatim>\<open>cat\<close> of a text file of at most 511 bytes: if the file's bytes, the command's buffer and its count
  do not overlap, the command returns and the screen shows the last 24 rows of what was there followed
  by the contents of the file, ended with a newline if it does not end with one.
\<close>

theorem cat_shows_file:
  assumes "term_ok (sh_term s)" and "vfs_resolve path (sh_vfs s) = ret (Some i)"
    and "n_type (nodes (sh_vfs s) i) = VFS_FILE" "n_data (nodes (sh_vfs s) i) \<noteq> NULL \<or> n_size (nodes (sh_vfs s) i) = 0"
    and "frame_ok env (n_data (nodes (sh_vfs s) i)) (unat (n_size (nodes (sh_vfs s) i)))"
    and "n_size (nodes (sh_vfs s) i) \<le> 511" "0 \<notin> set (contents (sh_vfs s) i)"
  shows "\<exists>s'. cmd_cat env (Some path) s = ret s' \<and> term_ok (sh_term s') \<and> nodes (sh_vfs s') = nodes (sh_vfs s) \<and>
    screen (sh_term s') = last_rows (put_text (end_line (contents (sh_vfs s) i)) (screen (sh_term s)))"
  using cmd_cat_prints [OF assms] by (auto simp: screen_step_def)

theorem cat_shows_file_witness:
  "\<exists>v s'. vfs_resolve (bytes_of ''/etc'') v = ret (Some 1) \<and> contents v 1 = bytes_of ''hi'' \<and>
     cmd_cat env_example (Some (bytes_of ''/etc'')) (shell_example v) = ret s' \<and> screen (sh_term s') = [bytes_of ''hi'', []]"
proof -
  obtain v0 ch where v0: "tree_ok v0 ch" "vfs_resolve (bytes_of ''/etc'') v0 = ret (Some 1)" "n_type (nodes v0 1) = VFS_FILE"
    by (rule etc_fs)
  let ?v = "set_node 1 (\<lambda>k. k\<lparr>n_data := 0x5000, n_size := 2\<rparr>)
    (v0\<lparr>v_heap := (v_heap v0)\<lparr>heap_mem := poke (heap_mem (v_heap v0)) 0x5000 (bytes_of ''hi'')\<rparr>\<rparr>)"
  have "same_links v0 ?v" by (simp add: same_links_def set_node_def)
  then have "vfs_resolve (bytes_of ''/etc'') ?v = ret (Some 1)" using v0(1,2) by (rule same_links_resolve)
  moreover have "length (bytes_of ''hi'') = 2" by (simp add: bytes_of_def)
  then have "contents ?v 1 = bytes_of ''hi''"
    using peek_poke_same [of "bytes_of ''hi''" "heap_mem (v_heap v0)" "0x5000"] by (simp add: contents_def set_node_def)
  moreover have "frame_ok env_example 0x5000 2"
    by (auto simp: frame_ok_def env_example_def NULL_def intro!: disjoint_ranges_nat)
  moreover have "end_line (bytes_of ''hi'') = bytes_of ''hi'' @ [10]" by (simp add: end_line_def bytes_of_def)
  moreover have "last_rows (put_text (bytes_of ''hi'' @ [10]) [[]]) = [bytes_of ''hi'', []]"
    by (simp add: put_text_layout layout_def line_rows_short last_rows_short term_sizes bytes_of_def)
  moreover have "0 \<notin> set (bytes_of ''hi'')" by (simp add: bytes_of_def)
  ultimately show ?thesis
    using cat_shows_file [of "shell_example ?v" "bytes_of ''/etc''" 1 env_example] v0(3) term_zero_ok screen_zero
    by (intro exI [of _ ?v]) (simp add: set_node_def NULL_def, blast)
qed

text \<open>
  Drawing the terminal builds the prompt, the working directory and the input line in an array of
  160 bytes: it overflows exactly when the directory and the line together have at least 153
  characters, which their bounds of 255 and 127 allow. Otherwise the drawing returns.
\<close>

theorem term_draw_prompt_overflow:
  assumes "term_ok t"
  shows "(term_draw g win t v m = fail Overflow \<longleftrightarrow> 153 \<le> length (cwd v) + in_len t) \<and>
    (length (cwd v) + in_len t < 153 \<longrightarrow> (\<exists>m'. term_draw g win t v m = ret m'))"
proof -
  let ?row = "\<lambda>r m. run_bind (array_str (lines t ! r)) (\<lambda>str.
      ret (fb_draw_string g (wx win + 8) (wy win + 36 + of_nat r * 10) str 0xFFB8F2E6 0xFFFFFFFF m))"
  have inp: "array_str (t_input t) = ret (cstr (t_input t))" "length (cstr (t_input t)) = in_len t"
    using input_split [OF assms] by (metis array_str_def in_set_conv_decomp)+
  have "\<exists>m'. run_fold ?row [0..<min (t_row t + 1) TERM_ROWS] m = ret m' \<and> True"
    by (rule run_fold_invariant) (use assms in \<open>auto simp: array_str_def term_ok_def row_ok_def\<close>)
  then obtain m' where m': "run_fold ?row [0..<min (t_row t + 1) TERM_ROWS] m = ret m'" by blast
  have "length (bytes_of ''h3os:'' @ vfs_cwd v @ bytes_of ''> '' @ cstr (t_input t)) < TERM_IN + 32 \<longleftrightarrow> length (cwd v) + in_len t < 153"
    using inp(2) by (auto simp: vfs_cwd_def bytes_of_def term_sizes)
  then obtain x where "term_draw g win t v m = (if length (cwd v) + in_len t < 153 then ret x else fail Overflow)"
    using m' inp(1) by (simp add: term_draw_def Let_def)
  then show ?thesis by (auto simp: ret_def fail_def)
qed

theorem term_draw_prompt_overflow_witness:
  "term_draw small_fb window_zero term_zero (root_fs\<lparr>cwd := slash # replicate 152 0x61\<rparr>) (\<lambda>_. 0) = fail Overflow"
  using term_draw_prompt_overflow [OF term_zero_ok, of small_fb window_zero "root_fs\<lparr>cwd := slash # replicate 152 0x61\<rparr>" "\<lambda>_. 0"]
  by simp

text \<open>
  \<^verbatim>\<open>h3pkg install\<close> builds the database entry in an array of 96 bytes: a name of 79 characters or more,
  which the input line has room for, overflows it.
\<close>

theorem h3pkg_install_overflow:
  assumes "79 \<le> length pkg" "32 \<notin> set pkg" "vfs_resolve pkg_db (sh_vfs s) = ret db"
  shows "run_command B env (bytes_of ''h3pkg install '' @ pkg) s = fail Overflow"
proof -
  have t: "takeWhile (\<lambda>c. c \<noteq> 32) pkg = pkg" "dropWhile (\<lambda>c. c \<noteq> 32) pkg = []" using assms(2) by (auto simp: takeWhile_eq_all_conv)
  have d: "dropWhile (\<lambda>c. c = 32) pkg = pkg" using assms(2) by (cases pkg) auto
  have "pkg \<noteq> []" using assms(1) by auto
  then have "next_arg (bytes_of ''h3pkg install '' @ pkg) = (Some (bytes_of ''h3pkg''), bytes_of ''install '' @ pkg)"
      "next_arg (bytes_of ''install '' @ pkg) = (Some (bytes_of ''install''), pkg)" "next_arg pkg = (Some pkg, [])"
    by (simp_all add: next_arg_def bytes_of_def t d)
  then have "run_command B env (bytes_of ''h3pkg install '' @ pkg) s = cmd_h3pkg env (Some (bytes_of ''install'')) (Some pkg) s"
    by (simp add: run_command_def bytes_of_def ends_with_exe_def)
  also have "\<dots> = h3pkg_install env pkg s" by (simp add: cmd_h3pkg_def bytes_of_def)
  also have "\<dots> = fail Overflow" using assms(1,3) by (simp add: h3pkg_install_def bytes_of_def)
  finally show ?thesis .
qed

theorem h3pkg_install_overflow_witness:
  "run_command serial_dev env_example (bytes_of ''h3pkg install '' @ replicate 79 0x61) (shell_example root_fs) = fail Overflow"
proof -
  have "normalize_path pkg_db root_fs = ret pkg_db" "pkg_db \<noteq> []"
    by (simp_all add: normalize_path_def pkg_db_def bytes_of_def slash_def VFS_PATH_MAX_def)
  then obtain db where "vfs_resolve pkg_db root_fs = ret db" using vfs_resolve_total [OF root_fs_tree] by blast
  then show ?thesis using h3pkg_install_overflow [of "replicate 79 0x61" "shell_example root_fs" db serial_dev env_example] by simp
qed

end
