(* ===== verification/H3_Apps.thy ===== *)
theory H3_Apps
  imports H3_Terminal H3_Sched
begin

text \<open>
  The window applications besides the terminal: file manager, task manager, calculator and settings
  (\<^verbatim>\<open>applications/*\<close>). Each has an opening function, which makes a window, and a drawing callback.
\<close>

section \<open>State\<close>

text \<open>
  The file manager's path and the scheduler join the state of the shell. The environment has the
  addresses of the drawing callbacks; \<open>fm_junk\<close> is what the uninitialised array \<^verbatim>\<open>line\<close> of \<^verbatim>\<open>fm_draw\<close>
  holds when a row is built.
\<close>

record 'd app_state = "'d shell_state" +
  fm_path :: "u8 list"
  ap_sched :: sched_state

record app_env = shell_env +
  fn_fm_draw :: addr
  fm_at :: addr
  fn_tm_draw :: addr
  fn_calc_draw :: addr
  fn_settings_draw :: addr
  fm_junk :: "nat \<Rightarrow> u8 list"

text \<open>\<^verbatim>\<open>while (strlen(line) < n) strcat(line, " ")\<close>\<close>

function pad_loop :: "nat \<Rightarrow> u8 list \<Rightarrow> u8 list" where
  "pad_loop n line = (if length line < n then pad_loop n (line @ [32]) else line)"
  by pat_completeness auto
termination
  by (relation "measure (\<lambda>(n, line). n - length line)") auto

declare pad_loop.simps [simp del]

section \<open>File manager\<close>

definition fm_line :: "u8 list \<Rightarrow> vfs_node_t \<Rightarrow> u8 list run" where
  "fm_line junk c =
     (let line = strncpy_buf 20 (cstr (n_name c)) (junk[0 := 0]) in
      run_bind (array_str line) (\<lambda>str.
      let str = pad_loop 22 str @ bytes_of (if n_type c = VFS_DIR then ''dir    '' else ''file   '') in
      run_bind (if n_type c = VFS_FILE then run_bind (utoa_string (n_size c) 10) (\<lambda>num. ret (str @ num)) else ret str) (\<lambda>str.
      if length str < 96 then ret str else fail Overflow)))"

text \<open>The rows of the listing: \<open>k\<close> rows are still free.\<close>

primrec fm_rows :: "(nat \<Rightarrow> u8 list) \<Rightarrow> fb_t \<Rightarrow> vfs_state \<Rightarrow> i32 \<Rightarrow> i32 \<Rightarrow> nat \<Rightarrow> node_ptr \<Rightarrow> mem \<Rightarrow> mem run" where
  "fm_rows junk g v x y 0 c m = ret m"
| "fm_rows junk g v x y (Suc k) c m =
     (case c of
        None \<Rightarrow> ret m
      | Some i \<Rightarrow>
          run_bind (fm_line (junk (15 - k)) (nodes v i)) (\<lambda>line.
          fm_rows junk g v x y k (n_sibling (nodes v i)) (fb_draw_string g x (y + of_nat (15 - k) * 12) line 0xFFE8F4F8 0xFFFFFFFF m)))"

definition fm_draw :: "(nat \<Rightarrow> u8 list) \<Rightarrow> fb_t \<Rightarrow> window_t \<Rightarrow> u8 list \<Rightarrow> vfs_state \<Rightarrow> mem \<Rightarrow> mem run" where
  "fm_draw junk g win path v m =
     (let x = wx win + 12; y = wy win + 40 in
      run_bind (array_str path) (\<lambda>p.
      let m = fb_draw_string g x y (bytes_of ''Path:'') 0xFF7FA3AD 0xFFFFFFFF m;
          m = fb_draw_string g (x + 48) y p 0xFF2EC4B6 0xFFFFFFFF m;
          m = fb_draw_string g x (y + 20) (bytes_of ''NAME                  TYPE   SIZE'') 0xFF7FA3AD 0xFFFFFFFF m;
          y = y + 34 in
      run_bind (vfs_resolve p v) (\<lambda>dir.
        case dir of
          None \<Rightarrow> ret (fb_draw_string g x y (bytes_of ''(invalid directory)'') 0xFFE85D4C 0xFFFFFFFF m)
        | Some d \<Rightarrow>
            if n_type (nodes v d) \<noteq> VFS_DIR
            then ret (fb_draw_string g x y (bytes_of ''(invalid directory)'') 0xFFE85D4C 0xFFFFFFFF m)
            else run_bind (fm_rows junk g v x y 16 (n_child (nodes v d)) m) (\<lambda>m.
              ret (if n_child (nodes v d) = None then fb_draw_string g x y (bytes_of ''(empty)'') 0xFF7FA3AD 0xFFFFFFFF m else m)))))"

text \<open>Opening a window with a title and a drawing callback, as the simple applications do it.\<close>

definition open_window ::
    "string \<Rightarrow> i32 \<Rightarrow> i32 \<Rightarrow> i32 \<Rightarrow> i32 \<Rightarrow> (window_t \<Rightarrow> window_t) \<Rightarrow> ('d, 'z) app_state_scheme \<Rightarrow> win_ptr \<times> ('d, 'z) app_state_scheme" where
  "open_window ttl x y w h f s =
     (let (win, wm) = wm_create (sh_perf s) (Some (bytes_of ttl)) x y w h (sh_wm s) in
      case win of
        None \<Rightarrow> (None, s\<lparr>sh_wm := wm\<rparr>)
      | Some i \<Rightarrow> (Some i, s\<lparr>sh_wm := set_win i f wm\<rparr>))"

definition filemanager_open :: "'z1 app_env_scheme \<Rightarrow> ('d, 'z) app_state_scheme \<Rightarrow> win_ptr \<times> ('d, 'z) app_state_scheme" where
  "filemanager_open env s =
     open_window ''File Manager'' 80 70 480 320 (\<lambda>k. k\<lparr>user := fm_at env, wdraw := fn_fm_draw env\<rparr>)
       (s\<lparr>fm_path := strncpy_buf (VFS_PATH_MAX - 1) (vfs_cwd (sh_vfs s)) (fm_path s)\<rparr>)"

section \<open>Task manager\<close>

primrec state_name :: "task_state_t \<Rightarrow> string" where
  "state_name TASK_READY = ''ready''"
| "state_name TASK_RUNNING = ''run''"
| "state_name TASK_BLOCKED = ''block''"
| "state_name TASK_DEAD = ''dead''"

definition tm_line :: "task_t \<Rightarrow> u8 list run" where
  "tm_line t =
     run_bind (utoa_string (ucast (t_id t)) 10) (\<lambda>num.
     let line = pad_loop 13 (pad_loop 5 num @ bytes_of (state_name (t_state t))) in
     run_bind (utoa_string (t_ticks t) 10) (\<lambda>num.
     let line = pad_loop 22 (line @ num) @ cstr (t_name t) in
     if length line < 96 then ret line else fail Overflow))"

definition tm_draw :: "fb_t \<Rightarrow> window_t \<Rightarrow> ('d, 'z) app_state_scheme \<Rightarrow> mem \<Rightarrow> mem run" where
  "tm_draw g win s m =
     (let x = wx win + 12; y = wy win + 40;
          stats = pmm_get_stats (heap_pmm (v_heap (sh_vfs s)));
          heap = heap_get_stats (v_heap (sh_vfs s));
          m = fb_draw_string g x y (bytes_of ''H3OS Task Manager'') 0xFF2EC4B6 0xFFFFFFFF m;
          m = fb_draw_string g x (y + 16) (bytes_of ''Profile: '' @ bytes_of (adaptive_profile_name (sh_perf s))) 0xFFE8F4F8 0xFFFFFFFF m in
      run_bind (utoa_string (timer_uptime_ms (sh_timer s)) 10) (\<lambda>num.
      let m = fb_draw_string g x (y + 28) (bytes_of ''Uptime ms: '' @ num) 0xFF7FA3AD 0xFFFFFFFF m in
      run_bind (utoa_string ((st_free_pages stats * PAGE_SIZE) div (1024 * 1024)) 10) (\<lambda>num.
      let m = fb_draw_string g x (y + 40) (bytes_of ''RAM free MiB: '' @ num) 0xFFE8F4F8 0xFFFFFFFF m in
      run_bind (utoa_string (hs_used_bytes heap) 10) (\<lambda>used.
      run_bind (utoa_string (hs_total_bytes heap) 10) (\<lambda>total.
      let m = fb_draw_string g x (y + 52) (bytes_of ''Heap used: '' @ used @ bytes_of '' / '' @ total) 0xFFE8F4F8 0xFFFFFFFF m;
          m = fb_draw_string g x (y + 70) (bytes_of ''PID  STATE   TICKS    NAME'') 0xFF7FA3AD 0xFFFFFFFF m;
          y = y + 84 in
      run_bind (case sched_current (ap_sched s) of
                  None \<Rightarrow> ret (0, m)
                | Some c \<Rightarrow> run_bind (tm_line (tasks (ap_sched s) c)) (\<lambda>line.
                    ret (1, fb_draw_string g x y line 0xFFE8F4F8 0xFFFFFFFF m))) (\<lambda>(row, m).
      ret (fb_draw_string g x (y + row * 12 + 8) (bytes_of ''Services: desktop, wm, terminal'') 0xFF7FA3AD 0xFFFFFFFF m)))))))"

definition taskmanager_open :: "'z1 app_env_scheme \<Rightarrow> ('d, 'z) app_state_scheme \<Rightarrow> win_ptr \<times> ('d, 'z) app_state_scheme" where
  "taskmanager_open env = open_window ''Task Manager'' 200 90 420 280 (\<lambda>k. k\<lparr>wdraw := fn_tm_draw env\<rparr>)"

section \<open>Calculator and settings\<close>

text \<open>Strings drawn one after the other at offsets from a window's corner.\<close>

definition draw_texts :: "fb_t \<Rightarrow> window_t \<Rightarrow> (i32 \<times> i32 \<times> u8 list \<times> u32) list \<Rightarrow> mem \<Rightarrow> mem" where
  "draw_texts g win = fold (\<lambda>(dx, dy, str, fg). fb_draw_string g (wx win + dx) (wy win + dy) str fg 0xFFFFFFFF)"

definition calc_draw :: "fb_t \<Rightarrow> window_t \<Rightarrow> mem \<Rightarrow> mem" where
  "calc_draw g win = draw_texts g win
     [(16, 48, bytes_of ''H3OS Calculator'', 0xFFE8F4F8), (16, 68, bytes_of ''0'', 0xFF2EC4B6),
      (16, 96, bytes_of ''[ 7 ][ 8 ][ 9 ][ / ]'', 0xFF7FA3AD), (16, 112, bytes_of ''[ 4 ][ 5 ][ 6 ][ * ]'', 0xFF7FA3AD),
      (16, 128, bytes_of ''[ 1 ][ 2 ][ 3 ][ - ]'', 0xFF7FA3AD), (16, 144, bytes_of ''[ 0 ][ . ][ = ][ + ]'', 0xFF7FA3AD)]"

definition calculator_open :: "'z1 app_env_scheme \<Rightarrow> ('d, 'z) app_state_scheme \<Rightarrow> win_ptr \<times> ('d, 'z) app_state_scheme" where
  "calculator_open env = open_window ''Calculator'' 100 120 280 220 (\<lambda>k. k\<lparr>wdraw := fn_calc_draw env\<rparr>)"

definition settings_draw :: "fb_t \<Rightarrow> window_t \<Rightarrow> perf_settings_t \<Rightarrow> mem \<Rightarrow> mem" where
  "settings_draw g win p = draw_texts g win
     [(16, 48, bytes_of ''H3OS Settings'', 0xFF2EC4B6), (16, 72, bytes_of ''Appearance  |  System  |  Network'', 0xFFE8F4F8),
      (16, 100, bytes_of ''Performance profile:'', 0xFF7FA3AD), (16, 116, bytes_of (adaptive_profile_name p), 0xFFE8F4F8),
      (16, 148, bytes_of (''Version '' @ H3OS_VERSION_STRING @ '' ('' @ H3OS_CODENAME @ '')''), 0xFF7FA3AD)]"

definition settings_open :: "'z1 app_env_scheme \<Rightarrow> ('d, 'z) app_state_scheme \<Rightarrow> win_ptr \<times> ('d, 'z) app_state_scheme" where
  "settings_open env = open_window ''Settings'' 160 100 420 260 (\<lambda>k. k\<lparr>wdraw := fn_settings_draw env\<rparr>)"

text \<open>
  A call through a window's drawing callback. A pointer that is no callback of an application would
  leave the program.
\<close>

definition call_draw :: "'z1 app_env_scheme \<Rightarrow> ('d, 'z) app_state_scheme \<Rightarrow> addr \<Rightarrow> nat \<Rightarrow> mem \<Rightarrow> mem run" where
  "call_draw env s fn i m =
     (let g = sh_fb s; win = windows (sh_wm s) i in
      if fn = fn_term_draw env then term_draw g win (sh_term s) (sh_vfs s) m
      else if fn = fn_fm_draw env then fm_draw (fm_junk env) g win (fm_path s) (sh_vfs s) m
      else if fn = fn_tm_draw env then tm_draw g win s m
      else if fn = fn_calc_draw env then ret (calc_draw g win m)
      else if fn = fn_settings_draw env then ret (settings_draw g win (sh_perf s) m)
      else fail Overflow)"

section \<open>Rows of the file manager\<close>

lemma pad_loop_eq: "pad_loop n line = line @ replicate (n - length line) 32"
proof (induction n line rule: pad_loop.induct)
  case (1 n line)
  show ?case
  proof (cases "length line < n")
    case True
    then have "n - length line = Suc (n - length (line @ [32]))" by simp
    then have "line @ replicate (n - length line) 32 = (line @ [32]) @ replicate (n - length (line @ [32])) (32 :: u8)" by simp
    then show ?thesis using True 1 by (subst pad_loop.simps) (simp only: if_True)
  qed (simp add: pad_loop.simps)
qed

lemma utoa_string_decimal: "\<exists>out. utoa_string v 10 = ret out \<and> denotes 10 (unat v) out \<and> length out \<le> 64"
proof -
  have ten: "\<not> (10 :: i32) <s 2" "\<not> 16 <s (10 :: i32)" by (simp_all add: word_sless_alt)
  obtain xs where xs: "utoa (\<lambda>_. 0) v 0 10 = Some (poke (\<lambda>_. 0) 0 (xs @ [0]))" "length xs \<le> 64" "\<forall>c \<in> set xs. digit_ok 10 c"
    using utoa_poke [OF ten, of "\<lambda>_. 0" v 0] by auto
  have "0 \<notin> set xs" using xs(3) digit_ok_not_minus by blast
  then have "utoa_string v 10 = ret xs" using xs by (simp add: utoa_string_def num_string_def peek_num)
  then show ?thesis using utoa_string_numeral [of 10 10 v] xs(2) by auto
qed

definition fm_kind :: "vfs_node_t \<Rightarrow> string" where
  "fm_kind c = (if n_type c = VFS_DIR then ''dir    '' else ''file   '')"

lemma fm_line_parts:
  assumes "array_str (strncpy_buf 20 (cstr (n_name c)) (junk[0 := 0])) = ret str" "length str \<le> 22"
  shows "\<exists>num. fm_line junk c = ret (str @ replicate (22 - length str) 32 @ bytes_of (fm_kind c) @ num) \<and>
    (if n_type c = VFS_FILE then denotes 10 (unat (n_size c)) num else num = [])"
proof -
  obtain num where num: "utoa_string (n_size c) 10 = ret num" "denotes 10 (unat (n_size c)) num" "length num \<le> 64"
    using utoa_string_decimal by blast
  have k: "bytes_of (if n_type c = VFS_DIR then ''dir    '' else ''file   '') = bytes_of (fm_kind c)" "length (bytes_of (fm_kind c)) = 7"
    by (simp_all add: fm_kind_def bytes_of_def)
  show ?thesis using assms num k by (simp add: fm_line_def Let_def pad_loop_eq)
qed

lemma copied_name:
  assumes "length (cstr name) < 20" "length junk = 96"
  shows "array_str (strncpy_buf 20 (cstr name) (junk[0 := 0])) = ret (cstr name)"
proof -
  have "strncpy_buf 20 (cstr name) (junk[0 := 0]) = cstr name @ 0 # replicate (19 - length (cstr name)) 0 @ drop 20 (junk[0 := 0])"
    using assms(1) by (simp add: strncpy_buf_def Suc_diff_Suc flip: replicate_Suc)
  then show ?thesis using cstr_no_zero [of name] by (simp add: array_str_def cstr_append_zero)
qed

lemma fm_line_cases:
  assumes "length junk = 96"
  shows "length (cstr (n_name c)) < 20 \<longrightarrow>
      (\<exists>num. fm_line junk c = ret (cstr (n_name c) @ replicate (22 - length (cstr (n_name c))) 32 @ bytes_of (fm_kind c) @ num) \<and>
        (if n_type c = VFS_FILE then denotes 10 (unat (n_size c)) num else num = []))"
    and "20 \<le> length (cstr (n_name c)) \<longrightarrow> 0 \<notin> set (drop 20 junk) \<longrightarrow> fm_line junk c = fail Overflow"
    and "20 \<le> length (cstr (n_name c)) \<longrightarrow> junk ! 20 = a \<longrightarrow> a \<noteq> 0 \<longrightarrow> junk ! 21 = 0 \<longrightarrow>
      (\<exists>num. fm_line junk c = ret (take 20 (cstr (n_name c)) @ [a, 32] @ bytes_of (fm_kind c) @ num))"
proof -
  let ?n = "cstr (n_name c)"
  show "length ?n < 20 \<longrightarrow> (\<exists>num. fm_line junk c = ret (?n @ replicate (22 - length ?n) 32 @ bytes_of (fm_kind c) @ num) \<and>
      (if n_type c = VFS_FILE then denotes 10 (unat (n_size c)) num else num = []))"
    using fm_line_parts [OF copied_name [OF _ assms], of c] by auto
  have cut: "strncpy_buf 20 ?n (junk[0 := 0]) = take 20 ?n @ drop 20 junk" if "20 \<le> length ?n"
    using that by (simp add: strncpy_buf_def)
  have nz: "0 \<notin> set (take 20 ?n)" using cstr_no_zero [of "n_name c"] by (auto dest: in_set_takeD)
  then show "20 \<le> length ?n \<longrightarrow> 0 \<notin> set (drop 20 junk) \<longrightarrow> fm_line junk c = fail Overflow"
    by (simp add: fm_line_def Let_def cut array_str_def)
  show "20 \<le> length ?n \<longrightarrow> junk ! 20 = a \<longrightarrow> a \<noteq> 0 \<longrightarrow> junk ! 21 = 0 \<longrightarrow>
      (\<exists>num. fm_line junk c = ret (take 20 ?n @ [a, 32] @ bytes_of (fm_kind c) @ num))"
  proof (intro impI)
    assume h: "20 \<le> length ?n" "junk ! 20 = a" "a \<noteq> 0" "junk ! 21 = 0"
    have "drop 20 junk = a # 0 # drop 22 junk" using assms h(2,4) by (simp add: Cons_nth_drop_Suc [symmetric])
    then have "array_str (strncpy_buf 20 ?n (junk[0 := 0])) = ret (take 20 ?n @ [a])"
      using cut [OF h(1)] nz h(3) cstr_append_zero [of "take 20 ?n @ [a]" "drop 22 junk"] by (simp add: array_str_def)
    from fm_line_parts [OF this] h(1) show "\<exists>num. fm_line junk c = ret (take 20 ?n @ [a, 32] @ bytes_of (fm_kind c) @ num)" by auto
  qed
qed

text \<open>
  The rows of the file manager. A name of fewer than 20 characters is shown whole, padded to 22 columns,
  with the kind of the entry and, for a file, its size in decimal. The copy of a longer name is not
  terminated: the row shows the name's first 20 characters followed by whatever the array held, and without
  a zero byte there the search for the end leaves the array.
\<close>

theorem fm_row_shows_entry:
  assumes "length junk = 96"
  shows "(length (cstr (n_name c)) < 20 \<longrightarrow>
      (\<exists>num. fm_line junk c = ret (cstr (n_name c) @ replicate (22 - length (cstr (n_name c))) 32 @ bytes_of (fm_kind c) @ num) \<and>
        (if n_type c = VFS_FILE then denotes 10 (unat (n_size c)) num else num = []))) \<and>
    (20 \<le> length (cstr (n_name c)) \<longrightarrow> 0 \<notin> set (drop 20 junk) \<longrightarrow> fm_line junk c = fail Overflow) \<and>
    (20 \<le> length (cstr (n_name c)) \<longrightarrow> junk ! 20 \<noteq> 0 \<longrightarrow> junk ! 21 = 0 \<longrightarrow>
      (\<exists>num. fm_line junk c = ret (take 20 (cstr (n_name c)) @ [junk ! 20, 32] @ bytes_of (fm_kind c) @ num)))"
  using fm_line_cases [OF assms, of c] by blast

theorem fm_row_shows_entry_witness:
  "fm_line (replicate 96 0x41) (node_zero\<lparr>n_name := bytes_of ''etc'' @ replicate 125 0, n_type := VFS_DIR\<rparr>) =
     ret (bytes_of ''etc'' @ replicate 19 32 @ bytes_of ''dir    '') \<and>
   fm_line (replicate 96 0x41) (node_zero\<lparr>n_name := replicate 20 0x61 @ replicate 108 0\<rparr>) = fail Overflow"
proof -
  have "cstr (bytes_of ''etc'' @ replicate 125 0) = bytes_of ''etc''"
    by (subst numeral_eq_Suc) (simp add: cstr_def bytes_of_def)
  moreover have "cstr (replicate 20 0x61 @ replicate 108 0) = replicate 20 (0x61 :: u8)"
    using cstr_append_zero [of "replicate 20 0x61" "replicate 107 0"] by (simp flip: replicate_Suc)
  ultimately show ?thesis
    using fm_row_shows_entry [of "replicate 96 0x41" "node_zero\<lparr>n_name := bytes_of ''etc'' @ replicate 125 0, n_type := VFS_DIR\<rparr>"]
      fm_row_shows_entry [of "replicate 96 0x41" "node_zero\<lparr>n_name := replicate 20 0x61 @ replicate 108 0\<rparr>"]
    by (simp add: fm_kind_def bytes_of_def)
qed

end
