(* ===== verification/H3_Desktop.thy ===== *)
theory H3_Desktop
  imports H3_Apps H3_Services
begin

text \<open>
  The desktop of \<^verbatim>\<open>desktop/desktop.c\<close>: wallpaper, icons, taskbar, start menu, action centre, snap and
  context menus, their drawing and the handling of clicks. The flags are the file's static variables;
  \<open>ctx_th\<close> is the static local of \<^verbatim>\<open>desktop_handle_mouse\<close>.
\<close>

section \<open>State\<close>

datatype theme_mode_t = THEME_DARK | THEME_LIGHT

datatype desktop_app_t = APP_TERMINAL | APP_FILES | APP_SETTINGS | APP_CALC | APP_TASKS

definition app_of :: "nat \<Rightarrow> desktop_app_t option" where
  "app_of i = (if i < 5 then Some ([APP_TERMINAL, APP_FILES, APP_SETTINGS, APP_CALC, APP_TASKS] ! i) else None)"

definition COL_TASKBAR :: u32 where
  "COL_TASKBAR = 0xE0121A22"

definition COL_START_BG :: u32 where
  "COL_START_BG = 0xF0141E28"

definition COL_ACCENT :: u32 where
  "COL_ACCENT = 0xFF2EC4B6"

definition COL_TEXT :: u32 where
  "COL_TEXT = 0xFFF3F7FA"

definition COL_MUTED :: u32 where
  "COL_MUTED = 0xFF8AA4B0"

definition COL_HOVER :: u32 where
  "COL_HOVER = 0xFF1C2E3A"

definition COL_NOTIFY :: u32 where
  "COL_NOTIFY = 0xF0162030"

definition START_W :: i32 where
  "START_W = 420"

definition START_H :: i32 where
  "START_H = 520"

definition ACTION_W :: i32 where
  "ACTION_W = 360"

record 'd desk_state = "'d app_state" +
  d_mouse :: mouse_drv
  g_theme :: theme_mode_t
  g_accent :: u32
  g_start :: bool
  g_search :: bool
  g_action :: bool
  g_ctx :: bool
  g_snap_ui :: bool
  g_click_consumed :: bool
  g_ctx_x :: i32
  g_ctx_y :: i32
  g_frame :: u32
  g_search_q :: "u8 list"
  g_search_len :: i32
  g_notify_count :: u32
  ctx_th :: bool

definition desktop_set_theme :: "theme_mode_t \<Rightarrow> ('d, 'z) desk_state_scheme \<Rightarrow> ('d, 'z) desk_state_scheme" where
  "desktop_set_theme mode s = s\<lparr>g_theme := mode\<rparr>"

definition desktop_set_accent :: "u32 \<Rightarrow> ('d, 'z) desk_state_scheme \<Rightarrow> ('d, 'z) desk_state_scheme" where
  "desktop_set_accent color s = s\<lparr>g_accent := color\<rparr>"

definition desktop_toggle_launcher :: "('d, 'z) desk_state_scheme \<Rightarrow> ('d, 'z) desk_state_scheme" where
  "desktop_toggle_launcher s =
     (let s = s\<lparr>g_start := \<not> g_start s\<rparr> in
      if g_start s then s\<lparr>g_action := False, g_search := False, g_ctx := False\<rparr> else s)"

definition desktop_launcher_open :: "('d, 'z) desk_state_scheme \<Rightarrow> bool" where
  "desktop_launcher_open s = g_start s"

definition desktop_mouse_click_consumed :: "('d, 'z) desk_state_scheme \<Rightarrow> bool" where
  "desktop_mouse_click_consumed s = g_click_consumed s"

definition desktop_toggle_snap :: "('d, 'z) desk_state_scheme \<Rightarrow> ('d, 'z) desk_state_scheme" where
  "desktop_toggle_snap s = s\<lparr>g_snap_ui := \<not> g_snap_ui s\<rparr>"

definition open_terminal :: "'z1 app_env_scheme \<Rightarrow> ('d, 'z) shell_state_scheme \<Rightarrow> ('d, 'z) shell_state_scheme run" where
  "open_terminal env s = run_bind (terminal_open (shell_env.truncate env) s) (\<lambda>(_, s). ret s)"

definition desktop_launch :: "'z1 app_env_scheme \<Rightarrow> desktop_app_t \<Rightarrow> ('d, 'z) desk_state_scheme \<Rightarrow> ('d, 'z) desk_state_scheme run" where
  "desktop_launch env app s =
     run_bind (case app of
         APP_TERMINAL \<Rightarrow> open_terminal env s
       | APP_FILES \<Rightarrow> ret (snd (filemanager_open env s))
       | APP_SETTINGS \<Rightarrow> ret (snd (settings_open env s))
       | APP_CALC \<Rightarrow> ret (snd (calculator_open env s))
       | APP_TASKS \<Rightarrow> ret (snd (taskmanager_open env s))) (\<lambda>s.
     ret (s\<lparr>g_start := False, g_search := False, g_ctx := False\<rparr>))"

definition digit :: "u64 \<Rightarrow> u8" where
  "digit v = 0x30 + ucast v"

definition format_clock :: "timer_state \<Rightarrow> u8 list" where
  "format_clock t =
     (let ms = timer_uptime_ms t; mn = (ms div 60000) mod 60; hr = (ms div 3600000) mod 24 in
      [digit (hr div 10), digit (hr mod 10), 0x3A, digit (mn div 10), digit (mn mod 10)])"

section \<open>Drawing\<close>

text \<open>
  One row of the wallpaper. The colour is a variable of the row that the column loop overwrites.
\<close>

definition wall_color :: "u32 \<Rightarrow> u32 \<Rightarrow> u32 \<Rightarrow> u32 \<Rightarrow> u32" where
  "wall_color c0 c1 h y =
     (let t = (y * 255) div (if h \<noteq> 0 then h else 1);
          mix = (\<lambda>k. ((drop_bit k c0 AND 0xFF) * (255 - t) + (drop_bit k c1 AND 0xFF) * t) div 255)
      in 0xFF000000 OR push_bit 16 (mix 16) OR push_bit 8 (mix 8) OR mix 0)"

definition wall_pixel :: "fb_t \<Rightarrow> theme_mode_t \<Rightarrow> u32 \<Rightarrow> u32 \<Rightarrow> u32 \<Rightarrow> u32 \<times> mem \<Rightarrow> u32 \<times> mem" where
  "wall_pixel g theme frame y x cm =
     (let color = (if (x + frame div 3) mod 180 < 2 \<and> y mod 3 = 0
                   then (if theme = THEME_DARK then 0xFF0E4A6A else 0xFFB8DCEC) else fst cm)
      in (color, fb_put_pixel g x y color (snd cm)))"

definition draw_wallpaper :: "fb_t \<Rightarrow> theme_mode_t \<Rightarrow> u32 \<Rightarrow> mem \<Rightarrow> mem" where
  "draw_wallpaper g theme frame m =
     (let c0 = (if theme = THEME_DARK then 0xFF0A3D62 else 0xFF4AA3C7);
          c1 = (if theme = THEME_DARK then 0xFF061820 else 0xFFD6EAF2) in
      fold (\<lambda>y m. snd (fold (\<lambda>x. wall_pixel g theme frame (of_nat y) (of_nat x)) [0..<unat (fb_width g)]
                          (wall_color c0 c1 (fb_height g) (of_nat y), m)))
        [0..<unat (fb_height g - TASKBAR_H)] m)"

definition g_icons :: "(string \<times> desktop_app_t \<times> i32 \<times> i32) list" where
  "g_icons = [(''This PC'', APP_FILES, 28, 40), (''Files'', APP_FILES, 28, 120), (''Terminal'', APP_TERMINAL, 28, 200),
     (''Settings'', APP_SETTINGS, 28, 280), (''Recycle Bin'', APP_FILES, 28, 360)]"

definition draw_desktop_icons :: "fb_t \<Rightarrow> u32 \<Rightarrow> mem \<Rightarrow> mem" where
  "draw_desktop_icons g acc =
     fold (\<lambda>(label, app, x, y) m.
       let m = fb_fill_rounded_rect g x y 64 52 6 0x55101820 m;
           m = fb_fill_rounded_rect g (x + 14) (y + 6) 36 28 4 acc m
       in fb_draw_string g (x + 4) (y + 40) (bytes_of label) COL_TEXT 0xFFFFFFFF m) g_icons"

text \<open>The buttons of the open windows: at most six, 108 pixels apart.\<close>

definition task_buttons :: "wm_state \<Rightarrow> (i32 \<times> nat) list" where
  "task_buttons wm =
     (let ws = List.map_filter (\<lambda>i. wm_get (of_nat i) wm) [0..<min (unat (wm_count wm)) 6]
      in map (\<lambda>i. (520 + 108 * of_nat i, ws ! i)) [0..<length ws])"

definition task_title :: "window_t \<Rightarrow> u8 list" where
  "task_title w = take 11 (cstr (title w))"

definition draw_task_button :: "fb_t \<Rightarrow> u32 \<Rightarrow> wm_state \<Rightarrow> i32 \<Rightarrow> i32 \<times> nat \<Rightarrow> mem \<Rightarrow> mem" where
  "draw_task_button g acc wm y b m =
     (let tx = fst b; w = windows wm (snd b);
          m = fb_fill_rounded_rect g tx (y + 8) 100 32 6 (if wfocused w then acc else 0xFF1A2832) m;
          m = fb_draw_string g (tx + 8) (y + 18) (task_title w) (if wfocused w then 0xFF061018 else COL_TEXT) 0xFFFFFFFF m
      in if wstate w \<noteq> WIN_MINIMIZED then fb_fill_rect g (tx + 10) (y + 36) 80 2 acc m else m)"

definition draw_taskbar :: "('d, 'z) desk_state_scheme \<Rightarrow> mem \<Rightarrow> mem run" where
  "draw_taskbar s m =
     run_bind (if g_search s then array_str (g_search_q s) else ret (bytes_of ''Search H3OS'')) (\<lambda>query.
     let g = sh_fb s; acc = g_accent s; y = fb_height g - TASKBAR_H;
         m = fb_fill_rect g 0 y (fb_width g) TASKBAR_H COL_TASKBAR m;
         m = fb_fill_rect g 0 y (fb_width g) 1 0xFF2A3A45 m;
         m = fb_fill_rounded_rect g 8 (y + 6) 40 36 6 (if g_start s then acc else 0xFF1A2832) m;
         m = fb_draw_string g 16 (y + 18) (bytes_of ''H3'') (if g_start s then 0xFF061018 else acc) 0xFFFFFFFF m;
         m = fb_fill_rounded_rect g 56 (y + 10) 180 28 8 0xFF1A2832 m;
         m = fb_draw_string g 68 (y + 18) query COL_MUTED 0xFFFFFFFF m;
         m = fold (\<lambda>i m. let px = 250 + of_nat i * 52;
                             m = fb_fill_rounded_rect g px (y + 8) 44 32 6 0xFF1A2832 m
                         in fb_draw_string g (px + 6) (y + 18) (bytes_of ([''Term'', ''Files'', ''Set'', ''Calc'', ''Task''] ! i)) COL_TEXT 0xFFFFFFFF m) [0..<5] m;
         m = fold (draw_task_button g acc (sh_wm s) y) (task_buttons (sh_wm s)) m;
         tray = fb_width g - 210;
         m = fb_draw_string g tray (y + 18) (bytes_of ''WiFi'') COL_MUTED 0xFFFFFFFF m;
         m = fb_draw_string g (tray + 40) (y + 18) (bytes_of ''Vol'') COL_MUTED 0xFFFFFFFF m;
         m = fb_fill_rounded_rect g (tray + 78) (y + 10) 28 28 6 (if g_action s then acc else 0xFF1A2832) m;
         m = fb_draw_string g (tray + 86) (y + 18) (bytes_of ''N'') (if g_action s then 0xFF061018 else COL_TEXT) 0xFFFFFFFF m;
         m = (if g_notify_count s \<noteq> 0 then fb_fill_rect g (tray + 96) (y + 10) 8 8 0xFFE85D4C m else m);
         m = fb_draw_string g (fb_width g - 70) (y + 12) (format_clock (sh_timer s)) COL_TEXT 0xFFFFFFFF m
     in ret (fb_draw_string g (fb_width g - 78) (y + 26) (bytes_of ''Aug 6'') COL_MUTED 0xFFFFFFFF m))"

definition draw_start_menu :: "('d, 'z) desk_state_scheme \<Rightarrow> mem \<Rightarrow> mem" where
  "draw_start_menu s m =
     (if \<not> g_start s then m
      else let g = sh_fb s; acc = g_accent s; x = 8; y = fb_height g - TASKBAR_H - START_H - 8;
        m = fb_fill_rounded_rect g x y START_W START_H 12 COL_START_BG m;
        m = fb_draw_rect g x y START_W START_H acc m;
        m = fb_draw_string g (x + 24) (y + 20) (bytes_of ''H3OS'') acc 0xFFFFFFFF m;
        m = fb_draw_string g (x + 80) (y + 20) (bytes_of H3OS_TAGLINE) COL_MUTED 0xFFFFFFFF m;
        m = fb_draw_string g (x + 24) (y + 44) (bytes_of ''Pinned'') COL_MUTED 0xFFFFFFFF m;
        m = fold (\<lambda>i m. let ax = x + 24 + of_nat (i mod 4) * 94; ay = y + 70 + of_nat (i div 4) * 90;
              m = fb_fill_rounded_rect g ax ay 84 76 10 COL_HOVER m;
              m = fb_fill_rounded_rect g (ax + 22) (ay + 12) 40 32 6 acc m
            in fb_draw_string g (ax + 8) (ay + 52)
                 (bytes_of ([''Terminal'', ''File Manager'', ''Settings'', ''Calculator'', ''Task Manager'', ''Notepad'', ''Store'', ''Power''] ! i))
                 COL_TEXT 0xFFFFFFFF m) [0..<8] m;
        m = fb_draw_string g (x + 24) (y + 270) (bytes_of ''Recommended'') COL_MUTED 0xFFFFFFFF m;
        m = fb_fill_rounded_rect g (x + 24) (y + 290) 372 40 8 COL_HOVER m;
        m = fb_draw_string g (x + 40) (y + 304) (bytes_of ''Welcome to H3OS Horizon'') COL_TEXT 0xFFFFFFFF m;
        m = fb_fill_rounded_rect g (x + 24) (y + 340) 372 40 8 COL_HOVER m;
        m = fb_draw_string g (x + 40) (y + 354) (bytes_of ''Explore Settings & Themes'') COL_TEXT 0xFFFFFFFF m;
        m = fb_fill_rect g x (y + START_H - 56) START_W 56 0xFF0C141C m;
        m = fb_draw_string g (x + 24) (y + START_H - 34) (bytes_of ''user'') COL_TEXT 0xFFFFFFFF m;
        m = fb_fill_rounded_rect g (x + START_W - 120) (y + START_H - 42) 44 28 6 0xFF1A2832 m;
        m = fb_draw_string g (x + START_W - 108) (y + START_H - 34) (bytes_of ''Sleep'') COL_MUTED 0xFFFFFFFF m;
        m = fb_fill_rounded_rect g (x + START_W - 68) (y + START_H - 42) 52 28 6 0xFFE85D4C m
      in fb_draw_string g (x + START_W - 56) (y + START_H - 34) (bytes_of ''Off'') COL_TEXT 0xFFFFFFFF m)"

definition draw_action_center :: "('d, 'z) desk_state_scheme \<Rightarrow> mem \<Rightarrow> mem" where
  "draw_action_center s m =
     (if \<not> g_action s then m
      else let g = sh_fb s; acc = g_accent s; w = ACTION_W; h = 420; x = fb_width g - w - 12; y = fb_height g - TASKBAR_H - h - 8;
        m = fb_fill_rounded_rect g x y w h 12 COL_NOTIFY m;
        m = fb_draw_rect g x y w h acc m;
        m = fb_draw_string g (x + 20) (y + 20) (bytes_of ''Notification Center'') acc 0xFFFFFFFF m;
        m = fb_fill_rounded_rect g (x + 20) (y + 52) (w - 40) 56 8 COL_HOVER m;
        m = fb_draw_string g (x + 36) (y + 64) (bytes_of ''Welcome to H3OS'') COL_TEXT 0xFFFFFFFF m;
        m = fb_draw_string g (x + 36) (y + 80) (bytes_of ''The Future Starts Here.'') COL_MUTED 0xFFFFFFFF m;
        m = fb_fill_rounded_rect g (x + 20) (y + 118) (w - 40) 56 8 COL_HOVER m;
        m = fb_draw_string g (x + 36) (y + 130) (bytes_of ''System update ready'') COL_TEXT 0xFFFFFFFF m;
        m = fb_draw_string g (x + 36) (y + 146) (bytes_of ''Horizon desktop improvements'') COL_MUTED 0xFFFFFFFF m;
        m = fb_draw_string g (x + 20) (y + 200) (bytes_of ''Quick Settings'') COL_MUTED 0xFFFFFFFF m;
        m = fold (\<lambda>i m. let tx = x + 20 + of_nat (i mod 4) * 80; ty = y + 224 + of_nat (i div 4) * 70;
              m = fb_fill_rounded_rect g tx ty 72 58 8 (if i = 0 then acc else COL_HOVER) m
            in fb_draw_string g (tx + 12) (ty + 24)
                 (bytes_of ([''Wi-Fi'', ''BT'', ''Air'', ''Night'', ''Focus'', ''Cast'', ''Proj'', ''Hotspot''] ! i))
                 (if i = 0 then 0xFF061018 else COL_TEXT) 0xFFFFFFFF m) [0..<8] m
      in fb_draw_string g (x + 20) (y + 380) (bytes_of (adaptive_profile_name (sh_perf s))) COL_MUTED 0xFFFFFFFF m)"

definition draw_snap_flyout :: "('d, 'z) desk_state_scheme \<Rightarrow> mem \<Rightarrow> mem" where
  "draw_snap_flyout s m =
     (if \<not> g_snap_ui s then m
      else let g = sh_fb s; acc = g_accent s; w = 280; h = 120; x = half (fb_width g - w); y = 60;
        m = fb_fill_rounded_rect g x y w h 10 COL_START_BG m;
        m = fb_draw_string g (x + 16) (y + 14) (bytes_of ''Snap layouts'') acc 0xFFFFFFFF m
      in fold (\<lambda>i m. let px = x + 16 + of_nat i * 42; py = y + 44;
              m = fb_draw_rect g px py 36 48 COL_MUTED m;
              m = (if i = 0 then fb_fill_rect g (px + 2) (py + 2) 15 44 acc m else m);
              m = (if i = 1 then fb_fill_rect g (px + 19) (py + 2) 15 44 acc m else m);
              m = (if i = 2 then fb_fill_rect g (px + 2) (py + 2) 15 20 acc m else m);
              m = (if i = 3 then fb_fill_rect g (px + 19) (py + 2) 15 20 acc m else m);
              m = (if i = 4 then fb_fill_rect g (px + 2) (py + 26) 15 20 acc m else m)
            in if i = 5 then fb_fill_rect g (px + 19) (py + 26) 15 20 acc m else m) [0..<6] m)"

definition draw_context_menu :: "('d, 'z) desk_state_scheme \<Rightarrow> mem \<Rightarrow> mem" where
  "draw_context_menu s m =
     (if \<not> g_ctx s then m
      else let g = sh_fb s; x = g_ctx_x s; y = g_ctx_y s; w = 200; h = 168;
        m = fb_fill_rounded_rect g x y w h 8 COL_START_BG m;
        m = fb_draw_rect g x y w h 0xFF2A3A45 m
      in fold (\<lambda>i. fb_draw_string g (x + 16) (y + 14 + of_nat i * 24)
                 (bytes_of ([''View'', ''Sort by'', ''Refresh'', ''New folder'', ''Display settings'', ''Personalize''] ! i)) COL_TEXT 0xFFFFFFFF)
           [0..<6] m)"

definition draw_brand_watermark :: "('d, 'z) desk_state_scheme \<Rightarrow> mem \<Rightarrow> mem" where
  "draw_brand_watermark s m =
     (let g = sh_fb s; x = fb_width g - 220; y = fb_height g - TASKBAR_H - 70;
          m = fb_draw_string g x y (bytes_of ''H3OS'') (g_accent s) 0xFFFFFFFF m
      in fb_draw_string g x (y + 16) (bytes_of (H3OS_VERSION_STRING @ ''  '' @ H3OS_CODENAME)) COL_MUTED 0xFFFFFFFF m)"

definition desktop_init :: "'d bus \<Rightarrow> ('d, 'z) desk_state_scheme \<Rightarrow> ('d, 'z) desk_state_scheme run" where
  "desktop_init B s =
     (let s = s\<lparr>g_theme := THEME_DARK, g_accent := COL_ACCENT, g_start := False, g_search := False, g_action := False, g_ctx := False,
                g_snap_ui := False, g_frame := 0, g_search_q := (g_search_q s)[0 := 0], g_search_len := 0\<rparr> in
      run_bind (klog B LOG_INFO (bytes_of ''desktop'') (bytes_of ''Windows-style Horizon shell ready'') [] (sh_log s)) (\<lambda>l.
      ret (s\<lparr>sh_log := l\<rparr>)))"

definition desktop_render :: "'z1 app_env_scheme \<Rightarrow> ('d, 'z) desk_state_scheme \<Rightarrow> ('d, 'z) desk_state_scheme run" where
  "desktop_render env s =
     (let g = sh_fb s;
          m = draw_wallpaper g (g_theme s) (g_frame s) (sh_mem s);
          m = draw_desktop_icons g (g_accent s) m;
          m = draw_brand_watermark s m in
      run_bind (wm_render g (sh_perf s) (call_draw env s) (sh_wm s) m) (\<lambda>m.
      let m = draw_start_menu s m;
          m = draw_action_center s m;
          m = draw_snap_flyout s m;
          m = draw_context_menu s m in
      run_bind (draw_taskbar s m) (\<lambda>m.
      run_bind (run_of (mouse_draw_cursor g (d_mouse s) m)) (\<lambda>m.
      ret (set_mem (fb_swap g m) s)))))"

definition desktop_tick :: "('d, 'z) desk_state_scheme \<Rightarrow> ('d, 'z) desk_state_scheme" where
  "desktop_tick s = (if animations (sh_perf s) then s\<lparr>g_frame := g_frame s + 1\<rparr> else s)"

section \<open>Clicks\<close>

text \<open>
  A click ends with a state of the desktop, or with the processor halted when it switches the power
  off. The parts of \<^verbatim>\<open>desktop_handle_mouse\<close> are tried in the order of the code; a part that returns
  early ends the chain, the others close their popup and go on.
\<close>

type_synonym ('d, 'z) desk_step = "(('d, 'z) desk_state_scheme + 'd halted) run"

definition consumed :: "('d, 'z) desk_state_scheme \<Rightarrow> ('d, 'z) desk_step" where
  "consumed s = ret (Inl (s\<lparr>g_click_consumed := True\<rparr>))"

definition switch_off :: "'d bus \<Rightarrow> ('d, 'z) desk_state_scheme \<Rightarrow> ('d, 'z) desk_step" where
  "switch_off B s = run_bind (power_shutdown B (sh_log s)) (\<lambda>h. ret (Inr h))"

definition in_box :: "mouse_state_t \<Rightarrow> i32 \<Rightarrow> i32 \<Rightarrow> i32 \<Rightarrow> i32 \<Rightarrow> bool" where
  "in_box m x y w h \<longleftrightarrow> x \<le>s m_x m \<and> m_x m <s x + w \<and> y \<le>s m_y m \<and> m_y m <s y + h"

text \<open>Signed division by a positive number, which truncates.\<close>

definition trunc_div :: "i32 \<Rightarrow> i32 \<Rightarrow> i32" where
  "trunc_div v d = (if v <s 0 then - ((- v) div d) else v div d)"

definition taskbar_click :: "'z1 app_env_scheme \<Rightarrow> mouse_state_t \<Rightarrow> ('d, 'z) desk_state_scheme \<Rightarrow> ('d, 'z) desk_step" where
  "taskbar_click env m s =
     (let s = s\<lparr>g_ctx := False\<rparr>; x = m_x m; g = sh_fb s; tray = fb_width g - 210 in
      if 8 \<le>s x \<and> x <s 48 then consumed (desktop_toggle_launcher s)
      else if 56 \<le>s x \<and> x <s 236 then consumed (s\<lparr>g_search := True, g_start := False, g_action := False\<rparr>)
      else if 250 \<le>s x \<and> x <s 250 + 5 * 52
      then (case app_of (unat (trunc_div (x - 250) 52)) of
              Some app \<Rightarrow> run_bind (desktop_launch env app s) consumed
            | None \<Rightarrow> consumed s)
      else (case find (\<lambda>i. 520 + 108 * of_nat i \<le>s x \<and> x <s 520 + 108 * of_nat i + 100) [0..<min (unat (wm_count (sh_wm s))) 6] of
              Some i \<Rightarrow> consumed (s\<lparr>sh_wm := wm_restore_or_focus (wm_get (of_nat i) (sh_wm s)) (sh_wm s)\<rparr>)
            | None \<Rightarrow>
                if tray + 78 \<le>s x \<and> x <s tray + 106 then consumed (s\<lparr>g_action := \<not> g_action s, g_start := False\<rparr>)
                else if fb_width g - 90 \<le>s x then consumed (s\<lparr>g_action := \<not> g_action s\<rparr>)
                else consumed s))"

definition icon_click :: "'z1 app_env_scheme \<Rightarrow> mouse_state_t \<Rightarrow> ('d, 'z) desk_state_scheme \<Rightarrow> ('d, 'z) desk_step" where
  "icon_click env m s =
     (case find (\<lambda>(label, app, x, y). in_box m x y 64 64) g_icons of
        Some (label, app, x, y) \<Rightarrow> run_bind (desktop_launch env app s) consumed
      | None \<Rightarrow> ret (Inl s))"

definition context_click :: "'z1 app_env_scheme \<Rightarrow> mouse_state_t \<Rightarrow> ('d, 'z) desk_state_scheme \<Rightarrow> ('d, 'z) desk_step" where
  "context_click env m s =
     (if \<not> g_ctx s then icon_click env m s
      else if in_box m (g_ctx_x s) (g_ctx_y s) 200 168
      then let item = trunc_div (m_y m - g_ctx_y s - 10) 24 in
        run_bind (if item = 4 then desktop_launch env APP_SETTINGS s else ret s) (\<lambda>s.
        let s = (if item = 5
                 then (let s = s\<lparr>ctx_th := \<not> ctx_th s\<rparr> in desktop_set_theme (if ctx_th s then THEME_LIGHT else THEME_DARK) s)
                 else s)
        in consumed (s\<lparr>g_ctx := False\<rparr>))
      else icon_click env m (s\<lparr>g_ctx := False\<rparr>))"

definition snap_click :: "'z1 app_env_scheme \<Rightarrow> mouse_state_t \<Rightarrow> ('d, 'z) desk_state_scheme \<Rightarrow> ('d, 'z) desk_step" where
  "snap_click env m s =
     (if \<not> g_snap_ui s then context_click env m s
      else let g = sh_fb s; x = half (fb_width g - 280) in
        (case (if in_box m x 60 280 120 then find (\<lambda>i. x + 16 + of_nat i * 42 \<le>s m_x m \<and> m_x m <s x + 16 + of_nat i * 42 + 36) [0..<6] else None) of
           Some i \<Rightarrow> consumed (s\<lparr>sh_wm := wm_snap g (wm_focused (sh_wm s)) (of_nat i) (sh_wm s), g_snap_ui := False\<rparr>)
         | None \<Rightarrow> context_click env m (s\<lparr>g_snap_ui := False\<rparr>)))"

definition action_click :: "'z1 app_env_scheme \<Rightarrow> mouse_state_t \<Rightarrow> ('d, 'z) desk_state_scheme \<Rightarrow> ('d, 'z) desk_step" where
  "action_click env m s =
     (let g = sh_fb s in
      if \<not> g_action s then snap_click env m s
      else if in_box m (fb_width g - ACTION_W - 12) (fb_height g - TASKBAR_H - 420 - 8) ACTION_W 420
      then consumed (s\<lparr>g_notify_count := 0\<rparr>)
      else snap_click env m (s\<lparr>g_action := False\<rparr>))"

definition start_menu_click :: "'d bus \<Rightarrow> 'z1 app_env_scheme \<Rightarrow> mouse_state_t \<Rightarrow> ('d, 'z) desk_state_scheme \<Rightarrow> ('d, 'z) desk_step" where
  "start_menu_click B env m s =
     (let sx = 8; sy = fb_height (sh_fb s) - TASKBAR_H - START_H - 8 in
      case find (\<lambda>i. in_box m (sx + 24 + of_nat (i mod 4) * 94) (sy + 70 + of_nat (i div 4) * 90) 84 76) [0..<8] of
        Some i \<Rightarrow>
          (case app_of i of
             Some app \<Rightarrow> run_bind (desktop_launch env app s) consumed
           | None \<Rightarrow> if i = 7 then switch_off B s else run_bind (open_terminal env s) consumed)
      | None \<Rightarrow> if sx + START_W - 68 \<le>s m_x m \<and> sy + START_H - 42 \<le>s m_y m then switch_off B s else consumed s)"

definition start_click :: "'d bus \<Rightarrow> 'z1 app_env_scheme \<Rightarrow> mouse_state_t \<Rightarrow> ('d, 'z) desk_state_scheme \<Rightarrow> ('d, 'z) desk_step" where
  "start_click B env m s =
     (if \<not> g_start s then action_click env m s
      else if in_box m 8 (fb_height (sh_fb s) - TASKBAR_H - START_H - 8) START_W START_H then start_menu_click B env m s
      else action_click env m (s\<lparr>g_start := False\<rparr>))"

definition desktop_handle_mouse :: "'d bus \<Rightarrow> 'z1 app_env_scheme \<Rightarrow> ('d, 'z) desk_state_scheme \<Rightarrow> ('d, 'z) desk_step" where
  "desktop_handle_mouse B env s =
     (let m = mouse_get (d_mouse s); s = s\<lparr>g_click_consumed := False\<rparr>; tb = fb_height (sh_fb s) - TASKBAR_H in
      if m_right_pressed m \<and> m_y m <s tb \<and> wm_at (m_x m) (m_y m) (sh_wm s) = None
      then consumed (s\<lparr>g_ctx := True, g_ctx_x := m_x m, g_ctx_y := m_y m, g_start := False, g_action := False, g_search := False\<rparr>)
      else if \<not> m_left_pressed m then ret (Inl s)
      else if tb \<le>s m_y m then taskbar_click env m s
      else start_click B env m s)"

section \<open>Clicks that are not consumed\<close>

text \<open>What is left of a state when every popup is closed and the click goes on to the windows.\<close>

definition popups_closed :: "('d, 'z) desk_state_scheme \<Rightarrow> ('d, 'z) desk_state_scheme" where
  "popups_closed s = s\<lparr>g_start := False, g_action := False, g_snap_ui := False, g_ctx := False\<rparr>"

definition passes :: "('d, 'z) desk_step \<Rightarrow> ('d, 'z) desk_state_scheme \<Rightarrow> bool" where
  "passes r s \<longleftrightarrow> (\<forall>s'. r = ret (Inl s') \<longrightarrow> g_click_consumed s' \<or> s' = s)"

lemma passes_consumed: "passes (consumed s') s" "passes (run_bind r consumed) s" "passes (switch_off B s') s"
  by (auto simp: passes_def consumed_def switch_off_def run_bind_ret)

lemma icon_click_passes: "passes (icon_click env m s) s"
  by (auto simp: icon_click_def passes_consumed split: option.splits) (simp add: passes_def)

lemma context_click_passes: "passes (context_click env m s) (s\<lparr>g_ctx := False\<rparr>)"
proof (cases "g_ctx s")
  case True
  have "passes (run_bind r (\<lambda>s. consumed (f s))) t" for r t and f :: "('a, 'b) desk_state_scheme \<Rightarrow> ('a, 'b) desk_state_scheme"
    by (auto simp: passes_def consumed_def run_bind_ret)
  then show ?thesis using True icon_click_passes [of env m "s\<lparr>g_ctx := False\<rparr>"] by (simp add: context_click_def Let_def)
next
  case False
  then have e: "s\<lparr>g_ctx := False\<rparr> = s" by simp
  show ?thesis unfolding e using False icon_click_passes [of env m s] by (simp add: context_click_def)
qed

lemma snap_click_passes: "passes (snap_click env m s) (s\<lparr>g_snap_ui := False, g_ctx := False\<rparr>)"
proof (cases "g_snap_ui s")
  case True
  then show ?thesis
    using context_click_passes [of env m "s\<lparr>g_snap_ui := False\<rparr>"]
    by (auto simp: snap_click_def Let_def passes_consumed split: option.splits)
next
  case False
  then have e: "s\<lparr>g_snap_ui := False, g_ctx := False\<rparr> = s\<lparr>g_ctx := False\<rparr>" by simp
  show ?thesis unfolding e using False context_click_passes [of env m s] by (simp add: snap_click_def)
qed

lemma action_click_passes: "passes (action_click env m s) (s\<lparr>g_action := False, g_snap_ui := False, g_ctx := False\<rparr>)"
proof (cases "g_action s")
  case True
  then show ?thesis
    using snap_click_passes [of env m "s\<lparr>g_action := False\<rparr>"] by (auto simp: action_click_def Let_def passes_consumed)
next
  case False
  then have e: "s\<lparr>g_action := False, g_snap_ui := False, g_ctx := False\<rparr> = s\<lparr>g_snap_ui := False, g_ctx := False\<rparr>" by simp
  show ?thesis unfolding e using False snap_click_passes [of env m s] by (simp add: action_click_def Let_def)
qed

lemma start_click_passes: "passes (start_click B env m s) (popups_closed s)"
proof (cases "g_start s")
  case True
  have "passes (start_menu_click B env m s) t" for t
    by (auto simp: start_menu_click_def Let_def passes_consumed split: option.splits)
  then show ?thesis
    using True action_click_passes [of env m "s\<lparr>g_start := False\<rparr>"] by (auto simp: start_click_def popups_closed_def)
next
  case False
  then have "popups_closed s = s\<lparr>g_action := False, g_snap_ui := False, g_ctx := False\<rparr>" by (simp add: popups_closed_def)
  then show ?thesis using False action_click_passes [of env m s] by (simp add: start_click_def)
qed

lemma taskbar_click_consumes: "taskbar_click env m s = ret (Inl s') \<Longrightarrow> g_click_consumed s'"
  by (auto simp: taskbar_click_def Let_def consumed_def run_bind_ret split: if_splits option.splits)

section \<open>Callbacks of the windows\<close>

text \<open>Every window's callbacks are functions of the applications, or none.\<close>

definition callbacks_ok :: "'z1 app_env_scheme \<Rightarrow> wm_state \<Rightarrow> bool" where
  "callbacks_ok env wm \<longleftrightarrow>
     (\<forall>i. wdraw (windows wm i) \<in> {NULL, fn_term_draw env, fn_fm_draw env, fn_tm_draw env, fn_calc_draw env, fn_settings_draw env} \<and>
          on_key (windows wm i) \<in> {NULL, fn_term_key env})"

definition same_callbacks :: "wm_state \<Rightarrow> wm_state \<Rightarrow> bool" where
  "same_callbacks wm wm' \<longleftrightarrow> (\<forall>i. wdraw (windows wm' i) = wdraw (windows wm i) \<and> on_key (windows wm' i) = on_key (windows wm i))"

lemma same_callbacks_ok: "same_callbacks wm wm' \<Longrightarrow> callbacks_ok env wm \<Longrightarrow> callbacks_ok env wm'"
  by (simp add: same_callbacks_def callbacks_ok_def)

lemma same_callbacks_trans: "same_callbacks a b \<Longrightarrow> same_callbacks b c \<Longrightarrow> same_callbacks a c"
  by (simp add: same_callbacks_def)

lemma same_callbacks_set_win:
  "(\<And>k. wdraw (f k) = wdraw k \<and> on_key (f k) = on_key k) \<Longrightarrow> same_callbacks wm (set_win i f wm)"
  by (simp add: same_callbacks_def set_win_def)

lemma same_callbacks_fields [simp]:
  "same_callbacks wm wm" "same_callbacks wm (wm'\<lparr>focused := a\<rparr>) = same_callbacks wm wm'"
  "same_callbacks wm (wm'\<lparr>win_count := n\<rparr>) = same_callbacks wm wm'" "same_callbacks wm (wm'\<lparr>dragging := d\<rparr>) = same_callbacks wm wm'"
  "same_callbacks wm (wm'\<lparr>drag_win := a\<rparr>) = same_callbacks wm wm'" "same_callbacks wm (wm'\<lparr>drag_off_x := x\<rparr>) = same_callbacks wm wm'"
  "same_callbacks wm (wm'\<lparr>drag_off_y := x\<rparr>) = same_callbacks wm wm'"
  by (simp_all add: same_callbacks_def)

lemma wm_focus_callbacks [simp]: "same_callbacks wm (wm_focus win wm)"
  by (simp add: same_callbacks_def wm_focus_def set_win_def Let_def split: option.split)

lemma wm_destroy_callbacks [simp]: "same_callbacks wm (wm_destroy win wm)"
  by (simp add: same_callbacks_def wm_destroy_def set_win_def Let_def split: option.split)

lemma wm_restore_callbacks [simp]: "same_callbacks wm (wm_restore_or_focus win wm)"
  using wm_focus_callbacks [of wm win] by (auto simp: same_callbacks_def wm_restore_or_focus_def set_win_def split: option.split)

lemma wm_move_callbacks [simp]: "same_callbacks wm (wm_move win x y wm)"
  by (simp add: same_callbacks_def wm_move_def set_win_def split: option.split)

lemma wm_set_state_callbacks [simp]: "same_callbacks wm (wm_set_state g win st wm)"
  by (simp add: same_callbacks_def wm_set_state_def set_win_def save_geometry_def Let_def split: option.split)

lemma wm_snap_callbacks [simp]: "same_callbacks wm (wm_snap g win l wm)"
proof (cases win)
  case (Some w)
  have sg: "same_callbacks wm (set_win w save_geometry wm)" for wm by (rule same_callbacks_set_win) (simp add: save_geometry_def)
  have sn: "same_callbacks wm (set_win w (\<lambda>k. (snap_geometry g l k)\<lparr>wstate := WIN_NORMAL\<rparr>) wm)" for wm
    by (rule same_callbacks_set_win) (simp add: snap_geometry_def Let_def)
  show ?thesis using Some sg sn same_callbacks_trans wm_set_state_callbacks by (simp add: wm_snap_def Let_def) blast
qed (simp add: wm_snap_def)

lemma drag_step_callbacks: "same_callbacks wm (drag_step g m w wm)"
proof -
  have r: "same_callbacks wm (wm_set_state g (Some w) WIN_NORMAL wm)" by simp
  have mv: "same_callbacks wm (wm_move (Some w) x y wm')" if "same_callbacks wm wm'" for x y wm'
    using that wm_move_callbacks same_callbacks_trans by blast
  show ?thesis by (auto simp: drag_step_def Let_def intro!: mv)
qed

lemma press_step_callbacks: "same_callbacks wm (press_step g m w wm)"
proof -
  have f: "same_callbacks wm (wm_focus (Some w) wm)" by simp
  have mini: "same_callbacks wm' (set_win w (\<lambda>k. k\<lparr>wstate := WIN_MINIMIZED\<rparr>) wm')" for wm'
    by (rule same_callbacks_set_win) simp
  note t = same_callbacks_trans [OF f]
  show ?thesis by (auto simp: press_step_def Let_def intro: t mini)
qed

lemma wm_handle_mouse_callbacks: "same_callbacks wm (wm_handle_mouse g drv wm)"
  by (auto simp: wm_handle_mouse_def Let_def drag_step_callbacks press_step_callbacks split: option.split)

lemma wm_create_callbacks:
  assumes "callbacks_ok env wm"
  shows "callbacks_ok env (snd (wm_create p ttl x y w h wm))"
proof -
  have "callbacks_ok env (set_win i (\<lambda>_. k) wm)" if "wdraw k = NULL" "on_key k = NULL" for i k
    using assms that by (simp add: callbacks_ok_def set_win_def)
  moreover have "callbacks_ok env (wm'\<lparr>win_count := n\<rparr>) = callbacks_ok env wm'" for wm' n by (simp add: callbacks_ok_def)
  ultimately show ?thesis
    using assms
    by (auto simp: wm_create_def Let_def window_zero_def split: option.splits intro!: same_callbacks_ok [OF wm_focus_callbacks])
qed

section \<open>What the desktop keeps\<close>

text \<open>
  A property that the desktop keeps: it is an invariant of the shell, says that the callbacks are known and stays true when
  windows with known callbacks, the flags of the desktop or the file manager's path change.
\<close>

definition step_keeps :: "(('d, 'z) desk_state_scheme \<Rightarrow> bool) \<Rightarrow> ('d, 'z) desk_step \<Rightarrow> bool" where
  "step_keeps P r \<longleftrightarrow> (\<forall>s'. r = ret (Inl s') \<longrightarrow> P s')"

lemma step_keeps_intros:
  "P (s\<lparr>g_click_consumed := True\<rparr>) \<Longrightarrow> step_keeps P (consumed s)" "P s \<Longrightarrow> step_keeps P (ret (Inl s))" "step_keeps P (switch_off B t)"
  by (auto simp: step_keeps_def consumed_def switch_off_def run_bind_ret)

lemma step_keeps_splits:
  "(b \<Longrightarrow> step_keeps P r1) \<Longrightarrow> (\<not> b \<Longrightarrow> step_keeps P r2) \<Longrightarrow> step_keeps P (if b then r1 else r2)"
  "(opt = None \<Longrightarrow> step_keeps P r1) \<Longrightarrow> (\<And>a. opt = Some a \<Longrightarrow> step_keeps P (f a)) \<Longrightarrow> step_keeps P (case opt of None \<Rightarrow> r1 | Some a \<Rightarrow> f a)"
  "(\<And>a b. pr = (a, b) \<Longrightarrow> step_keeps P (g a b)) \<Longrightarrow> step_keeps P (case pr of (a, b) \<Rightarrow> g a b)"
  by (auto split: option.split prod.split)

locale desk_invariant = shell_invariant P for P :: "('d, 'z) desk_state_scheme \<Rightarrow> bool" +
  fixes env :: "'z1 app_env_scheme"
  assumes known: "P s \<Longrightarrow> callbacks_ok env (sh_wm s)"
    and on_wm: "P s \<Longrightarrow> callbacks_ok env wm \<Longrightarrow> P (s\<lparr>sh_wm := wm\<rparr>)"
    and on_flags:
      "P (s\<lparr>g_start := b\<rparr>) = P s" "P (s\<lparr>g_search := b\<rparr>) = P s" "P (s\<lparr>g_action := b\<rparr>) = P s" "P (s\<lparr>g_ctx := b\<rparr>) = P s"
      "P (s\<lparr>g_snap_ui := b\<rparr>) = P s" "P (s\<lparr>g_click_consumed := b\<rparr>) = P s" "P (s\<lparr>g_ctx_x := x\<rparr>) = P s" "P (s\<lparr>g_ctx_y := x\<rparr>) = P s"
      "P (s\<lparr>g_notify_count := n\<rparr>) = P s" "P (s\<lparr>ctx_th := b\<rparr>) = P s" "P (s\<lparr>g_theme := th\<rparr>) = P s" "P (s\<lparr>g_frame := n\<rparr>) = P s"
      "P (s\<lparr>fm_path := p\<rparr>) = P s" "P (s\<lparr>ap_sched := q\<rparr>) = P s"
begin

lemma same_wm: "P s \<Longrightarrow> same_callbacks (sh_wm s) wm \<Longrightarrow> P (s\<lparr>sh_wm := wm\<rparr>)"
  by (auto intro: on_wm same_callbacks_ok known)

lemma open_window_keeps:
  assumes "P s" "\<And>k. wdraw (f k) \<in> {fn_fm_draw env, fn_tm_draw env, fn_calc_draw env, fn_settings_draw env} \<and> on_key (f k) = on_key k"
  shows "P (snd (open_window ttl x y w h f s))"
proof -
  obtain win wm where wm: "wm_create (sh_perf s) (Some (bytes_of ttl)) x y w h (sh_wm s) = (win, wm)" by fastforce
  then have ok: "callbacks_ok env wm"
    using wm_create_callbacks [of env "sh_wm s" "sh_perf s" "Some (bytes_of ttl)" x y w h] known [OF assms(1)] by simp
  then have "callbacks_ok env (set_win i f wm)" for i using assms(2) by (auto simp: callbacks_ok_def set_win_def)
  then show ?thesis using ok wm assms(1) by (auto simp: open_window_def intro: on_wm split: option.splits)
qed

lemma open_terminal_keeps:
  assumes "P s"
  shows "ensures P (open_terminal env s)"
proof -
  let ?s1 = "s\<lparr>sh_term := term_zero, sh_pe := pe_set_console (fn_write env) (fn_writeln env) (sh_pe s)\<rparr>"
  let ?set = "\<lambda>c d. \<lambda>k. k\<lparr>bg := c, accent := d, user := term_at env, wdraw := fn_term_draw env, on_key := fn_term_key env\<rparr>"
  have s1: "P ?s1" using assms by (intro on_pe on_term term_zero_ok)
  have wm: "callbacks_ok env (snd (wm_create p ttl x y w h (sh_wm s)))" for p ttl x y w h
    using known [OF assms] wm_create_callbacks by blast
  then have "callbacks_ok env (set_win i (?set c d) (snd (wm_create p ttl x y w h (sh_wm s))))" for p ttl x y w h i c d
    by (auto simp: callbacks_ok_def set_win_def)
  then have cb: "P (?s1\<lparr>sh_wm := snd (wm_create p ttl x y w h (sh_wm s))\<rparr>)"
    "P (?s1\<lparr>sh_wm := set_win i (?set c d) (snd (wm_create p ttl x y w h (sh_wm s)))\<rparr>)" for p ttl x y w h i c d
    using on_wm [OF s1] wm by blast+
  show ?thesis
    using cb
    by (auto simp: open_terminal_def terminal_open_def Let_def split_beta run_bind_assoc shell_env.defs simp del: sh_seq_simps
        split: option.split intro!: ensures_ret ensures_bind [OF sh_seq_keeps(1)] sh_seq_keeps print_keeps)
qed

lemma desktop_launch_keeps:
  assumes "P s"
  shows "ensures P (desktop_launch env app s)"
proof -
  have "ensures P (case app of
         APP_TERMINAL \<Rightarrow> open_terminal env s
       | APP_FILES \<Rightarrow> ret (snd (filemanager_open env s))
       | APP_SETTINGS \<Rightarrow> ret (snd (settings_open env s))
       | APP_CALC \<Rightarrow> ret (snd (calculator_open env s))
       | APP_TASKS \<Rightarrow> ret (snd (taskmanager_open env s)))"
    using assms open_terminal_keeps [OF assms]
    by (cases app) (auto simp: filemanager_open_def settings_open_def calculator_open_def taskmanager_open_def on_flags
        intro!: ensures_ret open_window_keeps)
  then show ?thesis unfolding desktop_launch_def by (rule ensures_bind) (auto intro: ensures_ret simp: on_flags)
qed

lemma bind_consumed: "ensures P r \<Longrightarrow> step_keeps P (run_bind r consumed)"
  by (auto simp: step_keeps_def ensures_def run_bind_ret consumed_def on_flags)

lemma bind_menu:
  "ensures P r \<Longrightarrow> (\<And>s. P s \<Longrightarrow> P (f s)) \<Longrightarrow> step_keeps P (run_bind r (\<lambda>s. consumed (f s)))"
  by (auto simp: step_keeps_def consumed_def ensures_def run_bind_ret on_flags)

lemmas step_rules = step_keeps_intros step_keeps_splits bind_consumed

lemma icon_click_keeps: "P s \<Longrightarrow> step_keeps P (icon_click env m s)"
  unfolding icon_click_def by (intro step_rules desktop_launch_keeps) auto

lemma context_click_keeps: "P s \<Longrightarrow> step_keeps P (context_click env m s)"
  unfolding context_click_def Let_def
  by (intro step_keeps_splits bind_menu ensures_splits icon_click_keeps desktop_launch_keeps ensures_ret)
    (simp_all add: desktop_set_theme_def on_flags)

lemma snap_click_keeps: "P s \<Longrightarrow> step_keeps P (snap_click env m s)"
  unfolding snap_click_def Let_def by (intro step_rules context_click_keeps) (simp_all add: same_wm on_flags)

lemma action_click_keeps: "P s \<Longrightarrow> step_keeps P (action_click env m s)"
  unfolding action_click_def Let_def by (intro step_rules snap_click_keeps) (simp_all add: on_flags)

lemma start_menu_click_keeps: "P s \<Longrightarrow> step_keeps P (start_menu_click B env m s)"
  unfolding start_menu_click_def Let_def by (intro step_rules desktop_launch_keeps open_terminal_keeps) (simp_all add: on_flags)

lemma start_click_keeps: "P s \<Longrightarrow> step_keeps P (start_click B env m s)"
  unfolding start_click_def by (intro step_rules start_menu_click_keeps action_click_keeps) (simp_all add: on_flags)

lemma taskbar_click_keeps: "P s \<Longrightarrow> step_keeps P (taskbar_click env m s)"
  unfolding taskbar_click_def Let_def
  by (intro step_rules desktop_launch_keeps) (simp_all add: desktop_toggle_launcher_def Let_def same_wm on_flags)

lemma handle_mouse_keeps: "P s \<Longrightarrow> step_keeps P (desktop_handle_mouse B env s)"
  unfolding desktop_handle_mouse_def Let_def by (intro step_rules start_click_keeps taskbar_click_keeps) (simp_all add: on_flags)

lemma desktop_tick_keeps: "P s \<Longrightarrow> P (desktop_tick s)"
  by (simp add: desktop_tick_def on_flags)

lemma desktop_render_keeps: "P s \<Longrightarrow> ensures P (desktop_render env s)"
  unfolding desktop_render_def Let_def by (intro ensures_pure ensures_ret on_mem)

lemma desktop_init_keeps:
  assumes "\<And>s v. P (s\<lparr>g_accent := v\<rparr>) = P s" "\<And>s q. P (s\<lparr>g_search_q := q\<rparr>) = P s" "\<And>s n. P (s\<lparr>g_search_len := n\<rparr>) = P s"
  shows "P s \<Longrightarrow> ensures P (desktop_init B s)"
  unfolding desktop_init_def Let_def by (intro ensures_pure ensures_ret on_log) (simp add: on_flags assms)

end

definition desk_ok :: "'z1 app_env_scheme \<Rightarrow> ('d, 'z) shell_state_scheme \<Rightarrow> bool" where
  "desk_ok env s \<longleftrightarrow> term_ok (sh_term s) \<and> callbacks_ok env (sh_wm s)"

interpretation desk_inv: desk_invariant "desk_ok env" env for env
  by unfold_locales (simp_all add: desk_ok_def)

section \<open>Wallpaper and clock\<close>

lemma mod_complement:
  fixes f p :: nat
  assumes "0 < p"
  shows "((p - f mod p) mod p + f) mod p = 0"
proof -
  have "((p - f mod p) mod p + f) mod p = ((p - f mod p) + f mod p) mod p" by (simp add: mod_add_eq mod_simps)
  then show ?thesis using assms by simp
qed

lemma wall_row_color:
  assumes "y mod 3 = 0" "unat (frame div 3) + n < 2 ^ 32" "180 \<le> n"
  shows "fst (fold (\<lambda>x. wall_pixel g theme frame y (of_nat x)) [0..<n] (c, m)) = (if theme = THEME_DARK then 0xFF0E4A6A else 0xFFB8DCEC)"
proof -
  let ?glow = "if theme = THEME_DARK then 0xFF0E4A6A else 0xFFB8DCEC :: u32"
  let ?row = "\<lambda>k. fold (\<lambda>x. wall_pixel g theme frame y (of_nat x)) [0..<k] (c, m)"
  let ?k = "(180 - unat (frame div 3) mod 180) mod 180"
  have k: "?k < n" using assms(3) by (rule order.strict_trans2 [rotated]) simp
  have hit: "(of_nat ?k + frame div 3) mod 180 < (2 :: u32)"
  proof -
    have "unat (of_nat j + frame div 3) = j + unat (frame div 3)" if "j < n" for j
      using assms(2) that by (simp add: unat_word_ariths take_bit_eq_mod unat_of_nat)
    from this [OF k] have "unat (of_nat ?k + frame div 3) = ?k + unat (frame div 3)" .
    moreover have "(?k + unat (frame div 3)) mod 180 = 0" by (rule mod_complement) simp
    ultimately have "unat ((of_nat ?k + frame div 3) mod 180) = 0" by (simp only: unat_mod_distrib) simp
    then show ?thesis by (simp add: word_less_nat_alt)
  qed
  have next_color: "fst (?row (Suc j)) = (if (of_nat j + frame div 3) mod 180 < 2 \<and> y mod 3 = 0 then ?glow else fst (?row j))" for j
    by (simp add: wall_pixel_def Let_def del: fold_simps)
  have "fst (?row (Suc j)) = ?glow" if "?k \<le> j" for j
    using that
  proof (induction j rule: dec_induct)
    case base
    then show ?case unfolding next_color using hit assms(1) by presburger
  next
    case (step j)
    then show ?case unfolding next_color [of "Suc j"] by presburger
  qed
  from this [of "n - 1"] k show ?thesis by (cases n) auto
qed

lemma format_clock_value:
  assumes "timer_uptime_ms t = ms"
  shows "format_clock t = map (\<lambda>k. 0x30 + of_nat k) [unat ms div 3600000 mod 24 div 10, unat ms div 3600000 mod 24 mod 10] @ [0x3A] @
    map (\<lambda>k. 0x30 + of_nat k) [unat ms div 60000 mod 60 div 10, unat ms div 60000 mod 60 mod 10]"
proof -
  have d: "digit v = 0x30 + of_nat (unat v)" for v by (simp add: digit_def)
  show ?thesis using assms by (simp add: format_clock_def Let_def d unat_div_distrib unat_mod_distrib)
qed

section \<open>Properties\<close>

text \<open>
  (C36) Where a click goes. Without a press of a button the handler only clears the flag. A left press
  on the task bar is always taken by the desktop. A left press that the desktop does not take leaves the
  state as it was, with every popup closed, for the window manager.
\<close>

theorem desktop_click_routing:
  fixes s :: "('d, 'z) desk_state_scheme"
  assumes "desktop_handle_mouse B env s = ret (Inl s')"
  defines "m \<equiv> mouse_get (d_mouse s)"
  shows "(\<not> m_left_pressed m \<and> \<not> m_right_pressed m \<longrightarrow> s' = s\<lparr>g_click_consumed := False\<rparr>) \<and>
    (m_left_pressed m \<and> fb_height (sh_fb s) - TASKBAR_H \<le>s m_y m \<longrightarrow> g_click_consumed s') \<and>
    (m_left_pressed m \<and> \<not> g_click_consumed s' \<longrightarrow> s' = popups_closed (s\<lparr>g_click_consumed := False\<rparr>))"
proof -
  have t: "taskbar_click env m (s\<lparr>g_click_consumed := False\<rparr>) = ret (Inl s') \<Longrightarrow> g_click_consumed s'"
    by (rule taskbar_click_consumes)
  have p: "start_click B env m (s\<lparr>g_click_consumed := False\<rparr>) = ret (Inl s') \<Longrightarrow>
      g_click_consumed s' \<or> s' = popups_closed (s\<lparr>g_click_consumed := False\<rparr>)"
    using start_click_passes [of B env m "s\<lparr>g_click_consumed := False\<rparr>"] by (simp add: passes_def)
  have c: "consumed u = ret (Inl s') \<Longrightarrow> g_click_consumed s'" for u by (auto simp: consumed_def)
  show ?thesis
    using assms(1) t p unfolding desktop_handle_mouse_def m_def [symmetric] Let_def
    by (auto split: if_splits dest: c)
qed

definition desk_example :: "mouse_drv \<Rightarrow> wm_state \<Rightarrow> fb_t \<Rightarrow> u8 list desk_state" where
  "desk_example drv wm g =
     (let s = shell_example root_fs in
      \<lparr>sh_term = sh_term s, sh_vfs = root_fs, sh_pe = sh_pe s, sh_log = sh_log s, sh_wm = wm, sh_fb = g, sh_cpu = sh_cpu s,
       sh_perf = sh_perf s, sh_timer = sh_timer s, fm_path = replicate 128 0, ap_sched = sched_example, d_mouse = drv,
       g_theme = THEME_DARK, g_accent = COL_ACCENT, g_start = False, g_search = False, g_action = False, g_ctx = False,
       g_snap_ui = False, g_click_consumed = False, g_ctx_x = 0, g_ctx_y = 0, g_frame = 0, g_search_q = replicate 48 0,
       g_search_len = 0, g_notify_count = 2, ctx_th = False\<rparr>)"

definition app_env_example :: app_env where
  "app_env_example = shell_env.extend env_example
     \<lparr>fn_fm_draw = 0x150, fm_at = 0x160, fn_tm_draw = 0x170, fn_calc_draw = 0x180, fn_settings_draw = 0x190,
      fm_junk = (\<lambda>_. replicate 96 0)\<rparr>"

definition big_fb :: fb_t where
  "big_fb = fb_zero\<lparr>fb_width := 1280, fb_height := 720\<rparr>"

theorem desktop_click_routing_witness:
  "\<exists>s'. desktop_handle_mouse serial_dev app_env_example ((desk_example (pointer 600 300 True True) wm_boot big_fb)\<lparr>g_action := True\<rparr>) = ret (Inl s') \<and>
     s' = popups_closed (desk_example (pointer 600 300 True True) wm_boot big_fb)"
proof -
  let ?s = "(desk_example (pointer 600 300 True True) wm_boot big_fb)\<lparr>g_action := True\<rparr>"
  have "desktop_handle_mouse serial_dev app_env_example ?s = ret (Inl (?s\<lparr>g_action := False\<rparr>))"
    by (simp add: desktop_handle_mouse_def Let_def desk_example_def big_fb_def fb_zero_def pointer_def mouse_get_def mouse_zero_def mouse_idle_def
        TASKBAR_H_def ACTION_W_def start_click_def action_click_def snap_click_def context_click_def icon_click_def g_icons_def in_box_def)
  moreover have flags: "m_left_pressed (mouse_get (d_mouse ?s))" "\<not> g_click_consumed (?s\<lparr>g_action := False\<rparr>)"
    by (simp_all add: desk_example_def Let_def pointer_def mouse_get_def)
  moreover from desktop_click_routing [OF calculation(1)]
  have "?s\<lparr>g_action := False\<rparr> = popups_closed (?s\<lparr>g_click_consumed := False\<rparr>)"
    using flags by blast
  moreover have "popups_closed (?s\<lparr>g_click_consumed := False\<rparr>) = popups_closed (desk_example (pointer 600 300 True True) wm_boot big_fb)"
    by (simp add: popups_closed_def desk_example_def Let_def)
  ultimately show ?thesis by simp
qed





end
