(* ===== verification/H3_Seed.thy ===== *)
theory H3_Seed
  imports H3_Pe H3_Vfs H3_Log
begin

text \<open>
  The sample program of \<^verbatim>\<open>sdk/samples/hello_exe.h\<close> and its installation by \<^verbatim>\<open>loader/pe_seed.c\<close>. The bytes are
  those of the header file; \<open>hello_at\<close> is the address of the array in the kernel's image.
\<close>

definition hello_exe :: "u8 list" where
  "hello_exe =
     [0x4D, 0x5A, 0x00, 0x00, 0x00, 0x00, 0x00, 0x00, 0x00, 0x00, 0x00, 0x00,
      0x00, 0x00, 0x00, 0x00, 0x00, 0x00, 0x00, 0x00, 0x00, 0x00, 0x00, 0x00,
      0x00, 0x00, 0x00, 0x00, 0x00, 0x00, 0x00, 0x00, 0x00, 0x00, 0x00, 0x00,
      0x00, 0x00, 0x00, 0x00, 0x00, 0x00, 0x00, 0x00, 0x00, 0x00, 0x00, 0x00,
      0x00, 0x00, 0x00, 0x00, 0x00, 0x00, 0x00, 0x00, 0x00, 0x00, 0x00, 0x00,
      0x80, 0x00, 0x00, 0x00, 0x00, 0x00, 0x00, 0x00, 0x00, 0x00, 0x00, 0x00,
      0x00, 0x00, 0x00, 0x00, 0x00, 0x00, 0x00, 0x00, 0x00, 0x00, 0x00, 0x00,
      0x00, 0x00, 0x00, 0x00, 0x00, 0x00, 0x00, 0x00, 0x00, 0x00, 0x00, 0x00,
      0x00, 0x00, 0x00, 0x00, 0x00, 0x00, 0x00, 0x00, 0x00, 0x00, 0x00, 0x00,
      0x00, 0x00, 0x00, 0x00, 0x00, 0x00, 0x00, 0x00, 0x00, 0x00, 0x00, 0x00,
      0x00, 0x00, 0x00, 0x00, 0x00, 0x00, 0x00, 0x00, 0x50, 0x45, 0x00, 0x00,
      0x64, 0x86, 0x01, 0x00, 0x00, 0x00, 0x00, 0x00, 0x00, 0x00, 0x00, 0x00,
      0x00, 0x00, 0x00, 0x00, 0xF0, 0x00, 0x22, 0x00, 0x0B, 0x02, 0x0E, 0x00,
      0x00, 0x02, 0x00, 0x00, 0x00, 0x00, 0x00, 0x00, 0x00, 0x00, 0x00, 0x00,
      0x00, 0x10, 0x00, 0x00, 0x00, 0x10, 0x00, 0x00, 0x00, 0x00, 0x00, 0x40,
      0x01, 0x00, 0x00, 0x00, 0x00, 0x10, 0x00, 0x00, 0x00, 0x02, 0x00, 0x00,
      0x06, 0x00, 0x00, 0x00, 0x00, 0x00, 0x01, 0x00, 0x03, 0x00, 0x00, 0x00,
      0x00, 0x00, 0x00, 0x00, 0x00, 0x20, 0x00, 0x00, 0x00, 0x02, 0x00, 0x00,
      0x00, 0x00, 0x00, 0x00, 0x00, 0x00, 0x00, 0x00, 0x10, 0x00, 0x00, 0x00,
      0x00, 0x00, 0x00, 0x10, 0x00, 0x00, 0x00, 0x00, 0x00, 0x00, 0x00, 0x00,
      0x10, 0x00, 0x00, 0x00, 0x00, 0x00, 0x00, 0x10, 0x00, 0x00, 0x00, 0x00,
      0x00, 0x00, 0x00, 0x00, 0x00, 0x00, 0x10, 0x00, 0x00, 0x00, 0x00, 0x00,
      0x00, 0x00, 0x00, 0x00, 0x00, 0x00, 0x00, 0x00, 0x00, 0x00, 0x00, 0x00,
      0x00, 0x00, 0x00, 0x00, 0x00, 0x00, 0x00, 0x00, 0x00, 0x00, 0x00, 0x00,
      0x00, 0x00, 0x00, 0x00, 0x00, 0x00, 0x00, 0x00, 0x00, 0x00, 0x00, 0x00,
      0x00, 0x00, 0x00, 0x00, 0x00, 0x00, 0x00, 0x00, 0x00, 0x00, 0x00, 0x00,
      0x00, 0x00, 0x00, 0x00, 0x00, 0x00, 0x00, 0x00, 0x00, 0x00, 0x00, 0x00,
      0x00, 0x00, 0x00, 0x00, 0x00, 0x00, 0x00, 0x00, 0x00, 0x00, 0x00, 0x00,
      0x00, 0x00, 0x00, 0x00, 0x00, 0x00, 0x00, 0x00, 0x00, 0x00, 0x00, 0x00,
      0x00, 0x00, 0x00, 0x00, 0x00, 0x00, 0x00, 0x00, 0x00, 0x00, 0x00, 0x00,
      0x00, 0x00, 0x00, 0x00, 0x00, 0x00, 0x00, 0x00, 0x00, 0x00, 0x00, 0x00,
      0x00, 0x00, 0x00, 0x00, 0x00, 0x00, 0x00, 0x00, 0x00, 0x00, 0x00, 0x00,
      0x00, 0x00, 0x00, 0x00, 0x00, 0x00, 0x00, 0x00, 0x2E, 0x74, 0x65, 0x78,
      0x74, 0x00, 0x00, 0x00, 0x59, 0x00, 0x00, 0x00, 0x00, 0x10, 0x00, 0x00,
      0x00, 0x02, 0x00, 0x00, 0x00, 0x02, 0x00, 0x00, 0x00, 0x00, 0x00, 0x00,
      0x00, 0x00, 0x00, 0x00, 0x00, 0x00, 0x00, 0x00, 0x20, 0x00, 0x00, 0x60,
      0x00, 0x00, 0x00, 0x00, 0x00, 0x00, 0x00, 0x00, 0x00, 0x00, 0x00, 0x00,
      0x00, 0x00, 0x00, 0x00, 0x00, 0x00, 0x00, 0x00, 0x00, 0x00, 0x00, 0x00,
      0x00, 0x00, 0x00, 0x00, 0x00, 0x00, 0x00, 0x00, 0x00, 0x00, 0x00, 0x00,
      0x00, 0x00, 0x00, 0x00, 0x00, 0x00, 0x00, 0x00, 0x00, 0x00, 0x00, 0x00,
      0x00, 0x00, 0x00, 0x00, 0x00, 0x00, 0x00, 0x00, 0x00, 0x00, 0x00, 0x00,
      0x00, 0x00, 0x00, 0x00, 0x00, 0x00, 0x00, 0x00, 0x00, 0x00, 0x00, 0x00,
      0x00, 0x00, 0x00, 0x00, 0x00, 0x00, 0x00, 0x00, 0x55, 0x48, 0x89, 0xE5,
      0x53, 0x48, 0x89, 0xFB, 0x48, 0x8B, 0x43, 0x08, 0x48, 0x8D, 0x3D, 0x14,
      0x00, 0x00, 0x00, 0xFF, 0xD0, 0x48, 0x8B, 0x43, 0x10, 0x48, 0x8D, 0x3D,
      0x25, 0x00, 0x00, 0x00, 0xFF, 0xD0, 0x31, 0xC0, 0x5B, 0x5D, 0xC3, 0x48,
      0x65, 0x6C, 0x6C, 0x6F, 0x20, 0x66, 0x72, 0x6F, 0x6D, 0x20, 0x68, 0x65,
      0x6C, 0x6C, 0x6F, 0x2E, 0x65, 0x78, 0x65, 0x20, 0x6F, 0x6E, 0x20, 0x48,
      0x33, 0x4F, 0x53, 0x21, 0x00, 0x50, 0x45, 0x33, 0x32, 0x2B, 0x20, 0x6C,
      0x6F, 0x61, 0x64, 0x65, 0x72, 0x20, 0x77, 0x6F, 0x72, 0x6B, 0x73, 0x2E,
      0x00, 0x00, 0x00, 0x00, 0x00, 0x00, 0x00, 0x00, 0x00, 0x00, 0x00, 0x00,
      0x00, 0x00, 0x00, 0x00, 0x00, 0x00, 0x00, 0x00, 0x00, 0x00, 0x00, 0x00,
      0x00, 0x00, 0x00, 0x00, 0x00, 0x00, 0x00, 0x00, 0x00, 0x00, 0x00, 0x00,
      0x00, 0x00, 0x00, 0x00, 0x00, 0x00, 0x00, 0x00, 0x00, 0x00, 0x00, 0x00,
      0x00, 0x00, 0x00, 0x00, 0x00, 0x00, 0x00, 0x00, 0x00, 0x00, 0x00, 0x00,
      0x00, 0x00, 0x00, 0x00, 0x00, 0x00, 0x00, 0x00, 0x00, 0x00, 0x00, 0x00,
      0x00, 0x00, 0x00, 0x00, 0x00, 0x00, 0x00, 0x00, 0x00, 0x00, 0x00, 0x00,
      0x00, 0x00, 0x00, 0x00, 0x00, 0x00, 0x00, 0x00, 0x00, 0x00, 0x00, 0x00,
      0x00, 0x00, 0x00, 0x00, 0x00, 0x00, 0x00, 0x00, 0x00, 0x00, 0x00, 0x00,
      0x00, 0x00, 0x00, 0x00, 0x00, 0x00, 0x00, 0x00, 0x00, 0x00, 0x00, 0x00,
      0x00, 0x00, 0x00, 0x00, 0x00, 0x00, 0x00, 0x00, 0x00, 0x00, 0x00, 0x00,
      0x00, 0x00, 0x00, 0x00, 0x00, 0x00, 0x00, 0x00, 0x00, 0x00, 0x00, 0x00,
      0x00, 0x00, 0x00, 0x00, 0x00, 0x00, 0x00, 0x00, 0x00, 0x00, 0x00, 0x00,
      0x00, 0x00, 0x00, 0x00, 0x00, 0x00, 0x00, 0x00, 0x00, 0x00, 0x00, 0x00,
      0x00, 0x00, 0x00, 0x00, 0x00, 0x00, 0x00, 0x00, 0x00, 0x00, 0x00, 0x00,
      0x00, 0x00, 0x00, 0x00, 0x00, 0x00, 0x00, 0x00, 0x00, 0x00, 0x00, 0x00,
      0x00, 0x00, 0x00, 0x00, 0x00, 0x00, 0x00, 0x00, 0x00, 0x00, 0x00, 0x00,
      0x00, 0x00, 0x00, 0x00, 0x00, 0x00, 0x00, 0x00, 0x00, 0x00, 0x00, 0x00,
      0x00, 0x00, 0x00, 0x00, 0x00, 0x00, 0x00, 0x00, 0x00, 0x00, 0x00, 0x00,
      0x00, 0x00, 0x00, 0x00, 0x00, 0x00, 0x00, 0x00, 0x00, 0x00, 0x00, 0x00,
      0x00, 0x00, 0x00, 0x00, 0x00, 0x00, 0x00, 0x00, 0x00, 0x00, 0x00, 0x00,
      0x00, 0x00, 0x00, 0x00, 0x00, 0x00, 0x00, 0x00, 0x00, 0x00, 0x00, 0x00,
      0x00, 0x00, 0x00, 0x00, 0x00, 0x00, 0x00, 0x00, 0x00, 0x00, 0x00, 0x00,
      0x00, 0x00, 0x00, 0x00, 0x00, 0x00, 0x00, 0x00, 0x00, 0x00, 0x00, 0x00,
      0x00, 0x00, 0x00, 0x00, 0x00, 0x00, 0x00, 0x00, 0x00, 0x00, 0x00, 0x00,
      0x00, 0x00, 0x00, 0x00, 0x00, 0x00, 0x00, 0x00, 0x00, 0x00, 0x00, 0x00,
      0x00, 0x00, 0x00, 0x00, 0x00, 0x00, 0x00, 0x00, 0x00, 0x00, 0x00, 0x00,
      0x00, 0x00, 0x00, 0x00, 0x00, 0x00, 0x00, 0x00, 0x00, 0x00, 0x00, 0x00,
      0x00, 0x00, 0x00, 0x00, 0x00, 0x00, 0x00, 0x00, 0x00, 0x00, 0x00, 0x00,
      0x00, 0x00, 0x00, 0x00, 0x00, 0x00, 0x00, 0x00, 0x00, 0x00, 0x00, 0x00,
      0x00, 0x00, 0x00, 0x00, 0x00, 0x00, 0x00, 0x00, 0x00, 0x00, 0x00, 0x00,
      0x00, 0x00, 0x00, 0x00, 0x00, 0x00, 0x00, 0x00, 0x00, 0x00, 0x00, 0x00,
      0x00, 0x00, 0x00, 0x00, 0x00, 0x00, 0x00, 0x00, 0x00, 0x00, 0x00, 0x00,
      0x00, 0x00, 0x00, 0x00, 0x00, 0x00, 0x00, 0x00, 0x00, 0x00, 0x00, 0x00,
      0x00, 0x00, 0x00, 0x00, 0x00, 0x00, 0x00, 0x00, 0x00, 0x00, 0x00, 0x00,
      0x00, 0x00, 0x00, 0x00]"

definition hello_exe_len :: u32 where
  "hello_exe_len = 1024"

definition pe_seed_binaries :: "'d bus \<Rightarrow> addr \<Rightarrow> vfs_state \<Rightarrow> 'd log_state \<Rightarrow> (vfs_state \<times> 'd log_state) run" where
  "pe_seed_binaries B hello_at v l =
     run_bind (vfs_mkdir (bytes_of ''/bin'') 0x1ED v) (\<lambda>(_, v).
     run_bind (vfs_create (bytes_of ''/bin/hello.exe'') 0x1ED v) (\<lambda>(hello, v).
     if hello = None then ret (v, l)
     else run_bind (vfs_write hello hello_at (ucast hello_exe_len) v) (\<lambda>(_, v).
          run_bind (klog B LOG_INFO (bytes_of ''pe'') (bytes_of ''Installed /bin/hello.exe (%u bytes)'') [Slot (ucast hello_exe_len)] l) (\<lambda>l.
          ret (v, l)))))"

section \<open>The sample is a program for the loader\<close>

definition hello_info :: pe_info_t where
  "hello_info = \<lparr>valid = True, is_pe32plus = True, pe_machine = 0x8664, entry_rva = 0x1000, image_base = 0x140000000,
     size_of_image = 0x2000, size_of_headers = 0x200, number_of_sections = 1, pe_error = None\<rparr>"

lemma hello_exe_length: "length hello_exe = 1024"
  unfolding hello_exe_def by simp

lemma hello_slices:
  "take 2 (drop 0 hello_exe) = [0x4d, 0x5a]"
  "take 4 (drop 60 hello_exe) = [0x80, 0, 0, 0]"
  "take 4 (drop 128 hello_exe) = [0x50, 0x45, 0, 0]"
  "take 2 (drop 132 hello_exe) = [0x64, 0x86]"
  "take 2 (drop 134 hello_exe) = [0x1, 0]"
  "take 2 (drop 148 hello_exe) = [0xf0, 0]"
  "take 2 (drop 152 hello_exe) = [0xb, 0x2]"
  "take 4 (drop 168 hello_exe) = [0, 0x10, 0, 0]"
  "take 8 (drop 176 hello_exe) = [0, 0, 0, 0x40, 0x1, 0, 0, 0]"
  "take 4 (drop 208 hello_exe) = [0, 0x20, 0, 0]"
  "take 4 (drop 212 hello_exe) = [0, 0x2, 0, 0]"
  "take 4 (drop 260 hello_exe) = [0, 0, 0, 0]"
  "take 4 (drop 404 hello_exe) = [0, 0x10, 0, 0]"
  "take 4 (drop 408 hello_exe) = [0, 0x2, 0, 0]"
  "take 4 (drop 412 hello_exe) = [0, 0x2, 0, 0]"
  unfolding hello_exe_def by simp_all

lemma hello_words:
  "word_of_bytes (take 2 (drop 0 hello_exe)) = (0x5a4d :: u16)"
  "word_of_bytes (take 4 (drop 60 hello_exe)) = (0x80 :: u32)"
  "word_of_bytes (take 4 (drop 128 hello_exe)) = (0x4550 :: u32)"
  "word_of_bytes (take 2 (drop 132 hello_exe)) = (0x8664 :: u16)"
  "word_of_bytes (take 2 (drop 134 hello_exe)) = (0x1 :: u16)"
  "word_of_bytes (take 2 (drop 148 hello_exe)) = (0xf0 :: u16)"
  "word_of_bytes (take 2 (drop 152 hello_exe)) = (0x20b :: u16)"
  "word_of_bytes (take 4 (drop 168 hello_exe)) = (0x1000 :: u32)"
  "word_of_bytes (take 8 (drop 176 hello_exe)) = (0x140000000 :: u64)"
  "word_of_bytes (take 4 (drop 208 hello_exe)) = (0x2000 :: u32)"
  "word_of_bytes (take 4 (drop 212 hello_exe)) = (0x200 :: u32)"
  "word_of_bytes (take 4 (drop 260 hello_exe)) = (0x0 :: u32)"
  "word_of_bytes (take 4 (drop 404 hello_exe)) = (0x1000 :: u32)"
  "word_of_bytes (take 4 (drop 408 hello_exe)) = (0x200 :: u32)"
  "word_of_bytes (take 4 (drop 412 hello_exe)) = (0x200 :: u32)"
  unfolding hello_slices by (simp_all add: word_of_bytes_def)

lemma hello_fields:
  assumes "peek m data 1024 = hello_exe"
  shows "i + 2 \<le> 1024 \<Longrightarrow> load16 m (data + of_nat i) = word_of_bytes (take 2 (drop i hello_exe))"
    "i + 4 \<le> 1024 \<Longrightarrow> load32 m (data + of_nat i) = word_of_bytes (take 4 (drop i hello_exe))"
    "i + 8 \<le> 1024 \<Longrightarrow> load64 m (data + of_nat i) = word_of_bytes (take 8 (drop i hello_exe))"
  using peek_sub [of i _ 1024 m data] by (simp_all add: load16_def load32_def load64_def assms)

lemma hello_headers:
  assumes "peek m data 1024 = hello_exe"
  shows "dos_header m data = \<lparr>e_magic = 0x5A4D, e_lfanew = 128\<rparr>"
    "coff_header m (data + 128) = \<lparr>signature = 0x4550, machine = 0x8664, coff_sections = 1, size_of_optional_header = 240\<rparr>"
    "optional_header m (data + 152) = \<lparr>opt_magic = 0x20B, address_of_entry_point = 0x1000, opt_image_base = 0x140000000,
       opt_size_of_image = 0x2000, opt_size_of_headers = 0x200, number_of_rva_and_sizes = 0\<rparr>"
    "section_header m (data + 392) = \<lparr>virtual_address = 0x1000, size_of_raw_data = 512, pointer_to_raw_data = 512\<rparr>"
    "peek m (data + 128) 4 = [0x50, 0x45, 0, 0]"
proof -
  note f = hello_fields [OF assms]
  show "dos_header m data = \<lparr>e_magic = 0x5A4D, e_lfanew = 128\<rparr>"
    using f(1) [of 0] f(2) [of 60] hello_words by (simp add: dos_header_def add.commute [of data])
  show "coff_header m (data + 128) = \<lparr>signature = 0x4550, machine = 0x8664, coff_sections = 1, size_of_optional_header = 240\<rparr>"
    using f(2) [of 128] f(1) [of 132] f(1) [of 134] f(1) [of 148] hello_words by (simp add: coff_header_def add.commute [of data])
  show "optional_header m (data + 152) = \<lparr>opt_magic = 0x20B, address_of_entry_point = 0x1000, opt_image_base = 0x140000000,
       opt_size_of_image = 0x2000, opt_size_of_headers = 0x200, number_of_rva_and_sizes = 0\<rparr>"
    using f(1) [of 152] f(2) [of 168] f(3) [of 176] f(2) [of 208] f(2) [of 212] f(2) [of 260] hello_words by (simp add: optional_header_def add.commute [of data])
  show "section_header m (data + 392) = \<lparr>virtual_address = 0x1000, size_of_raw_data = 512, pointer_to_raw_data = 512\<rparr>"
    using f(2) [of 404] f(2) [of 408] f(2) [of 412] hello_words by (simp add: section_header_def add.commute [of data])
  show "peek m (data + 128) 4 = [0x50, 0x45, 0, 0]"
    using peek_sub [of 128 4 1024 m data] hello_slices by (simp add: assms)
qed

lemma hello_probe:
  assumes "peek m data 1024 = hello_exe" "data \<noteq> 0"
  shows "pe_probe m data 1024 = (True, hello_info)"
proof -
  note h = hello_headers [OF assms(1)]
  have "m (data + 128) = 0x50" "m (data + 128 + 1) = 0x45" "m (data + 128 + 2) = 0" "m (data + 128 + 3) = 0"
    using h(5) by (simp_all add: peek_def upt_rec numeral_eq_Suc)
  then show ?thesis
    using h(1-3) assms(2)
    by (simp add: pe_probe_def Let_def DOS_HEADER_SIZE_def COFF_HEADER_SIZE_def OPTIONAL_SIZE_def IMAGE_FILE_MACHINE_AMD64_def NULL_def hello_info_def add.commute [of data])
qed

lemma hello_image:
  "pe_image hello_exe 512 8192 [\<lparr>virtual_address = 0x1000, size_of_raw_data = 512, pointer_to_raw_data = 512\<rparr>] =
     take 512 hello_exe @ replicate 3584 0 @ drop 512 hello_exe @ replicate 3584 0"
  by (simp add: pe_image_def place_def overwrite_def Let_def hello_exe_length)

text \<open>
  (C40) The sample program runs. Let the page allocator's invariant hold, let the 1024 bytes of \<^verbatim>\<open>hello_exe\<close> lie at an address other than 0 in pages that
  the allocator has handed out, and let it have two free pages in a row. Then \<^verbatim>\<open>pe_run\<close> accepts the file, lays it out as its headers say, with the headers in the first 512 bytes, the code at
  offset 4096 and zeros elsewhere, changes no other byte, logs the start, calls the program at its first instruction, and returns and logs the
  code given to \<^verbatim>\<open>exit\<close>, or the program's result if it did not call \<^verbatim>\<open>exit\<close>.
\<close>

theorem hello_exe_runs:
  fixes h :: heap_state
  assumes "pmm_inv (heap_pmm h)" "\<And>x. in_range x data 1024 \<Longrightarrow> x \<in> owned (heap_pmm h)"
    and exe: "peek (heap_mem h) data 1024 = hello_exe" "data \<noteq> 0"
    and alloc: "pmm_alloc_pages 2 (heap_pmm h) = Some (img, pmm)" "img \<noteq> 0"
  shows "\<exists>m. peek m img 8192 = take 512 hello_exe @ replicate 3584 0 @ drop 512 hello_exe @ replicate 3584 0 \<and>
    (\<forall>x. \<not> in_range x img 8192 \<longrightarrow> m x = heap_mem h x) \<and>
    (\<forall>rc h' s' code start.
      start = PeLog LOG_INFO ''Running %s entry=%p size=%u'' [shown_name name, Slot (img + 0x1000), Slot 0x2000] \<longrightarrow>
      program (img + 0x1000) (h\<lparr>heap_pmm := pmm, heap_mem := m\<rparr>)
        (s\<lparr>g_exited := False, g_exit_code := 0, pe_output := pe_output s @ [start]\<rparr>) = (rc, h', s') \<longrightarrow>
      code = (if g_exited s' then g_exit_code s' else rc) \<longrightarrow>
      pe_run program data (ucast hello_exe_len) name h s =
        ret (code, h', s'\<lparr>pe_output := pe_output s' @ [PeLog LOG_INFO ''%s exited with %d'' [shown_name name, Slot (ucast code)]]\<rparr>))"
proof -
  note hd = hello_headers [OF exe(1)]
  have info: "entry_rva hello_info = 0x1000" "unat (size_of_image hello_info) = 8192" "unat (size_of_headers hello_info) = 512"
    "entry_rva hello_info < size_of_image hello_info" "size_of_image hello_info = 0x2000" by (simp_all add: hello_info_def)
  have pages: "H3OS_ALIGN_UP (ucast (size_of_image hello_info)) PAGE_SIZE div PAGE_SIZE = 2" by code_simp
  have secs: "section_list (heap_mem h) data hello_info = [\<lparr>virtual_address = 0x1000, size_of_raw_data = 512, pointer_to_raw_data = 512\<rparr>]"
    using hd by (simp add: section_list_def section_table_def Let_def hello_info_def COFF_HEADER_SIZE_def add.commute [of data])
  have ends: "headers_end (heap_mem h) data hello_info \<le> unat (1024 :: u64)" using hd(1,2) by (simp add: headers_end_def hello_info_def)
  have own: "x \<in> owned (heap_pmm h)" if "in_range x data (unat (1024 :: u64))" for x using assms(2) that by simp
  have casts: "ucast (0x1000 :: u32) = (0x1000 :: u64)" "ucast (128 :: u32) = (128 :: u64)" "unat (1024 :: u64) = 1024" by simp_all
  have lf: "e_lfanew (dos_header (heap_mem h) data) = 128" using hd(1) by simp
  have "\<exists>m. peek m img 8192 = take 512 hello_exe @ replicate 3584 0 @ drop 512 hello_exe @ replicate 3584 0 \<and>
      (\<forall>x. \<not> in_range x img 8192 \<longrightarrow> m x = heap_mem h x) \<and>
      (\<forall>x. in_range x img 8192 \<longrightarrow> x \<notin> owned (heap_pmm h) \<and> x \<in> owned pmm) \<and>
      pe_run program data 1024 name h s =
        run_bind (run_of (apply_relocations img img (image_base hello_info) (data + 128 + COFF_HEADER_SIZE) m)) (\<lambda>m'.
          ret (call_entry program name (img + 0x1000) 0x2000 (h\<lparr>heap_pmm := pmm, heap_mem := m'\<rparr>) s))"
    using pe_run_image [OF assms(1) own _ hello_probe [OF exe] ends info(4), of img pmm program name s, unfolded pages]
    unfolding info(1-3) info(5) secs exe(1) casts lf using alloc by (simp add: hello_image)
  then obtain m where m: "peek m img 8192 = take 512 hello_exe @ replicate 3584 0 @ drop 512 hello_exe @ replicate 3584 0"
    "\<forall>x. \<not> in_range x img 8192 \<longrightarrow> m x = heap_mem h x" "\<forall>x. in_range x img 8192 \<longrightarrow> x \<notin> owned (heap_pmm h) \<and> x \<in> owned pmm"
    "pe_run program data 1024 name h s =
        run_bind (run_of (apply_relocations img img (image_base hello_info) (data + 128 + COFF_HEADER_SIZE) m)) (\<lambda>m'.
          ret (call_entry program name (img + 0x1000) 0x2000 (h\<lparr>heap_pmm := pmm, heap_mem := m'\<rparr>) s))" by blast
  have same: "m x = heap_mem h x" if "in_range x data 1024" for x using m(2,3) assms(2) [OF that] by blast
  have "peek m data 1024 = hello_exe" using peek_cong [OF same] exe(1) by simp
  then have "apply_relocations img img (image_base hello_info) (data + 128 + COFF_HEADER_SIZE) m = Some m"
    using hello_headers(3) [of m data] by (simp add: apply_relocations_def COFF_HEADER_SIZE_def add.commute [of data])
  then have "pe_run program data (ucast hello_exe_len) name h s =
      ret (call_entry program name (img + 0x1000) 0x2000 (h\<lparr>heap_pmm := pmm, heap_mem := m\<rparr>) s)"
    using m(4) by (simp add: hello_exe_len_def)
  then show ?thesis using m(1,2) by (intro exI [of _ m] conjI) (auto simp: call_entry_def pe_klog_def Let_def)
qed

text \<open>A machine whose first page holds the sample and is in use.\<close>

definition hello_heap :: heap_state where
  "hello_heap = exe_heap\<lparr>heap_mem := poke (\<lambda>_. 0) 0x100 hello_exe\<rparr>"

lemma hello_owned: "in_range x 0x100 1024 \<Longrightarrow> x \<in> owned (heap_pmm hello_heap)"
proof -
  assume "in_range x 0x100 1024"
  then have "unat x < 4096" by (simp add: in_range_nat)
  then have "x div PAGE_SIZE = 0" by (simp add: word_unat_eq_iff unat_div PAGE_SIZE_def)
  moreover have "0 \<in> taken pmm_example" using pmm_example_test [of 0] by (simp add: taken_def) (simp add: pmm_example_def)
  ultimately show ?thesis by (simp add: owned_def hello_heap_def exe_heap_def)
qed

theorem hello_exe_runs_witness:
  "\<exists>img h s. pe_run (\<lambda>a h s. (0, h, s)) 0x100 (ucast hello_exe_len) (Some (bytes_of ''hello.exe'')) hello_heap pe_idle = ret (0, h, s) \<and>
     peek (heap_mem h) img 8192 = take 512 hello_exe @ replicate 3584 0 @ drop 512 hello_exe @ replicate 3584 0"
proof -
  obtain img pmm where r: "pmm_alloc_pages 2 pmm_example = Some (img, pmm)" using pmm.alloc_returns [OF pmm_example_inv, of 2] by auto
  then have "img \<noteq> 0" using alloc_zero_iff [OF pmm_example_inv _ r] pmm_example_run by auto
  moreover have "pmm_alloc_pages 2 (heap_pmm hello_heap) = Some (img, pmm)" "pmm_inv (heap_pmm hello_heap)"
    using r pmm_example_inv by (simp_all add: hello_heap_def exe_heap_def)
  moreover have "peek (heap_mem hello_heap) 0x100 1024 = hello_exe"
    using peek_poke_same [of hello_exe "\<lambda>_. 0" "0x100"] by (simp add: hello_heap_def hello_exe_length)
  ultimately obtain m where m: "peek m img 8192 = take 512 hello_exe @ replicate 3584 0 @ drop 512 hello_exe @ replicate 3584 0"
    and run: "\<forall>rc h' s' code start.
      start = PeLog LOG_INFO ''Running %s entry=%p size=%u'' [shown_name (Some (bytes_of ''hello.exe'')), Slot (img + 0x1000), Slot 0x2000] \<longrightarrow>
      (0, hello_heap\<lparr>heap_pmm := pmm, heap_mem := m\<rparr>, pe_idle\<lparr>g_exited := False, g_exit_code := 0, pe_output := pe_output pe_idle @ [start]\<rparr>) = (rc, h', s') \<longrightarrow>
      code = (if g_exited s' then g_exit_code s' else rc) \<longrightarrow>
      pe_run (\<lambda>a h s. (0, h, s)) 0x100 (ucast hello_exe_len) (Some (bytes_of ''hello.exe'')) hello_heap pe_idle =
        ret (code, h', s'\<lparr>pe_output := pe_output s' @ [PeLog LOG_INFO ''%s exited with %d'' [shown_name (Some (bytes_of ''hello.exe'')), Slot (ucast code)]]\<rparr>)"
    using hello_exe_runs [where h = hello_heap and data = "0x100" and img = img and pmm = pmm and program = "\<lambda>a h s. (0, h, s)"
      and name = "Some (bytes_of ''hello.exe'')" and s = pe_idle] hello_owned by auto
  note run [rule_format, OF refl refl refl]
  then show ?thesis using m by (intro exI [of _ img] exI [of _ "hello_heap\<lparr>heap_pmm := pmm, heap_mem := m\<rparr>"]) auto
qed

end
