(* ===== verification/H3_Kernel.thy ===== *)
theory H3_Kernel
  imports H3_Desktop H3_Seed H3_Vmm
begin

text \<open>
  The kernel's entry point and event loop (\<^verbatim>\<open>kernel/core/main.c\<close>), and the interrupts that arrive
  while it runs. The state is that of all components; every component is started by its own
  initialisation, with the lines it writes to the log.
\<close>

section \<open>State\<close>

text \<open>
  \<open>k_running\<close> is \<^verbatim>\<open>g_running\<close> and \<open>k_th\<close> the static local of \<^verbatim>\<open>kernel_idle\<close>. The environment adds what the linker,
  the boot code and the processor provide: addresses of functions, arrays and literals, the value of the register
  \<^verbatim>\<open>cr3\<close> and the \<^verbatim>\<open>cpuid\<close> instruction.
\<close>

record 'd kernel_state = "'d desk_state" +
  k_kbd :: kbd_state
  k_irq :: irq_state
  k_gdt :: "gdt_entry_t list \<times> u16"
  k_pml4 :: addr
  k_pci :: "pci_device_t list"
  k_sec :: sec_state
  k_net :: net_iface_t
  k_ipc :: ipc_state
  k_running :: bool
  k_th :: bool

record boot_env = app_env +
  kernel_end :: u64
  early_arena :: addr
  boot_cr3 :: addr
  cpuid_insn :: cpuid_fn
  isr_stub :: "nat \<Rightarrow> addr"
  idt_at :: addr
  fn_timer_irq :: addr
  fn_kbd_irq :: addr
  fn_mouse_irq :: addr
  fallback_at :: addr
  motd_at :: addr
  release_at :: addr
  db_at :: addr
  hello_at :: addr

section \<open>Interrupts\<close>

text \<open>The branch of \<^verbatim>\<open>isr_dispatch\<close> for hardware interrupts, with the three handlers of the drivers.\<close>

definition call_irq :: "'d bus \<Rightarrow> boot_env \<Rightarrow> addr \<Rightarrow> ('d, 'z) kernel_state_scheme \<Rightarrow> ('d, 'z) kernel_state_scheme run" where
  "call_irq B env h s =
     (let l = sh_log s in
      if h = fn_timer_irq env then ret (s\<lparr>sh_timer := timer_irq (sh_timer s)\<rparr>)
      else if h = fn_kbd_irq env
      then let (k, d) = keyboard_irq B (k_kbd s) (log_dev l) in ret (s\<lparr>k_kbd := k, sh_log := l\<lparr>log_dev := d\<rparr>\<rparr>)
      else if h = fn_mouse_irq env
      then run_bind (mouse_irq B (sh_fb s) (d_mouse s) (log_dev l)) (\<lambda>(drv, d). ret (s\<lparr>d_mouse := drv, sh_log := l\<lparr>log_dev := d\<rparr>\<rparr>))
      else fail Overflow)"

definition deliver_irq :: "'d bus \<Rightarrow> boot_env \<Rightarrow> u8 \<Rightarrow> ('d, 'z) kernel_state_scheme \<Rightarrow> ('d, 'z) kernel_state_scheme run" where
  "deliver_irq B env irq s =
     (let h = irq_handlers (k_irq s) (unat irq) in
      run_bind (if h \<noteq> NULL then call_irq B env h s else ret s) (\<lambda>s.
      ret (s\<lparr>sh_log := (sh_log s)\<lparr>log_dev := irq_ack B irq (log_dev (sh_log s))\<rparr>\<rparr>)))"

section \<open>The event loop\<close>

text \<open>A call through a window's key callback.\<close>

definition call_key :: "'d bus \<Rightarrow> boot_env \<Rightarrow> addr \<Rightarrow> nat \<Rightarrow> u8 \<Rightarrow> ('d, 'z) kernel_state_scheme \<Rightarrow> ('d, 'z) kernel_state_scheme run" where
  "call_key B env fn i c s = (if fn = fn_term_key env then term_on_key B (shell_env.truncate env) c s else fail Overflow)"

definition handle_key :: "'d bus \<Rightarrow> boot_env \<Rightarrow> u8 \<Rightarrow> ('d, 'z) kernel_state_scheme \<Rightarrow> ('d, 'z) kernel_state_scheme run" where
  "handle_key B env c s =
     (if c = 20 then desktop_launch env APP_TERMINAL s
      else if c = 12 then ret (desktop_toggle_launcher s)
      else if c = 14 then ret (desktop_toggle_snap s)
      else if c = 6 then desktop_launch env APP_FILES s
      else if c = 19 then desktop_launch env APP_SETTINGS s
      else if c = 4
      then let s = s\<lparr>k_th := \<not> k_th s\<rparr> in ret (desktop_set_theme (if k_th s then THEME_LIGHT else THEME_DARK) s)
      else wm_handle_key (call_key B env) c (sh_wm s) s)"

text \<open>
  The calls of the loop in their order; interrupts arrive between any two of them. \<open>AtWait t\<close> is the
  wait for the end of the frame that began at time \<open>t\<close>.
\<close>

datatype loop_pc = AtLoop | AtKeys | AtMouse | AtWindows | AtTick | AtSched | AtRender | AtPoll | AtStart | AtWait u64

definition frame_ms :: "perf_settings_t \<Rightarrow> u64" where
  "frame_ms p = (if target_fps p \<noteq> 0 then ucast (1000 div target_fps p) else 16)"

fun idle_step :: "'d bus \<Rightarrow> boot_env \<Rightarrow> loop_pc \<Rightarrow> ('d, 'z) kernel_state_scheme
    \<Rightarrow> (loop_pc \<times> ('d, 'z) kernel_state_scheme + 'd halted) run" where
  "idle_step B env AtLoop s = (if k_running s then ret (Inl (AtKeys, s)) else ret (Inr (Halted (log_dev (sh_log s)))))"
| "idle_step B env AtKeys s =
     (case keyboard_try_read (k_kbd s) of
        (Some c, k) \<Rightarrow> run_bind (handle_key B env c (s\<lparr>k_kbd := k\<rparr>)) (\<lambda>s. ret (Inl (AtKeys, s)))
      | (None, k) \<Rightarrow> ret (Inl (AtMouse, s\<lparr>k_kbd := k\<rparr>)))"
| "idle_step B env AtMouse s =
     run_bind (desktop_handle_mouse B env s) (\<lambda>r. ret (case r of Inl s \<Rightarrow> Inl (AtWindows, s) | Inr h \<Rightarrow> Inr h))"
| "idle_step B env AtWindows s =
     ret (Inl (AtTick, if desktop_mouse_click_consumed s then s else s\<lparr>sh_wm := wm_handle_mouse (sh_fb s) (d_mouse s) (sh_wm s)\<rparr>))"
| "idle_step B env AtTick s = ret (Inl (AtSched, desktop_tick s))"
| "idle_step B env AtSched s = ret (Inl (AtRender, s\<lparr>ap_sched := sched_tick (ap_sched s)\<rparr>))"
| "idle_step B env AtRender s = run_bind (desktop_render env s) (\<lambda>s. ret (Inl (AtPoll, s)))"
| "idle_step B env AtPoll s = ret (Inl (AtStart, s\<lparr>d_mouse := mouse_poll_frame (d_mouse s)\<rparr>))"
| "idle_step B env AtStart s = ret (Inl (AtWait (timer_uptime_ms (sh_timer s)), s))"
| "idle_step B env (AtWait start) s =
     ret (Inl (if timer_uptime_ms (sh_timer s) - start < frame_ms (sh_perf s) then AtWait start else AtLoop, s))"

inductive kernel_reach :: "'d bus \<Rightarrow> boot_env \<Rightarrow> ('d, 'z) kernel_state_scheme \<Rightarrow> loop_pc \<Rightarrow> ('d, 'z) kernel_state_scheme \<Rightarrow> bool"
  for B :: "'d bus" and env :: boot_env and s0 :: "('d, 'z) kernel_state_scheme" where
  enter: "kernel_reach B env s0 AtLoop s0"
| call: "kernel_reach B env s0 pc s \<Longrightarrow> idle_step B env pc s = ret (Inl (pc', s')) \<Longrightarrow> kernel_reach B env s0 pc' s'"
| interrupt: "kernel_reach B env s0 pc s \<Longrightarrow> irq < 16 \<Longrightarrow> deliver_irq B env irq s = ret s' \<Longrightarrow> kernel_reach B env s0 pc s'"

section \<open>Booting\<close>

definition k_log :: "'d bus \<Rightarrow> log_level_t \<Rightarrow> string \<Rightarrow> u8 list \<Rightarrow> va_slot list \<Rightarrow> ('d, 'z) kernel_state_scheme \<Rightarrow> ('d, 'z) kernel_state_scheme run" where
  "k_log B level subsystem fmt ap s =
     run_bind (klog B level (bytes_of subsystem) fmt ap (sh_log s)) (\<lambda>l. ret (s\<lparr>sh_log := l\<rparr>))"

abbreviation k_info :: "'d bus \<Rightarrow> string \<Rightarrow> string \<Rightarrow> va_slot list \<Rightarrow> ('d, 'z) kernel_state_scheme \<Rightarrow> ('d, 'z) kernel_state_scheme run" where
  "k_info B subsystem fmt \<equiv> k_log B LOG_INFO subsystem (bytes_of fmt)"

abbreviation str_arg :: "string \<Rightarrow> va_slot" where
  "str_arg t \<equiv> StrSlot (Some (bytes_of t))"

abbreviation num_slot :: "'a::len word \<Rightarrow> va_slot" where
  "num_slot v \<equiv> Slot (ucast v)"

abbreviation bool_arg :: "bool \<Rightarrow> va_slot" where
  "bool_arg b \<equiv> Slot (if b then 1 else 0)"

definition on_dev :: "('d \<Rightarrow> 'a \<times> 'd) \<Rightarrow> ('d, 'z) kernel_state_scheme \<Rightarrow> 'a \<times> ('d, 'z) kernel_state_scheme" where
  "on_dev f s = (let (r, d) = f (log_dev (sh_log s)) in (r, s\<lparr>sh_log := (sh_log s)\<lparr>log_dev := d\<rparr>\<rparr>))"

definition k_heap :: "('d, 'z) kernel_state_scheme \<Rightarrow> heap_state" where
  "k_heap s = v_heap (sh_vfs s)"

definition set_heap :: "heap_state \<Rightarrow> ('d, 'z) kernel_state_scheme \<Rightarrow> ('d, 'z) kernel_state_scheme" where
  "set_heap h s = s\<lparr>sh_vfs := (sh_vfs s)\<lparr>v_heap := h\<rparr>\<rparr>"

text \<open>The dash in some of the messages, in UTF-8.\<close>

definition dash :: "u8 list" where
  "dash = [0xE2, 0x80, 0x94]"

definition banner :: "'d bus \<Rightarrow> ('d, 'z) kernel_state_scheme \<Rightarrow> ('d, 'z) kernel_state_scheme run" where
  "banner B s =
     sh_seq
       [k_info B ''boot'' ''======================================================'' [],
        k_info B ''boot'' ''  %s  v%s  (%s)'' [str_arg H3OS_NAME, str_arg H3OS_VERSION_STRING, str_arg H3OS_CODENAME],
        k_info B ''boot'' ''  %s'' [str_arg H3OS_TAGLINE],
        k_info B ''boot'' ''  Hybrid Kernel  |  x86_64  |  Multiboot2'' [],
        k_info B ''boot'' ''======================================================'' []] s"

definition boot_gdt :: "'d bus \<Rightarrow> ('d, 'z) kernel_state_scheme \<Rightarrow> ('d, 'z) kernel_state_scheme run" where
  "boot_gdt B s = k_info B ''gdt'' ''GDT loaded (5 entries)'' [] (s\<lparr>k_gdt := gdt_init\<rparr>)"

definition cpu_init :: "'d bus \<Rightarrow> boot_env \<Rightarrow> ('d, 'z) kernel_state_scheme \<Rightarrow> ('d, 'z) kernel_state_scheme run" where
  "cpu_init B env s =
     (let c = cpu_detect (cpuid_insn env) in
      sh_seq
        [k_info B ''cpu'' ''Vendor: %s'' [StrSlot (Some (cstr (vendor c)))],
         k_info B ''cpu'' ''Brand:  %s'' [StrSlot (Some (cstr (brand c)))],
         k_info B ''cpu'' ''Family %u Model %u Stepping %u | Logical CPUs: %u''
           [num_slot (family c), num_slot (model c), num_slot (stepping c), num_slot (logical_cpus c)],
         k_info B ''cpu'' ''Features: SSE2=%d AVX=%d NX=%d HugePages=%d VT=%d''
           [bool_arg (has_sse2 c), bool_arg (has_avx c), bool_arg (has_nx c), bool_arg (has_huge_pages c),
            bool_arg (has_vmx c \<or> has_svm c)]] (s\<lparr>sh_cpu := c\<rparr>))"

definition boot_pmm :: "'d bus \<Rightarrow> boot_env \<Rightarrow> addr \<Rightarrow> ('d, 'z) kernel_state_scheme \<Rightarrow> ('d, 'z) kernel_state_scheme run" where
  "boot_pmm B env mb2 s =
     (let m = heap_mem (k_heap s) in
      run_bind (run_of (mb2_find m mb2 MB2_TAG_MMAP)) (\<lambda>mmap.
      run_bind (if mmap = NULL then k_log B LOG_WARN ''pmm'' (bytes_of ''No multiboot mmap '' @ dash @ bytes_of '' using 128 MiB fallback'') [] s
                else ret s) (\<lambda>s.
      run_bind (run_of (pmm_init m mb2 (kernel_end env))) (\<lambda>p.
      let st = pmm_get_stats p in
      k_log B LOG_INFO ''pmm'' (bytes_of ''Ready '' @ dash @ bytes_of '' total %llu MiB, free %llu MiB (%llu pages free)'')
        [Slot (st_total_bytes st div (1024 * 1024)), Slot ((st_free_pages st * PAGE_SIZE) div (1024 * 1024)), Slot (st_free_pages st)]
        (set_heap ((k_heap s)\<lparr>heap_pmm := p\<rparr>) s)))))"

definition boot_kheap :: "'d bus \<Rightarrow> boot_env \<Rightarrow> ('d, 'z) kernel_state_scheme \<Rightarrow> ('d, 'z) kernel_state_scheme run" where
  "boot_kheap B env s =
     k_info B ''heap'' ''Early heap ready (%u KiB)'' [Slot (EARLY_HEAP div 1024)] (set_heap (heap_init (early_arena env) (k_heap s)) s)"

definition boot_vmm :: "'d bus \<Rightarrow> boot_env \<Rightarrow> ('d, 'z) kernel_state_scheme \<Rightarrow> ('d, 'z) kernel_state_scheme run" where
  "boot_vmm B env s =
     (let v = vmm_init (boot_cr3 env) \<lparr>vmm_mem = heap_mem (k_heap s), pml4 = k_pml4 s, vmm_pmm = heap_pmm (k_heap s)\<rparr> in
      k_info B ''vmm'' ''Using boot PML4 at %p (identity map active)'' [Slot (pml4 v)] (s\<lparr>k_pml4 := pml4 v\<rparr>))"

definition boot_idt :: "'d bus \<Rightarrow> boot_env \<Rightarrow> ('d, 'z) kernel_state_scheme \<Rightarrow> ('d, 'z) kernel_state_scheme run" where
  "boot_idt B env s =
     (let (q, s) = on_dev (idt_init B (isr_stub env) (idt_at env) (k_irq s)) s in
      sh_seq [k_info B ''pic'' ''PIC8259 remapped to vectors 32-47'' [], k_info B ''idt'' ''IDT loaded (256 vectors)'' []] (s\<lparr>k_irq := q\<rparr>))"

definition boot_timer :: "'d bus \<Rightarrow> boot_env \<Rightarrow> u32 \<Rightarrow> ('d, 'z) kernel_state_scheme \<Rightarrow> ('d, 'z) kernel_state_scheme run" where
  "boot_timer B env hz s =
     (let (t, q, d) = timer_init B (fn_timer_irq env) hz (k_irq s) (log_dev (sh_log s)) in
      k_info B ''timer'' ''PIT armed at %u Hz'' [num_slot (g_freq t)]
        (s\<lparr>sh_timer := t, k_irq := q, sh_log := (sh_log s)\<lparr>log_dev := d\<rparr>\<rparr>))"

definition rtc_init :: "'d bus \<Rightarrow> ('d, 'z) kernel_state_scheme \<Rightarrow> ('d, 'z) kernel_state_scheme run" where
  "rtc_init B s =
     run_bind (run_of (rtc_read B (log_dev (sh_log s)))) (\<lambda>(t, d).
     k_info B ''rtc'' ''CMOS time %u-%u-%u %u:%u:%u''
       [num_slot (year t), num_slot (month t), num_slot (day t), num_slot (hour t), num_slot (minute t), num_slot (second t)]
       (s\<lparr>sh_log := (sh_log s)\<lparr>log_dev := d\<rparr>\<rparr>))"

definition boot_input :: "'d bus \<Rightarrow> boot_env \<Rightarrow> ('d, 'z) kernel_state_scheme \<Rightarrow> ('d, 'z) kernel_state_scheme run" where
  "boot_input B env s =
     (let (k, q, d) = keyboard_init B (fn_kbd_irq env) (k_kbd s) (k_irq s) (log_dev (sh_log s)) in
      run_bind (k_info B ''kbd'' ''PS/2 keyboard ready (Ctrl+T terminal, Ctrl+L launcher)'' []
        (s\<lparr>k_kbd := k, k_irq := q, sh_log := (sh_log s)\<lparr>log_dev := d\<rparr>\<rparr>)) (\<lambda>s.
      let (drv, q, d) = mouse_init B (fn_mouse_irq env) (d_mouse s) (k_irq s) (log_dev (sh_log s)) in
      k_info B ''mouse'' ''PS/2 mouse ready (IRQ12)'' [] (s\<lparr>d_mouse := drv, k_irq := q, sh_log := (sh_log s)\<lparr>log_dev := d\<rparr>\<rparr>)))"

definition pci_line :: "'d bus \<Rightarrow> pci_device_t \<Rightarrow> ('d, 'z) kernel_state_scheme \<Rightarrow> ('d, 'z) kernel_state_scheme run" where
  "pci_line B dev =
     k_log B LOG_DEBUG ''pci'' (bytes_of ''  %02x:%02x.%u  %04x:%04x  class %02x:%02x'')
       [num_slot (pci_bus dev), num_slot (pci_slot dev), num_slot (pci_func dev), num_slot (pci_vendor dev), num_slot (pci_device dev),
        num_slot (class_code dev), num_slot (sub_class dev)]"

definition boot_pci :: "'d bus \<Rightarrow> ('d, 'z) kernel_state_scheme \<Rightarrow> ('d, 'z) kernel_state_scheme run" where
  "boot_pci B s =
     (let (devs, s) = on_dev (pci_init B) s in
      run_bind (k_info B ''pci'' ''Enumerated %u PCI device(s)'' [Slot (of_nat (length devs))] (s\<lparr>k_pci := devs\<rparr>)) (\<lambda>s.
      run_fold (pci_line B) (take 8 devs) s))"

definition boot_fb :: "'d bus \<Rightarrow> boot_env \<Rightarrow> addr \<Rightarrow> ('d, 'z) kernel_state_scheme \<Rightarrow> ('d, 'z) kernel_state_scheme run" where
  "boot_fb B env mb2 s =
     (let m = heap_mem (k_heap s) in
      run_bind (run_of (fb_init (fallback_at env) mb2 m (heap_pmm (k_heap s)))) (\<lambda>(g, m', p).
      run_bind (run_of (fb_mb2_find m mb2 MB2_TAG_FRAMEBUFFER)) (\<lambda>tag.
      run_bind (if tag \<noteq> NULL \<and> m (tag + 29) = 1 \<and> m (tag + 28) = 32
                then k_info B ''fb'' ''Framebuffer %ux%u@%u at %p pitch=%u''
                  [num_slot (fb_width g), num_slot (fb_height g), num_slot (fb_bpp g), Slot (fb_pixels g), num_slot (fb_pitch g)] s
                else k_log B LOG_WARN ''fb'' (bytes_of ''No GOP framebuffer '' @ dash @ bytes_of '' using software surface %ux%u'')
                  [num_slot (fb_width g), num_slot (fb_height g)] s) (\<lambda>s.
      let s = set_heap ((k_heap s)\<lparr>heap_mem := m', heap_pmm := p\<rparr>) (s\<lparr>sh_fb := g\<rparr>) in
      if fb_double g then k_info B ''fb'' ''Double buffering enabled'' [] s else ret s))))"

definition boot_adaptive :: "'d bus \<Rightarrow> ('d, 'z) kernel_state_scheme \<Rightarrow> ('d, 'z) kernel_state_scheme run" where
  "boot_adaptive B s =
     (let st = pmm_get_stats (heap_pmm (k_heap s)); p = adaptive_init st (sh_cpu s) in
      k_info B ''adaptive'' ''Profile: %s (RAM=%lluMiB CPUs=%u)''
        [str_arg (adaptive_profile_name p), Slot (st_total_bytes st div (1024 * 1024)), num_slot (logical_cpus (sh_cpu s))]
        (s\<lparr>sh_perf := p\<rparr>))"

definition boot_security :: "'d bus \<Rightarrow> ('d, 'z) kernel_state_scheme \<Rightarrow> ('d, 'z) kernel_state_scheme run" where
  "boot_security B s =
     (let u = users security_init ! 1 in
      sh_seq
        [k_info B ''security'' ''Users loaded; current=%s (uid=%u)'' [StrSlot (Some (cstr (u_name u))), num_slot (uid u)],
         k_info B ''security'' ''Memory protection + sandbox hooks armed'' []] (s\<lparr>k_sec := security_init\<rparr>))"

definition boot_vfs :: "'d bus \<Rightarrow> boot_env \<Rightarrow> ('d, 'z) kernel_state_scheme \<Rightarrow> ('d, 'z) kernel_state_scheme run" where
  "boot_vfs B env s =
     run_bind (vfs_init (motd_at env) (release_at env) (db_at env) (sh_vfs s)) (\<lambda>v.
     k_info B ''vfs'' ''RAMFS/H3FS root mounted with %u nodes'' [Slot (of_nat (node_count v))] (s\<lparr>sh_vfs := v\<rparr>))"

definition boot_pe :: "'d bus \<Rightarrow> boot_env \<Rightarrow> ('d, 'z) kernel_state_scheme \<Rightarrow> ('d, 'z) kernel_state_scheme run" where
  "boot_pe B env s =
     run_bind (k_info B ''pe'' ''PE32+ loader ready (H3OS native EXE ABI)'' [] (s\<lparr>sh_pe := pe_init (sh_pe s)\<rparr>)) (\<lambda>s.
     run_bind (pe_seed_binaries B (hello_at env) (sh_vfs s) (sh_log s)) (\<lambda>(v, l). ret (s\<lparr>sh_vfs := v, sh_log := l\<rparr>)))"

definition power_init :: "'d bus \<Rightarrow> ('d, 'z) kernel_state_scheme \<Rightarrow> ('d, 'z) kernel_state_scheme run" where
  "power_init B = k_info B ''power'' ''ACPI/power management stubs armed'' []"

definition syscall_init :: "'d bus \<Rightarrow> ('d, 'z) kernel_state_scheme \<Rightarrow> ('d, 'z) kernel_state_scheme run" where
  "syscall_init B = k_info B ''syscall'' ''Syscall table online (%d entries)'' [Slot 9]"

definition boot_services :: "'d bus \<Rightarrow> ('d, 'z) kernel_state_scheme \<Rightarrow> ('d, 'z) kernel_state_scheme run" where
  "boot_services B s =
     run_bind (sh_seq
       [\<lambda>s. k_info B ''net'' ''Loopback up 127.0.0.1/8 (IPv6 ::1 planned)'' [] (s\<lparr>k_net := net_init\<rparr>),
        k_info B ''net'' ''Protocols staged: TCP UDP ICMP DNS DHCP HTTP HTTPS'' [],
        \<lambda>s. k_info B ''ipc'' ''IPC ports ready'' [] (s\<lparr>k_ipc := ipc_init\<rparr>),
        power_init B] s) (\<lambda>s.
     run_bind (run_of (sched_init (ap_sched s))) (\<lambda>q.
     sh_seq [k_info B ''sched'' ''Scheduler ready (cooperative RR)'' [], syscall_init B] (s\<lparr>ap_sched := q\<rparr>)))"

definition boot_desktop :: "'d bus \<Rightarrow> boot_env \<Rightarrow> ('d, 'z) kernel_state_scheme \<Rightarrow> ('d, 'z) kernel_state_scheme run" where
  "boot_desktop B env s =
     sh_seq
       [\<lambda>s. k_info B ''wm'' ''Window manager online (Horizon shell)'' [] (s\<lparr>sh_wm := wm_init (sh_wm s)\<rparr>),
        desktop_init B,
        open_terminal env,
        k_info B ''boot'' ''H3OS is ready. Entering desktop event loop.'' []] s"

text \<open>
  From the entry of \<^verbatim>\<open>kernel_main\<close> to its call of \<^verbatim>\<open>kernel_idle\<close>; \<open>s\<close> holds the static variables as they are in the
  kernel's image.
\<close>

definition kernel_main :: "'d bus \<Rightarrow> boot_env \<Rightarrow> addr \<Rightarrow> ('d, 'z) kernel_state_scheme \<Rightarrow> ('d, 'z) kernel_state_scheme run" where
  "kernel_main B env mb2 s =
     run_bind (banner B (s\<lparr>sh_log := klog_init B (sh_log s)\<rparr>)) (\<lambda>s.
     if mb2 = NULL
     then run_bind (kpanic B (bytes_of ''Missing Multiboot2 information structure'') [] (sh_log s)) (\<lambda>_. ret s)
     else sh_seq
       [\<lambda>s. k_info B ''boot'' ''Multiboot2 info at %p (%u bytes)'' [Slot mb2, num_slot (load32 (heap_mem (k_heap s)) mb2)] s,
        boot_gdt B, cpu_init B env, boot_pmm B env mb2, boot_kheap B env, boot_vmm B env, boot_idt B env, boot_timer B env 100, rtc_init B,
        boot_input B env, boot_pci B, boot_fb B env mb2, boot_adaptive B, boot_security B, boot_vfs B env, boot_pe B env,
        boot_services B, boot_desktop B env] s)"

section \<open>What the loop keeps\<close>

definition kernel_ok :: "boot_env \<Rightarrow> ('d, 'z) kernel_state_scheme \<Rightarrow> bool" where
  "kernel_ok env s \<longleftrightarrow> desk_ok env s \<and> kbd_inv (k_kbd s) \<and> cycle (d_mouse s) < 3 \<and> length (packet (d_mouse s)) = 3 \<and>
     (\<forall>i. irq_handlers (k_irq s) i \<in> {NULL, fn_timer_irq env, fn_kbd_irq env, fn_mouse_irq env})"

text \<open>A property that the desktop keeps and that does not depend on the loop's own variable is kept by every key.\<close>

locale key_invariant = desk_invariant P env for P :: "('d, 'z) kernel_state_scheme \<Rightarrow> bool" and env :: boot_env +
  assumes on_th: "P (s\<lparr>k_th := b\<rparr>) = P s"
begin

lemma handle_key_keeps:
  assumes "P s"
  shows "ensures P (handle_key B env c s)"
proof -
  have "ensures P (wm_handle_key (call_key B env) c (sh_wm s) s)"
    using assms term_on_key_keeps by (auto simp: wm_handle_key_def call_key_def intro!: ensures_ret split: option.split)
  then show ?thesis
    using assms
    by (auto simp: handle_key_def Let_def desktop_toggle_launcher_def desktop_toggle_snap_def desktop_set_theme_def on_flags on_th
        intro!: ensures_ret desktop_launch_keeps)
qed

end

interpretation kernel_inv: key_invariant "kernel_ok env" env for env
  by unfold_locales (simp_all add: kernel_ok_def desk_ok_def)

lemma scancode_keeps: "kbd_inv k \<Longrightarrow> kbd_inv (kbd_scancode sc k)"
proof -
  have push: "kbd_inv (kbd_push c k)" if "kbd_inv k" for c k using that by (rule kbd.inv_push)
  have flags: "kbd_inv (k\<lparr>shift := b\<rparr>) = kbd_inv k" "kbd_inv (k\<lparr>caps := b\<rparr>) = kbd_inv k" "kbd_inv (k\<lparr>ctrl := b\<rparr>) = kbd_inv k" for b k
    by (simp_all add: kbd_inv_def)
  show "kbd_inv k \<Longrightarrow> kbd_inv (kbd_scancode sc k)"
    by (simp add: kbd_scancode_def Let_def flags push)
qed

lemma packet_frame: "length (packet s) = 3 \<Longrightarrow> length (packet (mouse_packet g s)) = 3 \<and> cycle (mouse_packet g s) = cycle s"
  by (simp add: mouse_packet_def clamp_mouse_def Let_def)

lemma mouse_byte_total:
  assumes "cycle s < 3" "length (packet s) = 3"
  shows "\<exists>s'. mouse_byte g b s = ret s' \<and> cycle s' < 3 \<and> length (packet s') = 3"
  using assms packet_frame by (auto simp: mouse_byte_def Let_def not_le)

lemma deliver_irq_safe:
  assumes "kernel_ok env s"
  shows "\<exists>s'. deliver_irq B env irq s = ret s' \<and> kernel_ok env s'"
proof -
  have ack: "kernel_ok env (t\<lparr>sh_log := l\<rparr>) = kernel_ok env t" for l and t :: "('a, 'b) kernel_state_scheme"
    by (simp add: kernel_ok_def desk_ok_def)
  let ?h = "irq_handlers (k_irq s) (unat irq)"
  obtain data d where rd: "inb B 0x60 (log_dev (sh_log s)) = (data, d)" by fastforce
  obtain drv where drv: "mouse_byte (sh_fb s) data (d_mouse s) = ret drv" "cycle drv < 3" "length (packet drv) = 3"
    using mouse_byte_total [of "d_mouse s" "sh_fb s" data] assms by (auto simp: kernel_ok_def)
  have "?h \<in> {NULL, fn_timer_irq env, fn_kbd_irq env, fn_mouse_irq env}" using assms by (simp add: kernel_ok_def)
  then have "\<exists>t. (if ?h \<noteq> NULL then call_irq B env ?h s else ret s) = ret t \<and> kernel_ok env t"
    using assms drv rd scancode_keeps
    by (auto simp: call_irq_def keyboard_irq_def mouse_irq_def kernel_ok_def desk_ok_def Let_def)
  then show ?thesis using ack by (auto simp: deliver_irq_def Let_def)
qed

lemma mouse_step: "idle_step B env AtMouse s = ret (Inl (pc, s')) \<longleftrightarrow> pc = AtWindows \<and> desktop_handle_mouse B env s = ret (Inl s')"
proof -
  have "(case r of Inl t \<Rightarrow> Inl (AtWindows, t) | Inr h \<Rightarrow> Inr h) = Inl (pc, s') \<longleftrightarrow> pc = AtWindows \<and> r = Inl s'"
    for r :: "('a, 'b) kernel_state_scheme + 'a halted" by (cases r) auto
  then show ?thesis by (auto simp: run_bind_ret)
qed

lemma idle_step_keeps:
  assumes ok: "kernel_ok env s" and step: "idle_step B env pc s = ret (Inl (pc', s'))"
  shows "kernel_ok env s'"
proof (cases pc)
  case AtKeys
  obtain r k where k: "keyboard_try_read (k_kbd s) = (r, k)" "kbd_inv k"
    using kbd.inv_pop [of "k_kbd s"] ok by (cases "keyboard_try_read (k_kbd s)") (simp add: kernel_ok_def)
  then have ok': "kernel_ok env (s\<lparr>k_kbd := k\<rparr>)" using ok by (simp add: kernel_ok_def desk_ok_def)
  from kernel_inv.handle_key_keeps [OF this] show ?thesis
    using AtKeys step k ok' by (auto simp: ensures_def run_bind_ret split: option.splits)
next
  case AtMouse
  then have "desktop_handle_mouse B env s = ret (Inl s')" using mouse_step step by blast
  then show ?thesis using kernel_inv.handle_mouse_keeps [OF ok, of B] by (simp add: step_keeps_def)
next
  case AtRender
  then show ?thesis using step kernel_inv.desktop_render_keeps [OF ok] by (auto simp: ensures_def run_bind_ret)
next
  case AtWindows
  then show ?thesis
    using step ok kernel_inv.same_wm [OF ok wm_handle_mouse_callbacks [of "sh_wm s" "sh_fb s" "d_mouse s"]] by (auto split: if_splits)
next
  case AtPoll
  then show ?thesis using step ok by (auto simp: kernel_ok_def desk_ok_def mouse_poll_frame_def)
qed (use step ok in \<open>auto simp: kernel_inv.desktop_tick_keeps kernel_inv.on_flags split: if_splits\<close>)

lemma kernel_reach_ok:
  assumes "kernel_reach B env s0 pc s" "kernel_ok env s0"
  shows "kernel_ok env s"
  using assms
proof (induction rule: kernel_reach.induct)
  case (call pc s pc' s')
  then show ?case using idle_step_keeps by blast
next
  case (interrupt pc s irq s')
  then show ?case using deliver_irq_safe [of env s B irq] by auto
qed

section \<open>Clicks and frames\<close>

text \<open>
  The part of an execution that begins when \<^verbatim>\<open>mouse_poll_frame\<close> returns: calls of the loop up to the next
  look at the mouse, and interrupts other than those of the mouse.
\<close>

inductive quiet :: "'d bus \<Rightarrow> boot_env \<Rightarrow> ('d, 'z) kernel_state_scheme \<Rightarrow> loop_pc \<Rightarrow> ('d, 'z) kernel_state_scheme \<Rightarrow> bool"
  for B :: "'d bus" and env :: boot_env and s0 :: "('d, 'z) kernel_state_scheme" where
  polled: "quiet B env s0 AtStart s0"
| quiet_call: "quiet B env s0 pc s \<Longrightarrow> pc \<noteq> AtMouse \<Longrightarrow> idle_step B env pc s = ret (Inl (pc', s')) \<Longrightarrow> quiet B env s0 pc' s'"
| quiet_irq: "quiet B env s0 pc s \<Longrightarrow> irq_handlers (k_irq s) (unat irq) \<noteq> fn_mouse_irq env \<Longrightarrow>
    deliver_irq B env irq s = ret s' \<Longrightarrow> quiet B env s0 pc s'"

definition early :: "loop_pc \<Rightarrow> bool" where
  "early pc \<longleftrightarrow> (case pc of AtStart \<Rightarrow> True | AtWait t \<Rightarrow> True | AtLoop \<Rightarrow> True | AtKeys \<Rightarrow> True | AtMouse \<Rightarrow> True | _ \<Rightarrow> False)"

text \<open>The mouse as the last \<^verbatim>\<open>mouse_poll_frame\<close> left it.\<close>

definition mouse_is :: "boot_env \<Rightarrow> mouse_drv \<Rightarrow> ('d, 'z) kernel_state_scheme \<Rightarrow> bool" where
  "mouse_is env drv s \<longleftrightarrow> kernel_ok env s \<and> d_mouse s = drv"

interpretation mouse_inv: key_invariant "mouse_is env drv" env for env drv
  by unfold_locales (auto simp: mouse_is_def kernel_ok_def desk_ok_def)

lemma call_irq_mouse:
  assumes "mouse_is env drv s" "h \<noteq> fn_mouse_irq env" "call_irq B env h s = ret s'"
  shows "d_mouse s' = drv"
  using assms by (auto simp: call_irq_def Let_def mouse_is_def split_beta split: if_splits)

lemma deliver_irq_mouse:
  assumes ok: "mouse_is env drv s" and h: "irq_handlers (k_irq s) (unat irq) \<noteq> fn_mouse_irq env"
    and r: "deliver_irq B env irq s = ret s'"
  shows "mouse_is env drv s'"
proof -
  have "kernel_ok env s'" using deliver_irq_safe [of env s B irq] ok r by (auto simp: mouse_is_def)
  moreover have "d_mouse s' = drv"
    using r ok call_irq_mouse [OF ok h, of B]
    by (auto simp: deliver_irq_def Let_def run_bind_ret mouse_is_def split: if_splits)
  ultimately show ?thesis by (simp add: mouse_is_def)
qed

lemma idle_step_mouse:
  assumes ok: "mouse_is env drv s" and step: "idle_step B env pc s = ret (Inl (pc', s'))" and pc: "early pc" "pc \<noteq> AtMouse"
  shows "mouse_is env drv s' \<and> early pc'"
proof (cases pc)
  case AtKeys
  have "kernel_ok env s'" using idle_step_keeps [OF _ step] ok by (simp add: mouse_is_def)
  obtain r k where k: "keyboard_try_read (k_kbd s) = (r, k)" "kbd_inv k"
    using kbd.inv_pop [of "k_kbd s"] ok by (cases "keyboard_try_read (k_kbd s)") (simp add: mouse_is_def kernel_ok_def)
  then have ok': "mouse_is env drv (s\<lparr>k_kbd := k\<rparr>)" using ok by (auto simp: mouse_is_def kernel_ok_def desk_ok_def)
  from mouse_inv.handle_key_keeps [OF this] show ?thesis
    using AtKeys step k ok' by (auto simp: ensures_def run_bind_ret early_def split: option.splits)
qed (use assms in \<open>auto simp: early_def split: if_splits\<close>)

lemma quiet_mouse:
  assumes "quiet B env s0 pc s" "mouse_is env drv s0"
  shows "mouse_is env drv s \<and> early pc"
  using assms
proof (induction rule: quiet.induct)
  case polled
  then show ?case by (simp add: early_def)
next
  case (quiet_call pc s pc' s')
  then show ?case using idle_step_mouse by blast
next
  case (quiet_irq pc s irq s')
  then show ?case using deliver_irq_mouse by blast
qed

lemma no_press_no_click:
  assumes "\<not> m_left_pressed (mouse_get (d_mouse s))" "\<not> m_right_pressed (mouse_get (d_mouse s))"
  shows "desktop_handle_mouse B env s = ret (Inl (s\<lparr>g_click_consumed := False\<rparr>))"
  using assms by (simp add: desktop_handle_mouse_def Let_def)

section \<open>What booting establishes\<close>

lemma seq_ensures:
  "(\<And>f s. f \<in> set fs \<Longrightarrow> P s \<Longrightarrow> ensures P (f s)) \<Longrightarrow> P s \<Longrightarrow> ensures P (sh_seq fs s)"
  unfolding sh_seq_def
proof (induction fs arbitrary: s)
  case (Cons f fs)
  have "ensures P (f s)" using Cons.prems by simp
  then show ?case using Cons by (auto intro!: ensures_bind)
qed (simp add: ensures_ret)

text \<open>A property that does not depend on what the early initialisations set.\<close>

locale boot_invariant =
  fixes P :: "('d, 'z) kernel_state_scheme \<Rightarrow> bool"
  assumes unrelated:
    "P (s\<lparr>sh_log := l\<rparr>) = P s" "P (s\<lparr>sh_vfs := v\<rparr>) = P s" "P (s\<lparr>sh_cpu := c\<rparr>) = P s" "P (s\<lparr>sh_perf := pf\<rparr>) = P s"
    "P (s\<lparr>sh_fb := g\<rparr>) = P s" "P (s\<lparr>sh_pe := pe\<rparr>) = P s" "P (s\<lparr>sh_timer := t\<rparr>) = P s" "P (s\<lparr>ap_sched := q\<rparr>) = P s"
    "P (s\<lparr>k_gdt := gd\<rparr>) = P s" "P (s\<lparr>k_pml4 := a\<rparr>) = P s" "P (s\<lparr>k_pci := ds\<rparr>) = P s" "P (s\<lparr>k_sec := u\<rparr>) = P s"
    "P (s\<lparr>k_net := n\<rparr>) = P s" "P (s\<lparr>k_ipc := i\<rparr>) = P s"
begin

lemma log_keeps: "P s \<Longrightarrow> ensures P (k_log B level subsystem fmt ap s)"
  unfolding k_log_def by (intro ensures_pure ensures_ret) (simp add: unrelated)

lemma heap_keeps: "P (set_heap h s) = P s"
  by (simp add: set_heap_def unrelated)

lemma dev_keeps: "on_dev f s = (r, s') \<Longrightarrow> P s' = P s"
  by (auto simp: on_dev_def unrelated split: prod.splits)

lemma banner_keeps: "P s \<Longrightarrow> ensures P (banner B s)"
  unfolding banner_def by (rule seq_ensures) (auto intro: log_keeps)

lemma early_keeps:
  "P s \<Longrightarrow> ensures P (boot_gdt B s)" "P s \<Longrightarrow> ensures P (boot_kheap B env s)" "P s \<Longrightarrow> ensures P (boot_vmm B env s)"
  "P s \<Longrightarrow> ensures P (boot_adaptive B s)" "P s \<Longrightarrow> ensures P (power_init B s)" "P s \<Longrightarrow> ensures P (syscall_init B s)"
  unfolding boot_gdt_def boot_kheap_def boot_vmm_def boot_adaptive_def power_init_def syscall_init_def Let_def
  by (intro log_keeps; simp add: unrelated heap_keeps)+

lemma cpu_init_keeps: "P s \<Longrightarrow> ensures P (cpu_init B env s)"
  unfolding cpu_init_def Let_def by (rule seq_ensures) (auto intro: log_keeps simp: unrelated)

lemma boot_security_keeps: "P s \<Longrightarrow> ensures P (boot_security B s)"
  unfolding boot_security_def Let_def by (rule seq_ensures) (auto intro: log_keeps simp: unrelated)

lemma rtc_init_keeps: "P s \<Longrightarrow> ensures P (rtc_init B s)"
  unfolding rtc_init_def by (intro ensures_pure ensures_splits log_keeps) (simp add: unrelated)

lemma boot_vfs_keeps: "P s \<Longrightarrow> ensures P (boot_vfs B env s)"
  unfolding boot_vfs_def by (intro ensures_pure log_keeps) (simp add: unrelated)

lemma boot_pmm_keeps: "P s \<Longrightarrow> ensures P (boot_pmm B env mb2 s)"
  unfolding boot_pmm_def Let_def
  by (intro ensures_pure ensures_bind [where P = P] ensures_splits ensures_ret log_keeps) (simp_all add: heap_keeps)

lemma boot_fb_keeps: "P s \<Longrightarrow> ensures P (boot_fb B env mb2 s)"
  unfolding boot_fb_def Let_def
  by (intro ensures_pure ensures_splits ensures_bind [where P = P] ensures_ret log_keeps) (simp_all add: heap_keeps unrelated)

lemma boot_pci_keeps: "P s \<Longrightarrow> ensures P (boot_pci B s)"
proof -
  assume ok: "P s"
  have "ensures P (run_fold (pci_line B) devs t)" if "P t" for devs t
    using that by (intro ensures_fold) (simp_all add: pci_line_def log_keeps)
  then show ?thesis
    using ok unfolding boot_pci_def Let_def
    by (intro ensures_splits ensures_bind [where P = P] log_keeps) (simp_all add: unrelated dev_keeps)
qed

lemma boot_pe_keeps: "P s \<Longrightarrow> ensures P (boot_pe B env s)"
  unfolding boot_pe_def
  by (rule ensures_bind [where P = P]) (auto intro!: log_keeps ensures_pure ensures_ret simp: unrelated)

lemma boot_services_keeps:
  assumes "P s"
  shows "ensures P (boot_services B s)"
proof -
  have net: "ensures P (k_log B level subsystem fmt ap (t\<lparr>k_net := n\<rparr>))" "ensures P (k_log B level subsystem fmt ap (t\<lparr>k_ipc := i\<rparr>))"
    if "P t" for t n i level subsystem fmt ap using that by (simp_all add: log_keeps unrelated)
  show ?thesis
    unfolding boot_services_def using assms net
    by (intro ensures_bind [where P = P] ensures_pure [of "run_of _"] seq_ensures) (auto intro: log_keeps early_keeps simp: unrelated)
qed

end

definition bss_ok :: "('d, 'z) kernel_state_scheme \<Rightarrow> bool" where
  "bss_ok s \<longleftrightarrow> term_ok (sh_term s) \<and> length (kbd_buf (k_kbd s)) = 256 \<and> length (packet (d_mouse s)) = 3"

definition irqs_ok :: "boot_env \<Rightarrow> ('d, 'z) kernel_state_scheme \<Rightarrow> bool" where
  "irqs_ok env s \<longleftrightarrow> bss_ok s \<and> (\<forall>i. irq_handlers (k_irq s) i \<in> {NULL, fn_timer_irq env, fn_kbd_irq env, fn_mouse_irq env})"

definition inputs_ok :: "boot_env \<Rightarrow> ('d, 'z) kernel_state_scheme \<Rightarrow> bool" where
  "inputs_ok env s \<longleftrightarrow> irqs_ok env s \<and> kbd_inv (k_kbd s) \<and> cycle (d_mouse s) < 3"

interpretation bss: boot_invariant bss_ok
  by unfold_locales (simp_all add: bss_ok_def)

interpretation irqs: boot_invariant "irqs_ok env" for env
  by unfold_locales (simp_all add: irqs_ok_def bss_ok_def)

interpretation inputs: boot_invariant "inputs_ok env" for env
  by unfold_locales (simp_all add: inputs_ok_def irqs_ok_def bss_ok_def)

lemma irq_install_known:
  assumes "irq_install B n h q d = (q', d')" "h \<in> S" "\<And>i. irq_handlers q i \<in> S"
  shows "irq_handlers q' i \<in> S"
  using assms by (auto simp: irq_install_def Let_def split_beta split: if_splits)

lemma boot_idt_irqs: "bss_ok s \<Longrightarrow> ensures (irqs_ok env) (boot_idt B env s)"
proof -
  assume ok: "bss_ok s"
  have "irq_handlers (fold (\<lambda>i. idt_set (of_nat i) (stub i) a) xs q) = irq_handlers q" for stub :: "nat \<Rightarrow> addr" and a xs q
    by (induction xs arbitrary: q) (simp_all add: idt_set_def)
  then have "irq_handlers (fst (idt_init B stub base q d)) i = NULL" for stub base q d i by (simp add: idt_init_def Let_def)
  moreover obtain q s' where q: "on_dev (idt_init B (isr_stub env) (idt_at env) (k_irq s)) s = (q, s')" by fastforce
  ultimately have "irq_handlers q i = NULL" for i by (auto simp: on_dev_def split: prod.splits) (metis fst_conv)
  moreover have "bss_ok s'" using bss.dev_keeps [OF q] ok by simp
  ultimately have "irqs_ok env (s'\<lparr>k_irq := q\<rparr>)" by (simp add: irqs_ok_def bss_ok_def)
  then show ?thesis
    unfolding boot_idt_def q Let_def prod.case by (intro seq_ensures) (auto intro: irqs.log_keeps)
qed

lemma boot_timer_irqs:
  assumes "irqs_ok env s"
  shows "ensures (irqs_ok env) (boot_timer B env hz s)"
proof -
  obtain t q d e where t: "timer_init B (fn_timer_irq env) hz (k_irq s) (log_dev (sh_log s)) = (t, q, d)"
    "irq_install B 0 (fn_timer_irq env) (k_irq s) e = (q, d)" unfolding timer_init_def Let_def by (metis surj_pair)
  have "irqs_ok env (s\<lparr>sh_timer := t, k_irq := q, sh_log := l\<rparr>)" for l
    using irq_install_known [OF t(2), of "{NULL, fn_timer_irq env, fn_kbd_irq env, fn_mouse_irq env}"] assms
    by (simp add: irqs_ok_def bss_ok_def)
  then show ?thesis unfolding boot_timer_def t(1) Let_def prod.case by (rule irqs.log_keeps)
qed

lemma boot_mouse_inputs:
  assumes "irqs_ok env s" "kbd_inv (k_kbd s)"
  shows "ensures (inputs_ok env) (let (drv, q, d) = mouse_init B (fn_mouse_irq env) (d_mouse s) (k_irq s) (log_dev (sh_log s)) in
      k_info B ''mouse'' ''PS/2 mouse ready (IRQ12)'' [] (s\<lparr>d_mouse := drv, k_irq := q, sh_log := (sh_log s)\<lparr>log_dev := d\<rparr>\<rparr>))"
proof -
  obtain drv q d e where m: "mouse_init B (fn_mouse_irq env) (d_mouse s) (k_irq s) (log_dev (sh_log s)) = (drv, q, d)"
    "irq_install B 12 (fn_mouse_irq env) (k_irq s) e = (q, d)" "packet drv = packet (d_mouse s)" "cycle drv = 0"
    by (auto simp: mouse_init_def Let_def split_beta prod_eq_iff)
  have "inputs_ok env (s\<lparr>d_mouse := drv, k_irq := q, sh_log := l\<rparr>)" for l
    using irq_install_known [OF m(2), of "{NULL, fn_timer_irq env, fn_kbd_irq env, fn_mouse_irq env}"] assms m(3,4)
    by (simp add: inputs_ok_def irqs_ok_def bss_ok_def)
  then show ?thesis unfolding m(1) Let_def prod.case by (rule inputs.log_keeps)
qed

lemma boot_input_inputs:
  assumes "irqs_ok env s"
  shows "ensures (inputs_ok env) (boot_input B env s)"
proof -
  define R where "R t \<longleftrightarrow> irqs_ok env t \<and> kbd_inv (k_kbd t)" for t :: "('a, 'b) kernel_state_scheme"
  let ?k = "(k_kbd s)\<lparr>kbd_head := 0, kbd_tail := 0, shift := False, caps := False, ctrl := False\<rparr>"
  obtain q d where kb: "irq_install B 1 (fn_kbd_irq env) (k_irq s) (log_dev (sh_log s)) = (q, d)" by fastforce
  have "R (s\<lparr>k_kbd := ?k, k_irq := q, sh_log := l\<rparr>)" for l
    using irq_install_known [OF kb, of "{NULL, fn_timer_irq env, fn_kbd_irq env, fn_mouse_irq env}"] assms
    by (simp add: R_def irqs_ok_def bss_ok_def kbd_inv_def)
  moreover have "ensures R (k_log B level subsystem fmt ap t)" if "R t" for level subsystem fmt ap and t :: "('a, 'b) kernel_state_scheme"
    using that unfolding k_log_def by (intro ensures_pure ensures_ret) (simp add: R_def irqs_ok_def bss_ok_def)
  ultimately have "ensures R (k_info B ''kbd'' ''PS/2 keyboard ready (Ctrl+T terminal, Ctrl+L launcher)'' []
      (s\<lparr>k_kbd := ?k, k_irq := q, sh_log := (sh_log s)\<lparr>log_dev := d\<rparr>\<rparr>))" by blast
  then show ?thesis
    unfolding boot_input_def keyboard_init_def kb Let_def prod.case
    by (rule ensures_bind) (use boot_mouse_inputs in \<open>auto simp: R_def Let_def\<close>)
qed

lemma boot_desktop_ok:
  assumes "inputs_ok env s"
  shows "ensures (kernel_ok env) (boot_desktop B env s)"
proof -
  have log: "ensures (kernel_ok env) (k_log B level subsystem fmt ap t)" if "kernel_ok env t" for level subsystem fmt ap t
    using that unfolding k_log_def by (intro ensures_pure ensures_ret kernel_inv.on_log)
  have "kernel_ok env (s\<lparr>sh_wm := wm_init (sh_wm s)\<rparr>)"
    using assms by (simp add: kernel_ok_def inputs_ok_def irqs_ok_def bss_ok_def desk_ok_def callbacks_ok_def wm_init_def window_zero_def)
  moreover have "ensures (kernel_ok env) (sh_seq [desktop_init B, open_terminal env, k_info B ''boot'' ''H3OS is ready. Entering desktop event loop.'' []] t)"
    if "kernel_ok env t" for t
    using that
    by (intro seq_ensures)
      (auto intro!: log kernel_inv.open_terminal_keeps kernel_inv.desktop_init_keeps simp: kernel_ok_def desk_ok_def)
  ultimately show ?thesis
    unfolding boot_desktop_def by (subst sh_seq_simps(2), intro ensures_bind [where P = "kernel_ok env"] log) blast+
qed

lemma kpanic_never: "run_bind (kpanic B fmt ap l) f \<noteq> ret s"
  by (simp add: kpanic_def run_bind_ret) (simp add: ret_def)

lemma kernel_main_ok:
  assumes "bss_ok s"
  shows "ensures (kernel_ok env) (kernel_main B env mb2 s)"
proof -
  have b: "bss_ok (s\<lparr>sh_log := l\<rparr>)" for l using assms by (simp add: bss.unrelated)
  have panic: "ensures P (run_bind (kpanic B fmt ap l) f)" for fmt ap f and l and P :: "('a, 'b) kernel_state_scheme \<Rightarrow> bool"
    by (simp add: ensures_def kpanic_never)
  have desk: "ensures (kernel_ok env) (sh_seq [boot_desktop B env] t)" if "inputs_ok env t" for t
    using that by (auto intro!: ensures_bind [OF boot_desktop_ok] ensures_ret)
  note keeps = inputs.boot_pci_keeps inputs.boot_fb_keeps inputs.early_keeps inputs.boot_security_keeps inputs.boot_vfs_keeps
    inputs.boot_pe_keeps inputs.boot_services_keeps
  have late: "ensures (kernel_ok env) (sh_seq (boot_pci B # boot_fb B env mb2 # boot_adaptive B # boot_security B # boot_vfs B env #
      boot_pe B env # boot_services B # fs) t)"
    if "inputs_ok env t" "\<And>u. inputs_ok env u \<Longrightarrow> ensures (kernel_ok env) (sh_seq fs u)" for t fs
    unfolding sh_seq_simps using that
    by (intro ensures_bind [where P = "inputs_ok env" and Q = "kernel_ok env"] keeps)
  have input: "ensures (kernel_ok env) (sh_seq (boot_input B env # fs) t)"
    if "irqs_ok env t" "\<And>u. inputs_ok env u \<Longrightarrow> ensures (kernel_ok env) (sh_seq fs u)" for t fs
    unfolding sh_seq_simps by (rule ensures_bind [OF boot_input_inputs [OF that(1)] that(2)])
  have mid: "ensures (kernel_ok env) (sh_seq (boot_timer B env 100 # rtc_init B # fs) t)"
    if "irqs_ok env t" "\<And>u. irqs_ok env u \<Longrightarrow> ensures (kernel_ok env) (sh_seq fs u)" for t fs
    unfolding sh_seq_simps using that
    by (intro ensures_bind [where P = "irqs_ok env" and Q = "kernel_ok env"] boot_timer_irqs irqs.rtc_init_keeps)
  have idt: "ensures (kernel_ok env) (sh_seq (boot_idt B env # fs) t)"
    if "bss_ok t" "\<And>u. irqs_ok env u \<Longrightarrow> ensures (kernel_ok env) (sh_seq fs u)" for t fs
    unfolding sh_seq_simps by (rule ensures_bind [OF boot_idt_irqs [OF that(1)] that(2)])
  have start: "ensures (kernel_ok env) (sh_seq (f # boot_gdt B # cpu_init B env # boot_pmm B env mb2 # boot_kheap B env # boot_vmm B env # fs) t)"
    if "bss_ok t" "\<And>u. bss_ok u \<Longrightarrow> ensures bss_ok (f u)" "\<And>u. bss_ok u \<Longrightarrow> ensures (kernel_ok env) (sh_seq fs u)" for t f fs
    unfolding sh_seq_simps using that
    by (intro ensures_bind [where P = bss_ok and Q = "kernel_ok env"] bss.early_keeps bss.cpu_init_keeps bss.boot_pmm_keeps)
  show ?thesis
    unfolding kernel_main_def
    by (intro ensures_bind [OF bss.banner_keeps [OF b]] ensures_splits panic start idt mid input late desk bss.log_keeps)
qed

section \<open>The listing of PCI devices\<close>

text \<open>
  \<^verbatim>\<open>kvprintf\<close> knows no field widths: a percent sign before a zero is written as it is and consumes no
  argument, so that the only number in a line of the listing, meant for the function, is the bus.
\<close>

lemma pci_line_text:
  assumes "serial_ready B"
  shows "\<exists>num. denotes 10 (unat (pci_bus dev)) num \<and>
    pci_line B dev s = ret (s\<lparr>sh_log := written B (log_line LOG_DEBUG (bytes_of ''pci'')
      (bytes_of ''  %02x:%02x.'' @ num @ bytes_of ''  %04x:%04x  class %02x:%02x'')) (sh_log s)\<rparr>)"
proof -
  obtain num where num: "utoa_string (ucast (pci_bus dev)) 10 = ret num" "denotes 10 (unat (ucast (pci_bus dev) :: u64)) num"
    using utoa_string_decimal by blast
  have cast: "ucast (ucast (ucast (pci_bus dev) :: u64) :: u32) = (ucast (pci_bus dev) :: u64)"
    by (rule bit_word_eqI) (auto simp: bit_simps dest: bit_imp_le_length)
  have "unat (ucast (pci_bus dev) :: u64) = unat (pci_bus dev)" by (simp add: unsigned_ucast_eq)
  moreover have "pci_line B dev s = ret (s\<lparr>sh_log := written B (log_line LOG_DEBUG (bytes_of ''pci'')
      (bytes_of ''  %02x:%02x.'' @ num @ bytes_of ''  %04x:%04x  class %02x:%02x'')) (sh_log s)\<rparr>)"
    using num(1)
    by (simp add: pci_line_def k_log_def klog_def min_level_def log_line_def ring_putc_ready [OF assms] ring_puts_ready [OF assms]
        bytes_of_def directive_def num_arg_def cast)
  ultimately show ?thesis using num(2) by auto
qed

section \<open>Properties\<close>

text \<open>
  (C11) The kernel at work. Let the event loop be entered in a state in which the terminal is well-formed, every callback of a
  window and every interrupt handler is a function of the kernel or none, and the keyboard and mouse drivers' indices lie in
  their arrays. Then whatever the user types and clicks and however the interrupts fall between the calls of the
  loop, every state the kernel gets to has these properties again: no call goes through an unknown pointer, and each of the 16
  hardware interrupts is handled and returns.
\<close>

theorem kernel_loop_safe:
  assumes "kernel_ok env s0" "kernel_reach B env s0 pc s"
  shows "kernel_ok env s \<and> callbacks_ok env (sh_wm s) \<and> term_ok (sh_term s) \<and> (\<forall>irq. \<exists>s'. deliver_irq B env irq s = ret s' \<and> kernel_ok env s')"
proof -
  have ok: "kernel_ok env s" using kernel_reach_ok [OF assms(2,1)] .
  then show ?thesis using deliver_irq_safe [OF ok, of B] by (auto simp: kernel_ok_def desk_ok_def)
qed

definition kernel_example :: "mouse_drv \<Rightarrow> u8 list kernel_state" where
  "kernel_example drv =
     desk_state.extend (desk_example drv wm_boot big_fb)
       \<lparr>k_kbd = kbd_empty, k_irq = \<lparr>idt = (\<lambda>_. idt_zero), idt_limit = 0, idt_base = 0, irq_handlers = (\<lambda>_. NULL)(0 := 0x200, 1 := 0x210, 12 := 0x220)\<rparr>,
        k_gdt = gdt_init, k_pml4 = 0, k_pci = [], k_sec = security_init, k_net = net_init, k_ipc = ipc_init, k_running = True, k_th = False\<rparr>"

definition boot_env_example :: boot_env where
  "boot_env_example = app_env.extend app_env_example
     \<lparr>kernel_end = 0x200000, early_arena = 0x180000, boot_cr3 = 0x1000, cpuid_insn = (\<lambda>_ _. (0, 0, 0, 0)), isr_stub = (\<lambda>_. 0x300), idt_at = 0x400,
      fn_timer_irq = 0x200, fn_kbd_irq = 0x210, fn_mouse_irq = 0x220, fallback_at = 0x500, motd_at = 0x600, release_at = 0x610, db_at = 0x620,
      hello_at = 0x700\<rparr>"

lemmas example_defs = kernel_example_def boot_env_example_def desk_example_def app_env_example_def env_example_def
  desk_state.defs app_env.defs shell_env.defs Let_def

lemma kernel_example_ok:
  "cycle drv < 3 \<Longrightarrow> length (packet drv) = 3 \<Longrightarrow> kernel_ok boot_env_example (kernel_example drv)"
  using term_zero_ok
  by (simp add: kernel_ok_def desk_ok_def callbacks_ok_def wm_boot_def window_zero_def kbd_inv_def kbd_empty_def example_defs)

theorem kernel_loop_safe_witness:
  "\<exists>s'. kernel_reach serial_dev boot_env_example (kernel_example mouse_idle) AtKeys (kernel_example mouse_idle) \<and>
     deliver_irq serial_dev boot_env_example 12 (kernel_example mouse_idle) = ret s' \<and> kernel_ok boot_env_example s'"
proof -
  have r: "kernel_reach serial_dev boot_env_example (kernel_example mouse_idle) AtKeys (kernel_example mouse_idle)"
    by (rule kernel_reach.call [OF kernel_reach.enter]) (simp add: example_defs)
  have "kernel_ok boot_env_example (kernel_example mouse_idle)" by (rule kernel_example_ok) (simp_all add: mouse_idle_def)
  from kernel_loop_safe [OF this r] r show ?thesis by blast
qed

text \<open>
  Booting. If the static variables of the terminal, keyboard and mouse are as the compiler lays them out, \<^verbatim>\<open>kernel_main\<close> never enters the
  event loop in any other state than one from which the loop is safe, whatever the machine and the boot loader hand it. Without
  the boot loader's information it never enters the loop at all.
\<close>

theorem kernel_main_enters_safely:
  assumes "bss_ok s"
  shows "ensures (kernel_ok env) (kernel_main B env mb2 s) \<and> (mb2 = NULL \<longrightarrow> kernel_main B env mb2 s \<noteq> ret s0)"
proof -
  have "kernel_main B env NULL s \<noteq> ret s0" unfolding kernel_main_def by (subst run_bind_ret) (simp add: kpanic_never)
  then show ?thesis using kernel_main_ok [OF assms] by blast
qed

theorem kernel_main_enters_safely_witness:
  "ensures (kernel_ok boot_env_example) (kernel_main serial_dev boot_env_example 0x9000 (kernel_example mouse_idle)) \<and>
   kernel_main serial_dev boot_env_example NULL (kernel_example mouse_idle) \<noteq> ret (kernel_example mouse_idle)"
proof -
  have "bss_ok (kernel_example mouse_idle)"
    using term_zero_ok by (simp add: bss_ok_def kbd_empty_def mouse_idle_def example_defs)
  from kernel_main_enters_safely [OF this] show ?thesis by blast
qed

text \<open>
  (C39) Clicks that get lost. \<^verbatim>\<open>mouse_poll_frame\<close> runs after the frame is drawn and clears the edges of the buttons, so a press that the
  mouse reports between the desktop's look at the mouse and the end of the frame is never acted on: if no packet
  of the mouse arrives after \<^verbatim>\<open>mouse_poll_frame\<close>, the next look at the mouse finds no press, whatever the state of the mouse
  was before, and neither the desktop nor a window reacts to one.
\<close>

theorem press_while_drawing_lost:
  assumes "kernel_ok env s" "idle_step B env AtPoll s = ret (Inl (AtStart, s0))" "quiet B env s0 AtMouse s1"
  shows "desktop_handle_mouse B env s1 = ret (Inl (s1\<lparr>g_click_consumed := False\<rparr>)) \<and>
    \<not> m_left_pressed (mouse_get (d_mouse s1)) \<and> \<not> m_right_pressed (mouse_get (d_mouse s1)) \<and>
    m_left (mouse_get (d_mouse s1)) = m_left (mouse_get (d_mouse s))"
proof -
  have s0: "s0 = s\<lparr>d_mouse := mouse_poll_frame (d_mouse s)\<rparr>" using assms(2) by simp
  have "kernel_ok env s0" by (rule idle_step_keeps [OF assms(1,2)])
  then have "mouse_is env (mouse_poll_frame (d_mouse s)) s0" by (simp add: mouse_is_def s0)
  from quiet_mouse [OF assms(3) this] have "d_mouse s1 = mouse_poll_frame (d_mouse s)" by (simp add: mouse_is_def)
  then show ?thesis using no_press_no_click [of s1 B env] by (simp add: mouse_poll_frame_def mouse_get_def)
qed

text \<open>A tick of the timer in the example.\<close>

lemma example_tick:
  assumes "quiet serial_dev boot_env_example s0 (AtWait t) s" "irq_handlers (k_irq s) 0 = 0x200"
  shows "\<exists>l. quiet serial_dev boot_env_example s0 (AtWait t) (s\<lparr>sh_timer := timer_irq (sh_timer s), sh_log := l\<rparr>)"
proof -
  have "deliver_irq serial_dev boot_env_example 0 s =
      ret (s\<lparr>sh_timer := timer_irq (sh_timer s), sh_log := (sh_log s)\<lparr>log_dev := irq_ack serial_dev 0 (log_dev (sh_log s))\<rparr>\<rparr>)"
    using assms(2) by (simp add: deliver_irq_def call_irq_def NULL_def example_defs)
  then show ?thesis using quiet.quiet_irq [OF assms(1), of 0] assms(2) by (auto simp: example_defs)
qed

lemma example_ticks:
  assumes "quiet serial_dev boot_env_example s0 (AtWait t) s" "irq_handlers (k_irq s) 0 = 0x200"
  shows "\<exists>l. quiet serial_dev boot_env_example s0 (AtWait t) (s\<lparr>sh_timer := (timer_irq ^^ n) (sh_timer s), sh_log := l\<rparr>)"
proof (induction n)
  case 0
  then show ?case using assms(1) by (intro exI [of _ "sh_log s"]) simp
next
  case (Suc n)
  then obtain l where "quiet serial_dev boot_env_example s0 (AtWait t) (s\<lparr>sh_timer := (timer_irq ^^ n) (sh_timer s), sh_log := l\<rparr>)" by blast
  from example_tick [OF this] show ?case using assms(2) by simp
qed

theorem press_while_drawing_lost_witness:
  "\<exists>s0 s1. idle_step serial_dev boot_env_example AtPoll (kernel_example (pointer 50 50 True True)) = ret (Inl (AtStart, s0)) \<and>
     quiet serial_dev boot_env_example s0 AtMouse s1 \<and> m_left (mouse_get (d_mouse s1)) \<and>
     desktop_handle_mouse serial_dev boot_env_example s1 = ret (Inl (s1\<lparr>g_click_consumed := False\<rparr>))"
proof -
  let ?s = "kernel_example (pointer 50 50 True True)" and ?B = "serial_dev" and ?e = boot_env_example
  let ?u = "?s\<lparr>d_mouse := mouse_poll_frame (d_mouse ?s)\<rparr>"
  have ok: "kernel_ok ?e ?s" by (rule kernel_example_ok) (simp_all add: pointer_def mouse_idle_def)
  have poll: "idle_step ?B ?e AtPoll ?s = ret (Inl (AtStart, ?u))" by simp
  have fields: "sh_timer ?u = \<lparr>g_ticks = 0, g_freq = 100\<rparr>" "sh_perf ?u = low_profile" "k_running ?u" "k_kbd ?u = kbd_empty"
    "irq_handlers (k_irq ?u) 0 = 0x200" by (simp_all add: example_defs shell_example_def)
  have "quiet ?B ?e ?u (AtWait 0) ?u"
    by (rule quiet.quiet_call [OF quiet.polled]) (simp_all add: fields timer_uptime_ms_def)
  from example_ticks [OF this fields(5), of 4] obtain l where
    w: "quiet ?B ?e ?u (AtWait 0) (?u\<lparr>sh_timer := (timer_irq ^^ 4) (sh_timer ?u), sh_log := l\<rparr>)" by blast
  let ?v = "?u\<lparr>sh_timer := (timer_irq ^^ 4) (sh_timer ?u), sh_log := l\<rparr>"
  have t: "timer_uptime_ms ((timer_irq ^^ 4) (sh_timer ?u)) = 40" unfolding fields by code_simp
  have "quiet ?B ?e ?u AtLoop ?v"
    by (rule quiet.quiet_call [OF w]) (use t fields(2) in \<open>simp_all add: frame_ms_def low_profile_def\<close>)
  then have "quiet ?B ?e ?u AtKeys ?v" by (rule quiet.quiet_call) (use fields(3) in simp_all)
  then have "quiet ?B ?e ?u AtMouse ?v"
    by (rule quiet.quiet_call) (use fields(4) in \<open>simp_all add: keyboard_try_read_def kbd_empty_def\<close>)
  then show ?thesis
    using press_while_drawing_lost [OF ok poll, of ?v] poll by (auto simp: example_defs pointer_def mouse_get_def)
qed

section \<open>The length of a frame\<close>

lemma uptime_ticks:
  assumes "g_freq t = 100" "(unat (g_ticks t) + n) * 1000 < 18446744073709551616"
  shows "unat (timer_uptime_ms ((timer_irq ^^ n) t)) = (unat (g_ticks t) + n) * 10"
proof -
  have t: "(timer_irq ^^ n) t = t\<lparr>g_ticks := g_ticks t + of_nat n\<rparr>" by (induction n) (simp_all add: timer_irq_def)
  have "unat (g_ticks t + of_nat n) = unat (g_ticks t) + n"
    using assms(2) by (simp add: unat_add_u64 unat_of_nat_u64)
  then have "unat ((g_ticks t + of_nat n) * 1000) = (unat (g_ticks t) + n) * 1000"
    using assms(2) by (subst unat_mult_u64) simp_all
  then show ?thesis using assms(1) by (simp add: t timer_uptime_ms_def unat_div)
qed

text \<open>
  (C38) The length of a frame. With the timer at 100 ticks a second, as \<^verbatim>\<open>kernel_main\<close> sets it, and the settings that \<^verbatim>\<open>adaptive_init\<close> chooses for
  any machine, the wait at the end of a frame is over exactly when the timer has ticked four times since it began for the
  lightweight profile, which aims at 30 frames a second, and twice for the others, which aim at 60. The
  kernel can therefore draw at most 25 or 50 frames a second.
\<close>

theorem frame_wait_bounds:
  fixes s :: "('d, 'z) kernel_state_scheme" and stats :: pmm_stats_t and cpu :: cpu_info_t
  assumes "g_freq t = 100" "(unat (g_ticks t) + n) * 1000 < 18446744073709551616"
  defines "s' \<equiv> s\<lparr>sh_timer := (timer_irq ^^ n) t, sh_perf := adaptive_init stats cpu\<rparr>"
  shows "idle_step B env (AtWait (timer_uptime_ms t)) s' =
    ret (Inl (if (if profile (adaptive_init stats cpu) = PERF_LOW then 4 else 2) \<le> n then AtLoop else AtWait (timer_uptime_ms t), s'))"
proof -
  have u: "unat (timer_uptime_ms ((timer_irq ^^ n) t)) = (unat (g_ticks t) + n) * 10" "unat (timer_uptime_ms t) = unat (g_ticks t) * 10"
    using uptime_ticks [OF assms(1,2)] uptime_ticks [OF assms(1), of 0] assms(2) by simp_all
  then have d: "unat (timer_uptime_ms ((timer_irq ^^ n) t) - timer_uptime_ms t) = n * 10"
    by (simp add: unat_sub word_le_nat_alt)
  have f: "unat (frame_ms (adaptive_init stats cpu)) = (if profile (adaptive_init stats cpu) = PERF_LOW then 33 else 16)"
    by (simp add: frame_ms_def adaptive_init_def Let_def)
  have "timer_uptime_ms ((timer_irq ^^ n) t) - timer_uptime_ms t < frame_ms (adaptive_init stats cpu) \<longleftrightarrow>
      n * 10 < (if profile (adaptive_init stats cpu) = PERF_LOW then 33 else 16)"
    by (simp only: word_less_nat_alt d f)
  then show ?thesis by (auto simp: s'_def)
qed

theorem frame_wait_bounds_witness:
  "\<exists>s :: u8 list kernel_state. idle_step serial_dev boot_env_example (AtWait 0) s = ret (Inl (AtWait 0, s)) \<and> timer_uptime_ms (sh_timer s) = 30"
proof -
  let ?p = "adaptive_init (pmm_get_stats pmm_example) cpu_zero"
  let ?s = "(kernel_example mouse_idle)\<lparr>sh_timer := (timer_irq ^^ 3) \<lparr>g_ticks = 0, g_freq = 100\<rparr>, sh_perf := ?p\<rparr>"
  have "profile ?p = PERF_LOW" by (simp add: adaptive_init_def cpu_zero_def Let_def)
  moreover have "timer_uptime_ms \<lparr>g_ticks = 0, g_freq = 100\<rparr> = 0" "timer_uptime_ms ((timer_irq ^^ 3) \<lparr>g_ticks = 0, g_freq = 100\<rparr>) = 30" by code_simp+
  ultimately show ?thesis
    using frame_wait_bounds [where t = "\<lparr>g_ticks = 0, g_freq = 100\<rparr>" and n = 3 and B = serial_dev and env = boot_env_example
        and s = "kernel_example mouse_idle" and stats = "pmm_get_stats pmm_example" and cpu = cpu_zero]
    by - (rule exI [of _ ?s], simp del: idle_step.simps)
qed

end
