(* ===== verification/H3_Seeding.thy ===== *)
theory H3_Seeding
  imports H3_Seed
begin

text \<open>
  What the initialisation of the file system and of the program loader leave behind
  (\<^verbatim>\<open>filesystem/vfs.c\<close>, \<^verbatim>\<open>loader/pe_seed.c\<close>): on a heap with enough room every directory and file is made, and every
  file holds the bytes of its literal in the kernel's image.
\<close>

section \<open>Writing a literal to a new file\<close>

text \<open>The string \<open>str\<close> lies at address \<open>a\<close>, with its terminator, outside of the addresses \<open>E\<close>.\<close>

definition literal :: "mem \<Rightarrow> addr set \<Rightarrow> addr \<Rightarrow> u8 list \<Rightarrow> bool" where
  "literal m E a str \<longleftrightarrow> peek m a (length str) = str \<and> (\<forall>i \<le> length str. a + of_nat i \<notin> E) \<and> length str < 1073741824"

lemma literal_kept:
  assumes "literal m E a str" "\<And>x. x \<notin> E \<Longrightarrow> m' x = m x" "E' \<subseteq> E"
  shows "literal m' E' a str"
proof -
  have "peek m' a (length str) = peek m a (length str)" 
    unfolding peek_def by (rule map_cong) (use assms(1,2) in \<open>auto simp: literal_def\<close>)
  then show ?thesis using assms(1,3) by (auto simp: literal_def)
qed

lemma small_request:
  assumes "unat sz \<le> 4611686018427387904"
  shows "unat (kmalloc_size sz) \<le> unat sz + 32"
  using align_up_16 [of sz] assms by (auto simp: kmalloc_size_def Let_def HEAP_MIN_def)

lemma fill_from_outside:
  assumes ok: "heap_ok h bs" and al: "(p, k) \<in> allocated h bs" and sz: "sz < k" and buf: "\<And>i. i < unat sz \<Longrightarrow> buf + of_nat i \<notin> extents h bs"
    and m: "m = (snd (memcpy (heap_mem h) p buf sz))(p + sz := 0)"
  shows "\<And>x. \<not> in_range x p (unat k) \<Longrightarrow> m x = heap_mem h x" and "peek m p (unat sz) = peek (heap_mem h) buf (unat sz)"
proof -
  have l: "unat sz < unat k" using sz by (simp add: word_less_nat_alt)
  have "unat sz \<le> unat (p - buf)"
  proof (rule ccontr)
    assume "\<not> ?thesis"
    then have "p \<notin> extents h bs" using buf [of "unat (p - buf)"] by simp
    moreover have "in_range p p (unat k)" using l by (intro in_range_self) simp
    ultimately show False using payload_extent [OF ok al] by blast
  qed
  then have mc: "m = (poke (heap_mem h) p (peek (heap_mem h) buf (unat sz)))(p + sz := 0)"
    using memcpy_poke [of p buf sz "heap_mem h"] m by simp
  have last: "in_range (p + sz) p (unat k)" using l by (simp add: in_range_def)
  show "m x = heap_mem h x" if "\<not> in_range x p (unat k)" for x
  proof -
    have "x \<noteq> p + sz" using that last by auto
    then show ?thesis using that l poke_in_payload [of "peek (heap_mem h) buf (unat sz)" k x p] by (simp add: mc)
  qed
  have "peek m p (unat sz) = peek (poke (heap_mem h) p (peek (heap_mem h) buf (unat sz))) p (unat sz)"
    by (rule peek_same [OF _ order_refl]) (auto simp: mc in_range_def less_imp_le)
  then show "peek m p (unat sz) = peek (heap_mem h) buf (unat sz)"
    using peek_poke_same [of "peek (heap_mem h) buf (unat sz)" "heap_mem h" p] by simp
qed

lemma write_new_heap:
  assumes ok: "heap_ok h bs" and lit: "literal (heap_mem h) (extents h bs) buf str" and sp: "spare h bs n" "length str + 105 \<le> n"
    and sz: "sz = of_nat (length str)"
  shows "\<exists>p k h1 bs'. kmalloc (sz + 1) h = Some (Inr (p, h1)) \<and> p \<noteq> NULL \<and> sz < k \<and>
    (let h' = replaced NULL p buf sz h1 in heap_ok h' bs' \<and> p \<notin> fst ` allocated h bs \<and> allocated h' bs' = insert (p, k) (allocated h bs) \<and>
      payloads_kept h bs h' \<and> peek (heap_mem h') p (unat sz) = str \<and> shrunk h bs h' bs' \<and> spare h' bs' (n - length str - 73))"
proof -
  have len: "length str < 1073741824" using lit by (simp add: literal_def)
  then have u: "unat sz = length str" "unat (sz + 1) = length str + 1"
    using sz unat_add_u64 [of sz 1] by (simp_all add: unat_of_nat_u64)
  have rq: "unat (kmalloc_size (sz + 1)) \<le> length str + 33" using small_request [of "sz + 1"] u len by simp
  have "0 < sz + 1" "unat (kmalloc_size (sz + 1)) + 72 \<le> n" "unat (sz + 1) \<le> 4611686018427387904"
    using u len rq sp(2) by (simp_all add: word_less_nat_alt)
  then obtain p k h1 bs' where km: "kmalloc (sz + 1) h = Some (Inr (p, h1))" "p \<noteq> NULL" "sz + 1 \<le> k" "heap_ok h1 bs'"
    "(p, k) \<notin> allocated h bs" "allocated h1 bs' = insert (p, k) (allocated h bs)" "payloads_kept h bs h1" "heap_pmm h1 = heap_pmm h"
    "\<And>x. x \<notin> extents h bs \<Longrightarrow> heap_mem h1 x = heap_mem h x" "extents h1 bs' \<subseteq> extents h bs"
    "spare h1 bs' (n - unat (kmalloc_size (sz + 1)) - 40)"
    using kmalloc_spare [OF ok _ _ _ sp(1), of "sz + 1"] by auto
  have al: "(p, k) \<in> allocated h1 bs'" using km(6) by simp
  have sk: "sz < k" using km(3) u by (simp add: word_less_nat_alt word_le_nat_alt)
  define m where "m = (snd (memcpy (heap_mem h1) p buf sz))(p + sz := 0)"
  let ?h = "h1\<lparr>heap_mem := m\<rparr>"
  have r: "replaced NULL p buf sz h1 = ?h" by (simp add: replaced_def m_def)
  have out: "buf + of_nat i \<notin> extents h1 bs'" if "i < unat sz" for i using lit that km(10) u(1) by (auto simp: literal_def)
  note fo = fill_from_outside [OF km(4) al sk out m_def]
  note cw = client_write [OF km(4) al fo(1)]
  have ex: "extents ?h bs' = extents h1 bs'" using cw(2) by (simp add: extents_def extent_def)
  have fresh: "q \<noteq> p" if "(q, i) \<in> allocated h bs" for q i
    using that km(5,6) allocated_functional [of p i h1 bs' k] al by auto
  have kept: "m x = heap_mem h x" if "(q, i) \<in> allocated h bs" "in_range x q (unat i)" for q i x
  proof -
    have "disjoint_ranges q (unat i) p (unat k)"
      using allocated_disjoint [OF km(4), of q i p k] that(1) km(6) fresh [OF that(1)] by auto
    then show ?thesis using fo(1) [of x] payloads_keptD [OF km(7) that] that(2) by (auto simp: disjoint_ranges_def)
  qed
  have "m x = heap_mem h x" if "x \<notin> extents h bs" for x
    using fo(1) [of x] km(9) [OF that] payload_extent [OF km(4) al, of x] that km(10) by auto
  then have sh: "shrunk h bs ?h bs'" using km(8,10) ex by (simp add: shrunk_def)
  have "peek (heap_mem h1) buf (unat sz) = str" using literal_kept [OF lit km(9,10)] u(1) by (simp add: literal_def)
  then have str: "peek m p (unat sz) = str" using fo(2) by simp
  have "spare ?h bs' (n - length str - 73)"
    using km(11) rq cw(2) by (auto simp: spare_def intro!: bexI elim!: order_trans [rotated])
  moreover have "payloads_kept h bs ?h" using kept by (auto simp: payloads_kept_def)
  moreover have "p \<notin> fst ` allocated h bs" using fresh by force
  ultimately show ?thesis
    using km(1,2) sk sh str cw(1,3) km(6) unfolding Let_def
    by - (rule exI [of _ p], rule exI [of _ k], rule exI [of _ h1], rule exI [of _ bs'], simp add: r)
qed

section \<open>The file system while it is filled\<close>

definition is_dir :: "vfs_state \<Rightarrow> u8 list \<Rightarrow> bool" where
  "is_dir s q \<longleftrightarrow> (\<exists>d < node_count s. dir_of s q = ret (Some d) \<and> n_type (nodes s d) = VFS_DIR)"

definition holds :: "vfs_state \<Rightarrow> u8 list \<Rightarrow> u8 list \<Rightarrow> bool" where
  "holds s path str \<longleftrightarrow> (\<exists>n < node_count s. vfs_resolve path s = ret (Some n) \<and> n_type (nodes s n) = VFS_FILE \<and> n_data (nodes s n) \<noteq> NULL \<and>
     contents s n = str)"

text \<open>
  The state after the directories \<open>dirs\<close> and the files \<open>fs\<close> have been made; \<open>leaves\<close> are the names that were used.
\<close>

definition seeded :: "vfs_state \<Rightarrow> addr list \<Rightarrow> u8 list list \<Rightarrow> (u8 list \<times> u8 list) list \<Rightarrow> u8 list list \<Rightarrow> bool" where
  "seeded s bs dirs fs leaves \<longleftrightarrow> (\<exists>ch. tree_ok s ch) \<and> files_ok s bs \<and> cwd s = [slash] \<and> node_count s \<le> Suc (length leaves) \<and>
     (\<forall>i < node_count s. name_of s i = [slash] \<or> name_of s i \<in> set leaves) \<and>
     (\<forall>q \<in> set dirs. is_dir s q) \<and> (\<forall>(p, str) \<in> set fs. holds s p str)"

lemma seededD:
  assumes "seeded s bs dirs fs leaves"
  shows "\<exists>ch. tree_ok s ch" "files_ok s bs" "cwd s = [slash]" "node_count s \<le> Suc (length leaves)"
    "i < node_count s \<Longrightarrow> name_of s i = [slash] \<or> name_of s i \<in> set leaves"
    "q \<in> set dirs \<Longrightarrow> is_dir s q" "(p, str) \<in> set fs \<Longrightarrow> holds s p str"
  using assms by (auto simp: seeded_def)

text \<open>A path made of a directory and a name that no node has yet.\<close>

definition new_path :: "u8 list list \<Rightarrow> u8 list list \<Rightarrow> u8 list \<Rightarrow> u8 list \<Rightarrow> bool" where
  "new_path dirs leaves q l \<longleftrightarrow> q \<in> set dirs \<and> (q = [] \<or> hd q = slash) \<and> plain_leaf l \<and> l \<notin> set leaves \<and> length q + length l + 1 < VFS_PATH_MAX"

lemma make_new:
  assumes ok: "tree_ok s ch" and n: "node_count s < VFS_MAX_NODES" and q: "q = [] \<or> hd q = slash" and l: "plain_leaf l"
    and len: "length q + length l + 1 < VFS_PATH_MAX" and d: "d < node_count s" "dir_of s q = ret (Some d)" "n_type (nodes s d) = VFS_DIR"
    and new: "\<And>i. i < node_count s \<Longrightarrow> name_of s i \<noteq> l"
  shows "make_node ty (q @ slash # l) mode s = ret (Some (node_count s), add_node d l ty mode s)"
    and "\<exists>ch'. tree_ok (add_node d l ty mode s) ch'"
    and "vfs_resolve (q @ slash # l) (add_node d l ty mode s) = ret (Some (node_count s))"
    and "vfs_resolve p s = ret (Some x) \<Longrightarrow> vfs_resolve p (add_node d l ty mode s) = ret (Some x)"
proof -
  have nm: "normalize_path (q @ slash # l) s = ret (q @ slash # l)" using q len by (cases q) (auto simp: normalize_path_def)
  have "find_child s d l = Some None"
    using find_child_find [OF ok d(1), of l] new tree_okD(7) [OF ok d(1)] by (auto simp: find_None_iff)
  then have mk: "make_node ty (q @ slash # l) mode s = ret (Some (node_count s), add_node d l ty mode s)"
    using ensure_parent_abs [OF nm q l len] d l n
    by (simp add: make_node_def plain_leaf_def alloc_node_def add_node_def Let_def)
  obtain ch' where m: "tree_ok (add_node d l ty mode s) ch'" "made ty (q @ slash # l) q l mode s (Some (node_count s)) (add_node d l ty mode s)"
    using make_node_spec [OF ok nm q l len, of ty mode] mk by auto
  show "make_node ty (q @ slash # l) mode s = ret (Some (node_count s), add_node d l ty mode s)" by (rule mk)
  show "\<exists>ch'. tree_ok (add_node d l ty mode s) ch'" using m(1) by blast
  show "vfs_resolve (q @ slash # l) (add_node d l ty mode s) = ret (Some (node_count s))"
    "vfs_resolve p s = ret (Some x) \<Longrightarrow> vfs_resolve p (add_node d l ty mode s) = ret (Some x)"
    using m(2) by (simp_all add: made_def)
qed

lemma make_seeded:
  assumes s: "seeded s bs dirs fs leaves" "length leaves < 255" and p: "new_path dirs leaves q l"
  shows "\<exists>n s'. make_node ty (q @ slash # l) mode s = ret (Some n, s') \<and> seeded s' bs dirs fs (l # leaves) \<and> v_heap s' = v_heap s \<and>
    n < node_count s' \<and> vfs_resolve (q @ slash # l) s' = ret (Some n) \<and> n_type (nodes s' n) = ty \<and> n_data (nodes s' n) = NULL"
proof -
  obtain ch where ch: "tree_ok s ch" using s(1) by (auto simp: seeded_def)
  obtain d where d: "d < node_count s" "dir_of s q = ret (Some d)" "n_type (nodes s d) = VFS_DIR"
    using seededD(6) [OF s(1), of q] p by (auto simp: new_path_def is_dir_def)
  have n: "node_count s < VFS_MAX_NODES" using s by (simp add: seeded_def VFS_MAX_NODES_def)
  have pq: "q = [] \<or> hd q = slash" "plain_leaf l" "length q + length l + 1 < VFS_PATH_MAX" using p by (auto simp: new_path_def)
  have new: "name_of s i \<noteq> l" if "i < node_count s" for i
  proof -
    have "name_of s i = [slash] \<or> name_of s i \<in> set leaves" using s(1) that by (simp add: seeded_def)
    then show ?thesis using p by (auto simp: new_path_def plain_leaf_def)
  qed
  let ?s = "add_node d l ty mode s" and ?n = "node_count s"
  note mk = make_new [OF ch n pq d new, where ty = ty and mode = mode]
  note f = add_node_fields [OF n d(1), where l = l and ty = ty and mode = mode]
  note nm = add_node_name [OF n d(1) pq(2), where ty = ty and mode = mode]
  have old: "n_type (nodes ?s i) = n_type (nodes s i)" "n_data (nodes ?s i) = n_data (nodes s i)" "n_size (nodes ?s i) = n_size (nodes s i)"
    if "i < ?n" for i using that by (cases "i = d"; simp add: f(6,7))+
  have nn: "n_type (nodes ?s ?n) = ty" "n_data (nodes ?s ?n) = NULL" "n_size (nodes ?s ?n) = 0" by (simp_all add: f(5) node_zero_def)
  have fo: "files_ok s bs" using s(1) by (simp add: seeded_def)
  have "files_ok ?s bs"
    using fo old nn by (auto simp: files_ok_def f(3,4) less_Suc_eq)
  moreover have "is_dir ?s e" if e: "e \<in> set dirs" for e
  proof -
    obtain c where c: "c < ?n" "dir_of s e = ret (Some c)" "n_type (nodes s c) = VFS_DIR"
      using seededD(6) [OF s(1) e] by (auto simp: is_dir_def)
    then have "dir_of ?s e = ret (Some c)" using mk(4) f(1) by (auto simp: dir_of_def split: if_splits)
    then show ?thesis using c old f(4) by (auto simp: is_dir_def)
  qed
  moreover have "holds ?s e str" if e: "(e, str) \<in> set fs" for e str
  proof -
    obtain c where c: "c < ?n" "vfs_resolve e s = ret (Some c)" "n_type (nodes s c) = VFS_FILE" "n_data (nodes s c) \<noteq> NULL" "contents s c = str"
      using seededD(7) [OF s(1) e] by (auto simp: holds_def)
    then have "contents ?s c = str" using old f(3) by (simp add: contents_def)
    then show ?thesis using c old f(4) mk(4) by (auto simp: holds_def)
  qed
  ultimately have "seeded ?s bs dirs fs (l # leaves)"
    using s(1) mk(2) f(2,4) nm(1) by (auto simp: seeded_def less_Suc_eq)
  then show ?thesis using mk(1,3) f(3,4) nn by auto
qed

lemma mkdir_seeded:
  assumes "seeded s bs dirs fs leaves" "length leaves < 255" "new_path dirs leaves q l"
  shows "\<exists>n s'. vfs_mkdir (q @ slash # l) mode s = ret (n, s') \<and> seeded s' bs ((q @ slash # l) # dirs) fs (l # leaves) \<and> v_heap s' = v_heap s"
proof -
  obtain n s' where n: "make_node VFS_DIR (q @ slash # l) mode s = ret (Some n, s')" "seeded s' bs dirs fs (l # leaves)" "v_heap s' = v_heap s"
    "n < node_count s'" "vfs_resolve (q @ slash # l) s' = ret (Some n)" "n_type (nodes s' n) = VFS_DIR"
    using make_seeded [OF assms] by blast
  then have "is_dir s' (q @ slash # l)" by (auto simp: is_dir_def dir_of_def)
  then show ?thesis using n by (auto simp: vfs_mkdir_def seeded_def)
qed

text \<open>The list of directories of \<^verbatim>\<open>vfs_init\<close>, each as the directory it is in, its name and its mode.\<close>

primrec seedable :: "(string \<times> string \<times> u32) list \<Rightarrow> u8 list list \<Rightarrow> u8 list list \<Rightarrow> bool" where
  "seedable [] dirs leaves \<longleftrightarrow> length leaves < 255"
| "seedable (t # ts) dirs leaves \<longleftrightarrow> (case t of (q, l, m) \<Rightarrow> new_path dirs leaves (bytes_of q) (bytes_of l) \<and> length leaves < 255 \<and>
     seedable ts ((bytes_of q @ slash # bytes_of l) # dirs) (bytes_of l # leaves))"

definition join :: "string \<times> string \<times> u32 \<Rightarrow> string \<times> u32" where
  "join t = (case t of (q, l, m) \<Rightarrow> (q @ ''/'' @ l, m))"

lemma bytes_of_join: "bytes_of (q @ ''/'' @ l) = bytes_of q @ slash # bytes_of l"
  by (simp add: bytes_of_def slash_def)

primrec dirs_after :: "(string \<times> string \<times> u32) list \<Rightarrow> u8 list list \<Rightarrow> u8 list list" where
  "dirs_after [] dirs = dirs"
| "dirs_after (t # ts) dirs = dirs_after ts (bytes_of (fst (join t)) # dirs)"

primrec leaves_after :: "(string \<times> string \<times> u32) list \<Rightarrow> u8 list list \<Rightarrow> u8 list list" where
  "leaves_after [] leaves = leaves"
| "leaves_after (t # ts) leaves = leaves_after ts (bytes_of (fst (snd t)) # leaves)"

lemma seed_dirs_seeded:
  assumes "seeded s bs dirs fs leaves" "seedable ts dirs leaves"
  shows "\<exists>s'. seed_dirs (map join ts) s = ret s' \<and> seeded s' bs (dirs_after ts dirs) fs (leaves_after ts leaves) \<and> v_heap s' = v_heap s"
  using assms
proof (induction ts arbitrary: s dirs leaves)
  case (Cons t ts)
  obtain q l m where t: "t = (q, l, m)" by (cases t)
  then have p: "new_path dirs leaves (bytes_of q) (bytes_of l)" "length leaves < 255"
    "seedable ts ((bytes_of q @ slash # bytes_of l) # dirs) (bytes_of l # leaves)" using Cons.prems(2) by simp_all
  obtain n s1 where "vfs_mkdir (bytes_of q @ slash # bytes_of l) m s = ret (n, s1)"
    "seeded s1 bs ((bytes_of q @ slash # bytes_of l) # dirs) fs (bytes_of l # leaves)" "v_heap s1 = v_heap s"
    using mkdir_seeded [OF Cons.prems(1) p(2,1), of m] by blast
  with Cons.IH [OF this(2) p(3)] show ?case by (auto simp: t join_def bytes_of_join [simplified])
qed simp

lemma write_new_files:
  assumes fo: "files_ok s bs" and i: "i < node_count s" "n_data (nodes s i) = NULL"
    and h: "heap_ok h bs'" "p \<noteq> NULL" "p \<notin> fst ` allocated (v_heap s) bs" "allocated h bs' = insert (p, k) (allocated (v_heap s) bs)" "sz < k"
    and kept: "payloads_kept (v_heap s) bs h" and s': "s' = set_node i (\<lambda>k. k\<lparr>n_data := p, n_size := sz\<rparr>) (s\<lparr>v_heap := h\<rparr>)"
  shows "files_ok s' bs'" and "j < node_count s \<Longrightarrow> j \<noteq> i \<Longrightarrow> contents s' j = contents s j"
proof -
  have f: "v_heap s' = h" "node_count s' = node_count s" "n_data (nodes s' i) = p" "n_size (nodes s' i) = sz"
    "\<And>j. j \<noteq> i \<Longrightarrow> nodes s' j = nodes s j" by (simp_all add: s' set_node_def)
  have own: "\<exists>l. (n_data (nodes s j), l) \<in> allocated (v_heap s) bs \<and> n_size (nodes s j) < l \<and> n_data (nodes s j) \<noteq> p"
    if "j < node_count s" "n_data (nodes s j) \<noteq> NULL" for j
    using files_okD(3) [OF fo that] h(3) by force
  show "files_ok s' bs'"
    unfolding files_ok_def f(1,2)
  proof (intro conjI allI impI)
    fix j assume j: "j < node_count s"
    show "if n_data (nodes s' j) = NULL then n_size (nodes s' j) = 0 else \<exists>l. (n_data (nodes s' j), l) \<in> allocated h bs' \<and> n_size (nodes s' j) < l"
      using own [OF j] files_okD(2) [OF fo j] f h(2,4,5) by (cases "j = i") auto
    fix e assume e: "e < node_count s" "n_data (nodes s' j) = n_data (nodes s' e)" "n_data (nodes s' j) \<noteq> NULL"
    show "j = e"
      using e own [OF j] own [OF e(1)] files_okD(4) [OF fo j e(1)] f by (cases "j = i"; cases "e = i") auto
  qed (rule h(1))
  show "contents s' j = contents s j" if j: "j < node_count s" "j \<noteq> i"
  proof (cases "n_data (nodes s j) = NULL")
    case True
    then show ?thesis using files_okD(2) [OF fo j(1)] f(5) [OF j(2)] by (simp add: contents_def peek_def)
  next
    case False
    then obtain l where l: "(n_data (nodes s j), l) \<in> allocated (v_heap s) bs" "n_size (nodes s j) < l" using own [OF j(1)] by blast
    then show ?thesis
      unfolding contents_def f(1) f(5) [OF j(2)]
      using payloads_keptD [OF kept l(1)] by (intro peek_same [where k = "unat l"]) (auto simp: word_less_nat_alt less_imp_le)
  qed
qed

lemma write_seeded:
  assumes s: "seeded s bs dirs fs leaves" and i: "i < node_count s" "vfs_resolve path s = ret (Some i)" "n_type (nodes s i) = VFS_FILE" "n_data (nodes s i) = NULL"
    and lit: "literal (heap_mem (v_heap s)) (extents (v_heap s) bs) buf str" and sp: "spare (v_heap s) bs n" "length str + 105 \<le> n"
  shows "\<exists>r s' bs'. vfs_write (Some i) buf (of_nat (length str)) s = ret (r, s') \<and> seeded s' bs' dirs ((path, str) # fs) leaves \<and>
    shrunk (v_heap s) bs (v_heap s') bs' \<and> spare (v_heap s') bs' (n - length str - 73)"
proof -
  let ?sz = "of_nat (length str) :: u64"
  have fo: "files_ok s bs" and ok: "heap_ok (v_heap s) bs" using seededD(2) [OF s] by (auto simp: files_ok_def)
  have len: "length str < 1073741824" "unat ?sz = length str" using lit by (auto simp: literal_def unat_of_nat_u64)
  obtain p k h1 bs' where km: "kmalloc (?sz + 1) (v_heap s) = Some (Inr (p, h1))" "p \<noteq> NULL" "?sz < k"
    and h: "let h' = replaced NULL p buf ?sz h1 in heap_ok h' bs' \<and> p \<notin> fst ` allocated (v_heap s) bs \<and>
      allocated h' bs' = insert (p, k) (allocated (v_heap s) bs) \<and> payloads_kept (v_heap s) bs h' \<and> peek (heap_mem h') p (unat ?sz) = str \<and>
      shrunk (v_heap s) bs h' bs' \<and> spare h' bs' (n - length str - 73)"
    using write_new_heap [OF ok lit sp refl] by blast
  let ?h = "replaced NULL p buf ?sz h1"
  let ?s = "set_node i (\<lambda>k. k\<lparr>n_data := p, n_size := ?sz\<rparr>) (s\<lparr>v_heap := ?h\<rparr>)"
  have w: "vfs_write (Some i) buf ?sz s = ret (ucast ?sz, ?s)"
    using vfs_write_cases [OF ok i(3), of ?sz buf] len km(1,2) i(4) by fastforce
  have h': "heap_ok ?h bs'" "p \<notin> fst ` allocated (v_heap s) bs" "allocated ?h bs' = insert (p, k) (allocated (v_heap s) bs)"
    "payloads_kept (v_heap s) bs ?h" "peek (heap_mem ?h) p (unat ?sz) = str" "shrunk (v_heap s) bs ?h bs'" "spare ?h bs' (n - length str - 73)"
    using h by (simp_all add: Let_def)
  note fk = write_new_files [OF fo i(1,4) h'(1) km(2) h'(2,3) km(3) h'(4) refl]
  have sl: "same_links s ?s" by (simp add: same_links_def set_node_def)
  obtain ch where ch: "tree_ok s ch" using seededD(1) [OF s] by blast
  note res = same_links_resolve [OF sl ch]
  have f: "v_heap ?s = ?h" "node_count ?s = node_count s" "cwd ?s = cwd s" "root ?s = root s" "name_of ?s j = name_of s j"
    "n_type (nodes ?s j) = n_type (nodes s j)" for j by (simp_all add: set_node_def)
  have "holds ?s path str"
    using i res [OF i(2)] h'(5) km(2) by (auto simp: holds_def contents_def set_node_def)
  moreover have "holds ?s e t" if e: "(e, t) \<in> set fs" for e t
  proof -
    obtain c where c: "c < node_count s" "vfs_resolve e s = ret (Some c)" "n_type (nodes s c) = VFS_FILE" "n_data (nodes s c) \<noteq> NULL" "contents s c = t"
      using seededD(7) [OF s e] by (auto simp: holds_def)
    then have "c \<noteq> i" using i(4) by auto
    then have "contents ?s c = t" "n_data (nodes ?s c) \<noteq> NULL" using fk(2) [OF c(1)] c(4,5) by (simp_all add: set_node_def)
    then show ?thesis using c(1,3) res [OF c(2)] f(2,6) by (auto simp: holds_def)
  qed
  moreover have "is_dir ?s e" if e: "e \<in> set dirs" for e
    using seededD(6) [OF s e] res f(2,4,6) by (auto simp: is_dir_def dir_of_def split: if_splits)
  ultimately have "seeded ?s bs' dirs ((path, str) # fs) leaves"
    using s fk(1) same_links_tree [OF sl ch] f by (auto simp: seeded_def)
  then show ?thesis using w h'(6,7) f(1) by auto
qed

section \<open>Booting the file system\<close>

definition text_literal :: "mem \<Rightarrow> addr set \<Rightarrow> addr \<Rightarrow> u8 list \<Rightarrow> bool" where
  "text_literal m E a str \<longleftrightarrow> literal m E a (str @ [0]) \<and> 0 \<notin> set str"

lemma text_literalD:
  assumes "text_literal m E a str"
  shows "literal m E a str" "strlen m a = Some (of_nat (length str))"
proof -
  have p: "peek m a (Suc (length str)) = str @ [0]" "0 \<notin> set str" using assms by (simp_all add: text_literal_def literal_def)
  then show "strlen m a = Some (of_nat (length str))" by (intro strlen_cstring) (simp add: cstring_peek)
  have "take (length str) (peek m a (Suc (length str))) = str" using p(1) by simp
  then have "peek m a (length str) = str" by (simp add: peek_def take_map)
  then show "literal m E a str" using assms by (auto simp: text_literal_def literal_def)
qed

lemma shrunk_literal:
  assumes "shrunk h bs h' bs'"
  shows "literal (heap_mem h) (extents h bs) a str \<Longrightarrow> literal (heap_mem h') (extents h' bs') a str"
    and "text_literal (heap_mem h) (extents h bs) a str \<Longrightarrow> text_literal (heap_mem h') (extents h' bs') a str"
  using assms by (auto simp: shrunk_def text_literal_def intro: literal_kept)

lemma seed_file_seeded:
  assumes s: "seeded s bs dirs fs leaves" "length leaves < 255" and p: "new_path dirs leaves (bytes_of q) (bytes_of l)"
    and lit: "text_literal (heap_mem (v_heap s)) (extents (v_heap s) bs) a str" and sp: "spare (v_heap s) bs n" "length str + 105 \<le> n"
  shows "\<exists>s' bs'. seed_file (q @ ''/'' @ l) a s = ret s' \<and>
    seeded s' bs' dirs ((bytes_of (q @ ''/'' @ l), str) # fs) (bytes_of l # leaves) \<and>
    shrunk (v_heap s) bs (v_heap s') bs' \<and> spare (v_heap s') bs' (n - length str - 73)"
proof -
  let ?p = "bytes_of q @ slash # bytes_of l"
  obtain i s1 where i: "make_node VFS_FILE ?p 0x1A4 s = ret (Some i, s1)" "seeded s1 bs dirs fs (bytes_of l # leaves)" "v_heap s1 = v_heap s"
    "i < node_count s1" "vfs_resolve ?p s1 = ret (Some i)" "n_type (nodes s1 i) = VFS_FILE" "n_data (nodes s1 i) = NULL"
    using make_seeded [OF s p] by blast
  note t = text_literalD [OF lit]
  obtain r s' bs' where w: "vfs_write (Some i) a (of_nat (length str)) s1 = ret (r, s')" "seeded s' bs' dirs ((?p, str) # fs) (bytes_of l # leaves)"
    "shrunk (v_heap s1) bs (v_heap s') bs'" "spare (v_heap s') bs' (n - length str - 73)"
    using write_seeded [OF i(2,4-7), of a str n] t(1) sp i(3) by auto
  have "seed_file (q @ ''/'' @ l) a s = ret s'"
    using i(1) w(1) t(2) i(3) by (simp add: seed_file_def vfs_create_def bytes_of_join [simplified])
  then show ?thesis using w(2-4) i(3) by (auto simp: bytes_of_join [simplified])
qed

definition init_dirs :: "(string \<times> string \<times> u32) list" where
  "init_dirs =
     [('''', ''bin'', 0x1ED), ('''', ''etc'', 0x1ED), ('''', ''home'', 0x1ED), (''/home'', ''user'', 0x1ED), ('''', ''tmp'', 0x1FF),
      ('''', ''var'', 0x1ED), ('''', ''usr'', 0x1ED), (''/usr'', ''share'', 0x1ED), ('''', ''dev'', 0x1ED), ('''', ''proc'', 0x1ED),
      (''/var'', ''lib'', 0x1ED), (''/var/lib'', ''h3pkg'', 0x1ED), (''/usr/share'', ''packages'', 0x1ED)]"

lemma vfs_init_join:
  "vfs_init motd release db s =
     (let s = s\<lparr>nodes := (\<lambda>_. node_zero), node_count := 0\<rparr>; (r, s) = alloc_node [slash] VFS_DIR 0x1ED s; s = s\<lparr>root := r, cwd := [slash]\<rparr> in
      run_bind (seed_dirs (map join init_dirs) s) (\<lambda>s.
      run_bind (seed_file (''/etc'' @ ''/'' @ ''motd'') motd s) (\<lambda>s.
      run_bind (seed_file (''/etc'' @ ''/'' @ ''h3os-release'') release s) (\<lambda>s.
      seed_file (''/var/lib/h3pkg'' @ ''/'' @ ''db'') db s))))"
  by (simp add: vfs_init_def init_dirs_def join_def)

lemma init_seedable: "seedable init_dirs [[]] []"
  by (simp add: init_dirs_def new_path_def plain_leaf_def slash_def VFS_NAME_MAX_def VFS_PATH_MAX_def bytes_of_def)

abbreviation init_paths :: "u8 list list" where
  "init_paths \<equiv> dirs_after init_dirs [[]]"

abbreviation init_leaves :: "u8 list list" where
  "init_leaves \<equiv> leaves_after init_dirs []"

lemma init_files_new:
  "new_path init_paths init_leaves (bytes_of ''/etc'') (bytes_of ''motd'')"
  "new_path init_paths (bytes_of ''motd'' # init_leaves) (bytes_of ''/etc'') (bytes_of ''h3os-release'')"
  "new_path init_paths (bytes_of ''h3os-release'' # bytes_of ''motd'' # init_leaves) (bytes_of ''/var/lib/h3pkg'') (bytes_of ''db'')"
  "new_path init_paths (bytes_of ''db'' # bytes_of ''h3os-release'' # bytes_of ''motd'' # init_leaves) (bytes_of ''/bin'') (bytes_of ''hello.exe'')"
  "length init_leaves = 13"
  by (simp_all add: init_dirs_def join_def new_path_def plain_leaf_def slash_def VFS_NAME_MAX_def VFS_PATH_MAX_def bytes_of_def)

lemma root_seeded:
  assumes h: "heap_ok (v_heap s) bs"
    and s1: "s1 = (snd (alloc_node [slash] VFS_DIR 0x1ED (s\<lparr>nodes := (\<lambda>_. node_zero), node_count := 0\<rparr>)))\<lparr>root := Some 0, cwd := [slash]\<rparr>"
  shows "seeded s1 bs [[]] [] []" "v_heap s1 = v_heap s"
proof -
  let ?r = "node_zero\<lparr>n_name := strncpy_buf (VFS_NAME_MAX - 1) [slash] (n_name node_zero), n_type := VFS_DIR, n_mode := 0x1ED\<rparr>"
  have f: "nodes s1 = (\<lambda>_. node_zero)(0 := ?r)" "node_count s1 = 1" "root s1 = Some 0" "cwd s1 = [slash]" "v_heap s1 = v_heap s"
    by (simp_all add: s1 alloc_node_def set_node_def VFS_MAX_NODES_def Let_def)
  have "cstr (strncpy_buf (VFS_NAME_MAX - 1) [slash] (n_name node_zero)) = [slash]"
    by (subst cstr_strncpy_buf) (auto simp: VFS_NAME_MAX_def node_zero_def slash_def)
  moreover have "files_ok s1 bs" using h by (simp add: files_ok_def f node_zero_def)
  ultimately show "seeded s1 bs [[]] [] []"
    using root_tree [OF f(1-3)] by (auto simp: seeded_def is_dir_def dir_of_def f)
  show "v_heap s1 = v_heap s" by (rule f(5))
qed

definition init_files :: "u8 list \<Rightarrow> u8 list \<Rightarrow> u8 list \<Rightarrow> (u8 list \<times> u8 list) list" where
  "init_files motd_str release_str db_str =
     [(bytes_of ''/var/lib/h3pkg/db'', db_str), (bytes_of ''/etc/h3os-release'', release_str), (bytes_of ''/etc/motd'', motd_str)]"

lemma vfs_init_seeded:
  assumes h: "heap_ok (v_heap s) bs" "spare (v_heap s) bs n" "length str1 + length str2 + length str3 + 305 \<le> n"
    and lit: "text_literal (heap_mem (v_heap s)) (extents (v_heap s) bs) motd str1" "text_literal (heap_mem (v_heap s)) (extents (v_heap s) bs) release str2"
      "text_literal (heap_mem (v_heap s)) (extents (v_heap s) bs) db str3"
  shows "\<exists>s' bs'. vfs_init motd release db s = ret s' \<and>
    seeded s' bs' init_paths (init_files str1 str2 str3) (bytes_of ''db'' # bytes_of ''h3os-release'' # bytes_of ''motd'' # init_leaves) \<and>
    shrunk (v_heap s) bs (v_heap s') bs' \<and> spare (v_heap s') bs' (n - length str1 - length str2 - length str3 - 219)"
proof -
  let ?s = "(snd (alloc_node [slash] VFS_DIR 0x1ED (s\<lparr>nodes := (\<lambda>_. node_zero), node_count := 0\<rparr>)))\<lparr>root := Some 0, cwd := [slash]\<rparr>"
  note r = root_seeded [OF h(1) refl]
  obtain s1 where s1: "seed_dirs (map join init_dirs) ?s = ret s1" "seeded s1 bs init_paths [] init_leaves" "v_heap s1 = v_heap s"
    using seed_dirs_seeded [OF r(1) init_seedable] r(2) by auto
  note lv = init_files_new(5)
  have room: "length str2 + 105 \<le> n - length str1 - 73" "length str3 + 105 \<le> n - length str1 - 73 - length str2 - 73" using h(3) by linarith+
  obtain s2 bs2 where s2: "seed_file (''/etc'' @ ''/'' @ ''motd'') motd s1 = ret s2"
    "seeded s2 bs2 init_paths [(bytes_of (''/etc'' @ ''/'' @ ''motd''), str1)] (bytes_of ''motd'' # init_leaves)"
    "shrunk (v_heap s) bs (v_heap s2) bs2" "spare (v_heap s2) bs2 (n - length str1 - 73)"
    using seed_file_seeded [OF s1(2) _ init_files_new(1), of motd str1 n] lit(1) h(2,3) s1(3) lv by auto
  have l2: "text_literal (heap_mem (v_heap s2)) (extents (v_heap s2) bs2) release str2" "text_literal (heap_mem (v_heap s2)) (extents (v_heap s2) bs2) db str3"
    using lit(2,3) shrunk_literal(2) [OF s2(3)] by blast+
  obtain s3 bs3 where s3: "seed_file (''/etc'' @ ''/'' @ ''h3os-release'') release s2 = ret s3"
    "seeded s3 bs3 init_paths [(bytes_of (''/etc'' @ ''/'' @ ''h3os-release''), str2), (bytes_of (''/etc'' @ ''/'' @ ''motd''), str1)]
      (bytes_of ''h3os-release'' # bytes_of ''motd'' # init_leaves)"
    "shrunk (v_heap s2) bs2 (v_heap s3) bs3" "spare (v_heap s3) bs3 (n - length str1 - 73 - length str2 - 73)"
    using seed_file_seeded [OF s2(2) _ init_files_new(2) l2(1) s2(4) room(1)] lv by auto
  have l3: "text_literal (heap_mem (v_heap s3)) (extents (v_heap s3) bs3) db str3" using l2(2) shrunk_literal(2) [OF s3(3)] by blast
  obtain s4 bs4 where s4: "seed_file (''/var/lib/h3pkg'' @ ''/'' @ ''db'') db s3 = ret s4"
    "seeded s4 bs4 init_paths (init_files str1 str2 str3) (bytes_of ''db'' # bytes_of ''h3os-release'' # bytes_of ''motd'' # init_leaves)"
    "shrunk (v_heap s3) bs3 (v_heap s4) bs4" "spare (v_heap s4) bs4 (n - length str1 - 73 - length str2 - 73 - length str3 - 73)"
    using seed_file_seeded [OF s3(2) _ init_files_new(3) l3 s3(4) room(2)] lv by (auto simp: init_files_def)
  have "fst (alloc_node [slash] VFS_DIR 0x1ED (s\<lparr>nodes := (\<lambda>_. node_zero), node_count := 0\<rparr>)) = Some 0"
    by (simp add: alloc_node_def VFS_MAX_NODES_def Let_def)
  then have "vfs_init motd release db s = ret s4"
    using s1(1) s2(1) s3(1) s4(1) by (simp add: vfs_init_join Let_def split_beta)
  moreover have "spare (v_heap s4) bs4 (n - length str1 - length str2 - length str3 - 219)" using s4(4) by (rule spare_mono) simp
  ultimately show ?thesis using s4(2) shrunk_trans [OF shrunk_trans [OF s2(3) s3(3)] s4(3)] by blast
qed

lemma old_dir:
  assumes s: "seeded s bs dirs fs leaves" and d: "q @ slash # l \<in> set dirs" "q = [] \<or> hd q = slash" "plain_leaf l" "length q + length l + 1 < VFS_PATH_MAX"
  shows "\<exists>n. vfs_mkdir (q @ slash # l) mode s = ret (Some n, s)"
proof -
  obtain ch where ch: "tree_ok s ch" using seededD(1) [OF s] by blast
  have nm: "normalize_path (q @ slash # l) s = ret (q @ slash # l)" using d(2,4) by (cases q) (auto simp: normalize_path_def)
  obtain n where n: "vfs_resolve (q @ slash # l) s = ret (Some n)" using seededD(6) [OF s d(1)] by (auto simp: is_dir_def dir_of_def)
  obtain c where c: "dir_of s q = ret (Some c)" "find_child s c l = Some (Some n)"
    using n resolve_abs [OF nm d(2-4) tree_okD(1) [OF ch]] by (auto simp: run_bind_ret run_of_ret split: option.splits)
  have "reach ch c"
    using c(1) vfs_resolve_total [OF ch normalize_abs [of q s]] d(2,4) tree_okD(1) [OF ch] reach_root by (auto simp: dir_of_def split: if_splits)
  then have cv: "c < node_count s" "n \<in> set (ch c)" using reach_valid [OF _ ch] find_child_reach(2) [OF ch _ c(2)] by blast+
  then have "n_type (nodes s c) = VFS_DIR" using tree_okD(12) [OF ch cv(1)] by (metis empty_iff empty_set)
  then show ?thesis
    using ensure_parent_abs [OF nm d(2-4)] c d(3) by (simp add: vfs_mkdir_def make_node_def plain_leaf_def)
qed

lemma pe_seed_seeded:
  assumes rdy: "serial_ready B" and s: "seeded s bs init_paths fs (bytes_of ''db'' # bytes_of ''h3os-release'' # bytes_of ''motd'' # init_leaves)"
    and lit: "literal (heap_mem (v_heap s)) (extents (v_heap s) bs) a hello_exe" and sp: "spare (v_heap s) bs n" "1129 \<le> n"
  shows "\<exists>s' bs' line. pe_seed_binaries B a s l = ret (s', written B line l) \<and>
    seeded s' bs' init_paths ((bytes_of ''/bin/hello.exe'', hello_exe) # fs)
      (bytes_of ''hello.exe'' # bytes_of ''db'' # bytes_of ''h3os-release'' # bytes_of ''motd'' # init_leaves) \<and>
    shrunk (v_heap s) bs (v_heap s') bs'"
proof -
  have bin: "bytes_of ''/bin'' = [] @ slash # bytes_of ''bin''" "[] @ slash # bytes_of ''bin'' \<in> set init_paths" "plain_leaf (bytes_of ''bin'')"
    by (simp_all add: init_dirs_def join_def plain_leaf_def bytes_of_def slash_def VFS_NAME_MAX_def)
  obtain d where d: "vfs_mkdir (bytes_of ''/bin'') 0x1ED s = ret (Some d, s)"
    unfolding bin(1) using old_dir [OF s bin(2) _ bin(3), of "0x1ED"] by (auto simp: bytes_of_def VFS_PATH_MAX_def)
  have p: "bytes_of ''/bin/hello.exe'' = bytes_of ''/bin'' @ slash # bytes_of ''hello.exe''" by (simp add: bytes_of_def slash_def)
  obtain i s1 where i: "make_node VFS_FILE (bytes_of ''/bin/hello.exe'') 0x1ED s = ret (Some i, s1)" "v_heap s1 = v_heap s"
    "seeded s1 bs init_paths fs (bytes_of ''hello.exe'' # bytes_of ''db'' # bytes_of ''h3os-release'' # bytes_of ''motd'' # init_leaves)"
    "i < node_count s1" "vfs_resolve (bytes_of ''/bin/hello.exe'') s1 = ret (Some i)" "n_type (nodes s1 i) = VFS_FILE" "n_data (nodes s1 i) = NULL"
    using make_seeded [OF s _ init_files_new(4), of VFS_FILE "0x1ED"] init_files_new(5) p by auto
  have len: "ucast hello_exe_len = (of_nat (length hello_exe) :: u64)" by (simp add: hello_exe_length hello_exe_len_def)
  have room: "length hello_exe + 105 \<le> n" using sp(2) by (simp add: hello_exe_length)
  have lit1: "literal (heap_mem (v_heap s1)) (extents (v_heap s1) bs) a hello_exe" and sp1: "spare (v_heap s1) bs n" using lit sp(1) i(2) by simp_all
  obtain r s' bs' where w: "vfs_write (Some i) a (ucast hello_exe_len) s1 = ret (r, s')"
    "seeded s' bs' init_paths ((bytes_of ''/bin/hello.exe'', hello_exe) # fs)
      (bytes_of ''hello.exe'' # bytes_of ''db'' # bytes_of ''h3os-release'' # bytes_of ''motd'' # init_leaves)"
    "shrunk (v_heap s1) bs (v_heap s') bs'"
    using write_seeded [OF i(3-7) lit1 sp1 room] unfolding len by blast
  obtain line where "\<And>l. klog B LOG_INFO (bytes_of ''pe'') (bytes_of ''Installed /bin/hello.exe (%u bytes)'') [Slot (ucast hello_exe_len)] l = ret (written B line l)"
    using klog_fits [OF rdy, of "bytes_of ''Installed /bin/hello.exe (%u bytes)''" "[Slot (ucast hello_exe_len)]" LOG_INFO "bytes_of ''pe''"]
    by (auto simp: bytes_of_def)
  then have "pe_seed_binaries B a s l = ret (s', written B line l)" using d i(1) w(1) by (simp add: pe_seed_binaries_def vfs_create_def)
  then show ?thesis using w(2,3) i(2) by auto
qed

end
