(* ===== verification/H3_Boot.thy ===== *)
theory H3_Boot
  imports H3_Kernel H3_Seeding
begin

text \<open>
  Booting succeeds (\<^verbatim>\<open>kernel/core/main.c\<close>): with a working serial port and clock, a well-formed block from the boot loader and
  the kernel's image in place, \<^verbatim>\<open>kernel_main\<close> gets to its event loop, and the file system holds what the image ships.
\<close>

section \<open>Runs that return\<close>

definition returns :: "('s \<Rightarrow> bool) \<Rightarrow> 's run \<Rightarrow> bool" where
  "returns P r \<longleftrightarrow> (\<exists>s. r = ret s \<and> P s)"

lemma returns_ret: "P s \<Longrightarrow> returns P (ret s)"
  by (auto simp: returns_def)

lemma returns_bind: "returns P r \<Longrightarrow> (\<And>s. P s \<Longrightarrow> returns Q (f s)) \<Longrightarrow> returns Q (run_bind r f)"
  by (auto simp: returns_def)

lemma returns_of: "r = Some x \<Longrightarrow> returns P (f x) \<Longrightarrow> returns P (run_bind (run_of r) f)"
  by simp

lemma returns_if: "(b \<Longrightarrow> returns P x) \<Longrightarrow> (\<not> b \<Longrightarrow> returns P y) \<Longrightarrow> returns P (if b then x else y)"
  by simp

lemma returns_seq:
  "(\<And>f s. f \<in> set fs \<Longrightarrow> P s \<Longrightarrow> returns P (f s)) \<Longrightarrow> P s \<Longrightarrow> returns P (sh_seq fs s)"
proof (induction fs arbitrary: s)
  case (Cons f fs)
  have "returns P (f s)" using Cons.prems by simp
  then show ?case using Cons by (auto intro: returns_bind)
qed (simp add: returns_ret)

lemma returns_fold: "(\<And>x s. P s \<Longrightarrow> returns P (f x s)) \<Longrightarrow> P s \<Longrightarrow> returns P (run_fold f xs s)"
  by (induction xs arbitrary: s) (auto intro: returns_bind returns_ret)

lemma returns_step: "returns P (f s) \<Longrightarrow> (\<And>t. P t \<Longrightarrow> returns Q (sh_seq fs t)) \<Longrightarrow> returns Q (sh_seq (f # fs) s)"
  by (simp add: returns_bind)

lemma returns_two_steps: "returns P (run_bind (f s) g) \<Longrightarrow> (\<And>t. P t \<Longrightarrow> returns Q (sh_seq fs t)) \<Longrightarrow> returns Q (sh_seq (f # g # fs) s)"
proof -
  assume r: "returns P (run_bind (f s) g)" "\<And>t. P t \<Longrightarrow> returns Q (sh_seq fs t)"
  have "sh_seq (g # fs) = (\<lambda>x. run_bind (g x) (sh_seq fs))" by (rule ext) simp
  then show ?thesis using returns_bind [OF r] by (simp add: run_bind_assoc)
qed

section \<open>The steps that leave the file system and the memory alone\<close>

text \<open>The parts of the state that later steps build on: the file system, with the memory and the heap, and the performance profile.\<close>

abbreviation core_is :: "vfs_state \<times> perf_settings_t \<Rightarrow> ('d, 'z) kernel_state_scheme \<Rightarrow> bool" where
  "core_is c \<equiv> (\<lambda>s. (sh_vfs s, sh_perf s) = c)"

lemma log_returns:
  assumes "serial_ready B" "args_fit fmt ap" "core_is v s"
  shows "returns (core_is v) (k_log B level subsystem fmt ap s)"
  using klog_fits [OF assms(1,2), of level "bytes_of subsystem"] assms(3) by (auto simp: k_log_def returns_def)

lemma fit_text: "\<forall>c \<in> set fmt. c \<noteq> 0x25 \<Longrightarrow> args_fit fmt []"
  by (induction fmt "[] :: va_slot list" rule: args_fit.induct) auto

lemma on_dev_fs: "on_dev f s = (r, s') \<Longrightarrow> sh_vfs s' = sh_vfs s"
  by (auto simp: on_dev_def split: prod.splits)

lemma banner_returns: "serial_ready B \<Longrightarrow> core_is v s \<Longrightarrow> returns (core_is v) (banner B s)"
  unfolding banner_def by (rule returns_seq) (auto intro!: log_returns simp: bytes_of_def)

lemma log_steps_return:
  assumes "serial_ready B" "core_is v s"
  shows "returns (core_is v) (boot_gdt B s)" "returns (core_is v) (boot_vmm B env s)"
    "returns (core_is v) (power_init B s)" "returns (core_is v) (syscall_init B s)" "returns (core_is v) (boot_timer B env hz s)"
    "returns (core_is v) (pci_line B dev s)"
  unfolding boot_gdt_def boot_vmm_def power_init_def syscall_init_def boot_timer_def pci_line_def Let_def split_beta
  by (rule log_returns; simp add: assms bytes_of_def)+

lemma boot_adaptive_returns:
  assumes "serial_ready B" "core_is (v, pf) s"
  shows "\<exists>pf'. 0 < max_windows pf' \<and> returns (core_is (v, pf')) (boot_adaptive B s)"
proof -
  let ?pf = "adaptive_init (pmm_get_stats (heap_pmm (k_heap s))) (sh_cpu s)"
  have "returns (core_is (v, ?pf)) (boot_adaptive B s)"
    unfolding boot_adaptive_def Let_def by (rule log_returns) (use assms in \<open>simp_all add: bytes_of_def\<close>)
  moreover have "0 < max_windows ?pf" by (simp add: adaptive_init_def Let_def)
  ultimately show ?thesis by blast
qed

lemma cpu_init_returns: "serial_ready B \<Longrightarrow> core_is v s \<Longrightarrow> returns (core_is v) (cpu_init B env s)"
  unfolding cpu_init_def Let_def by (rule returns_seq) (auto intro!: log_returns simp: bytes_of_def)

lemma boot_security_returns: "serial_ready B \<Longrightarrow> core_is v s \<Longrightarrow> returns (core_is v) (boot_security B s)"
  unfolding boot_security_def Let_def by (rule returns_seq) (auto intro!: log_returns simp: bytes_of_def)

lemma boot_idt_returns: "serial_ready B \<Longrightarrow> core_is v s \<Longrightarrow> returns (core_is v) (boot_idt B env s)"
  unfolding boot_idt_def Let_def split_beta
  by (rule returns_seq) (auto intro!: log_returns simp: bytes_of_def on_dev_def split_beta)

lemma rtc_init_returns:
  assumes "serial_ready B" "\<And>d. rtc_read B d \<noteq> None" "core_is v s"
  shows "returns (core_is v) (rtc_init B s)"
proof -
  obtain t d where "rtc_read B (log_dev (sh_log s)) = Some (t, d)" using assms(2) by (metis option.exhaust surj_pair)
  then show ?thesis
    unfolding rtc_init_def by (rule returns_of) (use assms in \<open>auto intro!: log_returns simp: bytes_of_def\<close>)
qed

lemma boot_input_returns: "serial_ready B \<Longrightarrow> core_is v s \<Longrightarrow> returns (core_is v) (boot_input B env s)"
  unfolding boot_input_def Let_def split_beta
  by (rule returns_bind [where P = "core_is v"]) (auto intro!: log_returns simp: bytes_of_def)

lemma boot_pci_returns: "serial_ready B \<Longrightarrow> core_is v s \<Longrightarrow> returns (core_is v) (boot_pci B s)"
  unfolding boot_pci_def Let_def split_beta
  by (rule returns_bind [where P = "core_is v"])
    (auto intro!: log_returns returns_fold log_steps_return(6) simp: bytes_of_def on_dev_def split_beta)

lemma sched_init_returns: "\<exists>q'. sched_init q = Some q'"
  by (cases "find_slot (q\<lparr>tasks := (\<lambda>_. task_zero), sched_lock := spinlock_init (sched_lock q), current := None, ready_q := None, next_id := 1,
      task_count := 0\<rparr>) 0") (simp_all add: sched_init_def sched_create_def spinlock_init_def spin_lock_cases Let_def)

lemma boot_services_returns:
  assumes "serial_ready B" "core_is v s"
  shows "returns (core_is v) (boot_services B s)"
  unfolding boot_services_def
proof (rule returns_bind [where P = "core_is v"])
  show "returns (core_is v) (sh_seq [\<lambda>s. k_info B ''net'' ''Loopback up 127.0.0.1/8 (IPv6 ::1 planned)'' [] (s\<lparr>k_net := net_init\<rparr>),
        k_info B ''net'' ''Protocols staged: TCP UDP ICMP DNS DHCP HTTP HTTPS'' [],
        \<lambda>s. k_info B ''ipc'' ''IPC ports ready'' [] (s\<lparr>k_ipc := ipc_init\<rparr>), power_init B] s)"
    using assms by (intro returns_seq) (auto intro!: log_returns log_steps_return(3) simp: bytes_of_def)
  fix t :: "('a, 'b) kernel_state_scheme" assume t: "core_is v t"
  obtain q where q: "sched_init (ap_sched t) = Some q" using sched_init_returns by blast
  show "returns (core_is v) (run_bind (run_of (sched_init (ap_sched t)))
      (\<lambda>q. sh_seq [k_info B ''sched'' ''Scheduler ready (cooperative RR)'' [], syscall_init B] (t\<lparr>ap_sched := q\<rparr>)))"
    by (rule returns_of [OF q], rule returns_seq) (use assms(1) t in \<open>auto intro!: log_returns log_steps_return(4) simp: bytes_of_def\<close>)
qed

text \<open>The terminal as the user meets it: the greeting is on the screen, the input line is empty, and its window gets the keys.\<close>

definition greeting :: "u8 list" where
  "greeting = bytes_of ''H3OS Terminal 0.1 '' @ em_dash @ bytes_of '' The Future Starts Here.'' @ [10] @
     bytes_of ''Type '' @ [0x27] @ bytes_of ''help'' @ [0x27] @ bytes_of '' | try: run /bin/hello.exe'' @ [10]"

definition greeted :: "boot_env \<Rightarrow> ('d, 'z) kernel_state_scheme \<Rightarrow> bool" where
  "greeted env s \<longleftrightarrow> term_ok (sh_term s) \<and> cstr (t_input (sh_term s)) = [] \<and> screen (sh_term s) = last_rows (layout greeting) \<and>
     (\<exists>i. focused (sh_wm s) = Some i \<and> on_key (windows (sh_wm s) i) = fn_term_key env)"

lemma greeting_prints:
  "sh_seq [sh_println (bytes_of ''H3OS Terminal 0.1 '' @ em_dash @ bytes_of '' The Future Starts Here.''),
     sh_println (bytes_of ''Type '' @ [0x27] @ bytes_of ''help'' @ [0x27] @ bytes_of '' | try: run /bin/hello.exe'')] s = sh_print greeting s"
  unfolding sh_println_print sh_seq_prints sh_seq_print by (simp add: greeting_def)

lemma open_terminal_greets:
  assumes s: "core_is (v, pf) s" "0 < max_windows pf" and wm: "windows (sh_wm s) = (\<lambda>_. window_zero)" "win_count (sh_wm s) = 0"
  shows "returns (\<lambda>u. sh_vfs u = v \<and> greeted env u) (open_terminal env s)"
proof -
  have "[0..<WM_MAX_WINDOWS] = 0 # [1..<WM_MAX_WINDOWS]" by (simp add: WM_MAX_WINDOWS_def upt_conv_Cons)
  then have "find (\<lambda>i. \<not> active (windows (sh_wm s) i)) [0..<WM_MAX_WINDOWS] = Some 0" by (simp add: wm window_zero_def)
  moreover have "\<not> max_windows (sh_perf s) \<le> win_count (sh_wm s)" using s wm(2) by auto
  moreover have "focused (wm_focus (Some i) w) = Some i" for i w by (simp add: wm_focus_def set_win_def Let_def)
  ultimately have "\<exists>wm'. wm_create (sh_perf s) (Some (bytes_of ''Terminal'')) (half (fb_width (sh_fb s) - 640)) 80 640 400 (sh_wm s) = (Some 0, wm') \<and>
      focused wm' = Some 0" by (simp add: wm_create_def Let_def)
  then obtain wm' where c: "wm_create (sh_perf s) (Some (bytes_of ''Terminal'')) (half (fb_width (sh_fb s) - 640)) 80 640 400 (sh_wm s) = (Some 0, wm')"
    and f: "focused wm' = Some 0" by blast
  let ?t = "s\<lparr>sh_term := term_zero, sh_pe := pe_set_console (fn_write (shell_env.truncate env)) (fn_writeln (shell_env.truncate env)) (sh_pe s),
    sh_wm := set_win 0 (\<lambda>k. k\<lparr>bg := 0xFF07161E, accent := 0xFF2EC4B6, user := term_at (shell_env.truncate env),
      wdraw := fn_term_draw (shell_env.truncate env), on_key := fn_term_key (shell_env.truncate env)\<rparr>) wm'\<rparr>"
  have nz: "0 \<notin> set greeting" by (simp add: greeting_def em_dash_def bytes_of_def)
  obtain t where t: "sh_print greeting ?t = ret (?t\<lparr>sh_term := t\<rparr>)" "screen_step term_zero t" "screen t = last_rows (put_text greeting [[]])"
    using sh_prints [of ?t greeting] nz term_zero_ok screen_zero by auto
  have "cstr (t_input term_zero) = []" by (simp add: term_zero_def cstr_def term_sizes)
  then have "greeted env (?t\<lparr>sh_term := t\<rparr>)"
    using t(2,3) f by (simp add: greeted_def screen_step_def put_text_layout set_win_def shell_env.defs)
  moreover have "open_terminal env s = ret (?t\<lparr>sh_term := t\<rparr>)"
    unfolding open_terminal_def terminal_open_def greeting_prints using c t(1) by (simp add: Let_def)
  ultimately show ?thesis using s(1) by (auto simp: returns_def)
qed

lemma boot_desktop_greets:
  assumes B: "serial_ready B" and s: "core_is (v, pf) s" "0 < max_windows pf"
  shows "returns (\<lambda>u. sh_vfs u = v \<and> greeted env u) (boot_desktop B env s)"
proof -
  define P where "P t \<longleftrightarrow> core_is (v, pf) t \<and> windows (sh_wm t) = (\<lambda>_. window_zero) \<and> win_count (sh_wm t) = 0" for t :: "('a, 'b) kernel_state_scheme"
  have wm: "returns P (k_info B ''wm'' ''Window manager online (Horizon shell)'' [] (s\<lparr>sh_wm := wm_init (sh_wm s)\<rparr>))"
    using klog_fits [OF B, of "bytes_of ''Window manager online (Horizon shell)''" "[]" LOG_INFO "bytes_of ''wm''"] s(1)
    by (auto simp: P_def k_log_def returns_def bytes_of_def wm_init_def)
  have init: "returns P (desktop_init B t)" if "P t" for t
    using klog_fits [OF B, of "bytes_of ''Windows-style Horizon shell ready''" "[]" LOG_INFO "bytes_of ''desktop''"] that
    by (auto simp: P_def desktop_init_def Let_def returns_def bytes_of_def)
  have fin: "returns (\<lambda>u. sh_vfs u = v \<and> greeted env u) (k_info B ''boot'' ''H3OS is ready. Entering desktop event loop.'' [] t)"
    if "sh_vfs t = v \<and> greeted env t" for t :: "('a, 'b) kernel_state_scheme"
    using klog_fits [OF B, of "bytes_of ''H3OS is ready. Entering desktop event loop.''" "[]" LOG_INFO "bytes_of ''boot''"] that
    by (auto simp: k_log_def returns_def bytes_of_def greeted_def)
  show ?thesis
    unfolding boot_desktop_def
    by (rule returns_step, rule wm, rule returns_step, erule init, rule returns_step, rule open_terminal_greets [OF _ s(2)])
      (simp_all only: P_def, rule returns_step, erule fin, simp add: returns_ret)
qed

section \<open>Memory\<close>

text \<open>The page allocator owns every page below the end of the kernel.\<close>

lemma pmm_init_owns:
  assumes i: "pmm_init m mb2 e = Some p" and e: "0x100000 \<le> unat e" "unat e \<le> unat (total_pages p) * 4096"
    and f: "mb2_find m mb2 MB2_TAG_MMAP = Some mmap" "mmap \<noteq> NULL \<Longrightarrow> mmap_regular m mmap"
  shows "pmm_inv p" and "unat x < unat e \<Longrightarrow> x \<in> owned p"
proof -
  define b where "b = (if mmap = NULL then pmm_fallback pmm_reset else pmm_from_mmap m mmap pmm_reset)"
  have s: "p = reserve_region 0x100000 (e - 0x100000) (reserve_region 0 0x100000 b)"
    using i f(1) by (auto simp: pmm_init_def Let_def b_def split: if_splits)
  have c: "counted b" using f(2) fallback_counted from_mmap_counted by (simp add: b_def)
  have "total_pages p \<le> PMM_MAX_PAGES" using c s reserve_loop_counted by (auto simp: reserve_region_def counted_def)
  then have "unat (total_pages p) \<le> 524288" by (rule pmm_max_bound)
  then have "unat e + 4095 < 18446744073709551616" using e(2) by linarith
  moreover have "0x100000 \<le> e" using e(1) by (simp add: word_le_nat_alt)
  ultimately have inv: "pmm_inv p" and fin: "\<And>q. unat q * 4096 < unat e \<Longrightarrow> q \<notin> free_pages p" using finish_reserves [OF c _ _ s] by blast+
  show "pmm_inv p" by (rule inv)
  show "x \<in> owned p" if x: "unat x < unat e"
  proof -
    have q: "unat (x div PAGE_SIZE) = unat x div 4096" by (simp add: unat_div PAGE_SIZE_def)
    then have "unat (x div PAGE_SIZE) * 4096 < unat e" using x div_times_less_eq_dividend [of "unat x" 4096] by linarith
    then have "x div PAGE_SIZE \<notin> free_pages p" by (rule fin)
    moreover have "x div PAGE_SIZE < total_pages p" using q x e(2) by (simp add: word_less_nat_alt)
    ultimately show ?thesis by (simp add: owned_def free_pages_def taken_def)
  qed
qed

lemma alloc_keeps_owned:
  assumes "pmm_inv p"
  shows "\<exists>a p'. pmm_alloc_pages n p = Some (a, p') \<and> pmm_inv p' \<and> owned p \<subseteq> owned p' \<and>
    (a \<noteq> 0 \<longrightarrow> unat a + unat n * 4096 \<le> 2147483648 \<and> (\<forall>x. unat a \<le> unat x \<longrightarrow> unat x < unat a + unat n * 4096 \<longrightarrow> x \<notin> owned p))"
proof (cases "n = 0")
  case True
  then show ?thesis using assms by (simp add: pmm_alloc_pages_def)
next
  case False
  then have n: "0 < n" by (simp add: word_gt_0)
  obtain a p' where r: "pmm_alloc_pages n p = Some (a, p')" using pmm.alloc_returns [OF assms n] by blast
  have "owned p \<subseteq> owned p'" by (rule owned_mono [OF pmm.alloc_held_mono [OF assms n r]])
  then show ?thesis
    using r pmm.alloc_inv [OF assms n r] pmm.alloc_block(3) [OF assms n r] pmm.alloc_bytes_fresh(1) [OF assms n r] by (auto simp: owned_def)
qed

lemma fb_init_returns:
  assumes inv: "pmm_inv p" and tag: "fb_mb2_find m mb2 MB2_TAG_FRAMEBUFFER = Some tag"
  shows "\<exists>g m' p'. fb_init fallback mb2 m p = Some (g, m', p') \<and> pmm_inv p' \<and> owned p \<subseteq> owned p' \<and> (\<forall>x \<in> owned p. m' x = m x)"
proof -
  obtain b q where "pmm_alloc_pages (H3OS_ALIGN_UP 3686400 PAGE_SIZE div PAGE_SIZE) p = Some (b, q)" "pmm_inv q" "owned p \<subseteq> owned q"
    using alloc_keeps_owned [OF inv] by blast
  then have "\<exists>g p1. fb_front fallback tag m p = Some (g, p1) \<and> pmm_inv p1 \<and> owned p \<subseteq> owned p1"
    using inv by (simp add: fb_front_def fb_zero_def Let_def)
  then obtain g p1 where front: "fb_front fallback tag m p = Some (g, p1)" "pmm_inv p1" "owned p \<subseteq> owned p1" by blast
  define bytes where "bytes = (ucast (fb_pitch g) * ucast (fb_height g) :: u64)"
  define n where "n = H3OS_ALIGN_UP bytes PAGE_SIZE div PAGE_SIZE"
  obtain a p2 where a: "pmm_alloc_pages n p1 = Some (a, p2)" "pmm_inv p2" "owned p1 \<subseteq> owned p2"
    and blk: "a \<noteq> 0 \<Longrightarrow> unat a + unat n * 4096 \<le> 2147483648"
      "\<And>x. a \<noteq> 0 \<Longrightarrow> unat a \<le> unat x \<Longrightarrow> unat x < unat a + unat n * 4096 \<Longrightarrow> x \<notin> owned p1"
    using alloc_keeps_owned [OF front(2), of n] by blast
  have "unat x \<le> 4294967295" for x :: u32 using unat_u32_bound [of x] by linarith
  then have "unat (fb_pitch g) * unat (fb_height g) \<le> 4294967295 * 4294967295" by (intro mult_le_mono)
  then have b: "unat bytes + 4095 < 18446744073709551616" by (simp add: bytes_def unat_mult_u64)
  have fits: "unat bytes \<le> unat n * 4096" using align_up_page_div [OF b] by (simp add: n_def PAGE_SIZE_def)
  have "snd (memset m a 0 bytes) x = m x" if "x \<in> owned p" "a \<noteq> 0" for x
  proof -
    have "\<not> (unat a \<le> unat x \<and> unat x < unat a + unat bytes)" using blk(2) [OF that(2)] that(1) front(3) fits by force
    then have "\<not> in_range x a (unat bytes)" using blk(1) [OF that(2)] fits by (subst in_range_nat) simp_all
    then show ?thesis by (simp add: memset_def memset_loop_poke poke_other)
  qed
  then show ?thesis
    using front a tag by (cases "a = 0") (auto simp: fb_init_def Let_def bytes_def [symmetric] n_def [symmetric])
qed

lemma load32_same: "(\<And>x. in_range x a 4 \<Longrightarrow> m' x = m x) \<Longrightarrow> load32 m' a = load32 m a"
  unfolding load32_def peek_def
  by (rule arg_cong [where f = word_of_bytes], rule map_cong) (simp_all add: in_range_offset)

text \<open>The walk of the framebuffer driver reads nothing but the block of the boot loader.\<close>

lemma fb_walk_same:
  assumes "fb_mb2_loop m ptr e ty = Some r" "unat lo \<le> unat ptr" "unat e + 4294967304 < 18446744073709551616"
    and "\<And>x. unat lo \<le> unat x \<Longrightarrow> unat x < unat e + 8 \<Longrightarrow> m' x = m x"
  shows "fb_mb2_loop m' ptr e ty = Some r"
proof -
  have "unat lo \<le> unat ptr \<longrightarrow> unat e + 4294967304 < 18446744073709551616 \<longrightarrow>
      (\<forall>x. unat lo \<le> unat x \<longrightarrow> unat x < unat e + 8 \<longrightarrow> m' x = m x) \<longrightarrow> fb_mb2_loop m' ptr e ty = Some r"
  proof (rule fb_mb2_loop.raw_induct [where P = "\<lambda>m ptr e ty r. unat lo \<le> unat ptr \<longrightarrow> unat e + 4294967304 < 18446744073709551616 \<longrightarrow>
      (\<forall>x. unat lo \<le> unat x \<longrightarrow> unat x < unat e + 8 \<longrightarrow> m' x = m x) \<longrightarrow> fb_mb2_loop m' ptr e ty = Some r", OF _ assms(1)], intro impI)
    fix walk :: "mem \<Rightarrow> addr \<Rightarrow> addr \<Rightarrow> u32 \<Rightarrow> addr option" and m :: mem and ptr e :: addr and ty r
    assume IH: "\<And>m ptr e ty r. walk m ptr e ty = Some r \<Longrightarrow> unat lo \<le> unat ptr \<longrightarrow> unat e + 4294967304 < 18446744073709551616 \<longrightarrow>
        (\<forall>x. unat lo \<le> unat x \<longrightarrow> unat x < unat e + 8 \<longrightarrow> m' x = m x) \<longrightarrow> fb_mb2_loop m' ptr e ty = Some r"
      and eq: "(if ptr < e then (if load32 m ptr = 0 then Some NULL else if load32 m ptr = ty then Some ptr
           else walk m (ptr + ucast ((load32 m (ptr + 4) + 7) AND NOT 7)) e ty) else Some NULL) = Some r"
      and lo: "unat lo \<le> unat ptr" and e: "unat e + 4294967304 < 18446744073709551616"
      and same: "\<forall>x. unat lo \<le> unat x \<longrightarrow> unat x < unat e + 8 \<longrightarrow> m' x = m x"
    show "fb_mb2_loop m' ptr e ty = Some r"
    proof (cases "ptr < e")
      case True
      then have pe: "unat ptr < unat e" by (simp add: word_less_nat_alt)
      then have p4: "unat (ptr + 4) = unat ptr + 4" using e by (subst unat_add_u64) simp_all
      have ld: "load32 m' ptr = load32 m ptr" "load32 m' (ptr + 4) = load32 m (ptr + 4)"
        using same lo pe e p4 by (auto intro!: load32_same simp: in_range_nat)
      define d where "d = (load32 m (ptr + 4) + 7) AND NOT 7"
      have "unat (ptr + ucast d) = unat ptr + unat d"
        using e pe unat_u32_bound [of d] by (subst unat_add_u64) (simp_all del: unat_u32_bound)
      then have step: "walk m (ptr + ucast d) e ty = Some r \<Longrightarrow> fb_mb2_loop m' (ptr + ucast d) e ty = Some r"
        using IH [of m "ptr + ucast d" e ty r] lo e same by simp
      show ?thesis using eq True step unfolding d_def by (subst fb_mb2_loop.simps) (auto simp: ld)
    qed (use eq in \<open>subst fb_mb2_loop.simps, simp\<close>)
  qed
  then show ?thesis using assms(2-4) by blast
qed

section \<open>The heap\<close>

definition arena :: "boot_env \<Rightarrow> addr set" where
  "arena env = {x. unat (early_arena env) \<le> unat x \<and> unat x < unat (early_arena env) + 524288}"

lemma heap_init_ready:
  assumes "pmm_inv (heap_pmm h)" "early_arena env \<noteq> NULL" "unat (early_arena env) + 524288 \<le> 18446744073709551616" "arena env \<subseteq> owned (heap_pmm h)"
  defines "h' \<equiv> heap_init (early_arena env) h"
  shows "heap_ok h' [early_arena env]" "spare h' [early_arena env] 524248" "extents h' [early_arena env] = arena env"
    "heap_pmm h' = heap_pmm h" "x \<notin> arena env \<Longrightarrow> heap_mem h' x = heap_mem h x"
proof -
  have "x \<in> owned (heap_pmm h)" if "unat (early_arena env) \<le> unat x" "unat x < unat (early_arena env) + 524288" for x
    using assms(4) that by (auto simp: arena_def)
  note hi = heap_init_spec [OF assms(1-3) this, folded h'_def]
  show "heap_ok h' [early_arena env]" "heap_pmm h' = heap_pmm h" by (simp_all add: hi(1,6))
  show "spare h' [early_arena env] 524248" using hi(4,5) by (simp add: spare_def)
  show "extents h' [early_arena env] = arena env" using hi(4) by (simp add: extents_def extent_def arena_def add.commute)
  show "heap_mem h' x = heap_mem h x" if "x \<notin> arena env"
  proof -
    have "\<not> in_range x (early_arena env) 40" using that assms(3) by (auto simp: in_range_nat arena_def)
    then show ?thesis by (simp add: h'_def heap_init_def heap_add_region_def Let_def set_frame)
  qed
qed

text \<open>A heap survives any change of the memory outside of it, and the taking of further pages.\<close>

lemma heap_ok_outside:
  assumes ok: "heap_ok h bs" and same: "\<And>x. x \<in> extents h bs \<Longrightarrow> m' x = heap_mem h x" and p: "pmm_inv p'" "owned (heap_pmm h) \<subseteq> owned p'"
  defines "h' \<equiv> h\<lparr>heap_mem := m', heap_pmm := p'\<rparr>"
  shows "heap_ok h' bs" "extents h' bs = extents h bs" "spare h bs n \<Longrightarrow> spare h' bs n"
proof -
  have bok: "blocks_ok (hdr h) (heap_head h) bs" using ok by (simp add: heap_ok_def)
  have hd: "block_at m' b = hdr h b" if b: "b \<in> set bs" for b
  proof (rule block_at_cong)
    fix x assume "in_range x b 40"
    then have "x \<in> extent (hdr h) b" using blocks_okD(3) [OF bok b] by (auto simp: in_range_nat extent_def)
    then show "m' x = heap_mem h x" using b same by (auto simp: extents_def)
  qed
  then have e: "extent (block_at m') b = extent (hdr h) b" if "b \<in> set bs" for b using that by (simp add: extent_def)
  have "blocks_ok (block_at m') (heap_head h) bs"
    using bok hd e seg_cong [of bs "block_at m'" "hdr h"] by (simp add: blocks_ok_def)
  moreover have "extent (block_at m') b \<subseteq> owned p'" if "b \<in> set bs" for b
    using e [OF that] ok p(2) that by (simp add: heap_ok_def) (meson order_trans)
  ultimately show "heap_ok h' bs"
    using ok p(1) used_sum_cong [of bs "block_at m'" "hdr h"] hd by (simp add: heap_ok_def h'_def)
  show "extents h' bs = extents h bs" using e by (simp add: extents_def h'_def)
  show "spare h' bs n" if "spare h bs n" using that hd by (auto simp: spare_def h'_def)
qed

section \<open>The steps that set up memory and files\<close>

lemma boot_pmm_returns:
  assumes "serial_ready B" "core_is (v, pf) s" "mb2_find (heap_mem (v_heap v)) mb2 MB2_TAG_MMAP = Some mmap" "pmm_init (heap_mem (v_heap v)) mb2 (kernel_end env) = Some p"
  shows "returns (core_is (v\<lparr>v_heap := (v_heap v)\<lparr>heap_pmm := p\<rparr>\<rparr>, pf)) (boot_pmm B env mb2 s)"
proof -
  have hp: "heap_mem (k_heap s) = heap_mem (v_heap v)" using assms(2) by (simp add: k_heap_def)
  have warn: "returns (core_is (v, pf)) (if mmap = NULL
      then k_log B LOG_WARN ''pmm'' (bytes_of ''No multiboot mmap '' @ dash @ bytes_of '' using 128 MiB fallback'') [] s else ret s)"
    by (rule returns_if) (rule log_returns returns_ret; use assms(1,2) in \<open>simp add: bytes_of_def dash_def\<close>)+
  show ?thesis
    unfolding boot_pmm_def Let_def hp
    by (rule returns_of [OF assms(3)], rule returns_bind [OF warn], rule returns_of [OF assms(4)], rule log_returns)
      (use assms(1) in \<open>simp_all add: bytes_of_def dash_def set_heap_def k_heap_def\<close>)
qed

lemma boot_kheap_returns:
  assumes "serial_ready B" "core_is (v, pf) s"
  shows "returns (core_is (v\<lparr>v_heap := heap_init (early_arena env) (v_heap v)\<rparr>, pf)) (boot_kheap B env s)"
  unfolding boot_kheap_def by (rule log_returns) (use assms in \<open>simp_all add: bytes_of_def set_heap_def k_heap_def\<close>)

lemma boot_fb_returns:
  assumes B: "serial_ready B" and s: "core_is (v, pf) s" and inv: "pmm_inv (heap_pmm (v_heap v))"
    and tag: "fb_mb2_find (heap_mem (v_heap v)) mb2 MB2_TAG_FRAMEBUFFER = Some tag"
  shows "\<exists>m' p'. pmm_inv p' \<and> owned (heap_pmm (v_heap v)) \<subseteq> owned p' \<and> (\<forall>x \<in> owned (heap_pmm (v_heap v)). m' x = heap_mem (v_heap v) x) \<and>
    returns (core_is (v\<lparr>v_heap := (v_heap v)\<lparr>heap_mem := m', heap_pmm := p'\<rparr>\<rparr>, pf)) (boot_fb B env mb2 s)"
proof -
  have h: "k_heap s = v_heap v" using s by (simp add: k_heap_def)
  obtain g m' p' where fb: "fb_init (fallback_at env) mb2 (heap_mem (v_heap v)) (heap_pmm (v_heap v)) = Some (g, m', p')" "pmm_inv p'"
    "owned (heap_pmm (v_heap v)) \<subseteq> owned p'" "\<forall>x \<in> owned (heap_pmm (v_heap v)). m' x = heap_mem (v_heap v) x"
    using fb_init_returns [OF inv tag] by blast
  let ?v = "v\<lparr>v_heap := (v_heap v)\<lparr>heap_mem := m', heap_pmm := p'\<rparr>\<rparr>"
  have line: "returns (core_is (v, pf)) (if tag \<noteq> NULL \<and> heap_mem (v_heap v) (tag + 29) = 1 \<and> heap_mem (v_heap v) (tag + 28) = 32
      then k_info B ''fb'' ''Framebuffer %ux%u@%u at %p pitch=%u''
        [num_slot (fb_width g), num_slot (fb_height g), num_slot (fb_bpp g), Slot (fb_pixels g), num_slot (fb_pitch g)] s
      else k_log B LOG_WARN ''fb'' (bytes_of ''No GOP framebuffer '' @ dash @ bytes_of '' using software surface %ux%u'')
        [num_slot (fb_width g), num_slot (fb_height g)] s)"
    by (rule returns_if) (rule log_returns; use B s in \<open>simp add: bytes_of_def dash_def\<close>)+
  have fin: "returns (core_is (?v, pf)) (let t = set_heap ((k_heap t)\<lparr>heap_mem := m', heap_pmm := p'\<rparr>) (t\<lparr>sh_fb := g\<rparr>) in
      if fb_double g then k_info B ''fb'' ''Double buffering enabled'' [] t else ret t)" if "core_is (v, pf) t" for t :: "('a, 'b) kernel_state_scheme"
    unfolding Let_def
    by (rule returns_if) (rule log_returns returns_ret; use B that in \<open>simp add: bytes_of_def set_heap_def k_heap_def\<close>)+
  have "returns (core_is (?v, pf)) (boot_fb B env mb2 s)"
    unfolding boot_fb_def Let_def h
    by (rule returns_of [OF fb(1)], simp only: prod.case, rule returns_of [OF tag], rule returns_bind [OF line], rule fin [unfolded Let_def])
  then show ?thesis using fb(2-4) by blast
qed

text \<open>The kernel's image: the heap's arena and the literals lie in it, and the literals lie outside of the arena.\<close>

definition image_ready :: "boot_env \<Rightarrow> mem \<Rightarrow> u8 list \<Rightarrow> u8 list \<Rightarrow> u8 list \<Rightarrow> bool" where
  "image_ready env m motd release db \<longleftrightarrow>
     (let moving = arena env \<union> {x. unat (kernel_end env) \<le> unat x} in
      0x100000 \<le> unat (early_arena env) \<and> unat (early_arena env) + 524288 \<le> unat (kernel_end env) \<and>
      text_literal m moving (motd_at env) motd \<and> text_literal m moving (release_at env) release \<and> text_literal m moving (db_at env) db \<and>
      literal m moving (hello_at env) hello_exe \<and> length motd + length release + length db \<le> 500000)"

text \<open>
  The block of the boot loader: the walks over its tags end, the memory map is regular and covers the kernel, and the block
  lies outside of the arena.
\<close>

definition loader_ready :: "boot_env \<Rightarrow> addr \<Rightarrow> mem \<Rightarrow> bool" where
  "loader_ready env mb2 m \<longleftrightarrow> mb2 \<noteq> NULL \<and> unat mb2 + 8589934600 < 18446744073709551616 \<and>
     (\<exists>mmap p. mb2_find m mb2 MB2_TAG_MMAP = Some mmap \<and> (mmap \<noteq> NULL \<longrightarrow> mmap_regular m mmap) \<and>
        pmm_init m mb2 (kernel_end env) = Some p \<and> unat (kernel_end env) \<le> unat (total_pages p) * 4096) \<and>
     fb_mb2_find m mb2 MB2_TAG_FRAMEBUFFER \<noteq> None \<and>
     (\<forall>x. unat mb2 \<le> unat x \<longrightarrow> unat x < unat mb2 + unat (load32 m mb2) + 8 \<longrightarrow> x \<notin> arena env)"

definition devices_ready :: "'d bus \<Rightarrow> bool" where
  "devices_ready B \<longleftrightarrow> serial_ready B \<and> (\<forall>d. rtc_read B d \<noteq> None)"

text \<open>The state of the file system's memory before \<^verbatim>\<open>vfs_init\<close>.\<close>

definition fs_ready :: "boot_env \<Rightarrow> u8 list \<Rightarrow> u8 list \<Rightarrow> u8 list \<Rightarrow> vfs_state \<Rightarrow> bool" where
  "fs_ready env motd release db v \<longleftrightarrow>
     (let h = v_heap v; bs = [early_arena env] in
      heap_ok h bs \<and> spare h bs 524248 \<and> extents h bs \<subseteq> arena env \<and>
      text_literal (heap_mem h) (extents h bs) (motd_at env) motd \<and> text_literal (heap_mem h) (extents h bs) (release_at env) release \<and>
      text_literal (heap_mem h) (extents h bs) (db_at env) db \<and> literal (heap_mem h) (extents h bs) (hello_at env) hello_exe)"

definition shipped :: "boot_env \<Rightarrow> u8 list \<Rightarrow> u8 list \<Rightarrow> u8 list \<Rightarrow> vfs_state \<Rightarrow> bool" where
  "shipped env motd release db v \<longleftrightarrow> (\<exists>bs leaves. seeded v bs init_paths ((bytes_of ''/bin/hello.exe'', hello_exe) # init_files motd release db) leaves \<and>
     extents (v_heap v) bs \<subseteq> arena env)"

lemma boot_files_return:
  assumes B: "serial_ready B" and s: "fs_ready env motd release db (sh_vfs s)" and len: "length motd + length release + length db \<le> 500000"
  shows "returns (\<lambda>s'. shipped env motd release db (sh_vfs s') \<and> sh_perf s' = sh_perf s) (run_bind (boot_vfs B env s) (boot_pe B env))"
proof -
  let ?h = "v_heap (sh_vfs s)" and ?bs = "[early_arena env]"
  have h: "heap_ok ?h ?bs" "spare ?h ?bs 524248" "text_literal (heap_mem ?h) (extents ?h ?bs) (motd_at env) motd"
    "text_literal (heap_mem ?h) (extents ?h ?bs) (release_at env) release" "text_literal (heap_mem ?h) (extents ?h ?bs) (db_at env) db"
    "literal (heap_mem ?h) (extents ?h ?bs) (hello_at env) hello_exe" "extents ?h ?bs \<subseteq> arena env"
    using s by (simp_all add: fs_ready_def Let_def)
  have room: "length motd + length release + length db + 305 \<le> 524248" "1129 \<le> 524248 - length motd - length release - length db - 219"
    using len by linarith+
  obtain v bs where v: "vfs_init (motd_at env) (release_at env) (db_at env) (sh_vfs s) = ret v"
    "seeded v bs init_paths (init_files motd release db) (bytes_of ''db'' # bytes_of ''h3os-release'' # bytes_of ''motd'' # init_leaves)"
    "shrunk ?h ?bs (v_heap v) bs" "spare (v_heap v) bs (524248 - length motd - length release - length db - 219)"
    using vfs_init_seeded [OF h(1,2) room(1) h(3-5)] by blast
  have vfs: "returns (core_is (v, sh_perf s)) (boot_vfs B env s)"
    unfolding boot_vfs_def v(1) run_simps by (rule log_returns) (use B in \<open>simp_all add: bytes_of_def\<close>)
  have "returns (\<lambda>s'. shipped env motd release db (sh_vfs s') \<and> sh_perf s' = sh_perf s) (boot_pe B env t)" if t: "core_is (v, sh_perf s) t" for t :: "('a, 'b) kernel_state_scheme"
  proof -
    have seed: "\<exists>v' line. pe_seed_binaries B (hello_at env) v l = ret (v', written B line l) \<and> shipped env motd release db v'" for l
    proof -
      obtain v' bs' line where w: "pe_seed_binaries B (hello_at env) v l = ret (v', written B line l)"
        "seeded v' bs' init_paths ((bytes_of ''/bin/hello.exe'', hello_exe) # init_files motd release db)
          (bytes_of ''hello.exe'' # bytes_of ''db'' # bytes_of ''h3os-release'' # bytes_of ''motd'' # init_leaves)" "shrunk (v_heap v) bs (v_heap v') bs'"
        using pe_seed_seeded [OF B v(2) shrunk_literal(1) [OF v(3) h(6)] v(4) room(2), of l] by blast
      have "extents (v_heap v') bs' \<subseteq> arena env" using w(3) v(3) h(7) by (auto simp: shrunk_def)
      then show ?thesis using w(1,2) by (auto simp: shipped_def)
    qed
    have log: "returns (core_is (v, sh_perf s)) (k_info B ''pe'' ''PE32+ loader ready (H3OS native EXE ABI)'' [] (t\<lparr>sh_pe := pe_init (sh_pe t)\<rparr>))"
      by (rule log_returns) (use B t in \<open>simp_all add: bytes_of_def\<close>)
    show ?thesis
      unfolding boot_pe_def
    proof (rule returns_bind [OF log])
      fix u :: "('a, 'b) kernel_state_scheme" assume "core_is (v, sh_perf s) u"
      then show "returns (\<lambda>s'. shipped env motd release db (sh_vfs s') \<and> sh_perf s' = sh_perf s)
          (run_bind (pe_seed_binaries B (hello_at env) (sh_vfs u) (sh_log u)) (\<lambda>(v, l). ret (u\<lparr>sh_vfs := v, sh_log := l\<rparr>)))"
        using seed [of "sh_log u"] by (auto simp: returns_def)
    qed
  qed
  then show ?thesis by (rule returns_bind [OF vfs])
qed

section \<open>From the entry of the kernel to the event loop\<close>

lemma shipped_desktop_returns:
  assumes B: "serial_ready B" and s: "shipped env motd release db (sh_vfs s)" "0 < max_windows (sh_perf s)"
  shows "returns (\<lambda>s'. shipped env motd release db (sh_vfs s') \<and> greeted env s') (sh_seq [boot_services B, boot_desktop B env] s)"
proof -
  have "returns (\<lambda>u. sh_vfs u = sh_vfs s \<and> greeted env u) (sh_seq [boot_services B, boot_desktop B env] s)"
    by (rule returns_step, rule boot_services_returns [OF B refl], rule returns_step, erule boot_desktop_greets [OF B _ s(2)]) (simp add: returns_ret)
  then show ?thesis using s(1) by (auto simp: returns_def simp del: sh_seq_simps)
qed

lemma image_fs_ready:
  assumes im: "image_ready env (heap_mem h0) motd release db" and p: "pmm_inv p" "\<forall>x. unat x < unat (kernel_end env) \<longrightarrow> x \<in> owned p"
    and h: "h = heap_init (early_arena env) (h0\<lparr>heap_pmm := p\<rparr>)"
    and fb: "pmm_inv p'" "owned p \<subseteq> owned p'" "\<forall>x \<in> owned p. m' x = heap_mem h x"
  shows "fs_ready env motd release db (v\<lparr>v_heap := h\<lparr>heap_mem := m', heap_pmm := p'\<rparr>\<rparr>)"
    and "x \<notin> arena env \<Longrightarrow> heap_mem h x = heap_mem h0 x" and "heap_pmm h = p"
proof -
  define moving where "moving = arena env \<union> {x. unat (kernel_end env) \<le> unat x}"
  have e: "0x100000 \<le> unat (early_arena env)" "unat (early_arena env) + 524288 \<le> unat (kernel_end env)"
    using im by (simp_all add: image_ready_def Let_def)
  then have ar: "arena env \<subseteq> owned p" "early_arena env \<noteq> NULL" "unat (early_arena env) + 524288 \<le> 18446744073709551616"
    using p(2) unat_u64_bound [of "kernel_end env"] by (auto simp: arena_def NULL_def simp del: unat_u64_bound)
  have f: "heap_pmm (h0\<lparr>heap_pmm := p\<rparr>) = p" "heap_mem (h0\<lparr>heap_pmm := p\<rparr>) = heap_mem h0" by simp_all
  note hi = heap_init_ready [of "h0\<lparr>heap_pmm := p\<rparr>" env, folded h, unfolded f, OF p(1) ar(2,3,1)]
  show "heap_mem h x = heap_mem h0 x" if "x \<notin> arena env" by (rule hi(5) [OF that])
  show "heap_pmm h = p" by (rule hi(4))
  have same: "m' x = heap_mem h x" if "x \<in> extents h [early_arena env]" for x using that hi(3) ar(1) fb(3) by blast
  note ho = heap_ok_outside [OF hi(1) same fb(1), unfolded hi(4), OF _ fb(2)]
  let ?h = "h\<lparr>heap_mem := m', heap_pmm := p'\<rparr>" and ?bs = "[early_arena env]"
  have ok: "heap_ok ?h ?bs" "extents ?h ?bs = arena env" "spare ?h ?bs 524248" using ho hi(2,3) by auto
  have mem: "m' x = heap_mem h0 x" if "x \<notin> moving" for x
    using that fb(3) p(2) hi(5) [of x] by (simp add: moving_def not_le)
  have lit: "literal m' (arena env) a str" if "literal (heap_mem h0) moving a str" for a str
    by (rule literal_kept [OF that mem]) (auto simp: moving_def)
  then have "text_literal m' (arena env) a str" if "text_literal (heap_mem h0) moving a str" for a str using that by (simp add: text_literal_def)
  with lit show "fs_ready env motd release db (v\<lparr>v_heap := ?h\<rparr>)"
    using im ok by (simp add: fs_ready_def image_ready_def Let_def moving_def)
qed

lemma loader_walk:
  assumes ld: "loader_ready env mb2 m" and same: "\<And>x. x \<notin> arena env \<Longrightarrow> m' x = m x"
  shows "\<exists>tag. fb_mb2_find m' mb2 MB2_TAG_FRAMEBUFFER = Some tag"
proof -
  obtain tag where tag: "fb_mb2_find m mb2 MB2_TAG_FRAMEBUFFER = Some tag" using ld by (auto simp: loader_ready_def)
  have b: "mb2 \<noteq> NULL" "unat mb2 + 8589934600 < 18446744073709551616"
    and out: "\<And>x. unat mb2 \<le> unat x \<Longrightarrow> unat x < unat mb2 + unat (load32 m mb2) + 8 \<Longrightarrow> m' x = m x"
    using ld same by (auto simp: loader_ready_def)
  have ld32: "load32 m' mb2 = load32 m mb2" using out b(2) by (intro load32_same) (simp add: in_range_nat)
  have u: "unat (mb2 + ucast (load32 m mb2)) = unat mb2 + unat (load32 m mb2)" "unat (mb2 + 8) = unat mb2 + 8"
    using b(2) unat_u32_bound [of "load32 m mb2"] by (simp_all add: unat_add_u64 del: unat_u32_bound)
  have t: "fb_mb2_loop m (mb2 + 8) (mb2 + ucast (load32 m mb2)) MB2_TAG_FRAMEBUFFER = Some tag" using tag b(1) by (simp add: fb_mb2_find_def)
  have lo: "unat mb2 \<le> unat (mb2 + 8)" and e: "unat (mb2 + ucast (load32 m mb2)) + 4294967304 < 18446744073709551616"
    using u b(2) unat_u32_bound [of "load32 m mb2"] by linarith+
  have "fb_mb2_loop m' (mb2 + 8) (mb2 + ucast (load32 m mb2)) MB2_TAG_FRAMEBUFFER = Some tag"
    by (rule fb_walk_same [OF t lo e out [folded u(1)]])
  then show ?thesis using b(1) ld32 by (simp add: fb_mb2_find_def)
qed

lemma kernel_main_returns:
  assumes dev: "devices_ready B" and ld: "loader_ready env mb2 (heap_mem (k_heap s))" and im: "image_ready env (heap_mem (k_heap s)) motd release db"
  shows "returns (\<lambda>s'. shipped env motd release db (sh_vfs s') \<and> greeted env s') (kernel_main B env mb2 s)"
proof -
  have B: "serial_ready B" and rtc: "\<And>d. rtc_read B d \<noteq> None" using dev by (auto simp: devices_ready_def)
  let ?Q = "\<lambda>s'. shipped env motd release db (sh_vfs s') \<and> greeted env s'"
  define v where "v = sh_vfs s"
  define pf where "pf = sh_perf s"
  have hv: "k_heap s = v_heap v" by (simp add: k_heap_def v_def)
  obtain mmap p where p: "mb2_find (heap_mem (v_heap v)) mb2 MB2_TAG_MMAP = Some mmap" "mmap \<noteq> NULL \<Longrightarrow> mmap_regular (heap_mem (v_heap v)) mmap"
    "pmm_init (heap_mem (v_heap v)) mb2 (kernel_end env) = Some p" "unat (kernel_end env) \<le> unat (total_pages p) * 4096" and mb2: "mb2 \<noteq> NULL"
    using ld hv by (auto simp: loader_ready_def)
  have e: "0x100000 \<le> unat (kernel_end env)" "length motd + length release + length db \<le> 500000" using im by (simp_all add: image_ready_def Let_def)
  have own: "pmm_inv p" "\<forall>x. unat x < unat (kernel_end env) \<longrightarrow> x \<in> owned p" using pmm_init_owns [OF p(3) e(1) p(4,1)] p(2) by blast+
  define h where "h = heap_init (early_arena env) ((v_heap v)\<lparr>heap_pmm := p\<rparr>)"
  let ?v1 = "v\<lparr>v_heap := (v_heap v)\<lparr>heap_pmm := p\<rparr>\<rparr>" and ?v2 = "v\<lparr>v_heap := h\<rparr>"
  note rdy = image_fs_ready [OF im [unfolded hv] own(1,2) h_def]
  have hp: "heap_pmm h = p" "\<And>x. x \<notin> arena env \<Longrightarrow> heap_mem h x = heap_mem (v_heap v) x" 
    using rdy(2,3) [of p "heap_mem h"] own(1) by auto
  obtain tag where tag: "fb_mb2_find (heap_mem (v_heap ?v2)) mb2 MB2_TAG_FRAMEBUFFER = Some tag"
    using loader_walk [OF ld [unfolded hv] hp(2)] by auto
  have files: "returns ?Q (sh_seq [boot_adaptive B, boot_security B, boot_vfs B env, boot_pe B env, boot_services B, boot_desktop B env] t)"
    if w: "fs_ready env motd release db w" "core_is (w, pf) t" for w and t :: "('a, 'b) kernel_state_scheme"
  proof -
    obtain pf' where pf': "0 < max_windows pf'" "returns (core_is (w, pf')) (boot_adaptive B t)" using boot_adaptive_returns [OF B w(2)] by blast
    have rest: "returns ?Q (sh_seq [boot_vfs B env, boot_pe B env, boot_services B, boot_desktop B env] u)" if "core_is (w, pf') u"
      for u :: "('a, 'b) kernel_state_scheme"
      by (rule returns_two_steps, rule boot_files_return [where env = env and motd = motd and release = release and db = db, OF B])
        (use that w(1) pf'(1) e(2) shipped_desktop_returns [OF B] in auto)
    show ?thesis by (rule returns_step, rule pf'(2), rule returns_step, erule boot_security_returns [OF B], rule rest)
  qed
  have fb: "returns ?Q (sh_seq (boot_fb B env mb2 # [boot_adaptive B, boot_security B, boot_vfs B env, boot_pe B env, boot_services B, boot_desktop B env]) t)"
    if t: "core_is (?v2, pf) t" for t :: "('a, 'b) kernel_state_scheme"
  proof -
    obtain m' p' where m': "pmm_inv p'" "owned p \<subseteq> owned p'" "\<forall>x \<in> owned p. m' x = heap_mem h x"
      "returns (core_is (?v2\<lparr>v_heap := h\<lparr>heap_mem := m', heap_pmm := p'\<rparr>\<rparr>, pf)) (boot_fb B env mb2 t)"
      using boot_fb_returns [OF B t _ tag, where env = env] hp(1) own(1) by auto
    show ?thesis by (rule returns_step, rule m'(4), rule files [OF rdy(1) [OF m'(1-3), of ?v2]]) simp
  qed
  have mid: "returns ?Q (sh_seq (boot_vmm B env # boot_idt B env # boot_timer B env 100 # rtc_init B # boot_input B env # boot_pci B # fs) t)"
    if "core_is (?v2, pf) t" "\<And>u. core_is (?v2, pf) u \<Longrightarrow> returns ?Q (sh_seq fs u)" for fs and t :: "('a, 'b) kernel_state_scheme"
    using that
    by (intro returns_step [OF log_steps_return(2) [OF B]] returns_step [OF boot_idt_returns [OF B]] returns_step [OF log_steps_return(5) [OF B]]
        returns_step [OF rtc_init_returns [OF B rtc]] returns_step [OF boot_input_returns [OF B]] returns_step [OF boot_pci_returns [OF B]])
  have start: "returns ?Q (sh_seq (f # boot_gdt B # cpu_init B env # boot_pmm B env mb2 # boot_kheap B env # fs) t)"
    if t: "core_is (v, pf) t" and f: "\<And>u. core_is (v, pf) u \<Longrightarrow> returns (core_is (v, pf)) (f u)" and fs: "\<And>u. core_is (?v2, pf) u \<Longrightarrow> returns ?Q (sh_seq fs u)"
    for f fs and t :: "('a, 'b) kernel_state_scheme"
  proof -
    have kh: "returns (core_is (?v2, pf)) (boot_kheap B env u)" if "core_is (?v1, pf) u" for u :: "('a, 'b) kernel_state_scheme"
      using boot_kheap_returns [OF B that] by (simp add: h_def)
    show ?thesis
      using t by (intro returns_step [OF f] returns_step [OF log_steps_return(1) [OF B]] returns_step [OF cpu_init_returns [OF B]]
          returns_step [OF boot_pmm_returns [OF B _ p(1,3)]] returns_step [OF kh] fs)
  qed
  have info: "returns (core_is (v, pf)) (k_info B ''boot'' ''Multiboot2 info at %p (%u bytes)'' [Slot mb2, num_slot (load32 (heap_mem (k_heap u)) mb2)] u)"
    if "core_is (v, pf) u" for u :: "('a, 'b) kernel_state_scheme" by (rule log_returns [OF B]) (use that in \<open>simp_all add: bytes_of_def\<close>)
  have ban: "returns (core_is (v, pf)) (banner B (s\<lparr>sh_log := klog_init B (sh_log s)\<rparr>))" by (rule banner_returns [OF B]) (simp add: v_def pf_def)
  show ?thesis
    unfolding kernel_main_def if_not_P [OF mb2] by (rule returns_bind [OF ban], rule start, assumption, rule info, assumption, rule mid, assumption, rule fb)
qed

section \<open>Properties\<close>

lemma made_dirs: "t \<in> set ts \<Longrightarrow> bytes_of (fst (join t)) \<in> set (dirs_after ts dirs)"
proof -
  have mono: "set dirs \<subseteq> set (dirs_after ts dirs)" for ts dirs
  proof (induction ts arbitrary: dirs)
    case (Cons a ts)
    have "set dirs \<subseteq> set (bytes_of (fst (join a)) # dirs)" by auto
    also have "\<dots> \<subseteq> set (dirs_after ts (bytes_of (fst (join a)) # dirs))" by (rule Cons.IH)
    finally show ?case by simp
  qed simp
  show "t \<in> set ts \<Longrightarrow> bytes_of (fst (join t)) \<in> set (dirs_after ts dirs)"
  proof (induction ts arbitrary: dirs)
    case (Cons a ts)
    then show ?case using mono [of "bytes_of (fst (join a)) # dirs" ts] by auto
  qed simp
qed

text \<open>
  (C12) Booting succeeds. Let the serial port accept bytes and the clock chip end its updates, let the walks over the boot loader's tags end,
  its memory map be regular and cover the kernel, and let the kernel's image hold the heap's arena and, outside of it, the literals of
  \<^verbatim>\<open>vfs_init\<close> and the sample program. Then \<^verbatim>\<open>kernel_main\<close> gets to its event loop, in a state from which the loop is safe; the file
  system is well-formed with every file in a block of its own, it has all the directories that \<^verbatim>\<open>vfs_init\<close> names, and each of
  the four files holds exactly the bytes that the image ships for it.
\<close>

theorem kernel_boots:
  assumes "devices_ready B" "loader_ready env mb2 (heap_mem (k_heap s))" "image_ready env (heap_mem (k_heap s)) motd release db" "bss_ok s"
  shows "\<exists>s' ch bs. kernel_main B env mb2 s = ret s' \<and> kernel_ok env s' \<and> tree_ok (sh_vfs s') ch \<and> files_ok (sh_vfs s') bs \<and>
    (\<forall>d \<in> set init_dirs. is_dir (sh_vfs s') (bytes_of (fst (join d)))) \<and>
    holds (sh_vfs s') (bytes_of ''/etc/motd'') motd \<and> holds (sh_vfs s') (bytes_of ''/etc/h3os-release'') release \<and>
    holds (sh_vfs s') (bytes_of ''/var/lib/h3pkg/db'') db \<and> holds (sh_vfs s') (bytes_of ''/bin/hello.exe'') hello_exe"
proof -
  obtain s' bs leaves where r: "kernel_main B env mb2 s = ret s'"
    and sd: "seeded (sh_vfs s') bs init_paths ((bytes_of ''/bin/hello.exe'', hello_exe) # init_files motd release db) leaves"
    using kernel_main_returns [OF assms(1-3)] by (auto simp: returns_def shipped_def)
  have "kernel_ok env s'" using kernel_main_ok [OF assms(4), of env B mb2] r by (simp add: ensures_def)
  moreover obtain ch where "tree_ok (sh_vfs s') ch" using seededD(1) [OF sd] by blast
  moreover have "is_dir (sh_vfs s') (bytes_of (fst (join d)))" if "d \<in> set init_dirs" for d
    by (rule seededD(6) [OF sd]) (rule made_dirs [OF that])
  ultimately show ?thesis
    using r seededD(2) [OF sd] seededD(7) [OF sd] by (auto simp: init_files_def)
qed

text \<open>An image of the kernel in memory, with a block of the boot loader that has no tags.\<close>

definition boot_texts :: "(addr \<times> u8 list) list" where
  "boot_texts = [(0x600, bytes_of ''Welcome''), (0x610, bytes_of ''0.1''), (0x620, bytes_of ''h3edit''), (0x700, hello_exe)]"

definition boot_mem :: mem where
  "boot_mem = fold (\<lambda>(a, str) m. poke m a str) boot_texts ((\<lambda>_. 0)(0x9000 := 8))"

definition boot_state :: "u8 list kernel_state" where
  "boot_state = set_heap ((k_heap (kernel_example mouse_idle))\<lparr>heap_mem := boot_mem\<rparr>) (kernel_example mouse_idle)"

lemma boot_mem_at:
  "boot_mem x = (if in_range x 0x700 1024 then hello_exe ! unat (x - 0x700) else if in_range x 0x620 6 then bytes_of ''h3edit'' ! unat (x - 0x620)
     else if in_range x 0x610 3 then bytes_of ''0.1'' ! unat (x - 0x610) else if in_range x 0x600 7 then bytes_of ''Welcome'' ! unat (x - 0x600)
     else if x = 0x9000 then 8 else 0)"
proof -
  have "length (bytes_of ''Welcome'') = 7" "length (bytes_of ''0.1'') = 3" "length (bytes_of ''h3edit'') = 6" by (simp_all add: bytes_of_def)
  then show ?thesis by (simp add: boot_mem_def boot_texts_def poke_apply hello_exe_length)
qed

lemma boot_mem_literals:
  "peek boot_mem 0x600 8 = bytes_of ''Welcome'' @ [0]" "peek boot_mem 0x610 4 = bytes_of ''0.1'' @ [0]" "peek boot_mem 0x620 7 = bytes_of ''h3edit'' @ [0]"
  "peek boot_mem 0x700 1024 = hello_exe"
proof -
  show "peek boot_mem 0x700 1024 = hello_exe"
    by (rule nth_equalityI) (simp_all add: hello_exe_length boot_mem_at in_range_offset unat_of_nat_u64)
qed (simp_all add: peek_def boot_mem_at in_range_def upt_rec bytes_of_def)

lemma small_address:
  assumes "unat a + length str < 0x180000" "i \<le> length str"
  shows "a + of_nat i \<notin> arena boot_env_example \<union> {x. unat (kernel_end boot_env_example) \<le> unat x}"
proof -
  have "unat (a + of_nat i) = unat a + i" using assms by (simp add: unat_add_u64 unat_of_nat_u64)
  then show ?thesis using assms by (simp add: arena_def example_defs)
qed

lemma boot_image_ready: "image_ready boot_env_example boot_mem (bytes_of ''Welcome'') (bytes_of ''0.1'') (bytes_of ''h3edit'')"
proof -
  have lit: "literal boot_mem (arena boot_env_example \<union> {x. unat (kernel_end boot_env_example) \<le> unat x}) a str"
    if "peek boot_mem a (length str) = str" "unat a + length str < 0x180000" for a str
    using that small_address [OF that(2)] by (auto simp: literal_def)
  have "literal boot_mem (arena boot_env_example \<union> {x. unat (kernel_end boot_env_example) \<le> unat x}) 0x700 hello_exe"
    by (rule lit) (simp_all add: boot_mem_literals hello_exe_length)
  moreover have "text_literal boot_mem (arena boot_env_example \<union> {x. unat (kernel_end boot_env_example) \<le> unat x}) a str"
    if "(a, str) \<in> {(0x600, bytes_of ''Welcome''), (0x610, bytes_of ''0.1''), (0x620, bytes_of ''h3edit'')}" for a str
  proof -
    have "length (bytes_of ''Welcome'') = 7" "length (bytes_of ''0.1'') = 3" "length (bytes_of ''h3edit'') = 6" by (simp_all add: bytes_of_def)
    then have "literal boot_mem (arena boot_env_example \<union> {x. unat (kernel_end boot_env_example) \<le> unat x}) a (str @ [0])"
      using that boot_mem_literals(1-3) by (intro lit) auto
    then show ?thesis using that by (auto simp: text_literal_def) (auto simp: bytes_of_def)
  qed
  ultimately show ?thesis by (simp add: image_ready_def Let_def example_defs) (simp add: bytes_of_def)
qed

lemma reserve_loop_total: "total_pages (reserve_loop p e s) = total_pages s"
  by (induction p e s rule: reserve_loop.induct) (subst reserve_loop.simps, simp)

lemma boot_loader_ready: "loader_ready boot_env_example 0x9000 boot_mem"
proof -
  have sz: "load32 boot_mem 0x9000 = 8" by (simp add: load32_def peek_def upt_rec boot_mem_at in_range_def)
  have find: "mb2_find boot_mem 0x9000 MB2_TAG_MMAP = Some NULL" "fb_mb2_find boot_mem 0x9000 MB2_TAG_FRAMEBUFFER = Some NULL"
    by (simp_all add: mb2_find_def fb_mb2_find_def NULL_def sz mb2_find_loop.simps fb_mb2_loop.simps)
  obtain p where p: "pmm_init boot_mem 0x9000 (kernel_end boot_env_example) = Some p" using find(1) by (simp add: pmm_init_def Let_def)
  then have "total_pages p = 32768" using find(1) by (auto simp: pmm_init_def Let_def reserve_region_def reserve_loop_total pmm_fallback_def)
  then show ?thesis using p find sz by (simp add: loader_ready_def arena_def example_defs NULL_def)
qed

lemma boot_devices_ready: "devices_ready serial_dev"
  by (subst devices_ready_def) (simp add: serial_ready_def serial_dev_def rtc_read_def rtc_wait.simps cmos_read_def split_beta Let_def)

theorem kernel_boots_witness:
  "\<exists>s'. kernel_main serial_dev boot_env_example 0x9000 boot_state = ret s' \<and> kernel_ok boot_env_example s' \<and>
     holds (sh_vfs s') (bytes_of ''/etc/motd'') (bytes_of ''Welcome'') \<and> holds (sh_vfs s') (bytes_of ''/bin/hello.exe'') hello_exe"
proof -
  have m: "heap_mem (k_heap boot_state) = boot_mem" by (simp add: boot_state_def k_heap_def set_heap_def)
  have "bss_ok boot_state"
    using term_zero_ok by (simp add: bss_ok_def boot_state_def set_heap_def k_heap_def kbd_empty_def mouse_idle_def example_defs)
  from kernel_boots [OF boot_devices_ready, of boot_env_example "0x9000" boot_state, unfolded m, OF boot_loader_ready boot_image_ready this]
  show ?thesis by blast
qed

end
