(* ===== verification/H3_Session.thy ===== *)
theory H3_Session
  imports H3_Boot
begin

text \<open>
  From power-on to an answer on the screen: the kernel boots, the user types a command, the event loop's key handler
  passes the keys to the terminal's window, and the shell reads the file from the heap and shows it.
\<close>

section \<open>Keys reach the terminal\<close>

definition at_terminal :: "boot_env \<Rightarrow> ('d, 'z) kernel_state_scheme \<Rightarrow> bool" where
  "at_terminal env s \<longleftrightarrow> term_ok (sh_term s) \<and> (\<exists>i. focused (sh_wm s) = Some i \<and> on_key (windows (sh_wm s) i) = fn_term_key env)"

lemma key_to_terminal:
  assumes "at_terminal env s" "fn_term_key env \<noteq> NULL" "c \<notin> {20, 12, 14, 6, 19, 4}"
  shows "handle_key B env c s = term_on_key B (shell_env.truncate env) c s"
  using assms by (auto simp: handle_key_def at_terminal_def wm_handle_key_def call_key_def)

text \<open>Printable characters are appended to the input line, and nothing else changes.\<close>

lemma printable_key: "32 \<le>s c \<Longrightarrow> c \<notin> {20, 12, 14, 6, 19, 4, 8, 10, 13}" for c :: u8
  by (auto simp: word_sle_eq)

lemma type_text:
  assumes "at_terminal env s" "fn_term_key env \<noteq> NULL" "\<forall>c \<in> set cs. 32 \<le>s c" "length (cstr (t_input (sh_term s))) + length cs < TERM_IN"
  shows "\<exists>n b. run_fold (handle_key B env) cs s = ret (s\<lparr>sh_term := (sh_term s)\<lparr>in_len := n, t_input := b\<rparr>\<rparr>) \<and>
    term_ok ((sh_term s)\<lparr>in_len := n, t_input := b\<rparr>) \<and> cstr b = cstr (t_input (sh_term s)) @ cs"
  using assms
proof (induction cs arbitrary: s)
  case Nil
  then show ?case by (intro exI [of _ "in_len (sh_term s)"] exI [of _ "t_input (sh_term s)"]) (simp add: at_terminal_def)
next
  case (Cons c cs)
  let ?l = "cstr (t_input (sh_term s))"
  have pr: "32 \<le>s c" "c \<notin> {20, 12, 14, 6, 19, 4, 8, 10, 13}" using Cons.prems(3) printable_key by auto
  have ok: "term_ok (sh_term s)" using Cons.prems(1) by (simp add: at_terminal_def)
  obtain n b where k: "term_on_key B (shell_env.truncate env) c s = ret (s\<lparr>sh_term := (sh_term s)\<lparr>in_len := n, t_input := b\<rparr>\<rparr>)"
    "term_ok ((sh_term s)\<lparr>in_len := n, t_input := b\<rparr>)" "cstr b = edit c ?l" using term_on_key_edits [OF ok, of c B "shell_env.truncate env"] pr(2) by auto
  have e: "edit c ?l = ?l @ [c]" using pr Cons.prems(4) by (simp add: edit_def)
  let ?s = "s\<lparr>sh_term := (sh_term s)\<lparr>in_len := n, t_input := b\<rparr>\<rparr>"
  have "at_terminal env ?s" using Cons.prems(1) k(2) by (simp add: at_terminal_def)
  moreover have "length (cstr (t_input (sh_term ?s))) + length cs < TERM_IN" using k(3) e Cons.prems(4) by simp
  moreover have "handle_key B env c s = ret ?s" using key_to_terminal [OF Cons.prems(1,2)] pr(2) k(1) by auto
  ultimately show ?case using Cons.IH [of ?s] Cons.prems(2,3) k(3) e by auto
qed

section \<open>The command\<close>

lemma cat_command:
  assumes "32 \<notin> set path" "path \<noteq> []"
  shows "run_command B env (bytes_of ''cat '' @ path) s = cmd_cat env (Some path) s"
proof -
  have t: "takeWhile (\<lambda>c. c \<noteq> 32) path = path" "dropWhile (\<lambda>c. c \<noteq> 32) path = []" "dropWhile (\<lambda>c. c = 32) path = path"
    using assms by (auto simp: takeWhile_eq_all_conv dropWhile_eq_self_iff) (metis list.set_sel(1))
  have n: "next_arg (bytes_of ''cat '' @ path) = (Some (bytes_of ''cat''), path)" "next_arg path = (Some path, [])"
    using assms(2) by (simp_all add: next_arg_def bytes_of_def Let_def t)
  show ?thesis unfolding run_command_def n prod.case Let_def by (simp add: bytes_of_def split_beta)
qed

text \<open>The buffers of the command lie outside of the heap.\<close>

definition buffers_ready :: "boot_env \<Rightarrow> bool" where
  "buffers_ready env \<longleftrightarrow> fn_term_key env \<noteq> NULL \<and> n_at env \<noteq> NULL \<and> disjoint_ranges (buf_at env) 512 (n_at env) 8 \<and>
     (\<forall>x \<in> arena env. \<not> in_range x (buf_at env) 512 \<and> \<not> in_range x (n_at env) 8)"

lemma file_frame:
  assumes fo: "files_ok v bs" and i: "i < node_count v" "n_data (nodes v i) \<noteq> NULL" and ex: "extents (v_heap v) bs \<subseteq> arena env" and b: "buffers_ready env"
  shows "frame_ok (shell_env.truncate env) (n_data (nodes v i)) (unat (n_size (nodes v i)))"
proof -
  obtain k where k: "(n_data (nodes v i), k) \<in> allocated (v_heap v) bs" "n_size (nodes v i) < k" using files_okD(3) [OF fo i] by blast
  have "x \<in> arena env" if "in_range x (n_data (nodes v i)) (unat (n_size (nodes v i)))" for x
    using payload_extent [OF files_okD(1) [OF fo i(1)] k(1), of x] in_range_le [OF that, of "unat k"] k(2) ex
    by (auto simp: word_less_nat_alt)
  then show ?thesis using b by (auto simp: frame_ok_def buffers_ready_def disjoint_ranges_def shell_env.defs)
qed

lemma enter_cat:
  assumes at: "at_terminal env s" and line: "cstr (t_input (sh_term s)) = bytes_of ''cat '' @ path" "32 \<notin> set path" "path \<noteq> []"
    and fs: "files_ok (sh_vfs s) bs" "extents (v_heap (sh_vfs s)) bs \<subseteq> arena env" "0 \<notin> set (cwd (sh_vfs s))" and b: "buffers_ready env"
    and held: "holds (sh_vfs s) path str" "length str \<le> 511" "0 \<notin> set str"
  shows "\<exists>s'. handle_key B env 10 s = ret s' \<and> term_ok (sh_term s') \<and>
    screen (sh_term s') = last_rows (put_text (prompt_line (sh_vfs s) (bytes_of ''cat '' @ path) @ end_line str) (screen (sh_term s)))"
proof -
  let ?p = "prompt_line (sh_vfs s) (bytes_of ''cat '' @ path)" and ?e = "shell_env.truncate env"
  have ok: "term_ok (sh_term s)" using at by (simp add: at_terminal_def)
  obtain t where t: "term_on_key B ?e 10 s = run_bind (run_command B ?e (bytes_of ''cat '' @ path) (s\<lparr>sh_term := t\<rparr>)) (\<lambda>s. ret (power_requests B s))"
    "term_ok t" "screen t = last_rows (put_text ?p (screen (sh_term s)))"
    using enter_runs [OF ok fs(3), of 10 B ?e] line(1) by auto
  obtain i where i: "i < node_count (sh_vfs s)" "vfs_resolve path (sh_vfs s) = ret (Some i)" "n_type (nodes (sh_vfs s) i) = VFS_FILE"
    "n_data (nodes (sh_vfs s) i) \<noteq> NULL" "contents (sh_vfs s) i = str" using held(1) by (auto simp: holds_def)
  have "unat (n_size (nodes (sh_vfs s) i)) = length str" using i(5) by (auto simp: contents_def)
  then have sz: "n_size (nodes (sh_vfs s) i) \<le> 511" using held(2) by (simp add: word_le_nat_alt)
  obtain s' where s': "cmd_cat ?e (Some path) (s\<lparr>sh_term := t\<rparr>) = ret s'" "screen_step t (sh_term s')"
    "screen (sh_term s') = last_rows (put_text (end_line str) (screen t))"
    using cmd_cat_prints [of "s\<lparr>sh_term := t\<rparr>" path i ?e] t(2) i file_frame [OF fs(1) i(1,4) fs(2) b] sz held(3) by auto
  have "put_text ?p (screen (sh_term s)) \<noteq> []" by (simp add: put_text_def prompt_line_def put_char_nonempty)
  then have "screen (sh_term s') = last_rows (put_text (?p @ end_line str) (screen (sh_term s)))"
    using s'(3) t(3) last_rows_text by (simp add: put_text_def)
  moreover have "handle_key B env 10 s = ret (power_requests B s')"
    using key_to_terminal [OF at, of 10 B] b t(1) s'(1) by (simp add: buffers_ready_def cat_command [OF line(2,3)])
  ultimately show ?thesis using s'(2) by (auto simp: power_requests_def Let_def screen_step_def)
qed

section \<open>Properties\<close>

lemma shipped_paths:
  assumes "(path, str) \<in> set (init_files motd release db)"
  shows "\<forall>c \<in> set path. 32 \<le>s c" "32 \<notin> set path" "path \<noteq> []" "length path \<le> 18"
  using assms by (auto simp: init_files_def bytes_of_def)

text \<open>
  (C13) From power-on to an answer. Under the hypotheses of a successful boot, and with the variables of the shell's \<^verbatim>\<open>cat\<close> outside of the
  heap's arena, the kernel gets to its event loop; when the user then types \<^verbatim>\<open>cat\<close> and the path of one of the files that
  \<^verbatim>\<open>vfs_init\<close> wrote, and presses Enter, every key is handled without a fault, and the terminal shows the greeting, the prompt with the
  line typed and the text that the kernel's image ships for that file, laid out in the rows of the window.
\<close>

theorem boot_and_cat:
  assumes "devices_ready B" "loader_ready env mb2 (heap_mem (k_heap s))" "image_ready env (heap_mem (k_heap s)) motd release db" "buffers_ready env"
    and f: "(path, str) \<in> set (init_files motd release db)" "length str \<le> 511"
  shows "\<exists>s1 s2. kernel_main B env mb2 s = ret s1 \<and> run_fold (handle_key B env) (bytes_of ''cat '' @ path @ [10]) s1 = ret s2 \<and>
    screen (sh_term s2) = last_rows (layout (greeting @ bytes_of ''h3os:/> cat '' @ path @ [10] @ end_line str))"
proof -
  obtain s1 bs leaves where r: "kernel_main B env mb2 s = ret s1" and g: "greeted env s1" and ex: "extents (v_heap (sh_vfs s1)) bs \<subseteq> arena env"
    and sd: "seeded (sh_vfs s1) bs init_paths ((bytes_of ''/bin/hello.exe'', hello_exe) # init_files motd release db) leaves"
    using kernel_main_returns [OF assms(1-3)] by (auto simp: returns_def shipped_def)
  have nz: "0 \<notin> set str" using f(1) assms(3) by (auto simp: init_files_def image_ready_def Let_def text_literal_def)
  have at: "at_terminal env s1" using g by (simp add: greeted_def at_terminal_def)
  have "\<forall>c \<in> set (bytes_of ''cat '' @ path). 32 \<le>s c" "length (cstr (t_input (sh_term s1))) + length (bytes_of ''cat '' @ path) < TERM_IN"
    using shipped_paths [OF f(1)] g by (auto simp: greeted_def bytes_of_def term_sizes)
  then obtain n b where t: "run_fold (handle_key B env) (bytes_of ''cat '' @ path) s1 = ret (s1\<lparr>sh_term := (sh_term s1)\<lparr>in_len := n, t_input := b\<rparr>\<rparr>)"
    "term_ok ((sh_term s1)\<lparr>in_len := n, t_input := b\<rparr>)" "cstr b = bytes_of ''cat '' @ path"
    using type_text [OF at, of "bytes_of ''cat '' @ path" B] assms(4) g by (auto simp: greeted_def buffers_ready_def)
  let ?s = "s1\<lparr>sh_term := (sh_term s1)\<lparr>in_len := n, t_input := b\<rparr>\<rparr>"
  have sc: "screen (sh_term ?s) = last_rows (put_text greeting [[]])" using g by (simp add: greeted_def screen_def put_text_layout)
  have cwd: "cwd (sh_vfs s1) = [slash]" by (rule seededD(3) [OF sd])
  obtain s2 where s2: "handle_key B env 10 ?s = ret s2"
    "screen (sh_term s2) = last_rows (put_text (prompt_line (sh_vfs s1) (bytes_of ''cat '' @ path) @ end_line str) (screen (sh_term ?s)))"
    using enter_cat [of env ?s path bs str B] at t(2,3) shipped_paths(2,3) [OF f(1)] seededD(2,7) [OF sd] ex cwd assms(4) f nz
    by (auto simp: at_terminal_def slash_def)
  have ne: "put_text greeting [[]] \<noteq> []" by (simp add: put_text_def greeting_def put_char_nonempty)
  have "screen (sh_term s2) = last_rows (put_text (greeting @ prompt_line (sh_vfs s1) (bytes_of ''cat '' @ path) @ end_line str) [[]])"
    unfolding s2(2) sc last_rows_text [OF ne] by (simp add: put_text_def)
  moreover have "prompt_line (sh_vfs s1) (bytes_of ''cat '' @ path) = bytes_of ''h3os:/> cat '' @ path @ [10]"
    by (simp add: prompt_line_def cwd slash_def bytes_of_def)
  moreover have "run_fold (handle_key B env) (bytes_of ''cat '' @ path @ [10]) s1 = ret s2"
    using t(1) s2(1) run_fold_append [of "handle_key B env" "bytes_of ''cat '' @ path" "[10]" s1] by simp
  ultimately show ?thesis using r by (auto simp: put_text_layout)
qed

theorem boot_and_cat_witness:
  "\<exists>s1 s2. kernel_main serial_dev boot_env_example 0x9000 boot_state = ret s1 \<and>
     run_fold (handle_key serial_dev boot_env_example) (bytes_of ''cat '' @ bytes_of ''/etc/motd'' @ [10]) s1 = ret s2 \<and>
     screen (sh_term s2) = last_rows (layout (greeting @ bytes_of ''h3os:/> cat '' @ bytes_of ''/etc/motd'' @ [10] @ end_line (bytes_of ''Welcome'')))"
proof -
  have m: "heap_mem (k_heap boot_state) = boot_mem" by (simp add: boot_state_def k_heap_def set_heap_def)
  have "buffers_ready boot_env_example"
    by (auto simp: buffers_ready_def disjoint_ranges_def in_range_nat arena_def example_defs NULL_def)
  then show ?thesis
    by (intro boot_and_cat [OF boot_devices_ready, of boot_env_example "0x9000" boot_state, unfolded m, OF boot_loader_ready boot_image_ready])
      (auto simp: init_files_def bytes_of_def)
qed

end
