(* ===== verification/Spec2Isabelle.thy ===== *)
theory Spec2Isabelle
  imports H3_Pmm H3_String H3_Heap H3_Vmm H3_Sync H3_Sched H3_Vfs H3_Fb H3_Ports H3_Input H3_Clock H3_Cpu H3_Wm H3_Pe H3_Log H3_Services H3_Terminal H3_Apps H3_Desktop H3_Seed H3_Kernel H3_Seeding H3_Boot H3_Session
begin

text \<open>
  Verification of H3OS, a small x86-64 kernel with a graphical desktop, written in C.

  \<^bold>\<open>The program.\<close> \<^verbatim>\<open>kernel/core/main.c\<close> starts the components one after the other and enters an event loop that reads
  keys, handles the mouse, draws a frame and waits. Memory comes from a bitmap of physical pages
  (\<^verbatim>\<open>memory/pmm.c\<close>), from which the heap (\<^verbatim>\<open>memory/heap.c\<close>), the page tables (\<^verbatim>\<open>memory/vmm.c\<close>), the framebuffer and the program loader take
  pages. The file system (\<^verbatim>\<open>filesystem/vfs/vfs.c\<close>) keeps a tree in RAM with the contents on the heap; the loader
  (\<^verbatim>\<open>loader/pe.c\<close>) runs PE32+ files from it. Interrupts (\<^verbatim>\<open>kernel/arch/x86_64/idt.c\<close>) feed the keyboard ring, the mouse state and the tick
  counter. The window manager (\<^verbatim>\<open>window_manager/wm.c\<close>) holds the windows of the terminal and the other applications, which register
  drawing and key callbacks; the desktop (\<^verbatim>\<open>desktop/desktop.c\<close>) draws everything and routes clicks.

  \<^bold>\<open>Conventions.\<close> Machine integers are words of their width, with C's wrap-around; signed comparisons are \<open><s\<close> and \<open>\<le>s\<close>. Memory is a function from 64-bit
  addresses to bytes; a struct in memory is read and written at its offsets. Static tables are functions or lists, and a pointer into
  one is an index or \<open>None\<close>. A computation that may not end or may leave an array has a result of type \<open>'a run\<close>, an
  option of a sum: \<open>None\<close> for a computation that never returns, \<open>fail e\<close> for an error such as an overflow of an array, \<open>ret x\<close>
  for a result. Loops are recursive functions with a termination proof, or \<open>partial_function (option)\<close> where they may run forever; no
  fuel is used. The hardware behind the ports is a record of functions over a device state of any
  type. Addresses of functions, arrays and literals, loaded programs, \<^verbatim>\<open>cpuid\<close> and \<^verbatim>\<open>cr3\<close> are parameters (the records \<open>shell_env\<close>, \<open>app_env\<close>,
  \<open>boot_env\<close>).

  \<^bold>\<open>Theories.\<close>
  \<^item> \<open>H3_Prelude\<close>: integers, memory, \<open>run\<close> and its laws (\<^verbatim>\<open>sdk/include/h3os/types.h\<close>).
  \<^item> \<open>H3_Pmm\<close>: page allocator and the walk over the boot loader's tags. First fit, release undoes allocation, exactly which pages are free after
    start-up, and exactly when the walk ends. The locale \<open>page_allocator\<close> is the contract its clients use.
  \<^item> \<open>H3_String\<close>: \<^verbatim>\<open>kernel/core/string.c\<close>; the routines agree with their meaning on lists, overlap and numerals included.
  \<^item> \<open>H3_Heap\<close>: blocks in byte memory; fresh disjoint payloads, release, contents kept by \<^verbatim>\<open>krealloc\<close>, and two defects (merging over
    a gap, sizes that wrap).
  \<^item> \<open>H3_Vmm\<close>: four-level page tables; a mapped page resolves and nothing else changes.
  \<^item> \<open>H3_Sync\<close>: spinlock, semaphore and mutex, also as processors that interleave at every shared access; mutual exclusion and admission
    bounds by rule induction.
  \<^item> \<open>H3_Sched\<close>: ready queue as a linked list; in all histories from start-up at most one switch is made and a later yield never returns; round robin on a
    proper queue, which start-up does not build.
  \<^item> \<open>H3_Vfs\<close>: node tree and paths; creation resolves, writing then reading, unlinking removes exactly one node, and defects of rename and long
    names.
  \<^item> \<open>H3_Fb\<close>: drawing never leaves the surface (locale \<open>canvas\<close>), clearing and filling are exact, and the line loop ends.
  \<^item> \<open>H3_Ports\<close>: port bus, descriptor table, interrupt controller and dispatch.
  \<^item> \<open>H3_Input\<close>: the keyboard ring refines a bounded queue (locale \<open>bounded_queue\<close>); the mouse is safe on every byte stream.
  \<^item> \<open>H3_Clock\<close>: timer and real-time clock; sleeping interleaved with the timer interrupt, and exactly when it returns.
  \<^item> \<open>H3_Cpu\<close>: processor detection, segment table and performance profile; terminated strings, descriptors that decode, a profile
    that grows with the machine, and truncated model numbers.
  \<^item> \<open>H3_Wm\<close>: window table; consistency of every reachable state, with the one history that leaves a window undrawn, and snap layouts that tile the work area.
  \<^item> \<open>H3_Pe\<close>: loader; the image is the one a loader on byte lists builds, relocation, and what probing reads.
  \<^item> \<open>H3_Log\<close>: formatter and serial log; each log call sends one line, and a call whose arguments fit its format returns.
  \<^item> \<open>H3_Services\<close>: PCI scan, users, message ports, network and power stubs, FAT32 stub and system calls.
  \<^item> \<open>H3_Terminal\<close>: screen, line editor and all shell commands; the screen equals the last rows of a layout of the printed text, the editor
    refines one on strings, and every command keeps the invariants of the locale \<open>shell_invariant\<close>.
  \<^item> \<open>H3_Apps\<close>: file manager, task manager, calculator, settings; the rows of the file manager.
  \<^item> \<open>H3_Desktop\<close>: drawing and clicks; where a click goes, icons that take clicks of windows, and the locale \<open>desk_invariant\<close> of what
    the desktop keeps.
  \<^item> \<open>H3_Seed\<close>: the bytes of the sample program, its installation, and that the loader runs it.
  \<^item> \<open>H3_Kernel\<close>: boot sequence and event loop as a step relation with interrupts between the calls. Booting establishes the invariant of
    the loop, the loop and every interrupt keep it (locales \<open>boot_invariant\<close> and \<open>key_invariant\<close>), the wait of a frame has exact
    bounds in ticks, and a press while a frame is drawn is lost.
  \<^item> \<open>H3_Seeding\<close>: \<^verbatim>\<open>vfs_init\<close> and \<^verbatim>\<open>pe_seed_binaries\<close> on a fresh heap. With enough room every allocation succeeds, the heap
    never grows beyond its first region, and each directory and file is there with its contents.
  \<^item> \<open>H3_Boot\<close>: the whole of \<^verbatim>\<open>kernel_main\<close> returns to the event loop. A small calculus (\<open>returns\<close>) chains the boot steps; the
    hypotheses are what the hardware (\<open>devices_ready\<close>), the boot loader (\<open>loader_ready\<close>) and the linked image (\<open>image_ready\<close>) provide.
  \<^item> \<open>H3_Session\<close>: from power-on to an answer: after booting, the keys of a \<^verbatim>\<open>cat\<close> command reach the terminal and the contents of the
    file appear on its screen.

  \<^bold>\<open>Limits.\<close> Between two calls of the event loop any interrupts may arrive, within a call none. \<^verbatim>\<open>kernel_main\<close> is
  shown to reach the loop under hypotheses on the devices, the boot loader's block and the kernel's image, which a concrete boot satisfies. Theorems about states that
  some defect can destroy have hypotheses that exclude the defect, and the defects have theorems of their own. Static variables other than arrays
  that the code reads by address live outside the byte memory, so a stray write of the loader's relocation or of a loaded program does not reach them;
  a loaded program is a total function on the heap and the loader's state. \<^verbatim>\<open>itoa\<close> negates with wrap-around, also where C leaves the result
  open (the least 64-bit integer). An exception in \<^verbatim>\<open>isr_dispatch\<close> is a panic that names the exception without the register values.

  \<^bold>\<open>Not modelled.\<close> The assembly that enters long mode and saves registers, the linker script and the instructions that load
  segment and descriptor registers (their results are parameters); the translation lookaside buffer; the machine code of loaded programs (a parameter);
  headers for planned features that no code uses (\<^verbatim>\<open>filesystem/ext2\<close>, \<^verbatim>\<open>filesystem/h3fs\<close>, \<^verbatim>\<open>sdk/include/h3os/module.h\<close>, \<^verbatim>\<open>graphics/theme.h\<close>); scripts that run on the
  host. Log lines are part of the boot sequence, of the system calls, of the loader and of the stubs; of all
  of the kernel's log calls only the heap's two error messages are left out.
\<close>

end
